(* ===== verification/Nui_Prelude.thy ===== *)
theory Nui_Prelude
  imports Main "HOL-Library.List_Lexorder" "HOL-Library.Char_ord" "HOL-Library.Word"
begin

text \<open>
  What the components share. A \<open>std::string\<close> or \<open>std::string_view\<close> of the sources holds bytes, so it is
  a HOL \<open>string\<close>, a list of 8-bit characters; the imported orders make \<open><\<close> on strings the byte-wise
  lexicographic comparison of \<open>std::string\<close>. \<open>std::uint64_t\<close> and \<open>std::uint32_t\<close> are words. The
  operations below are the library calls the sources make on strings (\<open>find\<close>, \<open>rfind\<close>,
  \<open>starts_with\<close>, \<open>ends_with\<close>, \<open>views::split\<close>), with the lemmas about them that every
  component on paths and keys uses.
\<close>

type_synonym u64 = "64 word"
type_synonym u32 = "32 word"

named_theorems string_simps \<open>facts about the string operations of the sources\<close>
named_theorems path_simps \<open>facts about splitting and joining paths at slashes\<close>

abbreviation slash :: char where "slash \<equiv> CHR ''/''"

subsection \<open>Searching and comparing strings\<close>

fun find_char :: "char \<Rightarrow> string \<Rightarrow> nat option" where
  "find_char c [] = None"
| "find_char c (x # xs) = (if x = c then Some 0 else map_option Suc (find_char c xs))"

fun rfind_char :: "char \<Rightarrow> string \<Rightarrow> nat option" where
  "rfind_char c [] = None"
| "rfind_char c (x # xs) =
     (case rfind_char c xs of
        Some i \<Rightarrow> Some (Suc i)
      | None \<Rightarrow> if x = c then Some 0 else None)"

definition starts_with :: "string \<Rightarrow> string \<Rightarrow> bool" where
  "starts_with s p \<longleftrightarrow> take (length p) s = p"

definition ends_with :: "string \<Rightarrow> string \<Rightarrow> bool" where
  "ends_with s p \<longleftrightarrow> length p \<le> length s \<and> drop (length s - length p) s = p"

lemma find_char_None [string_simps]: "find_char c s = None \<longleftrightarrow> c \<notin> set s"
  by (induction s) auto

lemma find_char_append [string_simps]: "c \<notin> set a \<Longrightarrow> find_char c (a @ c # b) = Some (length a)"
  by (induction a) auto

lemma find_char_Some:
  "find_char c s = Some i \<Longrightarrow> s = take i s @ c # drop (Suc i) s \<and> c \<notin> set (take i s) \<and> i < length s"
  by (induction s arbitrary: i) (auto split: if_splits)

lemma rfind_char_None [string_simps]: "rfind_char c s = None \<longleftrightarrow> c \<notin> set s"
  by (induction s) (auto split: option.splits)

lemma rfind_char_append [string_simps]: "c \<notin> set b \<Longrightarrow> rfind_char c (a @ c # b) = Some (length a)"
proof (induction a)
  case Nil
  then have "rfind_char c b = None" by (simp add: rfind_char_None)
  then show ?case by simp
next
  case (Cons x a)
  then show ?case by simp
qed

lemma rfind_char_Some:
  "rfind_char c s = Some i \<Longrightarrow> s = take i s @ c # drop (Suc i) s \<and> c \<notin> set (drop (Suc i) s) \<and> i < length s"
  by (induction s arbitrary: i) (auto split: option.splits if_splits simp: rfind_char_None)

lemma starts_with_append [simp]: "starts_with (p @ s) p"
  by (simp add: starts_with_def)

lemma starts_with_iff: "starts_with s p \<longleftrightarrow> (\<exists>r. s = p @ r)"
  unfolding starts_with_def by (metis append_eq_conv_conj append_take_drop_id)

lemma starts_with_self [simp]: "starts_with s s"
  by (simp add: starts_with_def)

lemma ends_with_iff: "ends_with s p \<longleftrightarrow> (\<exists>r. s = r @ p)"
proof
  assume "ends_with s p"
  then show "\<exists>r. s = r @ p" unfolding ends_with_def by (metis append_take_drop_id)
qed (auto simp: ends_with_def)

subsection \<open>Splitting at slashes and joining\<close>

text \<open>\<open>views::split('/')\<close>: the parts between separators, empty parts included; empty text has no parts.\<close>

fun split_slash :: "string \<Rightarrow> string list" where
  "split_slash [] = [[]]"
| "split_slash (c # cs) =
     (if c = slash then [] # split_slash cs
      else (case split_slash cs of [] \<Rightarrow> [[c]] | p # ps \<Rightarrow> (c # p) # ps))"

fun join_slash :: "string list \<Rightarrow> string" where
  "join_slash [] = []"
| "join_slash [p] = p"
| "join_slash (p # q # ps) = p @ slash # join_slash (q # ps)"

lemma split_slash_nonempty [simp]: "split_slash s \<noteq> []"
  by (cases s) (auto split: list.splits)

lemma join_split [path_simps]: "join_slash (split_slash s) = s"
proof (induction s)
  case (Cons c cs)
  then show ?case
    by (cases "split_slash cs" rule: join_slash.cases) auto
qed simp

lemma split_slash_parts: "p \<in> set (split_slash s) \<Longrightarrow> slash \<notin> set p"
  by (induction s arbitrary: p) (auto split: if_splits list.splits)

lemma split_slash_single [path_simps]: "slash \<notin> set s \<Longrightarrow> split_slash s = [s]"
  by (induction s) auto

lemma split_slash_append [path_simps]: "split_slash (a @ slash # b) = split_slash a @ split_slash b"
  by (induction a) (auto split: list.splits)

lemma join_slash_append [path_simps]:
  "xs \<noteq> [] \<Longrightarrow> ys \<noteq> [] \<Longrightarrow> join_slash (xs @ ys) = join_slash xs @ slash # join_slash ys"
proof (induction xs rule: join_slash.induct)
  case (2 p)
  then show ?case by (cases ys) auto
qed auto

lemma join_slash_Cons [path_simps]: "ys \<noteq> [] \<Longrightarrow> join_slash (x # ys) = x @ slash # join_slash ys"
  by (cases ys) auto

lemma split_join [path_simps]:
  "xs \<noteq> [] \<Longrightarrow> (\<And>x. x \<in> set xs \<Longrightarrow> slash \<notin> set x) \<Longrightarrow> split_slash (join_slash xs) = xs"
  by (induction xs rule: join_slash.induct) (auto simp: path_simps)

lemma join_slash_inj:
  assumes "\<And>x. x \<in> set xs \<union> set ys \<Longrightarrow> slash \<notin> set x" and "xs \<noteq> []" and "ys \<noteq> []"
    and "join_slash xs = join_slash ys"
  shows "xs = ys"
  using assms split_join [of xs] split_join [of ys] by (metis UnI1 UnI2)

lemma join_slash_empty: "join_slash xs = [] \<longleftrightarrow> xs = [] \<or> xs = [[]]"
  by (cases xs rule: join_slash.cases) auto

end
