(* ===== verification/Utf8.thy ===== *)
theory Utf8
  imports Nui_Prelude
begin

unbundle bit_operations_syntax

text \<open>
  \<open>paths/include/paths/utf8.hpp\<close> and \<open>utility/source/utility/utf8.cpp\<close>: the hand-written UTF-8 and UTF-16
  routines every path and every listed name goes through. A \<open>char32_t\<close> is a \<open>nat\<close>: the largest value a
  computation builds is \<open>0x1FFFFF\<close> (four bytes with a three bit lead), far below \<open>2 ^ 32\<close>, so nothing
  wraps. A \<open>char16_t\<close> is a \<open>nat\<close> below \<open>0x10000\<close>. Bytes are the characters of the string; the bit
  operators are those of the source. The lemmas reduce them to division and remainder once, and
  \<open>seq_length_iff\<close> then states what every loop over a text relies on: a sequence is found exactly where the text
  goes on with the encoding of a Unicode scalar value.
\<close>

subsection \<open>The routines of the source\<close>

type_synonym char32 = nat
type_synonym char16 = nat

definition replacementCharacter :: char32 where
  "replacementCharacter = 0xFFFD"

definition byte_at :: "string \<Rightarrow> nat \<Rightarrow> nat" where
  "byte_at text index = of_char (text ! index)"

definition leadLengthAndInitial :: "nat \<Rightarrow> nat \<times> nat" where
  "leadLengthAndInitial lead =
     (if lead AND 0xE0 = 0xC0 then (2, lead AND 0x1F)
      else if lead AND 0xF0 = 0xE0 then (3, lead AND 0x0F)
      else if lead AND 0xF8 = 0xF0 then (4, lead AND 0x07)
      else (0, 0))"

function readContinuations :: "string \<Rightarrow> nat \<Rightarrow> nat \<Rightarrow> nat \<Rightarrow> nat \<Rightarrow> nat option" where
  "readContinuations text index offset len codePoint =
     (if offset < len
      then let continuation = byte_at text (index + offset) in
        if continuation AND 0xC0 \<noteq> 0x80 then None
        else readContinuations text index (Suc offset) len (push_bit 6 codePoint OR (continuation AND 0x3F))
      else Some codePoint)"
  by pat_completeness auto
termination by (relation "measure (\<lambda>(_, _, offset, len, _). len - offset)") auto

declare readContinuations.simps [simp del]

definition minimumForLength :: "nat list" where
  "minimumForLength = [0, 0, 0x80, 0x800, 0x10000]"

definition utf8SequenceLength :: "string \<Rightarrow> nat \<Rightarrow> nat" where
  "utf8SequenceLength text index =
     (let lead = byte_at text index in
      if lead < 0x80 then 1
      else case leadLengthAndInitial lead of (len, initial) \<Rightarrow>
        if len = 0 \<or> index + len > length text then 0
        else case readContinuations text index 1 len initial of
            None \<Rightarrow> 0
          | Some codePoint \<Rightarrow>
              if codePoint < minimumForLength ! len \<or> codePoint > 0x10FFFF \<or>
                 (codePoint \<ge> 0xD800 \<and> codePoint \<le> 0xDFFF)
              then 0 else len)"

definition leadMask :: "nat list" where
  "leadMask = [0, 0x7F, 0x1F, 0x0F, 0x07]"

function joinContinuations :: "string \<Rightarrow> nat \<Rightarrow> nat \<Rightarrow> nat \<Rightarrow> nat \<Rightarrow> nat" where
  "joinContinuations text index offset len codePoint =
     (if offset < len
      then joinContinuations text index (Suc offset) len
             (push_bit 6 codePoint OR (byte_at text (index + offset) AND 0x3F))
      else codePoint)"
  by pat_completeness auto
termination by (relation "measure (\<lambda>(_, _, offset, len, _). len - offset)") auto

declare joinContinuations.simps [simp del]

definition utf8CodePointAt :: "string \<Rightarrow> nat \<Rightarrow> nat \<Rightarrow> char32" where
  "utf8CodePointAt text index len =
     joinContinuations text index 1 len (byte_at text index AND leadMask ! len)"

definition isScalarValue :: "char32 \<Rightarrow> bool" where
  "isScalarValue codePoint \<longleftrightarrow> codePoint \<le> 0x10FFFF \<and> (codePoint < 0xD800 \<or> codePoint > 0xDFFF)"

definition byte_of :: "nat \<Rightarrow> char" where
  "byte_of value = char_of value"

definition appendUtf8 :: "string \<Rightarrow> char32 \<Rightarrow> string" where
  "appendUtf8 text c =
     (let codePoint = (if isScalarValue c then c else replacementCharacter) in
      if codePoint < 0x80 then text @ [byte_of codePoint]
      else if codePoint < 0x800 then
        text @ [byte_of (0xC0 OR drop_bit 6 codePoint), byte_of (0x80 OR (codePoint AND 0x3F))]
      else if codePoint < 0x10000 then
        text @ [byte_of (0xE0 OR drop_bit 12 codePoint), byte_of (0x80 OR (drop_bit 6 codePoint AND 0x3F)),
                byte_of (0x80 OR (codePoint AND 0x3F))]
      else
        text @ [byte_of (0xF0 OR drop_bit 18 codePoint), byte_of (0x80 OR (drop_bit 12 codePoint AND 0x3F)),
                byte_of (0x80 OR (drop_bit 6 codePoint AND 0x3F)), byte_of (0x80 OR (codePoint AND 0x3F))])"

text \<open>The callback of \<open>forEachUtf8CodePoint\<close> only ever collects, so the loop returns the code points it calls it with.\<close>

function forEachUtf8CodePoint :: "string \<Rightarrow> nat \<Rightarrow> char32 list" where
  "forEachUtf8CodePoint text index =
     (if index < length text
      then let len = utf8SequenceLength text index in
        if len = 0 then replacementCharacter # forEachUtf8CodePoint text (index + 1)
        else utf8CodePointAt text index len # forEachUtf8CodePoint text (index + len)
      else [])"
  by pat_completeness auto
termination by (relation "measure (\<lambda>(text, index). length text - index)") auto

declare forEachUtf8CodePoint.simps [simp del]

function validUtf8From :: "string \<Rightarrow> nat \<Rightarrow> bool" where
  "validUtf8From text index =
     (if index < length text
      then let len = utf8SequenceLength text index in
        if len = 0 then False else validUtf8From text (index + len)
      else True)"
  by pat_completeness auto
termination by (relation "measure (\<lambda>(text, index). length text - index)") auto

declare validUtf8From.simps [simp del]

definition isValidUtf8 :: "string \<Rightarrow> bool" where
  "isValidUtf8 text = validUtf8From text 0"

definition utf8_decode :: "string \<Rightarrow> char32 list" where
  "utf8_decode utf8 = forEachUtf8CodePoint utf8 0"

definition utf8_encode :: "char32 list \<Rightarrow> string" where
  "utf8_encode codePoints = foldl appendUtf8 [] codePoints"

definition sanitizedUtf8 :: "string \<Rightarrow> string" where
  "sanitizedUtf8 text =
     (if isValidUtf8 text then text else foldl appendUtf8 [] (forEachUtf8CodePoint text 0))"

function truncatedEnd :: "string \<Rightarrow> nat \<Rightarrow> nat \<Rightarrow> nat" where
  "truncatedEnd text maximumBytes end =
     (if end < length text
      then let len = utf8SequenceLength text end; step = (if len = 0 then 1 else len) in
        if end + step > maximumBytes then end else truncatedEnd text maximumBytes (end + step)
      else end)"
  by pat_completeness auto
termination by (relation "measure (\<lambda>(text, _, end). length text - end)") auto

declare truncatedEnd.simps [simp del]

definition truncatedUtf8 :: "string \<Rightarrow> nat \<Rightarrow> string" where
  "truncatedUtf8 text maximumBytes =
     (if length text \<le> maximumBytes then text else take (truncatedEnd text maximumBytes 0) text)"

function utf16UnitsFrom :: "string \<Rightarrow> nat \<Rightarrow> nat \<Rightarrow> nat" where
  "utf16UnitsFrom text index units =
     (if index < length text
      then let len = utf8SequenceLength text index in
        utf16UnitsFrom text (index + (if len = 0 then 1 else len)) (units + (if len = 4 then 2 else 1))
      else units)"
  by pat_completeness auto
termination by (relation "measure (\<lambda>(text, index, _). length text - index)") auto

declare utf16UnitsFrom.simps [simp del]

definition utf16Length :: "string \<Rightarrow> nat" where
  "utf16Length text = utf16UnitsFrom text 0 0"

definition utf16UnitsOf :: "char32 \<Rightarrow> char16 list" where
  "utf16UnitsOf codePoint =
     (if codePoint < 0x10000 then [codePoint]
      else let offset = codePoint - 0x10000 in
        [0xD800 + drop_bit 10 offset, 0xDC00 + (offset AND 0x3FF)])"

definition utf8ToUtf16 :: "string \<Rightarrow> char16 list" where
  "utf8ToUtf16 text = concat (map utf16UnitsOf (forEachUtf8CodePoint text 0))"

fun forEachUtf16CodePoint :: "char16 list \<Rightarrow> char32 list" where
  "forEachUtf16CodePoint [] = []"
| "forEachUtf16CodePoint (unit # rest) =
     (let isHigh = (unit \<ge> 0xD800 \<and> unit \<le> 0xDBFF);
          next = (case rest of [] \<Rightarrow> 0 | n # _ \<Rightarrow> n) in
      if isHigh \<and> next \<ge> 0xDC00 \<and> next \<le> 0xDFFF
      then (0x10000 + push_bit 10 (unit - 0xD800) + (next - 0xDC00)) # forEachUtf16CodePoint (tl rest)
      else (if unit \<ge> 0xD800 \<and> unit \<le> 0xDFFF then replacementCharacter else unit)
             # forEachUtf16CodePoint rest)"

definition utf16ToUtf8 :: "char16 list \<Rightarrow> string" where
  "utf16ToUtf8 text = foldl appendUtf8 [] (forEachUtf16CodePoint text)"

fun isValidUtf16 :: "char16 list \<Rightarrow> bool" where
  "isValidUtf16 [] = True"
| "isValidUtf16 (unit # rest) =
     (if unit \<ge> 0xD800 \<and> unit \<le> 0xDBFF \<and> rest \<noteq> [] \<and> hd rest \<ge> 0xDC00 \<and> hd rest \<le> 0xDFFF
      then isValidUtf16 (tl rest)
      else if unit < 0xD800 \<or> unit > 0xDFFF then isValidUtf16 rest
      else False)"

subsection \<open>Bit operations as arithmetic\<close>

lemma and_masks:
  "(x::nat) AND 0x3F = x mod 64" "x AND 0x1F = x mod 32" "x AND 0x0F = x mod 16" "x AND 0x07 = x mod 8"
  "x AND 0x7F = x mod 128" "x AND 0x3FF = x mod 1024"
  using take_bit_eq_mask [of 6 x] take_bit_eq_mask [of 5 x] take_bit_eq_mask [of 4 x] take_bit_eq_mask [of 3 x]
    take_bit_eq_mask [of 7 x] take_bit_eq_mask [of 10 x]
  by (simp_all add: take_bit_eq_mod mask_numeral)

lemma drop_bits:
  "drop_bit 6 (x::nat) = x div 64" "drop_bit 12 x = x div 4096" "drop_bit 18 x = x div 262144"
  "drop_bit 10 x = x div 1024" "push_bit 6 x = x * 64" "push_bit 10 x = x * 1024"
  by (simp_all add: drop_bit_eq_div push_bit_eq_mult)

lemma push_or_add: "b < 2 ^ n \<Longrightarrow> push_bit n a OR b = a * 2 ^ n + (b::nat)"
proof -
  assume "b < 2 ^ n"
  then have b: "take_bit n b = b" "drop_bit n b = 0"
    by (simp_all add: take_bit_nat_eq_self drop_bit_eq_div)
  have "drop_bit n (push_bit n a OR b) = a" "take_bit n (push_bit n a OR b) = b"
    using b by (simp_all add: drop_bit_or take_bit_or take_bit_push_bit drop_bit_push_bit)
  then have "push_bit n a + b = push_bit n a OR b"
    using bits_ident [of n "push_bit n a OR b"] by simp
  then show ?thesis by (simp add: push_bit_eq_mult)
qed

lemma or_adds:
  "(y::nat) < 64 \<Longrightarrow> 0xC0 OR y = 192 + y" "y < 32 \<Longrightarrow> 0xE0 OR y = 224 + y" "y < 16 \<Longrightarrow> 0xF0 OR y = 240 + y"
  "y < 64 \<Longrightarrow> 0x80 OR y = 128 + y" "y < 64 \<Longrightarrow> (x * 64) OR y = x * 64 + y"
  using push_or_add [of y 6 3] push_or_add [of y 5 7] push_or_add [of y 4 15] push_or_add [of y 6 2]
    push_or_add [of y 6 x]
  by (simp_all add: push_bit_eq_mult)

lemma and_high_bits: "x div 2 ^ n < 2 ^ k \<Longrightarrow> (x::nat) AND push_bit n (mask k) = x div 2 ^ n * 2 ^ n"
proof -
  assume "x div 2 ^ n < 2 ^ k"
  then have "drop_bit n x AND mask k = x div 2 ^ n"
    by (simp add: take_bit_eq_mask [symmetric] drop_bit_eq_div take_bit_nat_eq_self)
  moreover have "x AND push_bit n (mask k) = push_bit n (drop_bit n x AND mask k)"
    by (rule bit_eqI) (auto simp: bit_simps)
  ultimately show ?thesis by (simp add: push_bit_eq_mult)
qed

lemma div_range: "0 < q \<Longrightarrow> (x div q * q = k * q) = (k * q \<le> x \<and> x < k * q + (q::nat))"
proof -
  assume q: "0 < q"
  then have "(x div q * q = k * q) = (k \<le> x div q \<and> x div q < Suc k)" by auto
  with q show ?thesis
    by (simp add: less_eq_div_iff_mult_less_eq div_less_iff_less_mult add.commute)
qed

lemma lead_ranges:
  assumes "x < 256"
  shows "((x::nat) AND 0xE0 = 0xC0) = (192 \<le> x \<and> x < 224)" "(x AND 0xF0 = 0xE0) = (224 \<le> x \<and> x < 240)"
    "(x AND 0xF8 = 0xF0) = (240 \<le> x \<and> x < 248)" "(x AND 0xC0 = 0x80) = (128 \<le> x \<and> x < 192)"
proof -
  have "x AND 0xE0 = x div 32 * 32" "x AND 0xF0 = x div 16 * 16"
    "x AND 0xF8 = x div 8 * 8" "x AND 0xC0 = x div 64 * 64"
    using and_high_bits [of x 5 3] and_high_bits [of x 4 4] and_high_bits [of x 3 5] and_high_bits [of x 6 2] assms
    by (simp_all add: mask_numeral push_bit_eq_mult)
  then show "((x::nat) AND 0xE0 = 0xC0) = (192 \<le> x \<and> x < 224)" "(x AND 0xF0 = 0xE0) = (224 \<le> x \<and> x < 240)"
    "(x AND 0xF8 = 0xF0) = (240 \<le> x \<and> x < 248)" "(x AND 0xC0 = 0x80) = (128 \<le> x \<and> x < 192)"
    using div_range [of 32 x 6] div_range [of 16 x 14] div_range [of 8 x 30] div_range [of 64 x 2]
    by simp_all
qed

subsection \<open>One encoded code point\<close>

lemma byte_at_less [simp]: "byte_at text index < 256"
  by (simp add: byte_at_def)

definition is_continuation :: "nat \<Rightarrow> bool" where
  "is_continuation b \<longleftrightarrow> 128 \<le> b \<and> b < 192"

lemma readContinuations_step:
  "readContinuations text i off len cp =
     (if off < len
      then if is_continuation (byte_at text (i + off))
        then readContinuations text i (Suc off) len (cp * 64 + byte_at text (i + off) mod 64) else None
      else Some cp)"
  by (subst readContinuations.simps)
    (simp add: Let_def and_masks drop_bits or_adds lead_ranges is_continuation_def)

lemma joinContinuations_step:
  "joinContinuations text i off len cp =
     (if off < len then joinContinuations text i (Suc off) len (cp * 64 + byte_at text (i + off) mod 64) else cp)"
  by (subst joinContinuations.simps) (simp add: and_masks drop_bits or_adds)

lemma readContinuations_small:
  "readContinuations text i (Suc 0) 2 cp =
     (if is_continuation (byte_at text (i + 1)) then Some (cp * 64 + byte_at text (i + 1) mod 64) else None)"
  "readContinuations text i (Suc 0) 3 cp =
     (if is_continuation (byte_at text (i + 1)) \<and> is_continuation (byte_at text (i + 2))
      then Some ((cp * 64 + byte_at text (i + 1) mod 64) * 64 + byte_at text (i + 2) mod 64) else None)"
  "readContinuations text i (Suc 0) 4 cp =
     (if is_continuation (byte_at text (i + 1)) \<and> is_continuation (byte_at text (i + 2)) \<and>
         is_continuation (byte_at text (i + 3))
      then Some (((cp * 64 + byte_at text (i + 1) mod 64) * 64 + byte_at text (i + 2) mod 64) * 64
                  + byte_at text (i + 3) mod 64) else None)"
  by (subst readContinuations_step, simp add: readContinuations_step [of "text" i 2 2] readContinuations_step [of "text" i "Suc (Suc 0)"]
      readContinuations_step [of "text" i "Suc (Suc (Suc 0))"] readContinuations_step [of "text" i "Suc (Suc (Suc (Suc 0)))"]
      numeral_2_eq_2 numeral_3_eq_3)+

lemma utf8CodePointAt_small:
  "utf8CodePointAt text i (Suc 0) = byte_at text i mod 128"
  "utf8CodePointAt text i 2 = (byte_at text i mod 32) * 64 + byte_at text (i + 1) mod 64"
  "utf8CodePointAt text i 3 = ((byte_at text i mod 16) * 64 + byte_at text (i + 1) mod 64) * 64 + byte_at text (i + 2) mod 64"
  "utf8CodePointAt text i 4 = (((byte_at text i mod 8) * 64 + byte_at text (i + 1) mod 64) * 64
     + byte_at text (i + 2) mod 64) * 64 + byte_at text (i + 3) mod 64"
  by (simp_all add: utf8CodePointAt_def leadMask_def and_masks joinContinuations_step [of "text" i "Suc 0"]
      joinContinuations_step [of "text" i "Suc (Suc 0)"] joinContinuations_step [of "text" i "Suc (Suc (Suc 0))"]
      joinContinuations_step [of "text" i "Suc (Suc (Suc (Suc 0)))"] numeral_2_eq_2 numeral_3_eq_3)

lemma utf8SequenceLength_arith:
  "utf8SequenceLength text i =
     (let b0 = byte_at text i; b1 = byte_at text (i + 1); b2 = byte_at text (i + 2); b3 = byte_at text (i + 3) in
      if b0 < 128 then 1
      else if 192 \<le> b0 \<and> b0 < 224 then
        (if i + 2 \<le> length text \<and> is_continuation b1 \<and> 128 \<le> utf8CodePointAt text i 2 then 2 else 0)
      else if 224 \<le> b0 \<and> b0 < 240 then
        (if i + 3 \<le> length text \<and> is_continuation b1 \<and> is_continuation b2 \<and>
            2048 \<le> utf8CodePointAt text i 3 \<and> isScalarValue (utf8CodePointAt text i 3) then 3 else 0)
      else if 240 \<le> b0 \<and> b0 < 248 then
        (if i + 4 \<le> length text \<and> is_continuation b1 \<and> is_continuation b2 \<and> is_continuation b3 \<and>
            65536 \<le> utf8CodePointAt text i 4 \<and> isScalarValue (utf8CodePointAt text i 4) then 4 else 0)
      else 0)"
proof -
  let ?b0 = "byte_at text i"
  consider "?b0 < 128" | "128 \<le> ?b0" "?b0 < 192" | "192 \<le> ?b0" "?b0 < 224" | "224 \<le> ?b0" "?b0 < 240"
    | "240 \<le> ?b0" "?b0 < 248" | "248 \<le> ?b0" by linarith
  then show ?thesis
  proof cases
    case 3
    have "(?b0 mod 32) * 64 + byte_at text (i + 1) mod 64 < 2048" by linarith
    with 3 show ?thesis
      by (auto simp: utf8SequenceLength_def leadLengthAndInitial_def lead_ranges and_masks Let_def
          readContinuations_small utf8CodePointAt_small minimumForLength_def isScalarValue_def)
  next
    case 4
    with 4 show ?thesis
      by (auto simp: utf8SequenceLength_def leadLengthAndInitial_def lead_ranges and_masks Let_def
          readContinuations_small utf8CodePointAt_small minimumForLength_def isScalarValue_def)
  next
    case 5
    with 5 show ?thesis
      by (auto simp: utf8SequenceLength_def leadLengthAndInitial_def lead_ranges and_masks Let_def
          readContinuations_small utf8CodePointAt_small minimumForLength_def isScalarValue_def)
  qed (simp_all add: utf8SequenceLength_def leadLengthAndInitial_def lead_ranges Let_def)
qed

abbreviation utf8_bytes :: "char32 \<Rightarrow> string" where
  "utf8_bytes c \<equiv> appendUtf8 [] c"

lemma appendUtf8_append: "appendUtf8 s c = s @ utf8_bytes c"
  by (simp add: appendUtf8_def Let_def)

lemma replacement_scalar [simp]: "isScalarValue replacementCharacter"
  by (simp add: isScalarValue_def replacementCharacter_def)

lemma appendUtf8_not_scalar: "\<not> isScalarValue c \<Longrightarrow> appendUtf8 s c = appendUtf8 s replacementCharacter"
  by (simp only: appendUtf8_def Let_def if_False if_True replacement_scalar)

lemma utf8_bytes_arith:
  assumes "isScalarValue c"
  shows "utf8_bytes c =
    (if c < 128 then [char_of c]
     else if c < 2048 then [char_of (192 + c div 64), char_of (128 + c mod 64)]
     else if c < 65536 then [char_of (224 + c div 4096), char_of (128 + c div 64 mod 64), char_of (128 + c mod 64)]
     else [char_of (240 + c div 262144), char_of (128 + c div 4096 mod 64), char_of (128 + c div 64 mod 64),
           char_of (128 + c mod 64)])"
proof -
  have "c < 2048 \<Longrightarrow> c div 64 < 64" "c < 65536 \<Longrightarrow> c div 4096 < 32" "c < 1114112 \<Longrightarrow> c div 262144 < 16"
    by linarith+
  moreover have "c < 1114112" using assms by (simp add: isScalarValue_def)
  ultimately show ?thesis
    using assms by (simp add: appendUtf8_def byte_of_def Let_def and_masks drop_bits or_adds)
qed

lemma take_drop_small:
  "i + 2 \<le> length s \<Longrightarrow> take 2 (drop i s) = [s ! i, s ! (i + 1)]"
  "i + 3 \<le> length s \<Longrightarrow> take 3 (drop i s) = [s ! i, s ! (i + 1), s ! (i + 2)]"
  "i + 4 \<le> length s \<Longrightarrow> take 4 (drop i s) = [s ! i, s ! (i + 1), s ! (i + 2), s ! (i + 3)]"
  by (simp_all add: numeral_2_eq_2 numeral_3_eq_3 numeral_Bit0 Cons_nth_drop_Suc [symmetric])

lemma char_of_byte: "char_of (byte_at s i) = s ! i"
  by (simp add: byte_at_def)

lemma char_of_byte_eq: "n = byte_at s i \<Longrightarrow> char_of n = s ! i"
  by (simp add: char_of_byte)

lemma lead_mods:
  "a < 32 \<Longrightarrow> (192 + a) mod 32 = (a::nat)" "a < 16 \<Longrightarrow> (224 + a) mod 16 = a" "a < 8 \<Longrightarrow> (240 + a) mod 8 = a"
  "a < 64 \<Longrightarrow> (128 + a) mod 64 = a"
  using mod_mult_self2 [of a 32 6] mod_mult_self2 [of a 16 14] mod_mult_self2 [of a 8 30] mod_mult_self2 [of a 64 2]
  by (simp_all add: add.commute)

lemma lead_digit:
  "192 \<le> b \<Longrightarrow> b < 224 \<Longrightarrow> \<exists>a. b = 192 + a \<and> a < 32 \<and> b mod 32 = (a::nat)"
  "224 \<le> b \<Longrightarrow> b < 240 \<Longrightarrow> \<exists>a. b = 224 + a \<and> a < 16 \<and> b mod 16 = a"
  "240 \<le> b \<Longrightarrow> b < 248 \<Longrightarrow> \<exists>a. b = 240 + a \<and> a < 8 \<and> b mod 8 = a"
  using lead_mods(1) [of "b - 192"] lead_mods(2) [of "b - 224"] lead_mods(3) [of "b - 240"]
    le_add_diff_inverse [of 192 b] le_add_diff_inverse [of 224 b] le_add_diff_inverse [of 240 b]
  by (intro exI [of _ "b - 192"] exI [of _ "b - 224"] exI [of _ "b - 240"]; simp)+

lemma continuation_digit:
  assumes "is_continuation b"
  obtains d where "b = 128 + d" "d < 64" "b mod 64 = d"
proof -
  have "b = 128 + (b - 128)" "b - 128 < 64" using assms by (auto simp: is_continuation_def)
  moreover from this have "b mod 64 = b - 128" using lead_mods(4) [of "b - 128"] by simp
  ultimately have "b = 128 + (b - 128)" "b - 128 < 64" "b mod 64 = b - 128" .
  then show ?thesis by (rule that)
qed

lemma digits64:
  assumes "d < 64" "e < 64" "f < (64::nat)"
  shows "(a * 64 + d) div 64 = a" "(a * 64 + d) mod 64 = d"
    "((a * 64 + e) * 64 + d) div 4096 = a" "(((a * 64 + f) * 64 + e) * 64 + d) div 262144 = a"
proof -
  have "(x * 64 + y) div 64 = x" if "y < 64" for x y :: nat
    using that by simp
  note step = this
  show "(a * 64 + d) div 64 = a" "(a * 64 + d) mod 64 = d" using assms by simp_all
  have "((a * 64 + e) * 64 + d) div 4096 = ((a * 64 + e) * 64 + d) div 64 div 64"
    by (simp add: div_mult2_eq [symmetric])
  then show "((a * 64 + e) * 64 + d) div 4096 = a" using assms by (simp only: step)
  have "(((a * 64 + f) * 64 + e) * 64 + d) div 262144 = (((a * 64 + f) * 64 + e) * 64 + d) div 64 div 64 div 64"
    by (simp add: div_mult2_eq [symmetric])
  then show "(((a * 64 + f) * 64 + e) * 64 + d) div 262144 = a" using assms by (simp only: step)
qed

text \<open>Where a sequence is found, the text goes on with the encoding of the scalar value that is read there.\<close>

lemma seq_length_sound:
  assumes "i < length s" and "0 < utf8SequenceLength s i"
  shows "isScalarValue (utf8CodePointAt s i (utf8SequenceLength s i))"
    and "take (utf8SequenceLength s i) (drop i s) = utf8_bytes (utf8CodePointAt s i (utf8SequenceLength s i))"
    and "i + utf8SequenceLength s i \<le> length s"
proof -
  let ?b0 = "byte_at s i" let ?b1 = "byte_at s (i + 1)" let ?b2 = "byte_at s (i + 2)" let ?b3 = "byte_at s (i + 3)"
  let ?n = "utf8SequenceLength s i" let ?c = "utf8CodePointAt s i ?n"
  consider (one) "?b0 < 128" "?n = 1"
    | (two) "192 \<le> ?b0" "?b0 < 224" "i + 2 \<le> length s" "is_continuation ?b1" "128 \<le> utf8CodePointAt s i 2" "?n = 2"
    | (three) "224 \<le> ?b0" "?b0 < 240" "i + 3 \<le> length s" "is_continuation ?b1" "is_continuation ?b2"
        "2048 \<le> utf8CodePointAt s i 3" "isScalarValue (utf8CodePointAt s i 3)" "?n = 3"
    | (four) "240 \<le> ?b0" "?b0 < 248" "i + 4 \<le> length s" "is_continuation ?b1" "is_continuation ?b2"
        "is_continuation ?b3" "65536 \<le> utf8CodePointAt s i 4" "isScalarValue (utf8CodePointAt s i 4)" "?n = 4"
    using assms(2) by (simp only: utf8SequenceLength_arith Let_def split: if_splits) auto
  then have "isScalarValue ?c \<and> take ?n (drop i s) = utf8_bytes ?c \<and> i + ?n \<le> length s"
  proof cases
    case one
    then have "?c = ?b0" by (simp add: utf8CodePointAt_small)
    moreover have "take ?n (drop i s) = [s ! i]" using assms(1) one by (simp add: take_Suc hd_drop_conv_nth)
    ultimately show ?thesis
      using one assms(1) by (simp add: isScalarValue_def utf8_bytes_arith char_of_byte)
  next
    case two
    obtain a where a: "?b0 = 192 + a" "a < 32" "?b0 mod 32 = a"
      using lead_digit(1) two by blast
    obtain d where d: "?b1 = 128 + d" "d < 64" "?b1 mod 64 = d" using two by (auto elim: continuation_digit)
    have c: "?c = a * 64 + d" using two a d by (simp add: utf8CodePointAt_small)
    moreover have "128 \<le> a * 64 + d" "a * 64 + d < 2048" using two a d by (auto simp: utf8CodePointAt_small)
    moreover have "char_of (192 + a) = s ! i" "char_of (128 + d) = s ! (i + 1)"
      using a d by (auto intro!: char_of_byte_eq)
    ultimately show ?thesis
      using two d by (simp add: take_drop_small isScalarValue_def utf8_bytes_arith digits64)
  next
    case three
    obtain a where a: "?b0 = 224 + a" "a < 16" "?b0 mod 16 = a"
      using lead_digit(2) three by blast
    obtain e where e: "?b1 = 128 + e" "e < 64" "?b1 mod 64 = e" using three by (auto elim: continuation_digit)
    obtain d where d: "?b2 = 128 + d" "d < 64" "?b2 mod 64 = d" using three by (auto elim: continuation_digit)
    have c: "?c = (a * 64 + e) * 64 + d" using three a d e by (simp add: utf8CodePointAt_small)
    have "?c div 4096 = a" "?c div 64 mod 64 = e" "?c mod 64 = d"
      using d e digits64 [of d e 0 a] digits64 [of e 0 0 a] digits64 [of d 0 0 "a * 64 + e"]
      unfolding c by (simp_all only:)
    moreover have "2048 \<le> ?c" "isScalarValue ?c" "?c < 65536" using three a d e c by auto
    moreover have "char_of (224 + a) = s ! i" "char_of (128 + e) = s ! (i + 1)" "char_of (128 + d) = s ! (i + 2)"
      using a d e by (auto intro!: char_of_byte_eq)
    ultimately show ?thesis
      using three(3) three(8) by (simp add: take_drop_small utf8_bytes_arith)
  next
    case four
    obtain a where a: "?b0 = 240 + a" "a < 8" "?b0 mod 8 = a"
      using lead_digit(3) four by blast
    obtain f where f: "?b1 = 128 + f" "f < 64" "?b1 mod 64 = f" using four by (auto elim: continuation_digit)
    obtain e where e: "?b2 = 128 + e" "e < 64" "?b2 mod 64 = e" using four by (auto elim: continuation_digit)
    obtain d where d: "?b3 = 128 + d" "d < 64" "?b3 mod 64 = d" using four by (auto elim: continuation_digit)
    have c: "?c = ((a * 64 + f) * 64 + e) * 64 + d" using four a d e f by (simp add: utf8CodePointAt_small)
    have "?c div 262144 = a" "?c div 4096 mod 64 = f" "?c div 64 mod 64 = e" "?c mod 64 = d"
      using d e f digits64 [of d e f a] digits64 [of f 0 0 a] digits64 [of e 0 0 "a * 64 + f"]
        digits64 [of d e 0 "a * 64 + f"] digits64 [of d 0 0 "(a * 64 + f) * 64 + e"]
      unfolding c by (simp_all only:)
    moreover have "65536 \<le> ?c" "isScalarValue ?c" using four by auto
    moreover have "char_of (240 + a) = s ! i" "char_of (128 + f) = s ! (i + 1)" "char_of (128 + e) = s ! (i + 2)"
        "char_of (128 + d) = s ! (i + 3)"
      using a d e f by (auto intro!: char_of_byte_eq)
    ultimately show ?thesis
      using four(3) four(9) by (simp add: take_drop_small utf8_bytes_arith)
  qed
  then show "isScalarValue ?c" "take ?n (drop i s) = utf8_bytes ?c" "i + ?n \<le> length s" by simp_all
qed

lemma byte_at_append:
  "byte_at (p @ q) (length p) = byte_at q 0" "byte_at (p @ q) (Suc (length p)) = byte_at q 1"
  "byte_at (p @ q) (Suc (Suc (length p))) = byte_at q 2" "byte_at (p @ q) (length p + k) = byte_at q k"
  by (simp_all add: byte_at_def nth_append)

lemma byte_at_Cons:
  "byte_at (x # q) 0 = of_char x" "byte_at (x # q) (Suc k) = byte_at q k"
  "byte_at (x # q) 1 = byte_at q 0" "byte_at (x # q) 2 = byte_at q 1" "byte_at (x # q) 3 = byte_at q 2"
  by (simp_all add: byte_at_def numeral_2_eq_2 numeral_3_eq_3)

lemma of_char_of_small: "n < 256 \<Longrightarrow> of_char (char_of n) = (n::nat)"
  by simp

text \<open>And where the text goes on with the encoding of a scalar value, that sequence is found and read back.\<close>

lemma seq_length_complete:
  assumes "isScalarValue c"
  shows "utf8SequenceLength (p @ utf8_bytes c @ r) (length p) = length (utf8_bytes c)"
    and "utf8CodePointAt (p @ utf8_bytes c @ r) (length p) (length (utf8_bytes c)) = c"
proof -
  let ?s = "p @ utf8_bytes c @ r" let ?i = "length p"
  have c: "c \<le> 1114111" "c < 55296 \<or> c > 57343" using assms by (auto simp: isScalarValue_def)
  have m: "c mod 64 < 64" "c div 64 mod 64 < 64" "c div 4096 mod 64 < 64" by simp_all
  have big: "c div 262144 < 8" using c by linarith
  have rec2: "c div 64 * 64 + c mod 64 = c" by simp
  have d2: "c div 4096 = c div 64 div 64" "c div 262144 = c div 64 div 64 div 64" by (simp_all add: div_mult2_eq [symmetric])
  have rec3: "(c div 4096 * 64 + c div 64 mod 64) * 64 + c mod 64 = c"
    and rec4: "((c div 262144 * 64 + c div 4096 mod 64) * 64 + c div 64 mod 64) * 64 + c mod 64 = c"
    unfolding d2 by simp_all
  consider (one) "c < 128" | (two) "128 \<le> c" "c < 2048" | (three) "2048 \<le> c" "c < 65536" | (four) "65536 \<le> c"
    by linarith
  then have "utf8SequenceLength ?s ?i = length (utf8_bytes c) \<and> utf8CodePointAt ?s ?i (length (utf8_bytes c)) = c"
  proof cases
    case one
    then show ?thesis
      using assms by (simp add: utf8SequenceLength_arith utf8CodePointAt_small utf8_bytes_arith byte_at_append
          byte_at_Cons Let_def)
  next
    case two
    then have e: "utf8_bytes c = [char_of (192 + c div 64), char_of (128 + c mod 64)]" and "c div 64 < 32"
      using assms by (auto simp: utf8_bytes_arith)
    then have b: "byte_at ?s ?i = 192 + c div 64" "byte_at ?s (Suc ?i) = 128 + c mod 64" "c div 64 < 32"
      using m by (simp_all add: byte_at_append byte_at_Cons of_char_of_small)
    then have "utf8CodePointAt ?s ?i 2 = c" using rec2 by (simp add: utf8CodePointAt_small lead_mods)
    moreover have "length (utf8_bytes c) = 2" by (simp add: e)
    ultimately show ?thesis
      using two b by (simp add: utf8SequenceLength_arith is_continuation_def)
  next
    case three
    then have e: "utf8_bytes c = [char_of (224 + c div 4096), char_of (128 + c div 64 mod 64), char_of (128 + c mod 64)]"
        and "c div 4096 < 16"
      using assms by (auto simp: utf8_bytes_arith)
    then have b: "byte_at ?s ?i = 224 + c div 4096" "byte_at ?s (Suc ?i) = 128 + c div 64 mod 64"
        "byte_at ?s (Suc (Suc ?i)) = 128 + c mod 64" "c div 4096 < 16"
      using m by (simp_all add: byte_at_append byte_at_Cons of_char_of_small)
    then have "utf8CodePointAt ?s ?i 3 = c" using rec3 by (simp add: utf8CodePointAt_small lead_mods)
    moreover have "length (utf8_bytes c) = 3" by (simp add: e)
    ultimately show ?thesis
      using three b assms by (simp add: utf8SequenceLength_arith is_continuation_def)
  next
    case four
    then have e: "utf8_bytes c = [char_of (240 + c div 262144), char_of (128 + c div 4096 mod 64),
        char_of (128 + c div 64 mod 64), char_of (128 + c mod 64)]"
      using assms by (auto simp: utf8_bytes_arith)
    have b: "byte_at ?s ?i = 240 + c div 262144" "byte_at ?s (Suc ?i) = 128 + c div 4096 mod 64"
        "byte_at ?s (Suc (Suc ?i)) = 128 + c div 64 mod 64" "byte_at ?s (?i + 3) = 128 + c mod 64"
      using m big unfolding e by (simp_all add: byte_at_append byte_at_Cons of_char_of_small)
    then have "utf8CodePointAt ?s ?i 4 = c" using rec4 big by (simp add: utf8CodePointAt_small lead_mods)
    moreover have "length (utf8_bytes c) = 4" by (simp add: e)
    ultimately show ?thesis
      using four b big assms by (simp add: utf8SequenceLength_arith is_continuation_def)
  qed
  then show "utf8SequenceLength ?s ?i = length (utf8_bytes c)"
    and "utf8CodePointAt ?s ?i (length (utf8_bytes c)) = c" by simp_all
qed

lemma utf8_bytes_length: "0 < length (utf8_bytes c)" "length (utf8_bytes c) \<le> 4"
  by (auto simp: appendUtf8_def Let_def)

subsection \<open>The loops over a text, as recursion on it\<close>

lemma byte_at_shift: "byte_at (p @ s) (length p + i) = byte_at s i"
  by (simp add: byte_at_def)

lemma codePointAt_shift: "utf8CodePointAt (p @ s) (length p + i) n = utf8CodePointAt s i n"
proof -
  have "joinContinuations (p @ s) (length p + i) off n c = joinContinuations s i off n c" for off c
  proof (induction s i off n c rule: joinContinuations.induct)
    case (1 s i off n c)
    then show ?case
      by (simp add: joinContinuations.simps [of "p @ s" "length p + i"] joinContinuations.simps [of s i off]
          byte_at_shift add.assoc)
  qed
  then show ?thesis by (simp add: utf8CodePointAt_def byte_at_shift)
qed

lemma seq_length_shift: "utf8SequenceLength (p @ s) (length p + i) = utf8SequenceLength s i"
  by (simp only: utf8SequenceLength_arith Let_def add.assoc byte_at_shift codePointAt_shift length_append
      nat_add_left_cancel_le)

lemma forEach_shift: "forEachUtf8CodePoint (p @ s) (length p + i) = forEachUtf8CodePoint s i"
proof (induction s i rule: forEachUtf8CodePoint.induct)
  case (1 s i)
  then show ?case
    by (simp add: forEachUtf8CodePoint.simps [of "p @ s" "length p + i"] forEachUtf8CodePoint.simps [of s i]
        seq_length_shift codePointAt_shift Let_def add.assoc)
qed

lemma valid_shift: "validUtf8From (p @ s) (length p + i) = validUtf8From s i"
proof (induction s i rule: validUtf8From.induct)
  case (1 s i)
  then show ?case
    by (simp add: validUtf8From.simps [of "p @ s" "length p + i"] validUtf8From.simps [of s i]
        seq_length_shift Let_def add.assoc)
qed

lemma units_shift: "utf16UnitsFrom (p @ s) (length p + i) u = utf16UnitsFrom s i u"
proof (induction s i u rule: utf16UnitsFrom.induct)
  case (1 s i u)
  then show ?case
    by (simp add: utf16UnitsFrom.simps [of "p @ s" "length p + i"] utf16UnitsFrom.simps [of s i]
        seq_length_shift Let_def add.assoc)
qed

lemma seq_at_start:
  assumes "isScalarValue c"
  shows "utf8SequenceLength (utf8_bytes c @ r) 0 = length (utf8_bytes c)"
    "utf8CodePointAt (utf8_bytes c @ r) 0 (length (utf8_bytes c)) = c"
  using seq_length_complete [OF assms, of "[]" r] by simp_all

lemma loops_at_scalar:
  assumes "isScalarValue c"
  shows "forEachUtf8CodePoint (utf8_bytes c @ r) 0 = c # forEachUtf8CodePoint r 0"
    "isValidUtf8 (utf8_bytes c @ r) = isValidUtf8 r"
    "utf16UnitsFrom (utf8_bytes c @ r) 0 u = utf16UnitsFrom r 0 (u + (if length (utf8_bytes c) = 4 then 2 else 1))"
proof -
  note at = seq_at_start [OF assms, of r]
  note shift = forEach_shift [of "utf8_bytes c" r 0] valid_shift [of "utf8_bytes c" r 0]
    units_shift [of "utf8_bytes c" r 0]
  show "forEachUtf8CodePoint (utf8_bytes c @ r) 0 = c # forEachUtf8CodePoint r 0"
    using utf8_bytes_length(1) [of c] by (subst forEachUtf8CodePoint.simps) (simp add: at shift [simplified])
  show "isValidUtf8 (utf8_bytes c @ r) = isValidUtf8 r"
    using utf8_bytes_length(1) [of c] unfolding isValidUtf8_def
    by (subst validUtf8From.simps) (simp add: at shift [simplified])
  show "utf16UnitsFrom (utf8_bytes c @ r) 0 u = utf16UnitsFrom r 0 (u + (if length (utf8_bytes c) = 4 then 2 else 1))"
    using utf8_bytes_length(1) [of c] by (subst utf16UnitsFrom.simps) (simp add: at shift [simplified])
qed

lemma loops_at_bad:
  assumes "utf8SequenceLength (b # r) 0 = 0"
  shows "forEachUtf8CodePoint (b # r) 0 = replacementCharacter # forEachUtf8CodePoint r 0"
    "\<not> isValidUtf8 (b # r)" "utf16UnitsFrom (b # r) 0 u = utf16UnitsFrom r 0 (Suc u)"
proof -
  note shift = forEach_shift [of "[b]" r 0] units_shift [of "[b]" r 0]
  show "forEachUtf8CodePoint (b # r) 0 = replacementCharacter # forEachUtf8CodePoint r 0"
    by (subst forEachUtf8CodePoint.simps) (simp add: assms shift [simplified])
  show "\<not> isValidUtf8 (b # r)"
    unfolding isValidUtf8_def by (subst validUtf8From.simps) (simp add: assms)
  show "utf16UnitsFrom (b # r) 0 u = utf16UnitsFrom r 0 (Suc u)"
    by (subst utf16UnitsFrom.simps) (simp add: assms shift [simplified])
qed

lemma loops_at_end [simp]:
  "forEachUtf8CodePoint [] i = []" "isValidUtf8 []" "utf16UnitsFrom [] i u = u"
  by (subst forEachUtf8CodePoint.simps, simp) (simp_all add: isValidUtf8_def validUtf8From.simps utf16UnitsFrom.simps)

text \<open>Every text is empty, goes on with an encoded scalar value, or starts with a byte that is no sequence.\<close>

lemma utf8_text_induct [case_names Nil scalar bad]:
  assumes "P []"
    and scalar: "\<And>c r. isScalarValue c \<Longrightarrow> P r \<Longrightarrow> P (utf8_bytes c @ r)"
    and bad: "\<And>b r. utf8SequenceLength (b # r) 0 = 0 \<Longrightarrow> P r \<Longrightarrow> P (b # r)"
  shows "P s"
proof (induction "length s" arbitrary: s rule: less_induct)
  case less
  show ?case
  proof (cases s)
    case (Cons b r)
    show ?thesis
    proof (cases "utf8SequenceLength s 0 = 0")
      case True
      with less Cons bad show ?thesis by auto
    next
      case False
      let ?n = "utf8SequenceLength s 0" let ?c = "utf8CodePointAt s 0 ?n"
      have "isScalarValue ?c" "take ?n s = utf8_bytes ?c" using seq_length_sound [of 0 s] False Cons by simp_all
      moreover have "s = take ?n s @ drop ?n s" by simp
      moreover have "P (drop ?n s)" using less False Cons by simp
      ultimately show ?thesis using scalar by metis
    qed
  qed (use assms(1) in simp)
qed

lemma foldl_appendUtf8: "foldl appendUtf8 s cs = s @ concat (map utf8_bytes cs)"
proof (induction cs arbitrary: s)
  case (Cons c cs)
  then show ?case by (simp add: appendUtf8_append [of s c])
qed simp

lemma utf8_encode_concat: "utf8_encode cs = concat (map utf8_bytes cs)"
  by (simp add: utf8_encode_def foldl_appendUtf8)

lemma utf8_bytes_valid [simp]: "isValidUtf8 (utf8_bytes c @ r) = isValidUtf8 r"
  using loops_at_scalar(2) [of c r] loops_at_scalar(2) [of replacementCharacter r] appendUtf8_not_scalar [of c "[]"]
  by (cases "isScalarValue c") auto

lemma utf8_encode_valid: "isValidUtf8 (utf8_encode cs)"
  by (induction cs) (simp_all add: utf8_encode_concat)

lemma decoded_scalars: "c \<in> set (utf8_decode s) \<Longrightarrow> isScalarValue c"
  by (induction s rule: utf8_text_induct) (auto simp: utf8_decode_def loops_at_scalar loops_at_bad)

lemma encode_decode_valid: "isValidUtf8 s \<Longrightarrow> utf8_encode (utf8_decode s) = s"
  by (induction s rule: utf8_text_induct)
    (auto simp: utf8_decode_def utf8_encode_concat loops_at_scalar loops_at_bad)

lemma decode_encode: "(\<And>c. c \<in> set cs \<Longrightarrow> isScalarValue c) \<Longrightarrow> utf8_decode (utf8_encode cs) = cs"
  by (induction cs) (simp_all add: utf8_decode_def utf8_encode_concat loops_at_scalar)

lemma decode_encode_any: "utf8_decode (utf8_encode cs) = map (\<lambda>c. if isScalarValue c then c else replacementCharacter) cs"
proof (induction cs)
  case (Cons c cs)
  have "utf8_bytes c = utf8_bytes (if isScalarValue c then c else replacementCharacter)"
    using appendUtf8_not_scalar [of c "[]"] by simp
  moreover have "isScalarValue (if isScalarValue c then c else replacementCharacter)" by simp
  ultimately have "utf8_decode (utf8_bytes c @ r) = (if isScalarValue c then c else replacementCharacter) # utf8_decode r" for r
    unfolding utf8_decode_def by (simp only: loops_at_scalar)
  with Cons show ?case by (simp add: utf8_encode_concat)
qed (simp add: utf8_decode_def utf8_encode_concat)

lemma decode_cases:
  "utf8_decode [] = []"
  "isScalarValue c \<Longrightarrow> utf8_decode (utf8_bytes c @ r) = c # utf8_decode r"
  "utf8SequenceLength (b # r) 0 = 0 \<Longrightarrow> utf8_decode (b # r) = replacementCharacter # utf8_decode r"
  by (simp_all add: utf8_decode_def loops_at_scalar loops_at_bad)

lemma sanitized_encode_decode: "sanitizedUtf8 s = utf8_encode (utf8_decode s)"
  using encode_decode_valid [of s]
  by (simp add: sanitizedUtf8_def utf8_encode_def utf8_decode_def)

lemma four_bytes: "isScalarValue c \<Longrightarrow> length (utf8_bytes c) = 4 \<longleftrightarrow> 0x10000 \<le> c"
  by (simp add: utf8_bytes_arith)

lemma utf16_units_decode: "utf16UnitsFrom s 0 u = u + length (concat (map utf16UnitsOf (utf8_decode s)))"
proof (induction s arbitrary: u rule: utf8_text_induct)
  case (scalar c r)
  then show ?case
    by (simp add: loops_at_scalar decode_cases four_bytes utf16UnitsOf_def Let_def)
next
  case (bad b r)
  then show ?case
    by (simp add: loops_at_bad decode_cases utf16UnitsOf_def replacementCharacter_def)
qed (simp add: decode_cases)

lemma basic_unit:
  assumes "isScalarValue c" and "c < 0x10000"
  shows "utf16UnitsOf c = [c]" "c < 0xD800 \<or> 0xDFFF < c"
  using assms by (auto simp: isScalarValue_def utf16UnitsOf_def)

lemma surrogate_pair:
  assumes "isScalarValue c" and "0x10000 \<le> c"
  shows "0xD800 \<le> 0xD800 + (c - 0x10000) div 1024" "0xD800 + (c - 0x10000) div 1024 \<le> 0xDBFF"
    "(c - 0x10000) div 1024 * 1024 + (c - 0x10000) mod 1024 + 0x10000 = c"
  using assms by (auto simp: isScalarValue_def)

lemma utf16_roundtrip_units:
  "(\<And>c. c \<in> set cs \<Longrightarrow> isScalarValue c) \<Longrightarrow> forEachUtf16CodePoint (concat (map utf16UnitsOf cs)) = cs"
proof (induction cs)
  case (Cons c cs)
  then have c: "isScalarValue c" by simp
  show ?case
  proof (cases "c < 0x10000")
    case True
    with Cons basic_unit [OF c True] show ?thesis by (auto simp: Let_def)
  next
    case False
    then have "0x10000 \<le> c" by simp
    note pair = surrogate_pair [OF c this]
    have "(c - 0x10000) mod 1024 < 1024" by simp
    with False pair Cons show ?thesis
      by (simp add: utf16UnitsOf_def Let_def and_masks drop_bits)
  qed
qed simp

lemma utf16_units_valid: "(\<And>c. c \<in> set cs \<Longrightarrow> isScalarValue c) \<Longrightarrow> isValidUtf16 (concat (map utf16UnitsOf cs))"
proof (induction cs)
  case (Cons c cs)
  then have c: "isScalarValue c" by simp
  show ?case
  proof (cases "c < 0x10000")
    case True
    with Cons basic_unit [OF c True] show ?thesis by (auto simp: Let_def)
  next
    case False
    then have "0x10000 \<le> c" by simp
    note pair = surrogate_pair [OF c this]
    have "(c - 0x10000) mod 1024 < 1024" by simp
    with False pair Cons show ?thesis
      by (simp add: utf16UnitsOf_def Let_def and_masks drop_bits)
  qed
qed simp

text \<open>The cut of \<open>truncatedUtf8\<close>: it stops at most three bytes before the limit and never inside a sequence.\<close>

lemma truncatedEnd_bounds:
  assumes "end \<le> maximum" and "end \<le> length s" and "maximum < length s"
  shows "truncatedEnd s maximum end \<le> maximum \<and> maximum < truncatedEnd s maximum end + 4"
  using assms
proof (induction s maximum "end" rule: truncatedEnd.induct)
  case (1 s maximum "end")
  show ?case
  proof (cases "end < length s")
    case True
    let ?n = "utf8SequenceLength s end" let ?step = "if ?n = 0 then 1 else ?n"
    have step: "end + ?step \<le> length s" "?step \<le> 4"
      using seq_length_sound(3) [of "end" s] True
      by (auto simp: utf8SequenceLength_arith Let_def)
    show ?thesis
    proof (cases "end + ?step > maximum")
      case True
      with "1.prems" \<open>end < length s\<close> step show ?thesis
        by (subst (1 2) truncatedEnd.simps) (auto simp: Let_def)
    next
      case False
      with "1.IH" [OF True refl refl] step "1.prems" True show ?thesis
        by (simp add: truncatedEnd.simps [of s maximum "end"] Let_def)
    qed
  next
    case False
    with "1.prems" show ?thesis by simp
  qed
qed

lemma truncatedEnd_shift:
  "truncatedEnd (p @ s) (length p + maximum) (length p + i) = length p + truncatedEnd s maximum i"
proof (induction s maximum i rule: truncatedEnd.induct)
  case (1 s maximum i)
  then show ?case
    by (simp add: truncatedEnd.simps [of "p @ s" "length p + maximum" "length p + i"]
        truncatedEnd.simps [of s maximum i] seq_length_shift Let_def add.assoc)
qed

lemma truncatedEnd_first:
  assumes "s = b @ r" and "b \<noteq> []" and "utf8SequenceLength s 0 = length b \<or> utf8SequenceLength s 0 = 0 \<and> length b = 1"
  shows "truncatedEnd s maximum 0 =
    (if length b \<le> maximum then length b + truncatedEnd r (maximum - length b) 0 else 0)"
  using assms truncatedEnd_shift [of b r "maximum - length b" 0] truncatedEnd.simps [of s maximum 0]
  by (auto simp: Let_def)

lemma truncation_splits_decoding:
  "utf8_decode s = utf8_decode (take (truncatedEnd s maximum 0) s) @ utf8_decode (drop (truncatedEnd s maximum 0) s)"
proof (induction s arbitrary: maximum rule: utf8_text_induct)
  case (scalar c r)
  have "truncatedEnd (utf8_bytes c @ r) maximum 0 = (if length (utf8_bytes c) \<le> maximum
      then length (utf8_bytes c) + truncatedEnd r (maximum - length (utf8_bytes c)) 0 else 0)"
    using scalar(1) utf8_bytes_length(1) [of c] by (intro truncatedEnd_first) (simp_all add: seq_at_start)
  with scalar show ?case by (simp add: decode_cases)
next
  case (bad b r)
  have "truncatedEnd (b # r) maximum 0 = (if 1 \<le> maximum then 1 + truncatedEnd r (maximum - 1) 0 else 0)"
    using truncatedEnd_first [of "b # r" "[b]" r maximum] bad(1) by simp
  moreover have "utf8SequenceLength (b # take n r) 0 = 0" for n
  proof (rule ccontr)
    assume "utf8SequenceLength (b # take n r) 0 \<noteq> 0"
    then obtain c where c: "isScalarValue c" and "take (utf8SequenceLength (b # take n r) 0) (b # take n r) = utf8_bytes c"
      using seq_length_sound [of 0 "b # take n r"] by auto
    then have "b # r = utf8_bytes c @ drop (utf8SequenceLength (b # take n r) 0) (b # take n r) @ drop n r"
      by (metis append.assoc append_Cons append_take_drop_id)
    then have "utf8SequenceLength (b # r) 0 = length (utf8_bytes c)" by (simp only: seq_at_start(1) [OF c])
    with bad(1) utf8_bytes_length(1) [of c] show False by simp
  qed
  ultimately show ?case using bad(2) by (simp add: decode_cases bad(1))
qed (simp add: decode_cases)

subsection \<open>Properties\<close>

text \<open>C38:
  A text is valid UTF-8 exactly when decoding and encoding it gives the same bytes back. Encoding any list of code points,
  surrogates and numbers above U+10FFFF included, gives valid UTF-8, and decoding it gives the list back with U+FFFD in the
  place of every value that is no scalar value. So \<open>isValidUtf8\<close> accepts no overlong form, no surrogate and nothing above
  U+10FFFF, and the decoder and the encoder are inverse to each other.
\<close>
theorem utf8_codec_roundtrip:
  "(isValidUtf8 s \<longleftrightarrow> utf8_encode (utf8_decode s) = s) \<and> isValidUtf8 (utf8_encode cs) \<and>
   utf8_decode (utf8_encode cs) = map (\<lambda>c. if isScalarValue c then c else 0xFFFD) cs"
  using encode_decode_valid [of s] utf8_encode_valid [of "utf8_decode s"] utf8_encode_valid [of cs] decode_encode_any [of cs]
  by (auto simp: replacementCharacter_def)

text \<open>\<open>sanitizedUtf8\<close> always returns valid UTF-8, returns a text unchanged exactly when it was valid, and the text it
  returns shows U+FFFD for every byte outside a valid sequence: it decodes to the code points of the input.\<close>
theorem sanitizedUtf8_correct:
  "isValidUtf8 (sanitizedUtf8 s) \<and> (sanitizedUtf8 s = s \<longleftrightarrow> isValidUtf8 s) \<and>
   utf8_decode (sanitizedUtf8 s) = utf8_decode s"
  using utf8_encode_valid [of "utf8_decode s"] encode_decode_valid [of s] decode_encode [OF decoded_scalars [of _ s]]
  by (auto simp: sanitized_encode_decode)

text \<open>
  A text converted to UTF-16 is always well formed UTF-16 with as many units as \<open>utf16Length\<close> says, and
  converted back it is the sanitized text, so valid text survives the way to the wide Windows interface unchanged.\<close>
theorem utf16_roundtrip:
  "isValidUtf16 (utf8ToUtf16 s) \<and> length (utf8ToUtf16 s) = utf16Length s \<and>
   utf16ToUtf8 (utf8ToUtf16 s) = sanitizedUtf8 s"
proof -
  have units: "utf8ToUtf16 s = concat (map utf16UnitsOf (utf8_decode s))"
    by (simp add: utf8ToUtf16_def utf8_decode_def)
  have "isValidUtf16 (utf8ToUtf16 s)" unfolding units by (rule utf16_units_valid) (rule decoded_scalars)
  moreover have "forEachUtf16CodePoint (utf8ToUtf16 s) = utf8_decode s"
    unfolding units by (rule utf16_roundtrip_units) (rule decoded_scalars)
  ultimately show ?thesis
    by (simp add: utf16ToUtf8_def sanitized_encode_decode utf8_encode_def utf16Length_def utf16_units_decode units)
qed

text \<open>
  \<open>truncatedUtf8\<close> returns a start of the text that fits the limit, drops at most the three bytes of an
  incomplete sequence below the limit, and never cuts a sequence: the code points before and after the cut are
  those of the whole text.\<close>
theorem truncatedUtf8_correct:
  "let t = truncatedUtf8 s maximum in
   length t \<le> maximum \<and> s = t @ drop (length t) s \<and> (t = s \<or> maximum < length t + 4) \<and>
   utf8_decode s = utf8_decode t @ utf8_decode (drop (length t) s)"
proof (cases "length s \<le> maximum")
  case True
  then show ?thesis by (simp add: truncatedUtf8_def decode_cases)
next
  case False
  let ?n = "truncatedEnd s maximum 0"
  have "?n \<le> maximum" "maximum < ?n + 4" using truncatedEnd_bounds [of 0 maximum s] False by auto
  then show ?thesis
    using False truncation_splits_decoding [of s maximum]
    by (simp add: truncatedUtf8_def Let_def min_def)
qed

end
