(* ===== verification/Case_Fold.thy ===== *)
theory Case_Fold
  imports Utf8
begin

text \<open>
  \<open>shared_data/sync/case_fold.cpp\<close> with the lower case mapping of \<open>utility/fuzzy_search.cpp\<close>: the key under which names
  meet on a filesystem that folds case or normalization. A code point is a \<open>char32\<close>; the key of a name is the folded
  decomposition of its code points, encoded again. The lemmas show that the folding is idempotent, that the test
  skipping it is exact, and which names get the same key.
\<close>

subsection \<open>Lower case\<close>

definition isEven :: "char32 \<Rightarrow> bool" where
  "isEven c \<longleftrightarrow> c mod 2 = 0"

definition lowerLatinExtendedA :: "char32 \<Rightarrow> char32" where
  "lowerLatinExtendedA c =
     (if c = 0x130 then 0x69
      else if c = 0x178 then 0xFF
      else if 0x100 \<le> c \<and> c \<le> 0x137 \<or> 0x14A \<le> c \<and> c \<le> 0x177 then (if isEven c then c + 1 else c)
      else if 0x139 \<le> c \<and> c \<le> 0x148 \<or> 0x179 \<le> c \<and> c \<le> 0x17E then (if isEven c then c else c + 1)
      else c)"

definition lowerGreek :: "char32 \<Rightarrow> char32" where
  "lowerGreek c =
     (if 0x391 \<le> c \<and> c \<le> 0x3AB \<and> c \<noteq> 0x3A2 then c + 32
      else if c = 0x386 then 0x3AC
      else if 0x388 \<le> c \<and> c \<le> 0x38A then c + 37
      else if c = 0x38C then 0x3CC
      else if c = 0x38E \<or> c = 0x38F then c + 63
      else if 0x3D8 \<le> c \<and> c \<le> 0x3EF then (if isEven c then c + 1 else c)
      else c)"

definition lowerCyrillic :: "char32 \<Rightarrow> char32" where
  "lowerCyrillic c =
     (if 0x400 \<le> c \<and> c \<le> 0x40F then c + 80
      else if 0x410 \<le> c \<and> c \<le> 0x42F then c + 32
      else if 0x460 \<le> c \<and> c \<le> 0x481 \<or> 0x48A \<le> c \<and> c \<le> 0x4BF \<or> 0x4D0 \<le> c \<and> c \<le> 0x52F
        then (if isEven c then c + 1 else c)
      else if c = 0x4C0 then 0x4CF
      else if 0x4C1 \<le> c \<and> c \<le> 0x4CE then (if isEven c then c else c + 1)
      else c)"

definition toLowerCase :: "char32 \<Rightarrow> char32" where
  "toLowerCase c =
     (if c < 0x80 then (if 0x41 \<le> c \<and> c \<le> 0x5A then c + 32 else c)
      else if 0xC0 \<le> c \<and> c \<le> 0xDE \<and> c \<noteq> 0xD7 then c + 32
      else if 0x100 \<le> c \<and> c \<le> 0x17F then lowerLatinExtendedA c
      else if 0x370 \<le> c \<and> c \<le> 0x3FF then lowerGreek c
      else if 0x400 \<le> c \<and> c \<le> 0x52F then lowerCyrillic c
      else if c = 0x1E9E then 0xDF
      else if 0xFF21 \<le> c \<and> c \<le> 0xFF3A then c + 32
      else c)"

subsection \<open>Decomposition\<close>

text \<open>The table of the source: composed code point, base, mark.\<close>

definition latinDecompositions :: "(char32 \<times> char32 \<times> char32) list" where
  "latinDecompositions =
    [(0xC0, 0x41, 0x300), (0xC1, 0x41, 0x301), (0xC2, 0x41, 0x302), (0xC3, 0x41, 0x303), (0xC4, 0x41, 0x308),
     (0xC5, 0x41, 0x30A), (0xC7, 0x43, 0x327), (0xC8, 0x45, 0x300), (0xC9, 0x45, 0x301), (0xCA, 0x45, 0x302),
     (0xCB, 0x45, 0x308), (0xCC, 0x49, 0x300), (0xCD, 0x49, 0x301), (0xCE, 0x49, 0x302), (0xCF, 0x49, 0x308),
     (0xD1, 0x4E, 0x303), (0xD2, 0x4F, 0x300), (0xD3, 0x4F, 0x301), (0xD4, 0x4F, 0x302), (0xD5, 0x4F, 0x303),
     (0xD6, 0x4F, 0x308), (0xD9, 0x55, 0x300), (0xDA, 0x55, 0x301), (0xDB, 0x55, 0x302), (0xDC, 0x55, 0x308),
     (0xDD, 0x59, 0x301), (0xE0, 0x61, 0x300), (0xE1, 0x61, 0x301), (0xE2, 0x61, 0x302), (0xE3, 0x61, 0x303),
     (0xE4, 0x61, 0x308), (0xE5, 0x61, 0x30A), (0xE7, 0x63, 0x327), (0xE8, 0x65, 0x300), (0xE9, 0x65, 0x301),
     (0xEA, 0x65, 0x302), (0xEB, 0x65, 0x308), (0xEC, 0x69, 0x300), (0xED, 0x69, 0x301), (0xEE, 0x69, 0x302),
     (0xEF, 0x69, 0x308), (0xF1, 0x6E, 0x303), (0xF2, 0x6F, 0x300), (0xF3, 0x6F, 0x301), (0xF4, 0x6F, 0x302),
     (0xF5, 0x6F, 0x303), (0xF6, 0x6F, 0x308), (0xF9, 0x75, 0x300), (0xFA, 0x75, 0x301), (0xFB, 0x75, 0x302),
     (0xFC, 0x75, 0x308), (0xFD, 0x79, 0x301), (0xFF, 0x79, 0x308), (0x100, 0x41, 0x304), (0x101, 0x61, 0x304),
     (0x102, 0x41, 0x306), (0x103, 0x61, 0x306), (0x104, 0x41, 0x328), (0x105, 0x61, 0x328), (0x106, 0x43, 0x301),
     (0x107, 0x63, 0x301), (0x108, 0x43, 0x302), (0x109, 0x63, 0x302), (0x10A, 0x43, 0x307), (0x10B, 0x63, 0x307),
     (0x10C, 0x43, 0x30C), (0x10D, 0x63, 0x30C), (0x10E, 0x44, 0x30C), (0x10F, 0x64, 0x30C), (0x112, 0x45, 0x304),
     (0x113, 0x65, 0x304), (0x114, 0x45, 0x306), (0x115, 0x65, 0x306), (0x116, 0x45, 0x307), (0x117, 0x65, 0x307),
     (0x118, 0x45, 0x328), (0x119, 0x65, 0x328), (0x11A, 0x45, 0x30C), (0x11B, 0x65, 0x30C), (0x11C, 0x47, 0x302),
     (0x11D, 0x67, 0x302), (0x11E, 0x47, 0x306), (0x11F, 0x67, 0x306), (0x120, 0x47, 0x307), (0x121, 0x67, 0x307),
     (0x122, 0x47, 0x327), (0x123, 0x67, 0x327), (0x124, 0x48, 0x302), (0x125, 0x68, 0x302), (0x128, 0x49, 0x303),
     (0x129, 0x69, 0x303), (0x12A, 0x49, 0x304), (0x12B, 0x69, 0x304), (0x12C, 0x49, 0x306), (0x12D, 0x69, 0x306),
     (0x12E, 0x49, 0x328), (0x12F, 0x69, 0x328), (0x130, 0x49, 0x307), (0x134, 0x4A, 0x302), (0x135, 0x6A, 0x302),
     (0x136, 0x4B, 0x327), (0x137, 0x6B, 0x327), (0x139, 0x4C, 0x301), (0x13A, 0x6C, 0x301), (0x13B, 0x4C, 0x327),
     (0x13C, 0x6C, 0x327), (0x13D, 0x4C, 0x30C), (0x13E, 0x6C, 0x30C), (0x143, 0x4E, 0x301), (0x144, 0x6E, 0x301),
     (0x145, 0x4E, 0x327), (0x146, 0x6E, 0x327), (0x147, 0x4E, 0x30C), (0x148, 0x6E, 0x30C), (0x14C, 0x4F, 0x304),
     (0x14D, 0x6F, 0x304), (0x14E, 0x4F, 0x306), (0x14F, 0x6F, 0x306), (0x150, 0x4F, 0x30B), (0x151, 0x6F, 0x30B),
     (0x154, 0x52, 0x301), (0x155, 0x72, 0x301), (0x156, 0x52, 0x327), (0x157, 0x72, 0x327), (0x158, 0x52, 0x30C),
     (0x159, 0x72, 0x30C), (0x15A, 0x53, 0x301), (0x15B, 0x73, 0x301), (0x15C, 0x53, 0x302), (0x15D, 0x73, 0x302),
     (0x15E, 0x53, 0x327), (0x15F, 0x73, 0x327), (0x160, 0x53, 0x30C), (0x161, 0x73, 0x30C), (0x162, 0x54, 0x327),
     (0x163, 0x74, 0x327), (0x164, 0x54, 0x30C), (0x165, 0x74, 0x30C), (0x168, 0x55, 0x303), (0x169, 0x75, 0x303),
     (0x16A, 0x55, 0x304), (0x16B, 0x75, 0x304), (0x16C, 0x55, 0x306), (0x16D, 0x75, 0x306), (0x16E, 0x55, 0x30A),
     (0x16F, 0x75, 0x30A), (0x170, 0x55, 0x30B), (0x171, 0x75, 0x30B), (0x172, 0x55, 0x328), (0x173, 0x75, 0x328),
     (0x174, 0x57, 0x302), (0x175, 0x77, 0x302), (0x176, 0x59, 0x302), (0x177, 0x79, 0x302), (0x178, 0x59, 0x308),
     (0x179, 0x5A, 0x301), (0x17A, 0x7A, 0x301), (0x17B, 0x5A, 0x307), (0x17C, 0x7A, 0x307), (0x17D, 0x5A, 0x30C),
     (0x17E, 0x7A, 0x30C)]"

definition greekCyrillicDecompositions :: "(char32 \<times> char32 \<times> char32) list" where
  "greekCyrillicDecompositions =
    [(0x385, 0xA8, 0x301), (0x386, 0x391, 0x301), (0x388, 0x395, 0x301), (0x389, 0x397, 0x301), (0x38A, 0x399, 0x301),
     (0x38C, 0x39F, 0x301), (0x38E, 0x3A5, 0x301), (0x38F, 0x3A9, 0x301), (0x390, 0x3CA, 0x301),
     (0x3AA, 0x399, 0x308), (0x3AB, 0x3A5, 0x308), (0x3AC, 0x3B1, 0x301), (0x3AD, 0x3B5, 0x301),
     (0x3AE, 0x3B7, 0x301), (0x3AF, 0x3B9, 0x301), (0x3B0, 0x3CB, 0x301), (0x3CA, 0x3B9, 0x308),
     (0x3CB, 0x3C5, 0x308), (0x3CC, 0x3BF, 0x301), (0x3CD, 0x3C5, 0x301), (0x3CE, 0x3C9, 0x301),
     (0x3D3, 0x3D2, 0x301), (0x3D4, 0x3D2, 0x308), (0x400, 0x415, 0x300), (0x401, 0x415, 0x308),
     (0x403, 0x413, 0x301), (0x407, 0x406, 0x308), (0x40C, 0x41A, 0x301), (0x40D, 0x418, 0x300),
     (0x40E, 0x423, 0x306), (0x419, 0x418, 0x306), (0x439, 0x438, 0x306), (0x450, 0x435, 0x300),
     (0x451, 0x435, 0x308), (0x453, 0x433, 0x301), (0x457, 0x456, 0x308), (0x45C, 0x43A, 0x301),
     (0x45D, 0x438, 0x300), (0x45E, 0x443, 0x306), (0x476, 0x474, 0x30F), (0x477, 0x475, 0x30F),
     (0x4C1, 0x416, 0x306), (0x4C2, 0x436, 0x306), (0x4D0, 0x410, 0x306), (0x4D1, 0x430, 0x306),
     (0x4D2, 0x410, 0x308), (0x4D3, 0x430, 0x308), (0x4D6, 0x415, 0x306), (0x4D7, 0x435, 0x306),
     (0x4DA, 0x4D8, 0x308), (0x4DB, 0x4D9, 0x308), (0x4DC, 0x416, 0x308), (0x4DD, 0x436, 0x308),
     (0x4DE, 0x417, 0x308), (0x4DF, 0x437, 0x308), (0x4E2, 0x418, 0x304), (0x4E3, 0x438, 0x304),
     (0x4E4, 0x418, 0x308), (0x4E5, 0x438, 0x308), (0x4E6, 0x41E, 0x308), (0x4E7, 0x43E, 0x308),
     (0x4EA, 0x4E8, 0x308), (0x4EB, 0x4E9, 0x308), (0x4EC, 0x42D, 0x308), (0x4ED, 0x44D, 0x308),
     (0x4EE, 0x423, 0x304), (0x4EF, 0x443, 0x304), (0x4F0, 0x423, 0x308), (0x4F1, 0x443, 0x308),
     (0x4F2, 0x423, 0x30B), (0x4F3, 0x443, 0x30B), (0x4F4, 0x427, 0x308), (0x4F5, 0x447, 0x308),
     (0x4F8, 0x42B, 0x308), (0x4F9, 0x44B, 0x308)]"

definition decompositions :: "(char32 \<times> char32 \<times> char32) list" where
  "decompositions = latinDecompositions @ greekCyrillicDecompositions"

text \<open>\<open>lower_bound\<close> on the sorted table, and whether it stands at the code point.\<close>

definition lowerBound :: "char32 \<Rightarrow> (char32 \<times> char32 \<times> char32) list \<Rightarrow> (char32 \<times> char32 \<times> char32) list" where
  "lowerBound c table = dropWhile (\<lambda>d. fst d < c) table"

definition findDecomposition :: "char32 \<Rightarrow> (char32 \<times> char32) option" where
  "findDecomposition c =
     (case lowerBound c decompositions of
        [] \<Rightarrow> None
      | (composed, base, mark) # _ \<Rightarrow> if composed \<noteq> c then None else Some (base, mark))"

definition foldedLetter :: "char32 \<Rightarrow> char32" where
  "foldedLetter c =
     (if c = 0xB5 then 0x3BC
      else if c = 0x17F then 0x73
      else if c = 0x3C2 then 0x3C3
      else toLowerCase c)"

text \<open>The composed code points as intervals, for the proofs only.\<close>

definition composed_intervals :: "(char32 \<times> char32) list" where
  "composed_intervals =
    [(0xC0, 0xC5), (0xC7, 0xCF), (0xD1, 0xD6), (0xD9, 0xDD), (0xE0, 0xE5), (0xE7, 0xEF), (0xF1, 0xF6), (0xF9,
     0xFD), (0xFF, 0x10F), (0x112, 0x125), (0x128, 0x130), (0x134, 0x137), (0x139, 0x13E), (0x143, 0x148),
     (0x14C, 0x151), (0x154, 0x165), (0x168, 0x17E), (0x385, 0x386), (0x388, 0x38A), (0x38C, 0x38C), (0x38E,
     0x390), (0x3AA, 0x3B0), (0x3CA, 0x3CE), (0x3D3, 0x3D4), (0x400, 0x401), (0x403, 0x403), (0x407, 0x407),
     (0x40C, 0x40E), (0x419, 0x419), (0x439, 0x439), (0x450, 0x451), (0x453, 0x453), (0x457, 0x457), (0x45C,
     0x45E), (0x476, 0x477), (0x4C1, 0x4C2), (0x4D0, 0x4D3), (0x4D6, 0x4D7), (0x4DA, 0x4DF), (0x4E2, 0x4E7),
     (0x4EA, 0x4F5), (0x4F8, 0x4F9)]"

fun in_intervals :: "(char32 \<times> char32) list \<Rightarrow> char32 \<Rightarrow> bool" where
  "in_intervals [] c = False"
| "in_intervals ((a, b) # rest) c = (if c < a then False else if c \<le> b then True else in_intervals rest c)"

definition is_composed :: "char32 \<Rightarrow> bool" where
  "is_composed c = in_intervals composed_intervals c"

lemma composed_table: "map fst decompositions = concat (map (\<lambda>(a, b). [a..<Suc b]) composed_intervals)"
  by (simp add: decompositions_def latinDecompositions_def greekCyrillicDecompositions_def composed_intervals_def)

lemma in_intervals_below:
  "\<forall>(a, b) \<in> set xs. d \<le> a \<Longrightarrow> c < d \<Longrightarrow> \<not> in_intervals xs c"
  by (cases xs) auto

lemma in_intervals_iff:
  "sorted (concat (map (\<lambda>(a, b). [a, b]) xs)) \<Longrightarrow>
     in_intervals xs c \<longleftrightarrow> (\<exists>(a, b) \<in> set xs. a \<le> c \<and> c \<le> b)"
proof (induction xs)
  case (Cons i xs)
  obtain a b where i: "i = (a, b)" by (cases i)
  from Cons.prems have s: "a \<le> b" "sorted (concat (map (\<lambda>(a, b). [a, b]) xs))" "\<forall>(x, y) \<in> set xs. b \<le> x"
    by (auto simp: i)
  then show ?case using Cons.IH in_intervals_below [of xs b c] by (auto simp: i)
qed simp

lemma is_composed_interval: "is_composed c \<longleftrightarrow> (\<exists>(a, b) \<in> set composed_intervals. a \<le> c \<and> c \<le> b)"
proof -
  have "sorted (concat (map (\<lambda>(a, b). [a, b]) composed_intervals))"
    unfolding composed_intervals_def by (simp add: sorted2 sorted1 del: sorted_wrt.simps(2))
  then show ?thesis unfolding is_composed_def by (rule in_intervals_iff)
qed

lemma is_composed_iff: "is_composed c \<longleftrightarrow> c \<in> set (map fst decompositions)"
  unfolding composed_table is_composed_interval
  by (simp add: case_prod_beta atLeastLessThanSuc_atLeastAtMost del: upt_Suc)

lemma composed_sorted: "sorted (map fst decompositions)"
  unfolding decompositions_def latinDecompositions_def greekCyrillicDecompositions_def
  by (simp add: sorted2 sorted1 del: sorted_wrt.simps(2))

lemma map_of_lowerBound:
  "sorted (map fst t) \<Longrightarrow>
     (case lowerBound c t of [] \<Rightarrow> None | (x, d) # _ \<Rightarrow> if x \<noteq> c then None else Some d) = map_of t c"
proof (induction t)
  case (Cons e t)
  have "c < fst e \<Longrightarrow> map_of t c = None" using Cons.prems by (auto simp: map_of_eq_None_iff)
  then show ?case using Cons by (cases e) (auto simp: lowerBound_def)
qed (simp add: lowerBound_def)

lemma findDecomposition_map_of: "findDecomposition c = map_of decompositions c"
  using map_of_lowerBound [OF composed_sorted, of c]
  by (cases "lowerBound c decompositions") (auto simp: findDecomposition_def)

lemma find_None: "findDecomposition c = None \<longleftrightarrow> \<not> is_composed c"
  by (simp add: findDecomposition_map_of map_of_eq_None_iff is_composed_iff)

text \<open>Only the two Greek letters with a diaeresis are bases that decompose again; every mark is in one small block.\<close>

lemma table_bases:
  "list_all (\<lambda>(c, b, m). (if b = 0x3CA \<or> b = 0x3CB then c \<noteq> 0x3CA \<and> c \<noteq> 0x3CB else \<not> is_composed b) \<and>
     isScalarValue b \<and> 0x300 \<le> m \<and> m \<le> 0x328) decompositions"
  unfolding decompositions_def latinDecompositions_def greekCyrillicDecompositions_def
  by (simp add: is_composed_def composed_intervals_def isScalarValue_def)

lemma find_Some:
  assumes "findDecomposition c = Some (b, m)"
  shows "b = 0x3CA \<or> b = 0x3CB \<or> \<not> is_composed b" and "b = 0x3CA \<or> b = 0x3CB \<Longrightarrow> c \<noteq> 0x3CA \<and> c \<noteq> 0x3CB"
    and "isScalarValue b" and "0x300 \<le> m \<and> m \<le> 0x328" and "is_composed c"
proof -
  have "(c, b, m) \<in> set decompositions" using assms by (simp add: findDecomposition_map_of map_of_SomeD)
  with table_bases show "b = 0x3CA \<or> b = 0x3CB \<or> \<not> is_composed b"
    "b = 0x3CA \<or> b = 0x3CB \<Longrightarrow> c \<noteq> 0x3CA \<and> c \<noteq> 0x3CB" "isScalarValue b" "0x300 \<le> m \<and> m \<le> 0x328"
    by (auto simp: list_all_iff split: if_splits)
  show "is_composed c" using assms find_None [of c] by auto
qed

function appendDecomposed :: "char32 \<Rightarrow> char32 list \<Rightarrow> char32 list" where
  "appendDecomposed c out =
     (case findDecomposition c of
        None \<Rightarrow> out @ [foldedLetter c]
      | Some (base, mark) \<Rightarrow> appendDecomposed base out @ [mark])"
  by pat_completeness auto
termination
proof (relation "measure (\<lambda>(c, out). if c = 0x3CA \<or> c = 0x3CB then 1 else if is_composed c then 2 else 0)", goal_cases)
  case (2 c out d base mark)
  then have f: "findDecomposition c = Some (base, mark)" by simp
  then show ?case using find_Some [OF f] by (auto split: if_splits)
qed simp

declare appendDecomposed.simps [simp del]

definition foldingChanges :: "string \<Rightarrow> bool" where
  "foldingChanges name \<longleftrightarrow>
     list_ex (\<lambda>character. let byte = (of_char character :: nat) in byte \<ge> 0x80 \<or> 0x41 \<le> byte \<and> byte \<le> 0x5A) name"

definition caseFoldedName :: "string \<Rightarrow> string" where
  "caseFoldedName name =
     (if \<not> foldingChanges name then name
      else if \<not> isValidUtf8 name then name
      else utf8_encode (foldl (\<lambda>folded c. appendDecomposed c folded) [] (utf8_decode name)))"

subsection \<open>Folding twice\<close>

definition fold_stable :: "char32 \<Rightarrow> bool" where
  "fold_stable b \<longleftrightarrow>
     (if foldedLetter b = b then True
      else if is_composed b then True
      else \<not> is_composed (foldedLetter b) \<and> foldedLetter (foldedLetter b) = foldedLetter b)"

lemmas is_composed_if = is_composed_def [unfolded composed_intervals_def in_intervals.simps]

lemmas fold_eval = is_composed_if foldedLetter_def toLowerCase_def lowerLatinExtendedA_def
    lowerGreek_def lowerCyrillic_def isEven_def

lemma fold_checked_latin: "list_all fold_stable [0xB0..<0x180]"
  apply (simp del: upt_Suc)
  apply (simp only: fold_stable_def)
  apply (simp add: fold_eval)
  done

lemma fold_checked_greek: "list_all fold_stable [0x370..<0x400]"
  apply (simp del: upt_Suc)
  apply (simp only: fold_stable_def)
  apply (simp add: fold_eval)
  done

lemma fold_checked_cyrillic: "list_all fold_stable [0x400..<0x530]"
  apply (simp del: upt_Suc)
  apply (simp only: fold_stable_def)
  apply (simp add: fold_eval)
  done

lemma fold_stable:
  assumes "\<not> is_composed b"
  shows "\<not> is_composed (foldedLetter b)" and "foldedLetter (foldedLetter b) = foldedLetter b"
proof -
  have high: "\<not> is_composed c" if "0x530 \<le> c \<or> c < 0xC0 \<or> 0x180 \<le> c \<and> c < 0x385" for c
  proof
    assume "is_composed c"
    then obtain a b where "(a, b) \<in> set composed_intervals" "a \<le> c" "c \<le> b" by (auto simp: is_composed_interval)
    moreover have "list_all (\<lambda>(a, b). 0xC0 \<le> a \<and> b < 0x530 \<and> (b < 0x180 \<or> 0x385 \<le> a)) composed_intervals"
      by (simp add: composed_intervals_def)
    ultimately show False using that by (auto simp: list_all_iff)
  qed
  have in_list: "fold_stable b" if "list_all fold_stable [l..<u]" "l \<le> b" "b < u" for l u
    using that by (simp add: list_all_iff)
  consider "b < 0xB0" | "0xB0 \<le> b \<and> b < 0x180" | "0x180 \<le> b \<and> b < 0x370" | "0x370 \<le> b \<and> b < 0x400"
    | "0x400 \<le> b \<and> b < 0x530" | "0x530 \<le> b" by linarith
  then have "\<not> is_composed (foldedLetter b) \<and> foldedLetter (foldedLetter b) = foldedLetter b"
  proof cases
    case 1
    then have "foldedLetter b = (if 0x41 \<le> b \<and> b \<le> 0x5A then b + 32 else b)" "foldedLetter b < 0xB0"
      by (auto simp: foldedLetter_def toLowerCase_def)
    then show ?thesis using high [of "foldedLetter b"] by (auto simp: foldedLetter_def toLowerCase_def)
  next
    case 3
    then have "foldedLetter b = b" by (simp add: foldedLetter_def toLowerCase_def)
    then show ?thesis using assms by simp
  next
    case 6
    then have "foldedLetter b = (if b = 0x1E9E then 0xDF else if 0xFF21 \<le> b \<and> b \<le> 0xFF3A then b + 32 else b)"
      by (simp add: foldedLetter_def toLowerCase_def)
    moreover have "foldedLetter 0xDF = 0xDF" "\<not> is_composed 0xDF"
      by (simp_all add: foldedLetter_def toLowerCase_def is_composed_if)
    moreover have "foldedLetter (b + 32) = b + 32" if "0xFF21 \<le> b" "b \<le> 0xFF3A"
      using that by (simp add: foldedLetter_def toLowerCase_def)
    ultimately show ?thesis using assms 6 high [of "b + 32"] by auto
  next
    case 2
    then show ?thesis using in_list [OF fold_checked_latin] assms by (auto simp: fold_stable_def split: if_splits)
  next
    case 4
    then show ?thesis using in_list [OF fold_checked_greek] assms by (auto simp: fold_stable_def split: if_splits)
  next
    case 5
    then show ?thesis using in_list [OF fold_checked_cyrillic] assms by (auto simp: fold_stable_def split: if_splits)
  qed
  then show "\<not> is_composed (foldedLetter b)" "foldedLetter (foldedLetter b) = foldedLetter b" by blast+
qed

lemma lower_table_latin:
  "list_all (\<lambda>(c, b, m). toLowerCase c = c \<and> toLowerCase b = b \<or> c = 0x130 \<or>
     (toLowerCase c, toLowerCase b, m) \<in> set latinDecompositions) latinDecompositions"
  unfolding latinDecompositions_def
  apply (simp only: list.pred_inject prod.case)
  apply (simp add: toLowerCase_def lowerLatinExtendedA_def lowerGreek_def lowerCyrillic_def isEven_def)
  done

lemma lower_table_greek_cyrillic:
  "list_all (\<lambda>(c, b, m). toLowerCase c = c \<and> toLowerCase b = b \<or> c = 0x130 \<or>
     (toLowerCase c, toLowerCase b, m) \<in> set greekCyrillicDecompositions) greekCyrillicDecompositions"
  unfolding greekCyrillicDecompositions_def
  apply (simp only: list.pred_inject prod.case)
  apply (simp add: toLowerCase_def lowerLatinExtendedA_def lowerGreek_def lowerCyrillic_def isEven_def)
  done

subsection \<open>The folded code points of a name\<close>

abbreviation decomposed :: "char32 \<Rightarrow> char32 list" where
  "decomposed c \<equiv> appendDecomposed c []"

definition folded :: "char32 \<Rightarrow> bool" where
  "folded c \<longleftrightarrow> \<not> is_composed c \<and> foldedLetter c = c \<and> isScalarValue c"

lemma appendDecomposed_append: "appendDecomposed c out = out @ decomposed c"
proof (induction c out rule: appendDecomposed.induct)
  case (1 c out)
  show ?case
  proof (cases "findDecomposition c")
    case None
    then show ?thesis by (simp add: appendDecomposed.simps [of c])
  next
    case (Some d)
    then obtain b m where "findDecomposition c = Some (b, m)" by (cases d) auto
    with 1 [OF this refl] show ?thesis by (simp add: appendDecomposed.simps [of c])
  qed
qed

lemma decomposed_cases:
  "\<not> is_composed c \<Longrightarrow> decomposed c = [foldedLetter c]"
  "findDecomposition c = Some (b, m) \<Longrightarrow> decomposed c = decomposed b @ [m]"
  by (simp_all add: appendDecomposed.simps [of c] find_None [symmetric])

lemma foldl_decomposed: "foldl (\<lambda>out c. appendDecomposed c out) out cs = out @ concat (map decomposed cs)"
proof (induction cs arbitrary: out)
  case (Cons c cs)
  then show ?case using appendDecomposed_append [of c out] by simp
qed simp

lemma folded_mark: "0x300 \<le> m \<Longrightarrow> m \<le> 0x328 \<Longrightarrow> folded m"
proof -
  assume m: "0x300 \<le> m" "m \<le> 0x328"
  then have "\<not> is_composed m" unfolding is_composed_if by simp
  with m show "folded m" by (simp add: folded_def foldedLetter_def toLowerCase_def isScalarValue_def)
qed

lemma folded_foldedLetter: "\<not> is_composed b \<Longrightarrow> isScalarValue b \<Longrightarrow> folded (foldedLetter b)"
proof -
  assume b: "\<not> is_composed b" "isScalarValue b"
  have "isScalarValue (foldedLetter b)"
    using b(2) by (auto simp: isScalarValue_def foldedLetter_def toLowerCase_def lowerLatinExtendedA_def lowerGreek_def lowerCyrillic_def)
  with b fold_stable [OF b(1)] show "folded (foldedLetter b)" by (simp add: folded_def)
qed

lemma decomposed_folded: "isScalarValue c \<Longrightarrow> x \<in> set (decomposed c) \<Longrightarrow> folded x"
proof (induction c "[] :: char32 list" rule: appendDecomposed.induct)
  case (1 c)
  show ?case
  proof (cases "findDecomposition c")
    case None
    then show ?thesis using 1(2,3) folded_foldedLetter by (simp add: decomposed_cases find_None)
  next
    case (Some d)
    then obtain b m where d: "findDecomposition c = Some (b, m)" by (cases d) auto
    then show ?thesis
      using 1(1) [OF d refl] 1(3) find_Some(3,4) [OF d] folded_mark by (auto simp: decomposed_cases)
  qed
qed

lemma decomposed_id: "folded x \<Longrightarrow> decomposed x = [x]"
  by (simp add: folded_def decomposed_cases)

lemma decomposed_ids: "(\<And>x. x \<in> set xs \<Longrightarrow> folded x) \<Longrightarrow> concat (map decomposed xs) = xs"
  by (induction xs) (simp_all add: decomposed_id)

lemma unchanged_folded:
  assumes "\<not> foldingChanges s"
  shows "isValidUtf8 s" and "c \<in> set (utf8_decode s) \<Longrightarrow> folded c"
proof -
  have plain: "isValidUtf8 s \<and> (\<forall>c \<in> set (utf8_decode s). folded c)"
    using assms
  proof (induction s)
    case Nil
    have "isValidUtf8 []" by code_simp
    then show ?case by (simp add: decode_cases)
  next
    case (Cons x s)
    let ?n = "of_char x :: nat"
    from Cons.prems have x: "?n < 0x80" "\<not> (0x41 \<le> ?n \<and> ?n \<le> 0x5A)" and s: "\<not> foldingChanges s"
      by (auto simp: foldingChanges_def Let_def)
    have "utf8_bytes ?n = [x]" using x(1) by (simp add: utf8_bytes_arith isScalarValue_def)
    moreover have sv: "isScalarValue ?n" using x(1) by (simp add: isScalarValue_def)
    ultimately have "isValidUtf8 (x # s) = isValidUtf8 s" "utf8_decode (x # s) = ?n # utf8_decode s"
      using utf8_bytes_valid [of ?n s] decode_cases(2) [of ?n s] by simp_all
    moreover have "folded ?n"
    proof -
      have "\<not> is_composed ?n" using x(1) unfolding is_composed_if by simp
      then show ?thesis using x sv by (auto simp: folded_def foldedLetter_def toLowerCase_def)
    qed
    ultimately show ?case using Cons.IH [OF s] by simp
  qed
  then show "isValidUtf8 s" "c \<in> set (utf8_decode s) \<Longrightarrow> folded c" by blast+
qed

lemma caseFoldedName_eq:
  "caseFoldedName s = (if isValidUtf8 s then utf8_encode (concat (map decomposed (utf8_decode s))) else s)"
proof (cases "foldingChanges s")
  case True
  then show ?thesis by (simp add: caseFoldedName_def foldl_decomposed)
next
  case False
  then have "concat (map decomposed (utf8_decode s)) = utf8_decode s"
    by (intro decomposed_ids unchanged_folded(2))
  with False unchanged_folded(1) show ?thesis by (simp add: caseFoldedName_def encode_decode_valid)
qed

lemma key_of_encoded:
  "\<forall>c \<in> set cs. isScalarValue c \<Longrightarrow>
     caseFoldedName (utf8_encode cs) = utf8_encode (concat (map decomposed cs))"
  by (simp add: caseFoldedName_eq utf8_encode_valid decode_encode)

lemma decomposed_lower:
  assumes "c \<noteq> 0x130"
  shows "decomposed (toLowerCase c) = decomposed c"
proof -
  have base: "\<not> is_composed (toLowerCase b) \<and> foldedLetter (toLowerCase b) = foldedLetter b" if "\<not> is_composed b" for b
  proof (cases "b = 0xB5 \<or> b = 0x17F \<or> b = 0x3C2")
    case True
    then have "toLowerCase b = b"
      by (elim disjE) (simp_all add: toLowerCase_def lowerLatinExtendedA_def lowerGreek_def)
    with that show ?thesis by simp
  next
    case False
    then have "toLowerCase b = foldedLetter b" by (simp add: foldedLetter_def)
    with fold_stable [OF that] show ?thesis by simp
  qed
  have lower: "toLowerCase x = x \<and> toLowerCase b = b \<or> x = 0x130 \<or> findDecomposition (toLowerCase x) = Some (toLowerCase b, m)"
    if "findDecomposition x = Some (b, m)" for x b m
  proof -
    have "(x, b, m) \<in> set decompositions" using that by (simp add: findDecomposition_map_of map_of_SomeD)
    then have "toLowerCase x = x \<and> toLowerCase b = b \<or> x = 0x130 \<or> (toLowerCase x, toLowerCase b, m) \<in> set decompositions"
      using lower_table_latin lower_table_greek_cyrillic by (fastforce simp: decompositions_def list_all_iff)
    moreover have "distinct (map fst decompositions)"
      unfolding composed_table composed_intervals_def by simp
    ultimately show ?thesis by (auto simp: findDecomposition_map_of)
  qed
  show ?thesis
    using assms
  proof (induction c "[] :: char32 list" rule: appendDecomposed.induct)
    case (1 c)
    show ?case
    proof (cases "findDecomposition c")
      case None
      then show ?thesis using base [of c] by (simp add: find_None decomposed_cases)
    next
      case (Some d)
      then obtain b m where d: "findDecomposition c = Some (b, m)" by (cases d) auto
      have "b \<noteq> 0x130" using find_Some(1) [OF d] unfolding is_composed_if by auto
      with 1(1) [OF d refl] lower [OF d] 1(2) d show ?thesis by (auto simp: decomposed_cases(2))
    qed
  qed
qed

subsection \<open>Properties\<close>

text \<open>
  The case folded key is idempotent, valid exactly for valid names, and the test that skips the folding of plain
  names is exact: the key is always the folded decomposition of all code points, text that is not UTF-8 its own key.\<close>
theorem case_key_idempotent:
  "caseFoldedName (caseFoldedName s) = caseFoldedName s \<and> isValidUtf8 (caseFoldedName s) = isValidUtf8 s \<and>
   caseFoldedName s =
     (if isValidUtf8 s then utf8_encode (concat (map (\<lambda>c. appendDecomposed c []) (utf8_decode s))) else s)"
proof (cases "isValidUtf8 s")
  case True
  let ?ds = "concat (map decomposed (utf8_decode s))"
  have f: "folded x" if "x \<in> set ?ds" for x using that decoded_scalars decomposed_folded by auto
  then have "caseFoldedName (utf8_encode ?ds) = utf8_encode (concat (map decomposed ?ds))"
    by (intro key_of_encoded ballI) (simp add: folded_def)
  with f True show ?thesis by (simp only: decomposed_ids caseFoldedName_eq utf8_encode_valid if_True simp_thms)
qed (simp add: caseFoldedName_eq)

text \<open>
  Names that such filesystems treat as one name get the same key: a precomposed letter and its decomposition
  anywhere in a name, and a letter and its lower case (all but the dotted capital I, whose lower case loses the dot).\<close>
theorem case_key_equates:
  assumes "\<forall>x \<in> set (pre @ post). isScalarValue x"
  shows "(\<forall>(c, b, m) \<in> set decompositions. isScalarValue c \<longrightarrow>
      caseFoldedName (utf8_encode (pre @ [c] @ post)) = caseFoldedName (utf8_encode (pre @ [b, m] @ post))) \<and>
    (isScalarValue l \<and> l \<noteq> 0x130 \<longrightarrow>
      caseFoldedName (utf8_encode (pre @ [l] @ post)) = caseFoldedName (utf8_encode (pre @ [toLowerCase l] @ post)))"
proof (intro conjI ballI impI)
  fix d assume "d \<in> set decompositions"
  moreover obtain c b m where d: "d = (c, b, m)" by (cases d) auto
  moreover have "distinct (map fst decompositions)" unfolding composed_table composed_intervals_def by simp
  ultimately have f: "findDecomposition c = Some (b, m)" by (simp add: findDecomposition_map_of)
  have m: "folded m" using find_Some(4) [OF f] folded_mark by blast
  have "caseFoldedName (utf8_encode (pre @ [c] @ post)) = caseFoldedName (utf8_encode (pre @ [b, m] @ post))"
    if "isScalarValue c"
  proof -
    have "\<forall>x \<in> set (pre @ [c] @ post). isScalarValue x" "\<forall>x \<in> set (pre @ [b, m] @ post). isScalarValue x"
      using assms find_Some(3) [OF f] m that by (auto simp: folded_def)
    then show ?thesis
      using key_of_encoded [of "pre @ [c] @ post"] key_of_encoded [of "pre @ [b, m] @ post"]
        decomposed_id [OF m] decomposed_cases(2) [OF f] by simp
  qed
  then show "case d of (c, b, m) \<Rightarrow> isScalarValue c \<longrightarrow>
      caseFoldedName (utf8_encode (pre @ [c] @ post)) = caseFoldedName (utf8_encode (pre @ [b, m] @ post))"
    by (simp add: d)
next
  assume l: "isScalarValue l \<and> l \<noteq> 0x130"
  then have "isScalarValue (toLowerCase l)"
    by (auto simp: isScalarValue_def toLowerCase_def lowerLatinExtendedA_def lowerGreek_def lowerCyrillic_def)
  then have "\<forall>x \<in> set (pre @ [l] @ post). isScalarValue x" "\<forall>x \<in> set (pre @ [toLowerCase l] @ post). isScalarValue x"
    using assms l by auto
  then show "caseFoldedName (utf8_encode (pre @ [l] @ post)) = caseFoldedName (utf8_encode (pre @ [toLowerCase l] @ post))"
    using l decomposed_lower [of l] key_of_encoded [of "pre @ [l] @ post"] key_of_encoded [of "pre @ [toLowerCase l] @ post"]
    by simp
qed

lemma case_key_equates_witness:
  "caseFoldedName (utf8_encode [0x41, 0xC4]) = caseFoldedName (utf8_encode [0x41, 0xE4])"
proof -
  have "\<forall>x \<in> set ([0x41] @ []). isScalarValue x" "isScalarValue 0xC4 \<and> (0xC4 :: char32) \<noteq> 0x130" "toLowerCase 0xC4 = 0xE4"
    by (simp_all add: isScalarValue_def toLowerCase_def)
  with case_key_equates [where pre = "[0x41]" and post = "[]" and l = "0xC4"] show ?thesis by simp
qed

end
