(* ===== verification/Path_Segments.thy ===== *)
theory Path_Segments
  imports Utf8 "HOL-Library.Sublist"
begin

text \<open>
  \<open>path_error.hpp\<close>, \<open>path_segment.hpp\<close>, \<open>relative_path.hpp\<close> and \<open>local_path_segment.hpp\<close> of
  \<open>paths/include/paths\<close>: the name of one path component, the rules of the local file system for it, and the
  relative path, which is the only bridge between a local and a remote path. \<open>std::expected\<close> is a sum with the
  error on the left. The classes keep their text private and only build it from validated text; the invariants
  \<open>valid_segment\<close> and \<open>valid_relative\<close> say what that gives, and the lemmas show that the relative path with its
  operations on text is a list of names with the operations on lists.
\<close>

subsection \<open>Errors\<close>

datatype PathRejection =
    Empty | DotOrDotDot | ContainsSeparator | ContainsNul | InvalidUtf8 | NotAbsolute | ReservedCharacter
  | ReservedDeviceName | TrailingDotOrSpace | EscapesRoot | DevicePath | NameTooLong | UnknownParent

record PathError =
  reason :: PathRejection
  input :: string

fun rejectionText :: "PathRejection \<Rightarrow> string" where
  "rejectionText Empty = ''is empty''"
| "rejectionText DotOrDotDot = ''is '' @ [CHR 0x27] @ ''.'' @ [CHR 0x27] @ '' or '' @ [CHR 0x27] @ ''..'' @ [CHR 0x27]"
| "rejectionText ContainsSeparator = ''contains a path separator''"
| "rejectionText ContainsNul = ''contains a NUL character''"
| "rejectionText InvalidUtf8 = ''is not valid UTF-8''"
| "rejectionText NotAbsolute = ''is not absolute''"
| "rejectionText ReservedCharacter = ''contains a character the local system does not allow''"
| "rejectionText ReservedDeviceName = ''is a reserved device name''"
| "rejectionText TrailingDotOrSpace = ''ends with a dot or space''"
| "rejectionText EscapesRoot = ''leaves its root directory''"
| "rejectionText DevicePath = ''is a device path''"
| "rejectionText NameTooLong = ''has a name that is too long''"
| "rejectionText UnknownParent = ''lies below an entry that was not listed''"

definition hex_digit :: "nat \<Rightarrow> char" where
  "hex_digit n = ''0123456789ABCDEF'' ! n"

definition hex_escape :: "nat \<Rightarrow> string" where
  "hex_escape byte = [CHR 0x5C, CHR ''x'', hex_digit (byte div 16), hex_digit (byte mod 16)]"

function printableFrom :: "string \<Rightarrow> nat \<Rightarrow> string" where
  "printableFrom text index =
     (if index < length text
      then let byte = byte_at text index; len = utf8SequenceLength text index in
        if len = 0 \<or> byte < 0x20 \<or> byte = 0x7F
        then hex_escape byte @ printableFrom text (index + 1)
        else take len (drop index text) @ printableFrom text (index + len)
      else [])"
  by pat_completeness auto
termination by (relation "measure (\<lambda>(text, index). length text - index)") auto

declare printableFrom.simps [simp del]

definition PathError_toString :: "PathError \<Rightarrow> string" where
  "PathError_toString e =
     [CHR 0x27] @ printableFrom (input e) 0 @ [CHR 0x27] @ '' '' @ rejectionText (reason e)"

subsection \<open>Segments\<close>

definition splitAtSlashes :: "string \<Rightarrow> string list" where
  "splitAtSlashes text = (if text = [] then [] else split_slash text)"

definition appendSegment :: "string \<Rightarrow> string \<Rightarrow> string" where
  "appendSegment value tail =
     (if value \<noteq> [] \<and> last value \<noteq> slash then value @ [slash] else value) @ tail"

definition lastSegment :: "string \<Rightarrow> string" where
  "lastSegment value =
     (case rfind_char slash value of None \<Rightarrow> value | Some i \<Rightarrow> drop (i + 1) value)"

datatype PathSegment = PathSegment (segment_value: string)

definition segmentRejectionOf :: "string \<Rightarrow> PathRejection option" where
  "segmentRejectionOf utf8 =
     (if utf8 = [] then Some Empty
      else if utf8 = ''.'' \<or> utf8 = ''..'' then Some DotOrDotDot
      else if find_char slash utf8 \<noteq> None then Some ContainsSeparator
      else if find_char (CHR 0x00) utf8 \<noteq> None then Some ContainsNul
      else if \<not> isValidUtf8 utf8 then Some InvalidUtf8
      else None)"

definition PathSegment_make :: "string \<Rightarrow> PathError + PathSegment" where
  "PathSegment_make utf8 =
     (case segmentRejectionOf utf8 of
        Some rejection \<Rightarrow> Inl \<lparr>reason = rejection, input = utf8\<rparr>
      | None \<Rightarrow> Inr (PathSegment utf8))"

subsection \<open>Relative paths\<close>

datatype RelativePath = RelativePath (rel_value: string)

fun firstRejection :: "(string \<Rightarrow> PathRejection option) \<Rightarrow> string list \<Rightarrow> PathRejection option" where
  "firstRejection f [] = None"
| "firstRejection f (p # ps) = (case f p of Some r \<Rightarrow> Some r | None \<Rightarrow> firstRejection f ps)"

definition RelativePath_make :: "string \<Rightarrow> PathError + RelativePath" where
  "RelativePath_make utf8 =
     (if utf8 = [] then Inr (RelativePath [])
      else if hd utf8 = slash then Inl \<lparr>reason = EscapesRoot, input = utf8\<rparr>
      else case firstRejection segmentRejectionOf (splitAtSlashes utf8) of
          Some rejection \<Rightarrow> Inl \<lparr>reason = rejection, input = utf8\<rparr>
        | None \<Rightarrow> Inr (RelativePath utf8))"

definition rel_div_segment :: "RelativePath \<Rightarrow> PathSegment \<Rightarrow> RelativePath" where
  "rel_div_segment r segment = RelativePath (appendSegment (rel_value r) (segment_value segment))"

definition rel_empty :: "RelativePath \<Rightarrow> bool" where
  "rel_empty r \<longleftrightarrow> rel_value r = []"

definition rel_div :: "RelativePath \<Rightarrow> RelativePath \<Rightarrow> RelativePath" where
  "rel_div r other =
     (if \<not> rel_empty other then RelativePath (appendSegment (rel_value r) (rel_value other)) else r)"

definition rel_segmentViews :: "RelativePath \<Rightarrow> string list" where
  "rel_segmentViews r = splitAtSlashes (rel_value r)"

definition rel_segments :: "RelativePath \<Rightarrow> PathSegment list" where
  "rel_segments r = map PathSegment (rel_segmentViews r)"

definition rel_parent :: "RelativePath \<Rightarrow> RelativePath option" where
  "rel_parent r =
     (if rel_empty r then None
      else case rfind_char slash (rel_value r) of
          None \<Rightarrow> Some (RelativePath [])
        | Some i \<Rightarrow> Some (RelativePath (take i (rel_value r))))"

definition rel_leaf :: "RelativePath \<Rightarrow> PathSegment option" where
  "rel_leaf r = (if rel_empty r then None else Some (PathSegment (lastSegment (rel_value r))))"

text \<open>The comparison \<open>isWithin\<close> of both the relative and the remote path: equal, or a longer text that starts with the
  base and goes on with a separator.\<close>

definition rel_isWithin :: "RelativePath \<Rightarrow> RelativePath \<Rightarrow> bool" where
  "rel_isWithin r other =
     (if rel_empty other \<or> rel_value r = rel_value other then True
      else length (rel_value r) > length (rel_value other) \<and> starts_with (rel_value r) (rel_value other) \<and>
        rel_value r ! length (rel_value other) = slash)"

subsection \<open>Names of the local file system\<close>

datatype LocalPlatform = Posix | Windows

datatype LocalPathSegment = LocalPathSegment (local_segment: PathSegment)

definition upper_ascii :: "char \<Rightarrow> char" where
  "upper_ascii c = (if CHR ''a'' \<le> c \<and> c \<le> CHR ''z'' then char_of ((of_char c :: nat) - 32) else c)"

definition isDeviceName :: "string \<Rightarrow> bool" where
  "isDeviceName name =
     (let stem0 = (case find_char CHR ''.'' name of None \<Rightarrow> name | Some i \<Rightarrow> take i name);
          stem = rev (dropWhile (\<lambda>c. c = CHR '' '') (rev stem0));
          upper = map upper_ascii stem in
      if upper \<in> {''CON'', ''PRN'', ''AUX'', ''NUL'', ''CONIN$'', ''CONOUT$''} then True
      else if \<not> starts_with upper ''COM'' \<and> \<not> starts_with upper ''LPT'' then False
      else let number = drop 3 upper in
        (length number = 1 \<and> CHR ''0'' \<le> number ! 0 \<and> number ! 0 \<le> CHR ''9'') \<or>
        number \<in> {[CHR 0xC2, CHR 0xB9], [CHR 0xC2, CHR 0xB2], [CHR 0xC2, CHR 0xB3]})"

definition reservedOnWindows :: "char \<Rightarrow> bool" where
  "reservedOnWindows c \<longleftrightarrow> (of_char c :: nat) < 0x20 \<or>
     c \<in> {CHR 0x5C, CHR '':'', CHR ''<'', CHR ''>'', CHR 0x22, CHR ''|'', CHR ''?'', CHR ''*''}"

definition windowsRejection :: "string \<Rightarrow> PathRejection option" where
  "windowsRejection name =
     (if list_ex reservedOnWindows name then Some ReservedCharacter
      else if last name = CHR ''.'' \<or> last name = CHR '' '' then Some TrailingDotOrSpace
      else if isDeviceName name then Some ReservedDeviceName
      else if utf16Length name > 255 then Some NameTooLong
      else None)"

definition LocalPathSegment_make :: "PathSegment \<Rightarrow> LocalPlatform \<Rightarrow> PathError + LocalPathSegment" where
  "LocalPathSegment_make segment platform =
     (case (if platform = Windows then windowsRejection (segment_value segment) else None) of
        Some r \<Rightarrow> Inl \<lparr>reason = r, input = segment_value segment\<rparr>
      | None \<Rightarrow> Inr (LocalPathSegment segment))"

definition LocalPathSegment_makeText :: "string \<Rightarrow> LocalPlatform \<Rightarrow> PathError + LocalPathSegment" where
  "LocalPathSegment_makeText utf8 platform =
     (case PathSegment_make utf8 of Inl e \<Rightarrow> Inl e | Inr segment \<Rightarrow> LocalPathSegment_make segment platform)"

definition localRejectionOf :: "string \<Rightarrow> LocalPlatform \<Rightarrow> PathRejection option" where
  "localRejectionOf utf8 platform =
     (case segmentRejectionOf utf8 of
        Some r \<Rightarrow> Some r
      | None \<Rightarrow> if platform = Windows then windowsRejection utf8 else None)"

subsection \<open>The invariants\<close>

definition valid_segment :: "string \<Rightarrow> bool" where
  "valid_segment s \<longleftrightarrow> segmentRejectionOf s = None"

definition valid_relative :: "RelativePath \<Rightarrow> bool" where
  "valid_relative r \<longleftrightarrow> (\<forall>p \<in> set (rel_segmentViews r). valid_segment p)"

lemma valid_segment_iff:
  "valid_segment s \<longleftrightarrow> s \<noteq> [] \<and> s \<noteq> ''.'' \<and> s \<noteq> ''..'' \<and> slash \<notin> set s \<and> CHR 0x00 \<notin> set s \<and> isValidUtf8 s"
  by (auto simp: valid_segment_def segmentRejectionOf_def string_simps)

lemma valid_segment_slash: "valid_segment s \<Longrightarrow> slash \<notin> set s"
  by (simp add: valid_segment_iff)

lemma valid_segment_nonempty: "valid_segment s \<Longrightarrow> s \<noteq> []"
  by (simp add: valid_segment_iff)

lemma not_valid_Nil [simp]: "\<not> valid_segment []"
  by (simp add: valid_segment_def segmentRejectionOf_def)

lemma firstRejection_None: "firstRejection f ps = None \<longleftrightarrow> (\<forall>p \<in> set ps. f p = None)"
  by (induction ps) (auto split: option.splits)

subsection \<open>Text operations on joined names\<close>

abbreviation valid_names :: "string list \<Rightarrow> bool" where
  "valid_names ps \<equiv> \<forall>p \<in> set ps. valid_segment p"

lemma splitAtSlashes_join [path_simps]: "valid_names ps \<Longrightarrow> splitAtSlashes (join_slash ps) = ps"
proof (cases "ps = []")
  case False
  assume v: "valid_names ps"
  with False have "join_slash ps \<noteq> []" by (auto simp: join_slash_empty)
  with False v show ?thesis by (simp add: splitAtSlashes_def split_join valid_segment_slash)
qed (simp add: splitAtSlashes_def)

lemma join_splitAtSlashes [path_simps]: "join_slash (splitAtSlashes s) = s"
  by (simp add: splitAtSlashes_def join_split)

lemma last_join:
  "valid_names ps \<Longrightarrow> ps \<noteq> [] \<Longrightarrow> join_slash ps \<noteq> [] \<and> last (join_slash ps) \<noteq> slash"
proof (induction ps rule: join_slash.induct)
  case (2 p)
  then have "p \<noteq> []" "slash \<notin> set p" by (auto simp: valid_segment_slash)
  then show ?case by (metis join_slash.simps(2) last_in_set)
qed (auto simp: join_slash_empty)

lemma appendSegment_join [path_simps]:
  "valid_names ps \<Longrightarrow> qs \<noteq> [] \<Longrightarrow> appendSegment (join_slash ps) (join_slash qs) = join_slash (ps @ qs)"
  using last_join [of ps] by (cases "ps = []") (simp_all add: appendSegment_def join_slash_append)

lemma appendSegment_single:
  "valid_names ps \<Longrightarrow> appendSegment (join_slash ps) s = join_slash (ps @ [s])"
  using appendSegment_join [of ps "[s]"] by simp

lemma rfind_join [path_simps]:
  assumes "valid_names ps" and "ps \<noteq> []"
  shows "rfind_char slash (join_slash ps) =
    (if butlast ps = [] then None else Some (length (join_slash (butlast ps))))"
proof -
  have l: "slash \<notin> set (last ps)" using assms by (simp add: valid_segment_slash)
  have ps: "ps = butlast ps @ [last ps]" using assms by simp
  show ?thesis
  proof (cases "butlast ps = []")
    case True
    with ps have "ps = [last ps]" by simp
    then have "join_slash ps = last ps" by (metis join_slash.simps(2))
    with True l show ?thesis by (simp add: rfind_char_None)
  next
    case False
    then have "join_slash ps = join_slash (butlast ps) @ slash # last ps"
      using ps by (metis join_slash.simps(2) join_slash_append list.distinct(1))
    with False l show ?thesis by (simp add: rfind_char_append)
  qed
qed

lemma join_butlast:
  "ps \<noteq> [] \<Longrightarrow> butlast ps \<noteq> [] \<Longrightarrow> join_slash ps = join_slash (butlast ps) @ slash # last ps"
  by (metis append_butlast_last_id join_slash.simps(2) join_slash_append list.distinct(1))

lemma join_single: "ps \<noteq> [] \<Longrightarrow> butlast ps = [] \<Longrightarrow> join_slash ps = last ps"
  by (cases ps rule: join_slash.cases) (auto split: if_splits)

lemma lastSegment_join [path_simps]: "valid_names ps \<Longrightarrow> ps \<noteq> [] \<Longrightarrow> lastSegment (join_slash ps) = last ps"
  using valid_segment_slash [of "last ps"] rfind_char_None [of slash "last ps"]
  by (cases "butlast ps = []") (simp_all add: lastSegment_def rfind_char_append join_single join_butlast)

lemma within_text_iff:
  "(v = b \<or> length v > length b \<and> starts_with v b \<and> v ! length b = c) \<longleftrightarrow> v = b \<or> (\<exists>r. v = b @ c # r)"
proof -
  have "length v > length b \<and> starts_with v b \<and> v ! length b = c \<longleftrightarrow> (\<exists>r. v = b @ c # r)"
    unfolding starts_with_def
    by (metis append_eq_conv_conj id_take_nth_drop length_append length_Cons less_add_Suc1 add_Suc_right nth_append_length)
  then show ?thesis by simp
qed

lemma within_prefix: "(v = b \<or> (\<exists>r. v = b @ slash # r)) \<longleftrightarrow> prefix (split_slash b) (split_slash v)"
proof
  assume "v = b \<or> (\<exists>r. v = b @ slash # r)"
  then show "prefix (split_slash b) (split_slash v)" by (auto simp: split_slash_append)
next
  assume "prefix (split_slash b) (split_slash v)"
  then obtain rs where rs: "split_slash v = split_slash b @ rs" by (auto simp: prefix_def)
  then have "v = join_slash (split_slash b @ rs)" by (metis join_split)
  then show "v = b \<or> (\<exists>r. v = b @ slash # r)"
    by (cases "rs = []") (auto simp: join_split join_slash_append)
qed

subsection \<open>The relative path as a list of names\<close>

definition relative_of :: "string list \<Rightarrow> RelativePath" where
  "relative_of ps = RelativePath (join_slash ps)"

lemma views_relative_of [path_simps]: "valid_names ps \<Longrightarrow> rel_segmentViews (relative_of ps) = ps"
  by (simp add: rel_segmentViews_def relative_of_def path_simps)

lemma relative_of_views [path_simps]: "relative_of (rel_segmentViews r) = r"
  by (cases r) (simp add: rel_segmentViews_def relative_of_def path_simps)

lemma valid_relative_of [path_simps]: "valid_names ps \<Longrightarrow> valid_relative (relative_of ps)"
  by (simp add: valid_relative_def path_simps)

lemma rel_empty_iff: "valid_names ps \<Longrightarrow> rel_empty (relative_of ps) \<longleftrightarrow> ps = []"
  by (auto simp: rel_empty_def relative_of_def join_slash_empty)

lemma RelativePath_make_iff: "RelativePath_make s = Inr r \<longleftrightarrow> r = RelativePath s \<and> valid_relative r"
proof -
  have "hd s = slash \<Longrightarrow> s \<noteq> [] \<Longrightarrow> \<not> valid_relative (RelativePath s)"
    by (cases s) (simp_all add: splitAtSlashes_def valid_relative_def rel_segmentViews_def)
  moreover have "valid_relative (RelativePath [])"
    by (simp add: splitAtSlashes_def valid_relative_def rel_segmentViews_def)
  moreover have "firstRejection segmentRejectionOf (splitAtSlashes s) = None \<longleftrightarrow> valid_relative (RelativePath s)"
    by (simp add: firstRejection_None valid_relative_def rel_segmentViews_def valid_segment_def)
  ultimately show ?thesis
    by (auto simp: RelativePath_make_def split: option.splits)
qed

lemma rel_operations:
  assumes "valid_names ps" and "valid_names qs"
  shows "valid_segment s \<Longrightarrow> rel_div_segment (relative_of ps) (PathSegment s) = relative_of (ps @ [s])"
    and "rel_div (relative_of ps) (relative_of qs) = relative_of (ps @ qs)"
    and "rel_parent (relative_of ps) = (if ps = [] then None else Some (relative_of (butlast ps)))"
    and "rel_leaf (relative_of ps) = (if ps = [] then None else Some (PathSegment (last ps)))"
    and "rel_isWithin (relative_of ps) (relative_of qs) \<longleftrightarrow> prefix qs ps"
proof -
  show "valid_segment s \<Longrightarrow> rel_div_segment (relative_of ps) (PathSegment s) = relative_of (ps @ [s])"
    using assms by (simp add: rel_div_segment_def relative_of_def appendSegment_single)
  show "rel_div (relative_of ps) (relative_of qs) = relative_of (ps @ qs)"
    using assms rel_empty_iff [of qs]
    by (cases "qs = []") (simp_all add: rel_div_def relative_of_def appendSegment_join)
  show "rel_parent (relative_of ps) = (if ps = [] then None else Some (relative_of (butlast ps)))"
    using assms rel_empty_iff [of ps] rfind_join [of ps]
    by (cases "butlast ps = []") (auto simp: rel_parent_def relative_of_def join_butlast)
  show "rel_leaf (relative_of ps) = (if ps = [] then None else Some (PathSegment (last ps)))"
    using assms rel_empty_iff [of ps] by (simp add: rel_leaf_def relative_of_def lastSegment_join)
  show "rel_isWithin (relative_of ps) (relative_of qs) \<longleftrightarrow> prefix qs ps"
  proof (cases "qs = []")
    case False
    then have "rel_isWithin (relative_of ps) (relative_of qs) \<longleftrightarrow>
        prefix (split_slash (join_slash qs)) (split_slash (join_slash ps))"
      using assms(2) by (simp add: rel_isWithin_def rel_empty_iff within_prefix [symmetric] within_text_iff [symmetric])
        (simp add: relative_of_def)
    moreover have "split_slash (join_slash qs) = qs" using False assms by (simp add: split_join valid_segment_slash)
    moreover have "prefix qs (split_slash (join_slash ps)) \<longleftrightarrow> prefix qs ps"
    proof (cases "ps = []")
      case True
      with False assms(2) show ?thesis by (auto simp: prefix_Cons)
    qed (use assms in \<open>simp add: split_join valid_segment_slash\<close>)
    ultimately show ?thesis by simp
  qed (simp add: rel_isWithin_def rel_empty_def relative_of_def)
qed

lemma valid_relative_obtain:
  assumes "valid_relative r"
  obtains ps where "r = relative_of ps" "valid_names ps" "rel_segmentViews r = ps"
  using assms relative_of_views [of r] by (metis valid_relative_def)

subsection \<open>Error texts\<close>

lemma ascii_bytes: "(of_char c :: nat) < 128 \<Longrightarrow> utf8_bytes (of_char c) = [c]"
  by (simp add: utf8_bytes_arith isScalarValue_def)

lemma valid_ascii_Cons [string_simps]: "(of_char c :: nat) < 128 \<Longrightarrow> isValidUtf8 (c # s) = isValidUtf8 s"
  using utf8_bytes_valid [of "of_char c" s] by (simp add: ascii_bytes)

lemma valid_append [string_simps]: "isValidUtf8 a \<Longrightarrow> isValidUtf8 (a @ b) = isValidUtf8 b"
  by (induction a rule: utf8_text_induct) (auto simp: loops_at_bad)

lemma valid_all_ascii: "(\<And>c. c \<in> set s \<Longrightarrow> (of_char c :: nat) < 128) \<Longrightarrow> isValidUtf8 s"
  by (induction s) (simp_all add: valid_ascii_Cons)

lemma hex_digit_ascii: "n < 16 \<Longrightarrow> (of_char (hex_digit n) :: nat) < 128"
proof -
  assume "n < 16"
  then have "hex_digit n \<in> set ''0123456789ABCDEF''" unfolding hex_digit_def by (intro nth_mem) simp
  moreover have "\<forall>c \<in> set ''0123456789ABCDEF''. (of_char c :: nat) < 128" by simp
  ultimately show ?thesis by blast
qed

lemma hex_escape_valid: "byte < 256 \<Longrightarrow> isValidUtf8 (hex_escape byte)"
  by (simp add: hex_escape_def valid_ascii_Cons hex_digit_ascii)

lemma printable_shift: "printableFrom (p @ s) (length p + i) = printableFrom s i"
proof (induction s i rule: printableFrom.induct)
  case (1 s i)
  then show ?case
    by (simp add: printableFrom.simps [of "p @ s" "length p + i"] printableFrom.simps [of s i]
        seq_length_shift byte_at_shift Let_def add.assoc)
qed

lemma printable_valid: "isValidUtf8 (printableFrom s 0)"
proof (induction s rule: utf8_text_induct)
  case (scalar c r)
  let ?b = "utf8_bytes c"
  have at: "utf8SequenceLength (?b @ r) 0 = length ?b" "0 < length ?b"
    using scalar(1) utf8_bytes_length(1) [of c] by (simp_all add: seq_at_start)
  have "printableFrom (?b @ r) (length ?b) = printableFrom r 0" using printable_shift [of ?b r 0] by simp
  moreover have "length ?b = 1" if "byte_at (?b @ r) 0 < 0x80"
    using that at by (simp add: utf8SequenceLength_arith)
  moreover have "isValidUtf8 ?b" using utf8_bytes_valid [of c "[]"] by simp
  ultimately show ?case
    using scalar(2) at hex_escape_valid [of "byte_at (?b @ r) 0"]
    by (subst printableFrom.simps) (auto simp: Let_def valid_append)
next
  case (bad b r)
  have "printableFrom (b # r) 1 = printableFrom r 0" using printable_shift [of "[b]" r 0] by simp
  then show ?case
    using bad hex_escape_valid [of "byte_at (b # r) 0"]
    by (subst printableFrom.simps) (simp add: Let_def valid_append)
qed (subst printableFrom.simps, simp)

lemma rejectionText_valid: "isValidUtf8 (rejectionText r)"
  by (cases r) (simp_all add: valid_ascii_Cons)

subsection \<open>Properties\<close>

text \<open>\<open>RelativePath::make\<close> accepts exactly the texts whose parts are all valid names, and keeps the text.\<close>

lemma relative_make_exact:
  "RelativePath_make s = Inr r \<longleftrightarrow>
     r = RelativePath s \<and>
     (\<forall>p \<in> set (splitAtSlashes s). p \<noteq> [] \<and> p \<noteq> ''.'' \<and> p \<noteq> ''..'' \<and> CHR 0x00 \<notin> set p \<and> isValidUtf8 p)"
  using split_slash_parts [of _ s]
  by (auto simp: RelativePath_make_iff valid_relative_def rel_segmentViews_def valid_segment_iff splitAtSlashes_def)

text \<open>
  The relative path refines a list of names: joining appends the lists, the parent drops the last name, the leaf
  is the last name, and \<open>isWithin\<close> is the prefix order on the names, not on the characters.\<close>
theorem relative_path_refines_names:
  assumes "valid_relative r" and "valid_relative q"
  shows "valid_relative (rel_div r q) \<and>
    rel_segmentViews (rel_div r q) = rel_segmentViews r @ rel_segmentViews q \<and>
    map_option rel_segmentViews (rel_parent r) =
      (if rel_segmentViews r = [] then None else Some (butlast (rel_segmentViews r))) \<and>
    map_option segment_value (rel_leaf r) =
      (if rel_segmentViews r = [] then None else Some (last (rel_segmentViews r))) \<and>
    (rel_isWithin r q \<longleftrightarrow> prefix (rel_segmentViews q) (rel_segmentViews r))"
proof -
  obtain ps where ps: "r = relative_of ps" "valid_names ps" "rel_segmentViews r = ps"
    using assms(1) by (rule valid_relative_obtain)
  obtain qs where qs: "q = relative_of qs" "valid_names qs" "rel_segmentViews q = qs"
    using assms(2) by (rule valid_relative_obtain)
  have "valid_names (ps @ qs)" "valid_names (butlast ps)" using ps(2) qs(2) by (auto dest: in_set_butlastD)
  then show ?thesis
    unfolding ps(3) qs(3) unfolding ps(1) qs(1)
    using rel_operations [OF ps(2) qs(2)] by (simp add: views_relative_of valid_relative_of)
qed

theorem relative_path_refines_names_witness:
  "rel_segmentViews (rel_div (RelativePath ''a/b'') (RelativePath ''c'')) = [''a'', ''b'', ''c'']"
proof -
  have "valid_relative (RelativePath ''a/b'')" "valid_relative (RelativePath ''c'')"
    by (simp_all add: valid_relative_def rel_segmentViews_def splitAtSlashes_def valid_segment_iff valid_ascii_Cons)
  from relative_path_refines_names [OF this] show ?thesis
    by (simp add: rel_segmentViews_def splitAtSlashes_def)
qed

text \<open>
  The text of a path error is always valid UTF-8, whatever bytes the refused input holds.\<close>
theorem error_text_valid_utf8: "isValidUtf8 (PathError_toString e)"
  using printable_valid [of "input e"]
  by (simp add: PathError_toString_def string_simps rejectionText_valid)

lemma upper_dot: "upper_ascii c \<noteq> CHR ''.'' \<Longrightarrow> c \<noteq> CHR ''.''"
  by (auto simp: upper_ascii_def)

text \<open>
  On Windows a device name is refused in any letter case, with any number of spaces after it and with any extension,
  like "nul", "CON .log" or "Aux.tar.gz".\<close>
theorem device_names_refused:
  assumes "map upper_ascii d \<in> {''CON'', ''PRN'', ''AUX'', ''NUL'', ''CONIN$'', ''CONOUT$''}"
    and "ext = [] \<or> hd ext = CHR ''.''"
  shows "localRejectionOf (d @ replicate n (CHR '' '') @ ext) Windows \<noteq> None"
proof -
  let ?name = "d @ replicate n (CHR '' '') @ ext"
  have d: "CHR ''.'' \<notin> set d" "d \<noteq> []" "last d \<noteq> CHR '' ''"
  proof -
    have "CHR ''.'' \<notin> set (map upper_ascii d)" using assms(1) by auto
    moreover have "upper_ascii (CHR ''.'') = CHR ''.''" by (simp add: upper_ascii_def)
    ultimately show "CHR ''.'' \<notin> set d" by (metis image_eqI list.set_map)
    show ne: "d \<noteq> []" using assms(1) by auto
    have "last (map upper_ascii d) \<noteq> CHR '' ''" using assms(1) by auto
    moreover have "upper_ascii (CHR '' '') = CHR '' ''" by (simp add: upper_ascii_def)
    ultimately show "last d \<noteq> CHR '' ''" using ne by (metis last_map)
  qed
  have stem: "(case find_char CHR ''.'' ?name of None \<Rightarrow> ?name | Some i \<Rightarrow> take i ?name) = d @ replicate n (CHR '' '')"
  proof (cases ext)
    case Nil
    with d(1) have "find_char CHR ''.'' ?name = None" by (simp add: find_char_None)
    with Nil show ?thesis by simp
  next
    case (Cons c cs)
    with assms(2) d(1) have "find_char CHR ''.'' ((d @ replicate n (CHR '' '')) @ CHR ''.'' # cs) =
        Some (length (d @ replicate n (CHR '' '')))"
      by (intro find_char_append) simp
    with Cons assms(2) show ?thesis by simp
  qed
  have "dropWhile (\<lambda>c. c = CHR '' '') (replicate n (CHR '' '') @ rev d) = rev d"
    using d(2,3) by (induction n) (auto simp: hd_rev dropWhile_eq_self_iff)
  then have "isDeviceName ?name"
    using assms(1) unfolding isDeviceName_def stem by (simp add: Let_def)
  then show ?thesis
    by (simp add: localRejectionOf_def windowsRejection_def split: option.splits)
qed

theorem device_names_refused_witness: "localRejectionOf ''nUl  .txt'' Windows \<noteq> None"
proof -
  have "map upper_ascii ''nUl'' = ''NUL''" by code_simp
  then have "localRejectionOf (''nUl'' @ replicate 2 (CHR '' '') @ ''.txt'') Windows \<noteq> None"
    by (intro device_names_refused) simp_all
  then show ?thesis by (simp add: numeral_2_eq_2)
qed

end
