(* ===== verification/Scan_Tree.thy ===== *)
theory Scan_Tree
  imports Path_Segments
begin

text \<open>
  The scan tree: \<open>shared_data/directory_entry.hpp\<close>, \<open>sync/scan_node.hpp\<close>, \<open>file_operations/compared_state\<close> and
  \<open>findScanNode\<close>/\<open>comparedStateAt\<close> of \<open>sync/diff_tree_store.cpp\<close>. A \<open>ScanNode\<close> is a record of its plain fields and the
  list of its children. Sizes, times and subtree totals are \<open>64 word\<close>s.
\<close>

subsection \<open>Entries and nodes\<close>

datatype FileType =
  Unknown | Regular | Directory | Symlink | Special | Socket | CharDevice | BlockDevice | Fifo

fun fileTypeToString :: "FileType \<Rightarrow> string" where
  "fileTypeToString Regular = ''Regular File''"
| "fileTypeToString Directory = ''Directory''"
| "fileTypeToString Symlink = ''Symbolic Link''"
| "fileTypeToString Special = ''Special File''"
| "fileTypeToString Socket = ''Socket''"
| "fileTypeToString CharDevice = ''Character Device''"
| "fileTypeToString BlockDevice = ''Block Device''"
| "fileTypeToString Fifo = ''FIFO''"
| "fileTypeToString Unknown = ''Unknown''"

text \<open>A listed entry. The display fields (flags, owner and group names, access and creation times, acl) and the resolved
  target of a symlink play no role in a scan and are left out.\<close>

record DirectoryEntry =
  entry_name :: string
  entry_nameIsValidUtf8 :: bool
  entry_type :: FileType
  entry_size :: u64
  entry_uid :: u32
  entry_gid :: u32
  entry_permissions :: u32
  entry_mtime :: u64
  entry_mtimeNsec :: u32
  entry_linkTarget :: "string option"
  entry_parent :: "nat option"

definition entry_nameSegment :: "DirectoryEntry \<Rightarrow> PathError + PathSegment" where
  "entry_nameSegment e =
     (if \<not> entry_nameIsValidUtf8 e then Inl \<lparr>reason = InvalidUtf8, input = entry_name e\<rparr>
      else PathSegment_make (entry_name e))"

datatype Availability = Listed | Unreadable | Excluded | InvalidName

record ScanFields =
  scan_name :: string
  scan_type :: FileType
  scan_size :: u64
  scan_mtime :: u64
  scan_mtimeNsec :: u32
  scan_permissions :: u32
  scan_linkTarget :: "string option"
  scan_uid :: u32
  scan_gid :: u32
  subtreeFileCount :: u64
  subtreeByteTotal :: u64
  childrenKnown :: bool
  availability :: Availability

datatype ScanNode = ScanNode (scan_fields: ScanFields) (children: "ScanNode list")

abbreviation node_name :: "ScanNode \<Rightarrow> string" where "node_name n \<equiv> scan_name (scan_fields n)"
abbreviation node_type :: "ScanNode \<Rightarrow> FileType" where "node_type n \<equiv> scan_type (scan_fields n)"
abbreviation node_size :: "ScanNode \<Rightarrow> u64" where "node_size n \<equiv> scan_size (scan_fields n)"
abbreviation node_mtime :: "ScanNode \<Rightarrow> u64" where "node_mtime n \<equiv> scan_mtime (scan_fields n)"

subsection \<open>What a compare saw\<close>

record ComparedState =
  cs_exists :: bool
  cs_type :: FileType
  cs_size :: u64
  cs_mtime :: u64
  cs_linkTarget :: "string option"
  cs_mustStillExist :: bool

definition absent_state :: ComparedState where
  "absent_state = \<lparr>cs_exists = False, cs_type = Unknown, cs_size = 0, cs_mtime = 0, cs_linkTarget = None,
     cs_mustStillExist = False\<rparr>"

definition comparedStateOf :: "DirectoryEntry \<Rightarrow> ComparedState" where
  "comparedStateOf e = \<lparr>cs_exists = True, cs_type = entry_type e, cs_size = entry_size e, cs_mtime = entry_mtime e,
     cs_linkTarget = (if entry_type e = Symlink then entry_linkTarget e else None), cs_mustStillExist = False\<rparr>"

definition unchangedSinceCompare :: "ComparedState \<Rightarrow> ComparedState \<Rightarrow> bool" where
  "unchangedSinceCompare compared current =
     (if \<not> cs_exists compared then \<not> cs_exists current
      else if \<not> cs_exists current then \<not> cs_mustStillExist compared
      else if cs_type compared \<noteq> cs_type current then False
      else case cs_type compared of
          Directory \<Rightarrow> True
        | Symlink \<Rightarrow> cs_linkTarget compared = cs_linkTarget current
        | _ \<Rightarrow> cs_size compared = cs_size current \<and> cs_mtime compared = cs_mtime current)"

subsection \<open>Finding a node\<close>

text \<open>\<open>std::lower_bound\<close> on children sorted by name: the first child whose name is not less.\<close>

definition lowerBoundChild :: "ScanNode list \<Rightarrow> string \<Rightarrow> ScanNode option" where
  "lowerBoundChild nodes segment =
     (case dropWhile (\<lambda>n. node_name n < segment) nodes of [] \<Rightarrow> None | n # _ \<Rightarrow> Some n)"

function findScanNode :: "ScanNode \<Rightarrow> string \<Rightarrow> ScanNode option" where
  "findScanNode current relKey =
     (if relKey = [] then Some current
      else let i = find_char slash relKey;
               segment = (case i of None \<Rightarrow> relKey | Some k \<Rightarrow> take k relKey) in
        case lowerBoundChild (children current) segment of
          None \<Rightarrow> None
        | Some child \<Rightarrow> if node_name child \<noteq> segment then None
            else findScanNode child (case i of None \<Rightarrow> [] | Some k \<Rightarrow> drop (k + 1) relKey))"
  by pat_completeness auto
termination
  by (relation "measure (length \<circ> snd)") (auto split: option.splits)

declare findScanNode.simps [simp del]

definition comparedStateAt :: "ScanNode \<Rightarrow> string \<Rightarrow> ComparedState" where
  "comparedStateAt root relKey =
     (case findScanNode root relKey of
        None \<Rightarrow> absent_state
      | Some n \<Rightarrow> \<lparr>cs_exists = True, cs_type = node_type n, cs_size = node_size n, cs_mtime = node_mtime n,
          cs_linkTarget = (if node_type n = Symlink then scan_linkTarget (scan_fields n) else None),
          cs_mustStillExist = False\<rparr>)"

subsection \<open>Sorted trees and lookup by names\<close>

fun sorted_tree :: "ScanNode \<Rightarrow> bool" where
  "sorted_tree (ScanNode f cs) \<longleftrightarrow> sorted_wrt (<) (map node_name cs) \<and> list_all sorted_tree cs"

fun node_at :: "ScanNode \<Rightarrow> string list \<Rightarrow> ScanNode option" where
  "node_at n [] = Some n"
| "node_at n (name # names) =
     (case find (\<lambda>c. node_name c = name) (children n) of None \<Rightarrow> None | Some c \<Rightarrow> node_at c names)"

lemma lowerBound_find:
  "sorted_wrt (<) (map node_name cs) \<Longrightarrow>
     (case lowerBoundChild cs s of Some c \<Rightarrow> if node_name c \<noteq> s then None else Some c | None \<Rightarrow> None) =
     find (\<lambda>c. node_name c = s) cs"
proof (induction cs)
  case (Cons c cs)
  have "s < node_name c \<Longrightarrow> find (\<lambda>c. node_name c = s) cs = None"
    using Cons.prems by (auto simp: find_None_iff)
  then show ?case using Cons by (auto simp: lowerBoundChild_def split: list.splits)
qed (simp add: lowerBoundChild_def)

lemma sorted_child: "sorted_tree n \<Longrightarrow> find P (children n) = Some c \<Longrightarrow> sorted_tree c"
  by (cases n) (auto simp: find_Some_iff list_all_iff)

lemma findScanNode_names:
  "sorted_tree n \<Longrightarrow> \<forall>p \<in> set ps. p \<noteq> [] \<and> slash \<notin> set p \<Longrightarrow> findScanNode n (join_slash ps) = node_at n ps"
proof (induction ps arbitrary: n)
  case (Cons p ps)
  obtain f cs where n: "n = ScanNode f cs" by (cases n)
  then have look: "(case lowerBoundChild cs p of Some c \<Rightarrow> if node_name c \<noteq> p then None else Some c | None \<Rightarrow> None) =
      find (\<lambda>c. node_name c = p) cs"
    using Cons.prems(1) by (intro lowerBound_find) simp
  have p: "p \<noteq> []" "slash \<notin> set p" using Cons.prems(2) by auto
  have step: "findScanNode n (join_slash (p # ps)) =
      (case lowerBoundChild cs p of None \<Rightarrow> None
       | Some c \<Rightarrow> if node_name c \<noteq> p then None else findScanNode c (join_slash ps))"
  proof (cases ps)
    case Nil
    with p have "find_char slash (join_slash (p # ps)) = None" by (simp add: find_char_None)
    then show ?thesis using p Nil unfolding findScanNode.simps [of n] by (simp add: n split: option.split)
  next
    case (Cons q qs)
    then have j: "join_slash (p # ps) = p @ slash # join_slash ps" by simp
    with p have "find_char slash (join_slash (p # ps)) = Some (length p)" by (simp add: find_char_append)
    then show ?thesis using p unfolding findScanNode.simps [of n] by (simp add: j n split: option.split)
  qed
  show ?case
  proof (cases "find (\<lambda>c. node_name c = p) cs")
    case None
    with look have "(case lowerBoundChild cs p of Some c \<Rightarrow> if node_name c \<noteq> p then None else Some c | None \<Rightarrow> None) = None" by simp
    then show ?thesis unfolding step using None by (auto simp: n split: option.splits if_splits)
  next
    case (Some c)
    with look have "lowerBoundChild cs p = Some c \<and> node_name c = p" by (auto split: option.splits if_splits)
    moreover have "sorted_tree c" using sorted_child [OF Cons.prems(1)] Some by (simp add: n)
    ultimately show ?thesis unfolding step using Some Cons.IH [of c] Cons.prems(2) by (simp add: n)
  qed
qed (simp add: findScanNode.simps)

subsection \<open>Properties\<close>

text \<open>
  On a sorted tree the search by a key finds exactly the node its names lead to, or nothing when a name is
  missing, and what a compare records of the key is that node: a path seen absent stays unchanged only while it is
  absent, a node seen is unchanged with itself.\<close>
theorem findScanNode_exact:
  assumes "sorted_tree root" and "\<forall>p \<in> set ps. p \<noteq> [] \<and> slash \<notin> set p"
  shows "findScanNode root (join_slash ps) = node_at root ps \<and>
    (cs_exists (comparedStateAt root (join_slash ps)) \<longleftrightarrow> node_at root ps \<noteq> None) \<and>
    unchangedSinceCompare (comparedStateAt root (join_slash ps)) (comparedStateAt root (join_slash ps)) \<and>
    (unchangedSinceCompare (comparedStateAt root (join_slash ps)) (comparedStateOf e) \<longrightarrow>
       (\<exists>n. node_at root ps = Some n \<and> node_type n = entry_type e \<and>
          (entry_type e = Directory \<or> entry_type e = Symlink \<and> scan_linkTarget (scan_fields n) = entry_linkTarget e \<or>
           node_size n = entry_size e \<and> node_mtime n = entry_mtime e)))"
  using findScanNode_names [OF assms]
  by (auto simp: comparedStateAt_def comparedStateOf_def absent_state_def unchangedSinceCompare_def
      split: option.splits FileType.splits if_splits)

definition sample_leaf :: "string \<Rightarrow> ScanNode list \<Rightarrow> ScanNode" where
  "sample_leaf name cs = ScanNode \<lparr>scan_name = name, scan_type = (if cs = [] then Regular else Directory), scan_size = 0,
     scan_mtime = 0, scan_mtimeNsec = 0, scan_permissions = 0, scan_linkTarget = None, scan_uid = 0, scan_gid = 0,
     subtreeFileCount = 0, subtreeByteTotal = 0, childrenKnown = True, availability = Listed\<rparr> cs"

lemma findScanNode_exact_witness:
  "findScanNode (sample_leaf [] [sample_leaf ''a'' [sample_leaf ''b'' []], sample_leaf ''a-b'' []]) ''a/b'' =
     Some (sample_leaf ''b'' [])"
proof -
  let ?t = "sample_leaf [] [sample_leaf ''a'' [sample_leaf ''b'' []], sample_leaf ''a-b'' []]"
  have "sorted_tree ?t" by (simp add: sample_leaf_def)
  moreover have "\<forall>p \<in> set [''a'', ''b'']. p \<noteq> [] \<and> slash \<notin> set p" by simp
  ultimately have "findScanNode ?t (join_slash [''a'', ''b'']) = node_at ?t [''a'', ''b'']"
    using findScanNode_exact by blast
  then show ?thesis by (simp add: sample_leaf_def)
qed

end
