(* ===== verification/Tree_Walker.thy ===== *)
theory Tree_Walker
  imports Scan_Tree "HOL-Library.Multiset"
begin

text \<open>
  \<open>shared_data/sync/tree_directory_walker.hpp\<close>: the breadth first walk that builds a sorted scan tree from a scanner of
  single directories. The scanner (a server or a disk) is a parameter; a queued pointer to a node is the list of child
  indices leading to it, which the walker keeps valid because a child list is final once it is assigned. Names that sort
  equally keep the order of the listing here, \<open>std::sort\<close> leaves it open.
\<close>

subsection \<open>The walker of the source\<close>

record 'e WalkConfig =
  scanner :: "RelativePath \<Rightarrow> 'e + DirectoryEntry list"
  recursive_walk :: bool
  isUnreadable :: "('e \<Rightarrow> bool) option"
  requireLocalNames :: bool
  excludedSuffixes :: "string list"
  walk_platform :: LocalPlatform

record QueuedDir =
  queued_node :: "nat list"
  queued_path :: RelativePath
  queued_depth :: nat

record TreeWalker =
  walk_root :: ScanNode
  walk_queue :: "QueuedDir list"
  totalEntries :: nat
  totalBytes :: u64
  currentIndex :: nat

definition isTransferable :: "FileType \<Rightarrow> bool" where
  "isTransferable t \<longleftrightarrow> t = Regular \<or> t = Directory \<or> t = Symlink"

definition nameAvailability :: "'e WalkConfig \<Rightarrow> DirectoryEntry \<Rightarrow> Availability" where
  "nameAvailability cfg e =
     (case entry_nameSegment e of
        Inl _ \<Rightarrow> InvalidName
      | Inr segment \<Rightarrow>
          if requireLocalNames cfg \<and> (case LocalPathSegment_make segment (walk_platform cfg) of Inl _ \<Rightarrow> True | Inr _ \<Rightarrow> False)
          then InvalidName
          else let isTempFile = list_ex (\<lambda>sfx. sfx \<noteq> [] \<and> length (entry_name e) > length sfx \<and>
                      ends_with (entry_name e) sfx) (excludedSuffixes cfg) in
            if isTransferable (entry_type e) \<and> \<not> isTempFile then Listed else Excluded)"

definition default_fields :: ScanFields where
  "default_fields = \<lparr>scan_name = [], scan_type = Unknown, scan_size = 0, scan_mtime = 0, scan_mtimeNsec = 0,
     scan_permissions = 0xFFFF, scan_linkTarget = None, scan_uid = 0, scan_gid = 0, subtreeFileCount = 0,
     subtreeByteTotal = 0, childrenKnown = True, availability = Listed\<rparr>"

definition makeNode :: "'e WalkConfig \<Rightarrow> DirectoryEntry \<Rightarrow> ScanNode" where
  "makeNode cfg raw = ScanNode \<lparr>scan_name = entry_name raw, scan_type = entry_type raw, scan_size = entry_size raw,
     scan_mtime = entry_mtime raw, scan_mtimeNsec = entry_mtimeNsec raw, scan_permissions = entry_permissions raw,
     scan_linkTarget = entry_linkTarget raw, scan_uid = entry_uid raw, scan_gid = entry_gid raw,
     subtreeFileCount = 0, subtreeByteTotal = 0,
     childrenKnown = (recursive_walk cfg \<or> entry_type raw \<noteq> Directory),
     availability = nameAvailability cfg raw\<rparr> []"

definition makeChildren :: "'e WalkConfig \<Rightarrow> DirectoryEntry list \<Rightarrow> ScanNode list" where
  "makeChildren cfg raw = sort_key node_name (map (makeNode cfg) raw)"

definition TreeWalker_new :: TreeWalker where
  "TreeWalker_new = \<lparr>walk_root = ScanNode (default_fields\<lparr>scan_type := Directory, childrenKnown := True\<rparr>) [],
     walk_queue = [\<lparr>queued_node = [], queued_path = RelativePath [], queued_depth = 0\<rparr>],
     totalEntries = 1, totalBytes = 0, currentIndex = 0\<rparr>"

definition walker_completed :: "TreeWalker \<Rightarrow> bool" where
  "walker_completed w \<longleftrightarrow> walk_queue w = []"

text \<open>Access through a queued pointer.\<close>

fun at_pointer :: "ScanNode \<Rightarrow> nat list \<Rightarrow> ScanNode option" where
  "at_pointer n [] = Some n"
| "at_pointer n (i # is) = (if i < length (children n) then at_pointer (children n ! i) is else None)"

fun update_pointer :: "(ScanNode \<Rightarrow> ScanNode) \<Rightarrow> nat list \<Rightarrow> ScanNode \<Rightarrow> ScanNode" where
  "update_pointer g [] n = g n"
| "update_pointer g (i # is) (ScanNode f cs) =
     ScanNode f (if i < length cs then cs[i := update_pointer g is (cs ! i)] else cs)"

definition markUnreadable :: "ScanNode \<Rightarrow> ScanNode" where
  "markUnreadable n = ScanNode ((scan_fields n)\<lparr>availability := Unreadable, childrenKnown := False\<rparr>) (children n)"

definition assignChildren :: "ScanNode list \<Rightarrow> ScanNode \<Rightarrow> ScanNode" where
  "assignChildren cs n = ScanNode (scan_fields n) cs"

definition isWalkedChild :: "ScanNode \<Rightarrow> bool" where
  "isWalkedChild c \<longleftrightarrow> node_type c = Directory \<and> availability (scan_fields c) = Listed"

definition queueChildren :: "QueuedDir \<Rightarrow> ScanNode list \<Rightarrow> QueuedDir list" where
  "queueChildren pending cs =
     map (\<lambda>i. \<lparr>queued_node = queued_node pending @ [i],
               queued_path = rel_div_segment (queued_path pending) (PathSegment (node_name (cs ! i))),
               queued_depth = queued_depth pending + 1\<rparr>)
       (filter (\<lambda>i. isWalkedChild (cs ! i)) [0..<length cs])"

definition walker_walk :: "'e WalkConfig \<Rightarrow> TreeWalker \<Rightarrow> ('e + bool) \<times> TreeWalker" where
  "walker_walk cfg w =
     (case walk_queue w of
        [] \<Rightarrow> (Inr True, w)
      | pending # queue \<Rightarrow>
          let w = w\<lparr>walk_queue := queue\<rparr> in
          case scanner cfg (queued_path pending) of
            Inl e \<Rightarrow>
              if \<not> queued_depth pending > 0 \<or> (case isUnreadable cfg of None \<Rightarrow> True | Some accepts \<Rightarrow> \<not> accepts e)
              then (Inl e, w)
              else let w = w\<lparr>walk_root := update_pointer markUnreadable (queued_node pending) (walk_root w),
                             currentIndex := currentIndex w + 1\<rparr> in (Inr (walk_queue w = []), w)
          | Inr listing \<Rightarrow>
              let rawChildren = filter (\<lambda>e. entry_name e \<noteq> ''.'' \<and> entry_name e \<noteq> ''..'') listing;
                  cs = makeChildren cfg rawChildren;
                  w = w\<lparr>totalBytes := totalBytes w +
                          sum_list (map (\<lambda>e. if entry_type e = Regular then entry_size e else 0) rawChildren),
                        totalEntries := totalEntries w + length rawChildren,
                        walk_root := update_pointer (assignChildren cs) (queued_node pending) (walk_root w),
                        walk_queue := (if recursive_walk cfg then queue @ queueChildren pending cs else queue),
                        currentIndex := currentIndex w + 1\<rparr> in
              (Inr (walk_queue w = []), w))"

partial_function (option) walker_walkAll :: "'e WalkConfig \<Rightarrow> TreeWalker \<Rightarrow> (('e + unit) \<times> TreeWalker) option" where
  "walker_walkAll cfg w =
     (case walker_walk cfg w of
        (Inl e, w') \<Rightarrow> Some (Inl e, w')
      | (Inr finished, w') \<Rightarrow> if finished then Some (Inr (), w') else walker_walkAll cfg w')"

fun finalizeCounts :: "ScanNode \<Rightarrow> ScanNode" where
  "finalizeCounts (ScanNode f cs) =
     (let cs' = map (\<lambda>c. if availability (scan_fields c) = Listed \<and> node_type c = Directory then finalizeCounts c else c) cs;
          counted = filter (\<lambda>c. availability (scan_fields c) = Listed) cs' in
      ScanNode (f\<lparr>subtreeFileCount := sum_list (map (\<lambda>c. if node_type c = Directory
                    then subtreeFileCount (scan_fields c) else 1) counted),
                  subtreeByteTotal := sum_list (map (\<lambda>c. if node_type c = Directory
                    then subtreeByteTotal (scan_fields c) else node_size c) counted)\<rparr>) cs')"

definition ejectTree :: "TreeWalker \<Rightarrow> ScanNode" where
  "ejectTree w = finalizeCounts (walk_root w)"

definition walker_reset :: "TreeWalker \<Rightarrow> TreeWalker" where
  "walker_reset w = TreeWalker_new"

subsection \<open>The scan as a recursion on directories\<close>

text \<open>What a scan of the directory \<open>path\<close> should build, without a queue: the children in order, each listed directory
  among them scanned in turn, or the mark of an unreadable directory.\<close>

definition listed_children :: "'e WalkConfig \<Rightarrow> DirectoryEntry list \<Rightarrow> ScanNode list" where
  "listed_children cfg listing =
     makeChildren cfg (filter (\<lambda>e. entry_name e \<noteq> ''.'' \<and> entry_name e \<noteq> ''..'') listing)"

definition child_path :: "RelativePath \<Rightarrow> ScanNode \<Rightarrow> RelativePath" where
  "child_path path c = rel_div_segment path (PathSegment (node_name c))"

definition toleratedError :: "'e WalkConfig \<Rightarrow> nat \<Rightarrow> 'e \<Rightarrow> bool" where
  "toleratedError cfg depth e \<longleftrightarrow> depth > 0 \<and> (case isUnreadable cfg of None \<Rightarrow> False | Some accepts \<Rightarrow> accepts e)"

inductive scans_to :: "'e WalkConfig \<Rightarrow> RelativePath \<Rightarrow> nat \<Rightarrow> ScanFields \<Rightarrow> ScanNode \<Rightarrow> bool" for cfg where
  unreadable: "scanner cfg path = Inl e \<Longrightarrow> toleratedError cfg depth e \<Longrightarrow>
     scans_to cfg path depth f (markUnreadable (ScanNode f []))"
| listed: "scanner cfg path = Inr listing \<Longrightarrow> cs = listed_children cfg listing \<Longrightarrow> length ds = length cs \<Longrightarrow>
     (\<And>i. i < length cs \<Longrightarrow> recursive_walk cfg \<and> isWalkedChild (cs ! i) \<Longrightarrow>
        scans_to cfg (child_path path (cs ! i)) (depth + 1) (scan_fields (cs ! i)) (ds ! i)) \<Longrightarrow>
     (\<And>i. i < length cs \<Longrightarrow> \<not> (recursive_walk cfg \<and> isWalkedChild (cs ! i)) \<Longrightarrow> ds ! i = cs ! i) \<Longrightarrow>
     scans_to cfg path depth f (ScanNode f ds)"

inductive_cases scans_to_cases: "scans_to cfg path depth f n"

text \<open>A partially built tree: positions in the queue \<open>Q\<close> are still to be scanned.\<close>

definition untouched :: "QueuedDir set \<Rightarrow> nat list \<Rightarrow> bool" where
  "untouched Q pos \<longleftrightarrow> (\<forall>q \<in> Q. \<not> prefix (queued_node q) pos)"

inductive scanned :: "'e WalkConfig \<Rightarrow> QueuedDir set \<Rightarrow> nat list \<Rightarrow> RelativePath \<Rightarrow> nat \<Rightarrow> ScanFields \<Rightarrow> ScanNode \<Rightarrow> bool"
  for cfg Q where
  pending: "\<lparr>queued_node = pos, queued_path = path, queued_depth = depth\<rparr> \<in> Q \<Longrightarrow>
     scanned cfg Q pos path depth f (ScanNode f [])"
| unreadable: "untouched Q pos \<Longrightarrow> scanner cfg path = Inl e \<Longrightarrow> toleratedError cfg depth e \<Longrightarrow>
     scanned cfg Q pos path depth f (markUnreadable (ScanNode f []))"
| listed: "untouched Q pos \<Longrightarrow> scanner cfg path = Inr listing \<Longrightarrow> cs = listed_children cfg listing \<Longrightarrow>
     length ds = length cs \<Longrightarrow>
     (\<And>i. i < length cs \<Longrightarrow> recursive_walk cfg \<and> isWalkedChild (cs ! i) \<Longrightarrow>
        scanned cfg Q (pos @ [i]) (child_path path (cs ! i)) (depth + 1) (scan_fields (cs ! i)) (ds ! i)) \<Longrightarrow>
     (\<And>i. i < length cs \<Longrightarrow> \<not> (recursive_walk cfg \<and> isWalkedChild (cs ! i)) \<Longrightarrow>
        ds ! i = cs ! i \<and> (\<forall>q \<in> Q. \<not> prefix (pos @ [i]) (queued_node q))) \<Longrightarrow>
     scanned cfg Q pos path depth f (ScanNode f ds)"

lemma scanned_done: "scanned cfg {} pos path depth f n \<Longrightarrow> scans_to cfg path depth f n"
proof (induction rule: scanned.induct)
  case (listed pos path listing cs ds depth f)
  show ?case
    by (rule scans_to.listed [OF listed.hyps(2,3,4)]) (use listed.IH listed.hyps(5,6) in simp_all)
qed (auto intro: scans_to.intros)

definition independent :: "QueuedDir list \<Rightarrow> bool" where
  "independent Q \<longleftrightarrow>
     sorted_wrt (\<lambda>p q. \<not> prefix (queued_node p) (queued_node q) \<and> \<not> prefix (queued_node q) (queued_node p)) Q"

text \<open>Scanning the directory at the head of the queue.\<close>

definition processed :: "'e WalkConfig \<Rightarrow> QueuedDir \<Rightarrow> QueuedDir list \<Rightarrow> (ScanNode \<Rightarrow> ScanNode) \<Rightarrow> QueuedDir list \<Rightarrow> bool" where
  "processed cfg p queue g new \<longleftrightarrow>
     (case scanner cfg (queued_path p) of
        Inl e \<Rightarrow> toleratedError cfg (queued_depth p) e \<and> g = markUnreadable \<and> new = []
      | Inr listing \<Rightarrow> g = assignChildren (listed_children cfg listing) \<and>
          new = (if recursive_walk cfg then queueChildren p (listed_children cfg listing) else []))"

lemma made_child: "c \<in> set (listed_children cfg listing) \<Longrightarrow> children c = []"
  by (auto simp: listed_children_def makeChildren_def makeNode_def)

lemma new_below: "processed cfg p queue g new \<Longrightarrow> q \<in> set new \<Longrightarrow> \<exists>i. queued_node q = queued_node p @ [i]"
  by (auto simp: processed_def queueChildren_def split: sum.splits if_splits)

lemma untouched_step:
  assumes "untouched (set (p # queue)) pos" and "processed cfg p queue g new"
  shows "untouched (set (queue @ new)) pos" and "\<not> prefix (queued_node p) pos"
proof -
  show np: "\<not> prefix (queued_node p) pos" using assms(1) by (simp add: untouched_def)
  have "\<not> prefix (queued_node q) pos" if "q \<in> set new" for q
    using new_below [OF assms(2) that] np append_prefixD by fastforce
  with assms(1) show "untouched (set (queue @ new)) pos" by (auto simp: untouched_def)
qed

lemma update_empty: "update_pointer g (i # is) (ScanNode f []) = ScanNode f []"
  by simp

lemma scan_step:
  assumes "scanned cfg Q pos path depth f n" and Q: "Q = set (p # queue)" and ind: "independent (p # queue)"
    and proc: "processed cfg p queue g new"
  shows "(\<forall>rel. queued_node p = pos @ rel \<longrightarrow>
      scanned cfg (set (queue @ new)) pos path depth f (update_pointer g rel n)) \<and>
    (\<not> prefix pos (queued_node p) \<longrightarrow> scanned cfg (set (queue @ new)) pos path depth f n)"
  using assms(1)
proof (induction rule: scanned.induct)
  case (pending pos path depth f)
  let ?q = "\<lparr>queued_node = pos, queued_path = path, queued_depth = depth\<rparr>"
  have queue: "\<not> prefix (queued_node p) (queued_node q) \<and> \<not> prefix (queued_node q) (queued_node p)" if "q \<in> set queue" for q
    using ind that by (simp add: independent_def)
  show ?case
  proof (cases "?q \<in> set queue")
    case True
    then have "\<not> prefix pos (queued_node p)" using queue [of ?q] by simp
    with True show ?thesis by (auto intro: scanned.pending)
  next
    case False
    then have p: "p = ?q" using pending Q by simp
    have un: "untouched (set (queue @ new)) pos"
      using queue new_below [OF proc] by (fastforce simp: untouched_def p)
    have "scanned cfg (set (queue @ new)) pos path depth f (g (ScanNode f []))"
    proof (cases "scanner cfg path")
      case (Inl e)
      then show ?thesis using proc un by (auto simp: processed_def p intro: scanned.unreadable)
    next
      case (Inr listing)
      let ?cs = "listed_children cfg listing"
      have g: "g (ScanNode f []) = ScanNode f ?cs" and new: "new = (if recursive_walk cfg then queueChildren p ?cs else [])"
        using proc Inr by (auto simp: processed_def p assignChildren_def)
      show ?thesis unfolding g
      proof (rule scanned.listed [OF un Inr refl refl])
        fix i assume i: "i < length ?cs" "recursive_walk cfg \<and> isWalkedChild (?cs ! i)"
        then have "\<lparr>queued_node = pos @ [i], queued_path = child_path path (?cs ! i), queued_depth = depth + 1\<rparr> \<in> set (queue @ new)"
          by (auto simp: new queueChildren_def p child_path_def)
        then have "scanned cfg (set (queue @ new)) (pos @ [i]) (child_path path (?cs ! i)) (depth + 1)
            (scan_fields (?cs ! i)) (ScanNode (scan_fields (?cs ! i)) [])" by (rule scanned.pending)
        moreover have "ScanNode (scan_fields (?cs ! i)) [] = ?cs ! i"
          using made_child [OF nth_mem [OF i(1)]] by (metis ScanNode.collapse)
        ultimately show "scanned cfg (set (queue @ new)) (pos @ [i]) (child_path path (?cs ! i)) (depth + 1)
            (scan_fields (?cs ! i)) (?cs ! i)" by simp
      next
        fix i assume i: "i < length ?cs" "\<not> (recursive_walk cfg \<and> isWalkedChild (?cs ! i))"
        have "\<not> prefix (pos @ [i]) (queued_node q)" if "q \<in> set queue" for q
          using queue [OF that] append_prefixD [of pos "[i]" "queued_node q"] by (auto simp: p)
        moreover have "\<not> prefix (pos @ [i]) (queued_node q)" if "q \<in> set new" for q
          using that i by (auto simp: new queueChildren_def p split: if_splits)
        ultimately show "?cs ! i = ?cs ! i \<and> (\<forall>q \<in> set (queue @ new). \<not> prefix (pos @ [i]) (queued_node q))" by auto
      qed
    qed
    then show ?thesis by (simp add: p)
  qed
next
  case (unreadable pos path e depth f)
  note un = untouched_step [OF unreadable(1) [unfolded Q] proc]
  have "scanned cfg (set (queue @ new)) pos path depth f (markUnreadable (ScanNode f []))"
    by (rule scanned.unreadable [OF un(1) unreadable(2,3)])
  moreover have "update_pointer g rel (markUnreadable (ScanNode f [])) = markUnreadable (ScanNode f [])"
    if "queued_node p = pos @ rel" for rel
    using that un(2) by (cases rel) (simp_all add: markUnreadable_def)
  ultimately show ?case by simp
next
  case (listed pos path listing cs ds depth f)
  note un = untouched_step [OF listed.hyps(1) [unfolded Q] proc]
  note rule = scanned.listed [OF un(1) listed.hyps(2,3)]
  have rest: "\<forall>q \<in> set (queue @ new). \<not> prefix (pos @ [i]) (queued_node q)"
    if i: "i < length cs" "\<not> (recursive_walk cfg \<and> isWalkedChild (cs ! i))" for i
  proof -
    have old: "\<not> prefix (pos @ [i]) (queued_node q)" if "q \<in> set (p # queue)" for q
      using listed.hyps(6) [OF i] that Q by blast
    have "\<not> prefix (pos @ [i]) (queued_node q)" if q: "q \<in> set new" for q
    proof
      assume pre: "prefix (pos @ [i]) (queued_node q)"
      obtain k where k: "queued_node q = queued_node p @ [k]" using new_below [OF proc q] by blast
      have "prefix (pos @ [i]) (queued_node p) \<or> pos @ [i] = queued_node p @ [k]"
        using pre by (auto simp: k prefix_snoc)
      then show False using old [of p] un(2) by auto
    qed
    with old show ?thesis by auto
  qed
  show ?case
  proof (intro conjI allI impI)
    fix rel assume rel: "queued_node p = pos @ rel"
    with un(2) obtain k "is" where k: "rel = k # is" by (cases rel) auto
    let ?ds = "if k < length ds then ds[k := update_pointer g is (ds ! k)] else ds"
    have "scanned cfg (set (queue @ new)) pos path depth f (ScanNode f ?ds)"
    proof (rule rule)
      show "length ?ds = length cs" using listed.hyps(4) by simp
    next
      fix i assume i: "i < length cs" "recursive_walk cfg \<and> isWalkedChild (cs ! i)"
      then show "scanned cfg (set (queue @ new)) (pos @ [i]) (child_path path (cs ! i)) (depth + 1)
          (scan_fields (cs ! i)) (?ds ! i)"
        using listed.hyps(4) listed.IH [OF i] rel by (auto simp: k nth_list_update)
    next
      fix i assume i: "i < length cs" "\<not> (recursive_walk cfg \<and> isWalkedChild (cs ! i))"
      have "i \<noteq> k" using listed.hyps(6) [OF i] Q rel by (auto simp: k)
      then show "?ds ! i = cs ! i \<and> (\<forall>q \<in> set (queue @ new). \<not> prefix (pos @ [i]) (queued_node q))"
        using rest [OF i] listed.hyps(6) [OF i] by simp
    qed
    then show "scanned cfg (set (queue @ new)) pos path depth f (update_pointer g rel (ScanNode f ds))" by (simp add: k)
  next
    assume np: "\<not> prefix pos (queued_node p)"
    then have "\<not> prefix (pos @ [i]) (queued_node p)" for i using append_prefixD by blast
    then show "scanned cfg (set (queue @ new)) pos path depth f (ScanNode f ds)"
      using listed.IH listed.hyps(6) rest by (intro rule listed.hyps(4)) auto
  qed
qed

subsection \<open>The walk\<close>

lemma walk_step:
  assumes "walk_queue w = p # queue"
  shows "(\<exists>e. scanner cfg (queued_path p) = Inl e \<and> \<not> toleratedError cfg (queued_depth p) e \<and>
      walker_walk cfg w = (Inl e, w\<lparr>walk_queue := queue\<rparr>)) \<or>
    (\<exists>g new w'. processed cfg p queue g new \<and> walker_walk cfg w = (Inr (queue @ new = []), w') \<and>
      walk_root w' = update_pointer g (queued_node p) (walk_root w) \<and> walk_queue w' = queue @ new)"
proof (cases "scanner cfg (queued_path p)")
  case (Inl e)
  then show ?thesis
    using assms by (cases "isUnreadable cfg") (auto simp: walker_walk_def processed_def toleratedError_def Let_def)
next
  case (Inr listing)
  then show ?thesis
    using assms by (auto simp: walker_walk_def processed_def listed_children_def Let_def)
qed

lemma independent_step:
  assumes "independent (p # queue)" and "processed cfg p queue g new"
  shows "independent (queue @ new)"
proof -
  have apart: "\<not> prefix (queued_node p) (queued_node q) \<and> \<not> prefix (queued_node q) (queued_node p)" if "q \<in> set queue" for q
    using assms(1) that by (simp add: independent_def)
  have "sorted_wrt (\<lambda>p q. \<not> prefix (queued_node p) (queued_node q) \<and> \<not> prefix (queued_node q) (queued_node p)) new"
  proof -
    have "sorted_wrt (\<lambda>i j. i \<noteq> j \<and> j \<noteq> i) (filter P [0..<n])" for P and n :: nat
      by (rule sorted_wrt_mono_rel [of _ "(<)"]) (auto simp: sorted_wrt_filter)
    then show ?thesis
      using assms(2) unfolding processed_def queueChildren_def
      by (auto simp: sorted_wrt_map split: sum.splits if_splits)
  qed
  moreover have "\<not> prefix (queued_node q) (queued_node r) \<and> \<not> prefix (queued_node r) (queued_node q)"
    if q: "q \<in> set queue" and r: "r \<in> set new" for q r
  proof -
    obtain k where k: "queued_node r = queued_node p @ [k]" using new_below [OF assms(2) r] by blast
    show ?thesis using apart [OF q] append_prefixD [of "queued_node p" "[k]" "queued_node q"] by (auto simp: k prefix_snoc)
  qed
  ultimately show ?thesis using assms(1) by (auto simp: independent_def sorted_wrt_append)
qed

definition awaits :: "'e WalkConfig \<Rightarrow> QueuedDir \<Rightarrow> ScanNode \<Rightarrow> bool" where
  "awaits cfg q t \<longleftrightarrow> (\<exists>f. scans_to cfg (queued_path q) (queued_depth q) f t)"

lemma sum_filter_sizes: "sum_list (map (\<lambda>i. size (ds ! i)) (filter P [0..<length ds])) \<le> size_list size ds"
  for ds :: "ScanNode list"
proof (induction ds rule: rev_induct)
  case (snoc d ds)
  have "map (\<lambda>i. size ((ds @ [d]) ! i)) (filter P [0..<length ds]) = map (\<lambda>i. size (ds ! i)) (filter P [0..<length ds])"
    by (rule map_cong) (auto simp: nth_append)
  then have "sum_list (map (\<lambda>i. size ((ds @ [d]) ! i)) (filter P [0..<length ds])) =
      sum_list (map (\<lambda>i. size (ds ! i)) (filter P [0..<length ds]))" by (simp only:)
  with snoc show ?case by (simp add: size_list_conv_sum_list)
qed simp

lemma step_weight:
  assumes "awaits cfg p t"
  shows "\<exists>g new ts. processed cfg p queue g new \<and> list_all2 (awaits cfg) new ts \<and> sum_list (map size ts) < size t"
proof -
  obtain f where "scans_to cfg (queued_path p) (queued_depth p) f t" using assms by (auto simp: awaits_def)
  then show ?thesis
  proof (cases rule: scans_to.cases)
    case (unreadable e)
    then show ?thesis by (intro exI [of _ markUnreadable] exI [of _ "[]"]) (simp add: processed_def markUnreadable_def)
  next
    case (listed listing cs ds)
    let ?new = "if recursive_walk cfg then queueChildren p cs else []"
    let ?ts = "if recursive_walk cfg then map (\<lambda>i. ds ! i) (filter (\<lambda>i. isWalkedChild (cs ! i)) [0..<length cs]) else []"
    have "list_all2 (awaits cfg) ?new ?ts"
      using listed(5) by (auto simp: queueChildren_def list.rel_map list_all2_same awaits_def child_path_def)
    moreover have "sum_list (map size ?ts) < size t"
      using sum_filter_sizes [of ds "\<lambda>i. isWalkedChild (cs ! i)"] listed(4) by (simp add: listed(1) comp_def)
    ultimately show ?thesis
      using listed(2,3) by (intro exI [of _ "assignChildren cs"] exI [of _ ?new] exI [of _ ?ts]) (simp add: processed_def)
  qed
qed

lemma walkAll_completes:
  assumes "scanned cfg (set (walk_queue w)) [] path depth f (walk_root w)" and "independent (walk_queue w)"
    and "list_all2 (awaits cfg) (walk_queue w) ts" and "walk_queue w \<noteq> []"
  shows "\<exists>w'. walker_walkAll cfg w = Some (Inr (), w') \<and> scans_to cfg path depth f (walk_root w')"
  using assms
proof (induction "sum_list (map size ts)" arbitrary: w ts rule: less_induct)
  case less
  obtain p queue where q: "walk_queue w = p # queue" using less.prems(4) by (cases "walk_queue w") auto
  with less.prems(3) obtain t us where ts: "ts = t # us" "awaits cfg p t" "list_all2 (awaits cfg) queue us"
    by (auto simp: list_all2_Cons1)
  obtain g new vs where new: "processed cfg p queue g new" "list_all2 (awaits cfg) new vs" "sum_list (map size vs) < size t"
    using step_weight [OF ts(2)] by blast
  have "\<not> (\<exists>e. scanner cfg (queued_path p) = Inl e \<and> \<not> toleratedError cfg (queued_depth p) e)"
    using new(1) by (auto simp: processed_def)
  with walk_step [OF q, of cfg] obtain g' new' w' where step: "processed cfg p queue g' new'"
    "walker_walk cfg w = (Inr (queue @ new' = []), w')" "walk_root w' = update_pointer g' (queued_node p) (walk_root w)"
    "walk_queue w' = queue @ new'" by blast
  have "new' = new" using step(1) new(1) by (auto simp: processed_def split: sum.splits)
  note step = step [unfolded this]
  have tree: "scanned cfg (set (queue @ new)) [] path depth f (walk_root w')"
    using scan_step [OF less.prems(1)] q step(1,3) less.prems(2) by simp
  show ?case
  proof (cases "queue @ new = []")
    case True
    then show ?thesis
      using tree step(2) by (subst walker_walkAll.simps) (auto intro: scanned_done)
  next
    case False
    have "list_all2 (awaits cfg) (queue @ new) (us @ vs)" using ts(3) new(2) by (rule list_all2_appendI)
    moreover have "sum_list (map size (us @ vs)) < sum_list (map size ts)" using new(3) by (simp add: ts(1))
    ultimately have "\<exists>w''. walker_walkAll cfg w' = Some (Inr (), w'') \<and> scans_to cfg path depth f (walk_root w'')"
      using less.hyps [of "us @ vs" w'] tree independent_step [OF less.prems(2) [unfolded q] step(1)] False step(4) by simp
    then show ?thesis using False step(2) by (subst walker_walkAll.simps) auto
  qed
qed

lemma scans_to_unique: "scans_to cfg path depth f t \<Longrightarrow> scans_to cfg path depth f u \<Longrightarrow> u = t"
proof (induction arbitrary: u rule: scans_to.induct)
  case (unreadable path e depth f)
  then show ?case by (auto elim: scans_to_cases)
next
  case (listed path listing cs ds depth f)
  from listed.prems obtain es where u: "u = ScanNode f es" "length es = length cs"
    "\<And>i. i < length cs \<Longrightarrow> recursive_walk cfg \<and> isWalkedChild (cs ! i) \<Longrightarrow>
       scans_to cfg (child_path path (cs ! i)) (depth + 1) (scan_fields (cs ! i)) (es ! i)"
    "\<And>i. i < length cs \<Longrightarrow> \<not> (recursive_walk cfg \<and> isWalkedChild (cs ! i)) \<Longrightarrow> es ! i = cs ! i"
    by (cases rule: scans_to.cases) (use listed.hyps(1,2) in auto)
  have "es ! i = ds ! i" if "i < length cs" for i
    using that u(3,4) listed.IH listed.hyps(5) by (cases "recursive_walk cfg \<and> isWalkedChild (cs ! i)") metis+
  then show ?case using u(1,2) listed.hyps(3) by (simp add: list_eq_iff_nth_eq)
qed

subsection \<open>What returns was scanned\<close>

lemma walkAll_scanned:
  fixes cfg :: "'e WalkConfig"
  assumes "walker_walkAll cfg w = Some (Inr (), w')" and "scanned cfg (set (walk_queue w)) [] path depth f (walk_root w)"
    and "independent (walk_queue w)" and "walk_queue w \<noteq> []"
  shows "scans_to cfg path depth f (walk_root w')"
  using assms
proof (induction cfg w "(Inr () :: 'e + unit, w')" arbitrary: w' rule: walker_walkAll.raw_induct [rotated 1, consumes 1])
  case (1 walkAll cfg w)
  obtain p queue where q: "walk_queue w = p # queue" using 1(5) by (cases "walk_queue w") auto
  from walk_step [OF q, of cfg] 1(2) obtain g new w1 where step: "processed cfg p queue g new"
    "walker_walk cfg w = (Inr (queue @ new = []), w1)" "walk_root w1 = update_pointer g (queued_node p) (walk_root w)"
    "walk_queue w1 = queue @ new" by auto
  have tree: "scanned cfg (set (queue @ new)) [] path depth f (walk_root w1)"
    using scan_step [OF 1(3)] q step(1,3) 1(4) by simp
  show ?case
  proof (cases "queue @ new = []")
    case True
    then show ?thesis using 1(2) step(2) tree by (auto intro: scanned_done)
  next
    case False
    then have "walkAll cfg w1 = Some (Inr (), w')" using 1(2) step(2) by auto
    from 1(1) [OF this] tree step(4) False independent_step [OF 1(4) [unfolded q] step(1)] show ?thesis by simp
  qed
qed

lemma new_walk:
  "scanned cfg (set (walk_queue TreeWalker_new)) [] (RelativePath []) 0 (scan_fields (walk_root TreeWalker_new)) (walk_root TreeWalker_new)"
  "independent (walk_queue TreeWalker_new)" "walk_queue TreeWalker_new \<noteq> []"
proof -
  have "scanned cfg (set (walk_queue TreeWalker_new)) [] (RelativePath []) 0 (scan_fields (walk_root TreeWalker_new))
      (ScanNode (scan_fields (walk_root TreeWalker_new)) [])"
    by (rule scanned.pending) (simp add: TreeWalker_new_def)
  then show "scanned cfg (set (walk_queue TreeWalker_new)) [] (RelativePath []) 0 (scan_fields (walk_root TreeWalker_new)) (walk_root TreeWalker_new)"
    by (simp add: TreeWalker_new_def)
qed (simp_all add: TreeWalker_new_def independent_def)

lemma completed_walk:
  "walker_walkAll cfg TreeWalker_new = Some (Inr (), w) \<Longrightarrow>
     scans_to cfg (RelativePath []) 0 (scan_fields (walk_root TreeWalker_new)) (walk_root w)"
  by (rule walkAll_scanned [OF _ new_walk])

lemma finite_scan_walked:
  assumes "scans_to cfg (RelativePath []) 0 (scan_fields (walk_root TreeWalker_new)) t"
  shows "\<exists>w. walker_walkAll cfg TreeWalker_new = Some (Inr (), w) \<and> walk_root w = t"
proof -
  let ?w = TreeWalker_new
  obtain p where p: "walk_queue ?w = [p]" "p = \<lparr>queued_node = [], queued_path = RelativePath [], queued_depth = 0\<rparr>"
    by (simp add: TreeWalker_new_def)
  have "list_all2 (awaits cfg) (walk_queue ?w) [t]" using assms by (auto simp: p awaits_def)
  from walkAll_completes [OF new_walk(1,2) this new_walk(3)] obtain w where w: "walker_walkAll cfg ?w = Some (Inr (), w)"
    "scans_to cfg (RelativePath []) 0 (scan_fields (walk_root ?w)) (walk_root w)" by blast
  then have "walk_root w = t" using assms scans_to_unique by blast
  with w(1) show ?thesis by blast
qed

subsection \<open>What a node of a scanned tree says\<close>

text \<open>The path of the node a pointer leads to, from the names on the way.\<close>

fun path_along :: "RelativePath \<Rightarrow> ScanNode \<Rightarrow> nat list \<Rightarrow> RelativePath" where
  "path_along path n [] = path"
| "path_along path n (i # is) = path_along (child_path path (children n ! i)) (children n ! i) is"

definition safe_name :: "'e WalkConfig \<Rightarrow> DirectoryEntry \<Rightarrow> bool" where
  "safe_name cfg e \<longleftrightarrow> entry_nameIsValidUtf8 e \<and> segmentRejectionOf (entry_name e) = None \<and>
     (requireLocalNames cfg \<longrightarrow> localRejectionOf (entry_name e) (walk_platform cfg) = None)"

definition left_out :: "'e WalkConfig \<Rightarrow> DirectoryEntry \<Rightarrow> bool" where
  "left_out cfg e \<longleftrightarrow> entry_type e \<notin> {Regular, Directory, Symlink} \<or>
     (\<exists>sfx \<in> set (excludedSuffixes cfg). sfx \<noteq> [] \<and> length (entry_name e) > length sfx \<and> ends_with (entry_name e) sfx)"

text \<open>A node has every field of a listed entry, and is marked as the name and the kind of the entry ask for.\<close>

definition shows_entry :: "'e WalkConfig \<Rightarrow> DirectoryEntry \<Rightarrow> ScanNode \<Rightarrow> bool" where
  "shows_entry cfg e c \<longleftrightarrow>
     node_name c = entry_name e \<and> node_type c = entry_type e \<and> node_size c = entry_size e \<and> node_mtime c = entry_mtime e \<and>
     scan_mtimeNsec (scan_fields c) = entry_mtimeNsec e \<and> scan_permissions (scan_fields c) = entry_permissions e \<and>
     scan_linkTarget (scan_fields c) = entry_linkTarget e \<and> scan_uid (scan_fields c) = entry_uid e \<and>
     scan_gid (scan_fields c) = entry_gid e \<and>
     (availability (scan_fields c) = InvalidName \<longleftrightarrow> \<not> safe_name cfg e) \<and>
     (availability (scan_fields c) = Excluded \<longleftrightarrow> safe_name cfg e \<and> left_out cfg e)"

definition without_dots :: "DirectoryEntry list \<Rightarrow> DirectoryEntry list" where
  "without_dots listing = filter (\<lambda>e. entry_name e \<noteq> ''.'' \<and> entry_name e \<noteq> ''..'') listing"

text \<open>
  What the node at \<open>path\<close> promises. The root, and in a recursive scan every listed directory, was listed by the scanner
  at that very path, and its children are the entries of that listing one by one, sorted, without the dot names. Any other
  node has no children, and one that is marked unreadable is a directory at whose path the scanner failed with an error
  that the scan tolerates, and whose content counts as unknown.
\<close>

definition trustworthy :: "'e WalkConfig \<Rightarrow> bool \<Rightarrow> RelativePath \<Rightarrow> ScanNode \<Rightarrow> bool" where
  "trustworthy cfg root path d \<longleftrightarrow>
     (if root \<or> recursive_walk cfg \<and> node_type d = Directory \<and> availability (scan_fields d) = Listed
      then childrenKnown (scan_fields d) \<and> sorted (map node_name (children d)) \<and>
        (\<exists>listing es. scanner cfg path = Inr listing \<and> mset es = mset (without_dots listing) \<and>
           list_all2 (shows_entry cfg) es (children d))
      else children d = [] \<and>
        (availability (scan_fields d) = Unreadable \<longrightarrow> node_type d = Directory \<and> \<not> childrenKnown (scan_fields d) \<and>
           (\<exists>e accepts. scanner cfg path = Inl e \<and> isUnreadable cfg = Some accepts \<and> accepts e)))"

lemma made_shows: "shows_entry cfg e (makeNode cfg e)"
proof -
  have "requireLocalNames cfg \<and> (case LocalPathSegment_make (PathSegment (entry_name e)) (walk_platform cfg) of Inl _ \<Rightarrow> True | Inr _ \<Rightarrow> False) \<longleftrightarrow>
      \<not> (requireLocalNames cfg \<longrightarrow> localRejectionOf (entry_name e) (walk_platform cfg) = None)"
    if "segmentRejectionOf (entry_name e) = None"
    using that by (auto simp: LocalPathSegment_make_def localRejectionOf_def split: option.splits if_splits)
  then show ?thesis
    by (auto simp: shows_entry_def makeNode_def nameAvailability_def entry_nameSegment_def PathSegment_make_def safe_name_def
        left_out_def isTransferable_def list_ex_iff Let_def split: option.splits if_splits)
qed

lemma insort_key_map: "insort_key f (g x) (map g xs) = map g (insort_key (f \<circ> g) x xs)"
  by (induction xs) auto

lemma sort_key_map: "sort_key f (map g xs) = map g (sort_key (f \<circ> g) xs)"
  by (induction xs) (simp_all add: insort_key_map comp_def)

lemma listed_shows:
  "\<exists>es. mset es = mset (without_dots listing) \<and> listed_children cfg listing = map (makeNode cfg) es"
  by (intro exI [of _ "sort_key (node_name \<circ> makeNode cfg) (without_dots listing)"])
    (simp add: listed_children_def makeChildren_def sort_key_map without_dots_def)

lemma made_fields:
  assumes "c \<in> set (listed_children cfg listing)"
  shows "availability (scan_fields c) \<noteq> Unreadable" and "children c = []"
    and "recursive_walk cfg \<Longrightarrow> childrenKnown (scan_fields c)"
proof -
  obtain e where e: "c = makeNode cfg e" using assms by (auto simp: listed_children_def makeChildren_def)
  show "availability (scan_fields c) \<noteq> Unreadable" "children c = []" "recursive_walk cfg \<Longrightarrow> childrenKnown (scan_fields c)"
    by (auto simp: e makeNode_def nameAvailability_def Let_def split: sum.splits)
qed

lemma scans_to_fields: "scans_to cfg path depth f n \<Longrightarrow> scan_fields n = f \<or> n = markUnreadable (ScanNode f [])"
  by (auto elim: scans_to_cases)

lemma marked_name: "node_name (markUnreadable n) = node_name n"
  by (simp add: markUnreadable_def)

lemma marked_shows: "shows_entry cfg e c \<Longrightarrow> availability (scan_fields c) = Listed \<Longrightarrow>
    shows_entry cfg e (markUnreadable (ScanNode (scan_fields c) []))"
  by (auto simp: shows_entry_def markUnreadable_def)

lemma shows_fields: "shows_entry cfg e c \<Longrightarrow> scan_fields d = scan_fields c \<Longrightarrow> shows_entry cfg e d"
  by (simp add: shows_entry_def)

lemma scans_to_trustworthy:
  assumes "scans_to cfg path depth f n" and "childrenKnown f"
    and "depth = 0 \<or> recursive_walk cfg \<and> scan_type f = Directory \<and> availability f = Listed"
    and "at_pointer n pos = Some d"
  shows "trustworthy cfg (depth = 0 \<and> pos = []) (path_along path n pos) d"
  using assms
proof (induction arbitrary: pos d rule: scans_to.induct)
  case (unreadable path e depth f)
  have depth: "depth > 0" "\<exists>accepts. isUnreadable cfg = Some accepts \<and> accepts e"
    using unreadable.hyps(2) by (auto simp: toleratedError_def split: option.splits)
  have "pos = []" "d = markUnreadable (ScanNode f [])" using unreadable.prems(3) by (cases pos; simp add: markUnreadable_def)+
  with depth unreadable.hyps(1) unreadable.prems(2) show ?case by (auto simp: trustworthy_def markUnreadable_def)
next
  case (listed path listing cs ds depth f)
  obtain es where es: "mset es = mset (without_dots listing)" "cs = map (makeNode cfg) es"
    using listed_shows listed.hyps(2) by blast
  have len: "length ds = length es" "length cs = length es" using es(2) listed.hyps(3) by simp_all
  have made: "availability (scan_fields (cs ! i)) \<noteq> Unreadable" "children (cs ! i) = []"
    "recursive_walk cfg \<Longrightarrow> childrenKnown (scan_fields (cs ! i))" if "i < length es" for i
    using made_fields [of "cs ! i" cfg listing] that listed.hyps(2) len by auto
  have shown: "shows_entry cfg (es ! i) (ds ! i)" if i: "i < length es" for i
  proof -
    have c: "shows_entry cfg (es ! i) (cs ! i)" using i es(2) made_shows by simp
    show ?thesis
    proof (cases "recursive_walk cfg \<and> isWalkedChild (cs ! i)")
      case True
      then have "scan_fields (ds ! i) = scan_fields (cs ! i) \<or> ds ! i = markUnreadable (ScanNode (scan_fields (cs ! i)) [])"
        using scans_to_fields [OF listed.hyps(4) [of i]] i len by simp
      with True c show ?thesis by (auto simp: isWalkedChild_def intro: marked_shows shows_fields)
    next
      case False
      with c listed.hyps(5) i len show ?thesis by simp
    qed
  qed
  have name: "node_name (ds ! i) = node_name (cs ! i)" if "i < length es" for i
    using shown [OF that] that by (simp add: es(2) shows_entry_def makeNode_def)
  have names: "map node_name ds = map node_name cs"
    by (rule nth_equalityI) (simp_all add: len name)
  show ?case
  proof (cases pos)
    case Nil
    have "list_all2 (shows_entry cfg) es ds" using shown len by (simp add: list_all2_conv_all_nth)
    moreover have "sorted (map node_name ds)" unfolding names listed.hyps(2) by (simp add: listed_children_def makeChildren_def)
    ultimately show ?thesis using Nil listed.prems listed.hyps(1) es(1) by (auto simp: trustworthy_def)
  next
    case (Cons i rest)
    then have i: "i < length es" and d: "at_pointer (ds ! i) rest = Some d"
      using listed.prems(3) len by (auto split: if_splits)
    have child: "child_path path (ds ! i) = child_path path (cs ! i)" by (simp add: child_path_def name [OF i])
    show ?thesis
    proof (cases "recursive_walk cfg \<and> isWalkedChild (cs ! i)")
      case True
      with listed.IH [of i rest d] i len d made show ?thesis by (simp add: Cons child isWalkedChild_def)
    next
      case False
      then have same: "ds ! i = cs ! i" using listed.hyps(5) i len by simp
      then have "rest = []" "d = cs ! i" using d made(2) [OF i] by (cases rest; simp)+
      with False made(1,2) [OF i] show ?thesis by (auto simp: Cons trustworthy_def isWalkedChild_def)
    qed
  qed
qed

text \<open>Files counted below a node: the listed entries that are no directories, in listed directories.\<close>

fun countedFiles :: "ScanNode \<Rightarrow> ScanNode list" where
  "countedFiles (ScanNode f cs) =
     concat (map (\<lambda>c. if availability (scan_fields c) \<noteq> Listed then []
                      else if node_type c = Directory then countedFiles c else [c]) cs)"

definition forget_counts :: "ScanFields \<Rightarrow> ScanFields" where
  "forget_counts f = f\<lparr>subtreeFileCount := 0, subtreeByteTotal := 0\<rparr>"

lemma finalizeCounts_totals:
  "subtreeFileCount (scan_fields (finalizeCounts n)) = of_nat (length (countedFiles n)) \<and>
   subtreeByteTotal (scan_fields (finalizeCounts n)) = sum_list (map node_size (countedFiles n)) \<and>
   forget_counts (scan_fields (finalizeCounts n)) = forget_counts (scan_fields n)"
proof (induction n rule: finalizeCounts.induct)
  case (1 f cs)
  let ?fin = "\<lambda>c. if availability (scan_fields c) = Listed \<and> node_type c = Directory then finalizeCounts c else c"
  let ?listed = "\<lambda>c. availability (scan_fields c) = Listed"
  have same: "availability (scan_fields (?fin c)) = availability (scan_fields c) \<and> node_type (?fin c) = node_type c"
    if "c \<in> set cs" for c
  proof (cases "?listed c \<and> node_type c = Directory")
    case True
    then have "forget_counts (scan_fields (finalizeCounts c)) = forget_counts (scan_fields c)" using 1 that by blast
    then have "scan_type (forget_counts (scan_fields (finalizeCounts c))) = scan_type (forget_counts (scan_fields c))"
      "availability (forget_counts (scan_fields (finalizeCounts c))) = availability (forget_counts (scan_fields c))" by simp_all
    with True show ?thesis by (simp add: forget_counts_def)
  qed auto
  have "sum_list (map (\<lambda>c. if node_type c = Directory then subtreeFileCount (scan_fields c) else 1) (filter ?listed (map ?fin ds))) =
      of_nat (length (concat (map (\<lambda>c. if \<not> ?listed c then [] else if node_type c = Directory then countedFiles c else [c]) ds))) \<and>
    sum_list (map (\<lambda>c. if node_type c = Directory then subtreeByteTotal (scan_fields c) else node_size c) (filter ?listed (map ?fin ds))) =
      sum_list (map node_size (concat (map (\<lambda>c. if \<not> ?listed c then [] else if node_type c = Directory then countedFiles c else [c]) ds)))"
    if "set ds \<subseteq> set cs" for ds
    using that
  proof (induction ds)
    case (Cons d ds)
    have "?listed d \<and> node_type d = Directory \<Longrightarrow>
        subtreeFileCount (scan_fields (finalizeCounts d)) = of_nat (length (countedFiles d)) \<and>
        subtreeByteTotal (scan_fields (finalizeCounts d)) = sum_list (map node_size (countedFiles d))"
      using 1 Cons.prems by auto
    with Cons same [of d] show ?case by auto
  qed simp
  from this [of cs] show ?case by (simp add: Let_def forget_counts_def)
qed

text \<open>Finishing the counts keeps every node at its place.\<close>

abbreviation same_node :: "ScanNode \<Rightarrow> ScanNode \<Rightarrow> bool" where
  "same_node c d \<equiv> forget_counts (scan_fields c) = forget_counts (scan_fields d)"

lemma forget_counts_eq:
  assumes "same_node c d"
  shows "node_name c = node_name d" "node_type c = node_type d" "availability (scan_fields c) = availability (scan_fields d)"
    "childrenKnown (scan_fields c) = childrenKnown (scan_fields d)" "shows_entry cfg e c = shows_entry cfg e d"
proof -
  have fields: "scan_name f = scan_name (forget_counts f)" "scan_type f = scan_type (forget_counts f)"
    "scan_size f = scan_size (forget_counts f)" "scan_mtime f = scan_mtime (forget_counts f)"
    "scan_mtimeNsec f = scan_mtimeNsec (forget_counts f)" "scan_permissions f = scan_permissions (forget_counts f)"
    "scan_linkTarget f = scan_linkTarget (forget_counts f)" "scan_uid f = scan_uid (forget_counts f)"
    "scan_gid f = scan_gid (forget_counts f)" "childrenKnown f = childrenKnown (forget_counts f)"
    "availability f = availability (forget_counts f)" for f
    by (simp_all add: forget_counts_def)
  show "node_name c = node_name d" "node_type c = node_type d" "availability (scan_fields c) = availability (scan_fields d)"
    "childrenKnown (scan_fields c) = childrenKnown (scan_fields d)"
    using assms fields by metis+
  show "shows_entry cfg e c = shows_entry cfg e d"
    unfolding shows_entry_def fields [of "scan_fields c"] fields [of "scan_fields d"] assms ..
qed

definition finalized_child :: "ScanNode \<Rightarrow> ScanNode" where
  "finalized_child c = (if availability (scan_fields c) = Listed \<and> node_type c = Directory then finalizeCounts c else c)"

lemma finalized_children: "children (finalizeCounts n) = map finalized_child (children n)"
  by (cases n) (simp add: Let_def finalized_child_def [abs_def])

lemma same_finalized: "same_node (finalizeCounts n) n" "same_node (finalized_child n) n"
  using finalizeCounts_totals [of n] by (simp_all add: finalized_child_def)

lemma trustworthy_finalized:
  assumes "trustworthy cfg root path d"
  shows "trustworthy cfg root path (finalizeCounts d)"
proof -
  have names: "map node_name (map finalized_child (children d)) = map node_name (children d)"
    using forget_counts_eq(1) [OF same_finalized(2)] by simp
  have "list_all2 (shows_entry cfg) es (map finalized_child (children d)) = list_all2 (shows_entry cfg) es (children d)" for es
    using forget_counts_eq(5) [OF same_finalized(2), of cfg] by (simp add: list_all2_map2)
  note shown = this
  have none: "map finalized_child (children d) = [] \<longleftrightarrow> children d = []" by simp
  show ?thesis
    using assms
    unfolding trustworthy_def finalized_children forget_counts_eq(2-4) [OF same_finalized(1)] names shown none .
qed

lemma finalized_pointer:
  "at_pointer (finalizeCounts n) pos = Some d \<Longrightarrow> \<exists>c. at_pointer n pos = Some c \<and> d \<in> {c, finalizeCounts c} \<and>
     path_along path (finalizeCounts n) pos = path_along path n pos"
proof (induction pos arbitrary: n path)
  case (Cons i rest)
  then have i: "i < length (children n)" "at_pointer (finalized_child (children n ! i)) rest = Some d"
    by (auto simp: finalized_children split: if_splits)
  have path: "child_path path (finalized_child (children n ! i)) = child_path path (children n ! i)"
    by (simp add: child_path_def forget_counts_eq(1) [OF same_finalized(2)])
  show ?case
  proof (cases "finalized_child (children n ! i) = children n ! i")
    case True
    with i path show ?thesis by (simp add: finalized_children)
  next
    case False
    then have "finalized_child (children n ! i) = finalizeCounts (children n ! i)" by (simp add: finalized_child_def split: if_splits)
    with i path Cons.IH [of "children n ! i" "child_path path (children n ! i)"] show ?thesis by (simp add: finalized_children)
  qed
qed auto

lemma ejected_trustworthy:
  assumes "walker_walkAll cfg TreeWalker_new = Some (Inr (), w)" and "at_pointer (ejectTree w) pos = Some d"
  shows "trustworthy cfg (pos = []) (path_along (RelativePath []) (ejectTree w) pos) d"
proof -
  obtain c where c: "at_pointer (walk_root w) pos = Some c" "d \<in> {c, finalizeCounts c}"
    "path_along (RelativePath []) (ejectTree w) pos = path_along (RelativePath []) (walk_root w) pos"
    using finalized_pointer assms(2) unfolding ejectTree_def by blast
  have "childrenKnown (scan_fields (walk_root TreeWalker_new))" by (simp add: TreeWalker_new_def)
  from scans_to_trustworthy [OF completed_walk [OF assms(1)] this _ c(1)]
  have "trustworthy cfg (pos = []) (path_along (RelativePath []) (walk_root w) pos) c" by simp
  with c(2,3) show ?thesis using trustworthy_finalized by auto
qed

subsection \<open>A sample scan\<close>

definition sample_entry :: DirectoryEntry where
  "sample_entry = \<lparr>entry_name = ''a'', entry_nameIsValidUtf8 = True, entry_type = Directory, entry_size = 0, entry_uid = 0,
     entry_gid = 0, entry_permissions = 0, entry_mtime = 0, entry_mtimeNsec = 0, entry_linkTarget = None, entry_parent = None\<rparr>"

definition sample_config :: "unit WalkConfig" where
  "sample_config = \<lparr>scanner = (\<lambda>_. Inr [sample_entry]), recursive_walk = False, isUnreadable = None,
     requireLocalNames = False, excludedSuffixes = [], walk_platform = Posix\<rparr>"

definition sample_node :: ScanNode where
  "sample_node = ScanNode (default_fields\<lparr>scan_name := ''a'', scan_type := Directory, scan_permissions := 0,
     childrenKnown := False\<rparr>) []"

lemma sample_scan: "scans_to sample_config path depth f (ScanNode f [sample_node])"
proof (rule scans_to.listed)
  have "segmentRejectionOf ''a'' = None" by code_simp
  then have "nameAvailability sample_config sample_entry = Listed"
    by (simp add: nameAvailability_def entry_nameSegment_def PathSegment_make_def isTransferable_def sample_config_def
        sample_entry_def)
  then have "makeNode sample_config sample_entry = sample_node"
    by (simp add: makeNode_def sample_entry_def sample_node_def default_fields_def sample_config_def)
  then show "[sample_node] = listed_children sample_config [sample_entry]"
    by (simp add: listed_children_def makeChildren_def) (simp add: sample_entry_def)
qed (simp_all add: sample_config_def)

subsection \<open>Properties\<close>

text \<open>C20: The breadth first walk with its queue of pointers builds exactly the tree that scanning each directory
  recursively gives: whenever such a finite scan exists the walk returns it.\<close>
theorem tree_walk_refines_scan:
  assumes "scans_to cfg (RelativePath []) 0 (scan_fields (walk_root TreeWalker_new)) t"
  shows "\<exists>w. walker_walkAll cfg TreeWalker_new = Some (Inr (), w) \<and> walk_root w = t \<and> ejectTree w = finalizeCounts t"
  using finite_scan_walked [OF assms] by (auto simp: ejectTree_def)

lemma tree_walk_refines_scan_witness:
  "\<exists>w. walker_walkAll sample_config TreeWalker_new = Some (Inr (), w) \<and>
     map node_name (children (walk_root w)) = [''a'']"
proof -
  have "scans_to sample_config (RelativePath []) 0 (scan_fields (walk_root TreeWalker_new))
      (ScanNode (scan_fields (walk_root TreeWalker_new)) [sample_node])"
    by (rule sample_scan)
  from tree_walk_refines_scan [OF this] show ?thesis by (auto simp: sample_node_def)
qed

text \<open>C21:
  Every node of the tree of a completed walk, looked at by its own path. The root, and every listed directory of a
  recursive scan, was listed by the scanner at that path, and its children are exactly the entries of that listing without
  the dot names, one node for one entry with all its fields, sorted by name; a name that is no safe name (for the local
  disk where that is required) is marked invalid and an entry of another kind or with a temporary name excluded, and
  nothing else is. A directory that could not be read is one the scanner refused at that path with an error the scan
  tolerates: it has no children and its content counts as unknown. No other node has children.
\<close>
theorem tree_scan_trustworthy:
  assumes "walker_walkAll cfg TreeWalker_new = Some (Inr (), w)" and "at_pointer (ejectTree w) pos = Some d"
  shows "trustworthy cfg (pos = []) (path_along (RelativePath []) (ejectTree w) pos) d"
  using assms by (rule ejected_trustworthy)

definition sample_scan_config :: "unit WalkConfig" where
  "sample_scan_config = \<lparr>scanner = (\<lambda>path. if path = RelativePath [] then Inr [sample_entry] else Inl ()), recursive_walk = True,
     isUnreadable = Some (\<lambda>_. True), requireLocalNames = False, excludedSuffixes = [], walk_platform = Posix\<rparr>"

lemma tree_scan_trustworthy_witness:
  "\<exists>w d. walker_walkAll sample_scan_config TreeWalker_new = Some (Inr (), w) \<and> at_pointer (ejectTree w) [0] = Some d \<and>
     path_along (RelativePath []) (ejectTree w) [0] = RelativePath ''a'' \<and> availability (scan_fields d) = Unreadable \<and>
     trustworthy sample_scan_config False (RelativePath ''a'') d"
proof -
  let ?f = "scan_fields (walk_root TreeWalker_new)" and ?a = "makeNode sample_scan_config sample_entry"
  let ?d = "markUnreadable (ScanNode (scan_fields ?a) [])"
  have a: "node_name ?a = ''a''" "isWalkedChild ?a" by code_simp+
  have below: "scans_to sample_scan_config (RelativePath ''a'') 1 (scan_fields ?a) ?d"
    by (rule scans_to.unreadable) (simp_all add: sample_scan_config_def toleratedError_def)
  have child: "child_path (RelativePath []) ?a = RelativePath ''a''"
    by (simp add: child_path_def a rel_div_segment_def appendSegment_def)
  have "scans_to sample_scan_config (RelativePath []) 0 ?f (ScanNode ?f [?d])"
  proof (rule scans_to.listed)
    show "scanner sample_scan_config (RelativePath []) = Inr [sample_entry]" by (simp add: sample_scan_config_def)
    show "[?a] = listed_children sample_scan_config [sample_entry]"
      by (simp add: listed_children_def makeChildren_def) (simp add: sample_entry_def)
  qed (use below child a in \<open>simp_all add: sample_scan_config_def\<close>)
  from finite_scan_walked [OF this] obtain w where w: "walker_walkAll sample_scan_config TreeWalker_new = Some (Inr (), w)"
    "ejectTree w = finalizeCounts (ScanNode ?f [?d])" by (auto simp: ejectTree_def)
  have at: "at_pointer (ejectTree w) [0] = Some ?d"
    "path_along (RelativePath []) (ejectTree w) [0] = RelativePath ''a''"
    using child by (simp_all add: w(2) finalized_children finalized_child_def markUnreadable_def child_path_def a)
  from tree_scan_trustworthy [OF w(1) at(1)] w(1) at show ?thesis
    by (intro exI [of _ w] exI [of _ ?d]) (simp add: markUnreadable_def)
qed

text \<open>
  The counts of a finished tree are the number and the total size (modulo the width of the counters) of the files
  below each node, counted through listed directories only, and finishing changes nothing else.\<close>
theorem tree_counts_correct:
  "subtreeFileCount (scan_fields (ejectTree w)) = of_nat (length (countedFiles (walk_root w))) \<and>
   subtreeByteTotal (scan_fields (ejectTree w)) = sum_list (map node_size (countedFiles (walk_root w))) \<and>
   forget_counts (scan_fields (ejectTree w)) = forget_counts (scan_fields (walk_root w))"
  unfolding ejectTree_def by (rule finalizeCounts_totals)

end
