(* ===== verification/Sync_Diff.thy ===== *)
theory Sync_Diff
  imports Scan_Tree Case_Fold
begin

text \<open>
  The diff of two scan trees: \<open>shared_data/sync/diff.cpp\<close> with the rows of \<open>sync/diff_tree_node.hpp\<close> and the options of
  \<open>sync/diff.hpp\<close>. What the walk tells its sink is the trace of the walk state, in order; \<open>cancelled()\<close> of the sink is an
  arbitrary answer per call, so any moment of cancelling is covered. The lemmas show that the parallel merge walk is the
  decision per name, read off the two directories by lookup, where each decision was made, and what follows for uploads,
  downloads and deletes.
\<close>

subsection \<open>Options, rows and events\<close>

datatype Direction = DirBoth | DirUpload | DirDownload

datatype Action = Upload | Download | DeleteLocal | DeleteRemote

datatype BlockReason = BlockUnreadable | BlockExcluded | BlockInvalidName | BlockTypeConflict | BlockCaseConflict

record DiffOptions =
  direction :: Direction
  actionUpload :: bool
  actionDownload :: bool
  actionDelete :: bool
  recursive :: bool
  ignoreHidden :: bool
  localCaseInsensitive :: bool
  remoteCaseInsensitive :: bool

record DiffTreeNode =
  row_relKey :: string
  row_name :: string
  row_action :: Action
  row_isDirectory :: bool
  row_hasLocalSide :: bool
  row_hasRemoteSide :: bool
  row_localSize :: u64
  row_remoteSize :: u64
  row_localMtime :: u64
  row_remoteMtime :: u64
  row_directChildCount :: u32
  row_descendantItemCount :: u64
  row_descendantByteTotal :: u64
  row_isStructural :: bool
  row_typeConflict :: bool

definition itemWeight :: "DiffTreeNode \<Rightarrow> u64" where
  "itemWeight node =
     (if row_isStructural node then row_descendantItemCount node
      else if row_isDirectory node then (if row_descendantItemCount node > 0 then row_descendantItemCount node else 1)
      else 1)"

datatype SinkEvent =
  EmitUpload DiffTreeNode string
| EmitDownload DiffTreeNode string
| EmitDelete DiffTreeNode string
| OnBlocked string BlockReason
| OnProgress u64

record Walk =
  compared :: u64
  polls :: nat
  trace :: "SinkEvent list"

definition emit :: "SinkEvent \<Rightarrow> Walk \<Rightarrow> Walk" where
  "emit e w = w\<lparr>trace := trace w @ [e]\<rparr>"

subsection \<open>Decisions\<close>

definition joinRel :: "string \<Rightarrow> string \<Rightarrow> string" where
  "joinRel parent name = (if parent = [] then name else parent @ [slash] @ name)"

definition chooseLocalOnlyAction :: "ScanNode \<Rightarrow> DiffOptions \<Rightarrow> Action option" where
  "chooseLocalOnlyAction node opts =
     (if direction opts = DirDownload then
        (if \<not> actionDelete opts then None
         else if node_type node = Directory \<and> (\<not> childrenKnown (scan_fields node) \<or> \<not> recursive opts) then None
         else Some DeleteLocal)
      else if \<not> actionUpload opts then None
      else Some Upload)"

definition chooseRemoteOnlyAction :: "ScanNode \<Rightarrow> DiffOptions \<Rightarrow> Action option" where
  "chooseRemoteOnlyAction node opts =
     (if direction opts = DirUpload then
        (if \<not> actionDelete opts then None
         else if node_type node = Directory \<and> (\<not> childrenKnown (scan_fields node) \<or> \<not> recursive opts) then None
         else Some DeleteRemote)
      else if \<not> actionDownload opts then None
      else Some Download)"

definition makeTwoSidedRow :: "ScanNode \<Rightarrow> ScanNode \<Rightarrow> string \<Rightarrow> Action \<Rightarrow> DiffTreeNode" where
  "makeTwoSidedRow localNode remoteNode relKey action =
     (let source = (if action = Upload then localNode else remoteNode);
          isDirectory = (node_type source = Directory) in
      \<lparr>row_relKey = relKey, row_name = node_name localNode, row_action = action, row_isDirectory = isDirectory,
       row_hasLocalSide = True, row_hasRemoteSide = True,
       row_localSize = node_size localNode, row_remoteSize = node_size remoteNode,
       row_localMtime = node_mtime localNode, row_remoteMtime = node_mtime remoteNode,
       row_directChildCount = (if isDirectory then of_nat (length (children source)) else 0),
       row_descendantItemCount = (if isDirectory then subtreeFileCount (scan_fields source) else 1),
       row_descendantByteTotal = (if isDirectory then subtreeByteTotal (scan_fields source) else node_size source),
       row_isStructural = False, row_typeConflict = (node_type localNode \<noteq> node_type remoteNode)\<rparr>)"

definition chooseTwoSidedAction :: "ScanNode \<Rightarrow> ScanNode \<Rightarrow> DiffOptions \<Rightarrow> Action option" where
  "chooseTwoSidedAction localNode remoteNode opts =
     (let upload = (direction opts = DirUpload \<or> direction opts = DirBoth \<and> node_mtime localNode \<ge> node_mtime remoteNode) in
      if upload then (if actionUpload opts then Some Upload else None)
      else (if actionDownload opts then Some Download else None))"

definition makeOneSidedRow :: "ScanNode \<Rightarrow> string \<Rightarrow> Action \<Rightarrow> bool \<Rightarrow> DiffTreeNode" where
  "makeOneSidedRow node relKey action isLocalSide =
     (let isDirectory = (node_type node = Directory) in
      \<lparr>row_relKey = relKey, row_name = node_name node, row_action = action, row_isDirectory = isDirectory,
       row_hasLocalSide = isLocalSide, row_hasRemoteSide = (\<not> isLocalSide),
       row_localSize = (if isLocalSide then node_size node else 0),
       row_remoteSize = (if isLocalSide then 0 else node_size node),
       row_localMtime = (if isLocalSide then node_mtime node else 0),
       row_remoteMtime = (if isLocalSide then 0 else node_mtime node),
       row_directChildCount = (if isDirectory then of_nat (length (children node)) else 0),
       row_descendantItemCount = (if isDirectory then subtreeFileCount (scan_fields node) else 1),
       row_descendantByteTotal = (if isDirectory then subtreeByteTotal (scan_fields node) else node_size node),
       row_isStructural = False, row_typeConflict = False\<rparr>)"

definition emitOneSided :: "DiffTreeNode \<Rightarrow> Action \<Rightarrow> string \<Rightarrow> DiffOptions \<Rightarrow> Walk \<Rightarrow> Walk" where
  "emitOneSided row action parentRelKey opts w =
     (let row = (if row_isDirectory row \<and> \<not> recursive opts
                 then row\<lparr>row_directChildCount := 0, row_descendantItemCount := 0, row_descendantByteTotal := 0\<rparr> else row) in
      case action of
        Upload \<Rightarrow> emit (EmitUpload row parentRelKey) w
      | Download \<Rightarrow> emit (EmitDownload row parentRelKey) w
      | DeleteLocal \<Rightarrow> emit (EmitDelete row parentRelKey) w
      | DeleteRemote \<Rightarrow> emit (EmitDelete row parentRelKey) w)"

fun blockReasonFor :: "Availability \<Rightarrow> BlockReason option" where
  "blockReasonFor Listed = None"
| "blockReasonFor Unreadable = Some BlockUnreadable"
| "blockReasonFor Excluded = Some BlockExcluded"
| "blockReasonFor InvalidName = Some BlockInvalidName"

definition blockReasonOf :: "ScanNode \<Rightarrow> BlockReason option" where
  "blockReasonOf node = blockReasonFor (availability (scan_fields node))"

definition isHiddenName :: "string \<Rightarrow> bool" where
  "isHiddenName name \<longleftrightarrow> name \<noteq> [] \<and> hd name = CHR ''.''"

definition isPlannable :: "ScanNode \<Rightarrow> DiffOptions \<Rightarrow> bool" where
  "isPlannable child opts \<longleftrightarrow>
     availability (scan_fields child) = Listed \<and> (\<not> ignoreHidden opts \<or> \<not> isHiddenName (node_name child))"

fun collapseInto :: "string \<Rightarrow> string \<Rightarrow> string" where
  "collapseInto result [] = result"
| "collapseInto result (c # cs) =
     (if c = slash \<and> result \<noteq> [] \<and> last result = slash then collapseInto result cs else collapseInto (result @ [c]) cs)"

definition linkTargetsDiffer :: "string \<Rightarrow> string \<Rightarrow> bool" where
  "linkTargetsDiffer local remote \<longleftrightarrow> collapseInto [] local \<noteq> collapseInto [] remote"

definition entriesDiffer :: "ScanNode \<Rightarrow> ScanNode \<Rightarrow> bool" where
  "entriesDiffer l r =
     (if node_type l \<noteq> node_type r then True
      else if node_type l = Symlink then
        (case (scan_linkTarget (scan_fields l), scan_linkTarget (scan_fields r)) of
           (Some a, Some b) \<Rightarrow> linkTargetsDiffer a b
         | _ \<Rightarrow> False)
      else if node_size l \<noteq> node_size r then True
      else if node_mtime l \<noteq> node_mtime r then True
      else False)"

subsection \<open>Case conflicts\<close>

text \<open>The names of one side with a folded key, in listing order.\<close>

definition variantsOf :: "string \<Rightarrow> ScanNode list \<Rightarrow> string list" where
  "variantsOf key nodes = filter (\<lambda>name. caseFoldedName name = key) (map node_name nodes)"

definition conflictsOfKey :: "bool \<Rightarrow> bool \<Rightarrow> string list \<Rightarrow> string list \<Rightarrow> string list" where
  "conflictsOfKey localDestinationFolds remoteDestinationFolds localVariants remoteVariants =
     (let crossSide = list_ex (\<lambda>l. list_ex (\<lambda>r. r \<noteq> l) remoteVariants) localVariants in
      if \<not> crossSide \<and> \<not> (localDestinationFolds \<and> length remoteVariants > 1) \<and>
         \<not> (remoteDestinationFolds \<and> length localVariants > 1)
      then [] else localVariants @ remoteVariants)"

definition caseConflictsOf :: "ScanNode list \<Rightarrow> ScanNode list \<Rightarrow> DiffOptions \<Rightarrow> string set" where
  "caseConflictsOf localChildren remoteChildren opts =
     (let localFolds = (direction opts \<noteq> DirUpload \<and> localCaseInsensitive opts);
          remoteFolds = (direction opts \<noteq> DirDownload \<and> remoteCaseInsensitive opts) in
      if \<not> localFolds \<and> \<not> remoteFolds then {}
      else if \<not> list_ex (\<lambda>n. foldingChanges (node_name n)) localChildren \<and>
              \<not> list_ex (\<lambda>n. foldingChanges (node_name n)) remoteChildren then {}
      else let keys = remdups (map (\<lambda>n. caseFoldedName (node_name n)) (localChildren @ remoteChildren)) in
        set (concat (map (\<lambda>key. conflictsOfKey localFolds remoteFolds
               (variantsOf key localChildren) (variantsOf key remoteChildren)) keys)))"

subsection \<open>The merge walk\<close>

definition progressCheckpointInterval :: u64 where
  "progressCheckpointInterval = 512"

definition bumpAndCheckpoint :: "Walk \<Rightarrow> Walk" where
  "bumpAndCheckpoint w =
     (let w = w\<lparr>compared := compared w + 1\<rparr> in
      if compared w mod progressCheckpointInterval = 0 then emit (OnProgress (compared w)) w else w)"

definition hiddenFromWalk :: "DiffOptions \<Rightarrow> string \<Rightarrow> bool" where
  "hiddenFromWalk opts name \<longleftrightarrow> ignoreHidden opts \<and> isHiddenName name"

definition handleLocalOnly :: "DiffOptions \<Rightarrow> string set \<Rightarrow> ScanNode \<Rightarrow> string \<Rightarrow> Walk \<Rightarrow> Walk" where
  "handleLocalOnly opts conflicts lc parentRelKey w =
     (if hiddenFromWalk opts (node_name lc) then w
      else if node_name lc \<in> conflicts then emit (OnBlocked (joinRel parentRelKey (node_name lc)) BlockCaseConflict) w
      else case blockReasonOf lc of
          Some r \<Rightarrow> emit (OnBlocked (joinRel parentRelKey (node_name lc)) r) w
        | None \<Rightarrow> (case chooseLocalOnlyAction lc opts of
              None \<Rightarrow> w
            | Some action \<Rightarrow> emitOneSided (makeOneSidedRow lc (joinRel parentRelKey (node_name lc)) action True)
                action parentRelKey opts w))"

definition handleRemoteOnly :: "DiffOptions \<Rightarrow> string set \<Rightarrow> ScanNode \<Rightarrow> string \<Rightarrow> Walk \<Rightarrow> Walk" where
  "handleRemoteOnly opts conflicts rc parentRelKey w =
     (if hiddenFromWalk opts (node_name rc) then w
      else if node_name rc \<in> conflicts then emit (OnBlocked (joinRel parentRelKey (node_name rc)) BlockCaseConflict) w
      else case blockReasonOf rc of
          Some r \<Rightarrow> emit (OnBlocked (joinRel parentRelKey (node_name rc)) r) w
        | None \<Rightarrow> (case chooseRemoteOnlyAction rc opts of
              None \<Rightarrow> w
            | Some action \<Rightarrow> emitOneSided (makeOneSidedRow rc (joinRel parentRelKey (node_name rc)) action False)
                action parentRelKey opts w))"

text \<open>What \<open>handleBothPresent\<close> does except for two directories, where it walks their children.\<close>

definition isPair :: "ScanNode \<Rightarrow> ScanNode \<Rightarrow> FileType \<Rightarrow> FileType \<Rightarrow> bool" where
  "isPair l r a b \<longleftrightarrow> node_type l = a \<and> node_type r = b \<or> node_type l = b \<and> node_type r = a"

definition emitTwoSided :: "DiffOptions \<Rightarrow> ScanNode \<Rightarrow> ScanNode \<Rightarrow> string \<Rightarrow> string \<Rightarrow> Walk \<Rightarrow> Walk" where
  "emitTwoSided opts l r relKey parentRelKey w =
     (if \<not> entriesDiffer l r then w
      else case chooseTwoSidedAction l r opts of
          None \<Rightarrow> w
        | Some action \<Rightarrow> let row = makeTwoSidedRow l r relKey action in
            if action = Upload then emit (EmitUpload row parentRelKey) w else emit (EmitDownload row parentRelKey) w)"

lemma size_children: "size_list size (children n) < size n"
  by (cases n) simp

lemma size_hd_tl: "xs \<noteq> [] \<Longrightarrow> size_list size xs = size (hd xs) + size_list size (tl xs) + 1"
  by (cases xs) simp_all

text \<open>The loop holds the children not yet taken; \<open>cancelled\<close> answers the poll with the given number.\<close>

function mergeChildren :: "DiffOptions \<Rightarrow> (nat \<Rightarrow> bool) \<Rightarrow> ScanNode list \<Rightarrow> ScanNode list \<Rightarrow> string \<Rightarrow> Walk \<Rightarrow> Walk"
  and mergeLoop :: "DiffOptions \<Rightarrow> (nat \<Rightarrow> bool) \<Rightarrow> string set \<Rightarrow> ScanNode list \<Rightarrow> ScanNode list \<Rightarrow> string \<Rightarrow> Walk \<Rightarrow> Walk"
  and handleBothPresent :: "DiffOptions \<Rightarrow> (nat \<Rightarrow> bool) \<Rightarrow> ScanNode \<Rightarrow> ScanNode \<Rightarrow> string \<Rightarrow> string \<Rightarrow> Walk \<Rightarrow> Walk" where
  "mergeChildren opts cancelled ls rs parentRelKey w =
     mergeLoop opts cancelled (caseConflictsOf ls rs opts) ls rs parentRelKey w"
| "mergeLoop opts cancelled conflicts ls rs parentRelKey w =
     (if ls = [] \<and> rs = [] then w
      else if cancelled (polls w) then w\<lparr>polls := polls w + 1\<rparr>
      else let w = w\<lparr>polls := polls w + 1\<rparr> in
        if ls \<noteq> [] \<and> rs \<noteq> [] \<and> node_name (hd ls) = node_name (hd rs) then
          mergeLoop opts cancelled conflicts (tl ls) (tl rs) parentRelKey (bumpAndCheckpoint
            (if hiddenFromWalk opts (node_name (hd ls)) then w
             else if node_name (hd ls) \<in> conflicts
               then emit (OnBlocked (joinRel parentRelKey (node_name (hd ls))) BlockCaseConflict) w
             else handleBothPresent opts cancelled (hd ls) (hd rs) (joinRel parentRelKey (node_name (hd ls))) parentRelKey w))
        else if ls \<noteq> [] \<and> (rs = [] \<or> node_name (hd ls) < node_name (hd rs)) then
          mergeLoop opts cancelled conflicts (tl ls) rs parentRelKey (bumpAndCheckpoint
            (handleLocalOnly opts conflicts (hd ls) parentRelKey w))
        else if rs \<noteq> [] \<and> (ls = [] \<or> node_name (hd rs) < node_name (hd ls)) then
          mergeLoop opts cancelled conflicts ls (tl rs) parentRelKey (bumpAndCheckpoint
            (handleRemoteOnly opts conflicts (hd rs) parentRelKey w))
        else w)"
| "handleBothPresent opts cancelled l r relKey parentRelKey w =
     (case (case blockReasonOf l of Some b \<Rightarrow> Some b | None \<Rightarrow> blockReasonOf r) of
        Some b \<Rightarrow> emit (OnBlocked relKey b) w
      | None \<Rightarrow>
          if isPair l r Directory Symlink then emit (OnBlocked relKey BlockTypeConflict) w
          else if node_type l = Directory \<and> node_type r = Directory then
            (if recursive opts then mergeChildren opts cancelled (children l) (children r) relKey w else w)
          else emitTwoSided opts l r relKey parentRelKey w)"
  by pat_completeness auto

termination
proof (relation "measure (\<lambda>a. case a of
    Inl (opts, c, ls, rs, p, w) \<Rightarrow> 2 * (size_list size ls + size_list size rs) + 1
  | Inr (Inl (opts, c, conf, ls, rs, p, w)) \<Rightarrow> 2 * (size_list size ls + size_list size rs)
  | Inr (Inr (opts, c, l, r, k, p, w)) \<Rightarrow> 2 * (size l + size r))", goal_cases)
  case (7 opts c l r k p w)
  then show ?case using size_children [of l] size_children [of r] by simp
qed (auto simp: size_hd_tl)

declare mergeChildren.simps [simp del] mergeLoop.simps [simp del] handleBothPresent.simps [simp del]

definition diffScanTrees :: "ScanNode \<Rightarrow> ScanNode \<Rightarrow> DiffOptions \<Rightarrow> (nat \<Rightarrow> bool) \<Rightarrow> Walk" where
  "diffScanTrees local remote opts cancelled =
     (let w = mergeChildren opts cancelled (children local) (children remote) []
            \<lparr>compared = 0, polls = 0, trace = []\<rparr> in
      emit (OnProgress (compared w)) w)"

subsection \<open>The decision per name\<close>

text \<open>What should happen to one name of a directory, from what is there on either side.\<close>

definition lookup_name :: "ScanNode list \<Rightarrow> string \<Rightarrow> ScanNode option" where
  "lookup_name nodes name = find (\<lambda>n. node_name n = name) nodes"

fun action_event :: "Action \<Rightarrow> DiffTreeNode \<Rightarrow> string \<Rightarrow> SinkEvent" where
  "action_event Upload row parent = EmitUpload row parent"
| "action_event Download row parent = EmitDownload row parent"
| "action_event DeleteLocal row parent = EmitDelete row parent"
| "action_event DeleteRemote row parent = EmitDelete row parent"

definition sided_row :: "DiffOptions \<Rightarrow> ScanNode \<Rightarrow> string \<Rightarrow> Action \<Rightarrow> bool \<Rightarrow> DiffTreeNode" where
  "sided_row opts node key action isLocal =
     (let row = makeOneSidedRow node key action isLocal in
      if node_type node = Directory \<and> \<not> recursive opts
      then row\<lparr>row_directChildCount := 0, row_descendantItemCount := 0, row_descendantByteTotal := 0\<rparr> else row)"

fun one_sided_events :: "DiffOptions \<Rightarrow> ScanNode \<Rightarrow> Action option \<Rightarrow> bool \<Rightarrow> string \<Rightarrow> string \<Rightarrow> SinkEvent list" where
  "one_sided_events opts node None isLocal key parent = []"
| "one_sided_events opts node (Some action) isLocal key parent =
     [action_event action (sided_row opts node key action isLocal) parent]"

definition two_sided_events :: "DiffOptions \<Rightarrow> ScanNode \<Rightarrow> ScanNode \<Rightarrow> string \<Rightarrow> string \<Rightarrow> SinkEvent list" where
  "two_sided_events opts l r key parent =
     (if isPair l r Directory Symlink then [OnBlocked key BlockTypeConflict]
      else if node_type l = Directory \<and> node_type r = Directory \<or> \<not> entriesDiffer l r then []
      else case chooseTwoSidedAction l r opts of
          None \<Rightarrow> []
        | Some action \<Rightarrow> [action_event action (makeTwoSidedRow l r key action) parent])"

definition decide :: "DiffOptions \<Rightarrow> string set \<Rightarrow> ScanNode option \<Rightarrow> ScanNode option \<Rightarrow> string \<Rightarrow> string \<Rightarrow> SinkEvent list" where
  "decide opts conflicts lo ro parent name =
     (if (lo = None \<and> ro = None) \<or> hiddenFromWalk opts name then []
      else if name \<in> conflicts then [OnBlocked (joinRel parent name) BlockCaseConflict]
      else case (case lo of Some l \<Rightarrow> blockReasonOf l | None \<Rightarrow> None) of
          Some b \<Rightarrow> [OnBlocked (joinRel parent name) b]
        | None \<Rightarrow> (case (case ro of Some r \<Rightarrow> blockReasonOf r | None \<Rightarrow> None) of
              Some b \<Rightarrow> [OnBlocked (joinRel parent name) b]
            | None \<Rightarrow> (case (lo, ro) of
                  (Some l, Some r) \<Rightarrow> two_sided_events opts l r (joinRel parent name) parent
                | (Some l, None) \<Rightarrow>
                    one_sided_events opts l (chooseLocalOnlyAction l opts) True (joinRel parent name) parent
                | (None, Some r) \<Rightarrow>
                    one_sided_events opts r (chooseRemoteOnlyAction r opts) False (joinRel parent name) parent
                | (None, None) \<Rightarrow> [])))"

text \<open>Directories present, listed and not in conflict on both sides are compared in turn.\<close>

definition descends :: "DiffOptions \<Rightarrow> string set \<Rightarrow> ScanNode \<Rightarrow> ScanNode \<Rightarrow> string \<Rightarrow> bool" where
  "descends opts conflicts l r name \<longleftrightarrow>
     recursive opts \<and> \<not> hiddenFromWalk opts name \<and> name \<notin> conflicts \<and>
     availability (scan_fields l) = Listed \<and> availability (scan_fields r) = Listed \<and>
     node_type l = Directory \<and> node_type r = Directory"

inductive visits :: "DiffOptions \<Rightarrow> ScanNode list \<Rightarrow> ScanNode list \<Rightarrow> string list \<Rightarrow> ScanNode list \<Rightarrow> ScanNode list \<Rightarrow> bool"
  for opts where
  here: "visits opts ls rs [] ls rs"
| below: "lookup_name ls n = Some l \<Longrightarrow> lookup_name rs n = Some r \<Longrightarrow>
     descends opts (caseConflictsOf ls rs opts) l r n \<Longrightarrow> visits opts (children l) (children r) path ls' rs' \<Longrightarrow>
     visits opts ls rs (n # path) ls' rs'"

inductive_cases visits_Nil: "visits opts ls rs [] ls' rs'"
inductive_cases visits_Cons: "visits opts ls rs (n # path) ls' rs'"

definition decided_events :: "DiffOptions \<Rightarrow> ScanNode list \<Rightarrow> ScanNode list \<Rightarrow> string \<Rightarrow> SinkEvent set" where
  "decided_events opts ls rs parent =
     {e. \<exists>path ls' rs' n. visits opts ls rs path ls' rs' \<and>
        e \<in> set (decide opts (caseConflictsOf ls' rs' opts) (lookup_name ls' n) (lookup_name rs' n)
          (foldl joinRel parent path) n)}"

subsection \<open>The merge walk makes the decisions\<close>

definition is_progress :: "SinkEvent \<Rightarrow> bool" where
  "is_progress e \<longleftrightarrow> (case e of OnProgress _ \<Rightarrow> True | _ \<Rightarrow> False)"

abbreviation decisions :: "Walk \<Rightarrow> SinkEvent set" where
  "decisions w \<equiv> {e \<in> set (trace w). \<not> is_progress e}"

lemma decisions_simps [simp]:
  "decisions (bumpAndCheckpoint w) = decisions w"
  "decisions (emit (OnBlocked k b) w) = insert (OnBlocked k b) (decisions w)"
  "decisions (emit (action_event a row p) w) = insert (action_event a row p) (decisions w)"
  "decisions (w\<lparr>polls := n\<rparr>) = decisions w"
  by (auto simp: bumpAndCheckpoint_def emit_def is_progress_def Let_def) (cases a; simp)+

lemma handler_decisions:
  "decisions (handleLocalOnly opts conf l parent w) = decisions w \<union> set (decide opts conf (Some l) None parent (node_name l))"
  "decisions (handleRemoteOnly opts conf r parent w) = decisions w \<union> set (decide opts conf None (Some r) parent (node_name r))"
proof -
  have one: "decisions (emitOneSided (makeOneSidedRow n k a side) a parent opts w) =
      decisions w \<union> set (one_sided_events opts n (Some a) side k parent)" for n k a side
  proof -
    have "emitOneSided (makeOneSidedRow n k a side) a parent opts w = emit (action_event a (sided_row opts n k a side) parent) w"
      by (cases a) (simp_all add: emitOneSided_def sided_row_def makeOneSidedRow_def Let_def)
    then show ?thesis by simp
  qed
  show "decisions (handleLocalOnly opts conf l parent w) = decisions w \<union> set (decide opts conf (Some l) None parent (node_name l))"
    by (cases "blockReasonOf l"; cases "chooseLocalOnlyAction l opts") (simp_all add: handleLocalOnly_def decide_def one)
  show "decisions (handleRemoteOnly opts conf r parent w) = decisions w \<union> set (decide opts conf None (Some r) parent (node_name r))"
    by (cases "blockReasonOf r"; cases "chooseRemoteOnlyAction r opts") (simp_all add: handleRemoteOnly_def decide_def one)
qed

definition entry_events ::
  "DiffOptions \<Rightarrow> string set \<Rightarrow> ScanNode option \<Rightarrow> ScanNode option \<Rightarrow> string \<Rightarrow> string \<Rightarrow> SinkEvent set" where
  "entry_events opts conf lo ro parent n = set (decide opts conf lo ro parent n) \<union>
     (case (lo, ro) of
        (Some l, Some r) \<Rightarrow>
          if descends opts conf l r n then decided_events opts (children l) (children r) (joinRel parent n) else {}
      | _ \<Rightarrow> {})"

definition loop_events :: "DiffOptions \<Rightarrow> string set \<Rightarrow> ScanNode list \<Rightarrow> ScanNode list \<Rightarrow> string \<Rightarrow> SinkEvent set" where
  "loop_events opts conf ls rs parent = (\<Union>n. entry_events opts conf (lookup_name ls n) (lookup_name rs n) parent n)"

lemma entry_none [simp]: "entry_events opts conf None None parent n = {}"
  by (simp add: entry_events_def decide_def)

lemma decided_unfold: "decided_events opts ls rs parent = loop_events opts (caseConflictsOf ls rs opts) ls rs parent"
proof (intro set_eqI iffI)
  fix e assume "e \<in> decided_events opts ls rs parent"
  then obtain path ls' rs' n where v: "visits opts ls rs path ls' rs'" and
    e: "e \<in> set (decide opts (caseConflictsOf ls' rs' opts) (lookup_name ls' n) (lookup_name rs' n) (foldl joinRel parent path) n)"
    by (auto simp: decided_events_def)
  show "e \<in> loop_events opts (caseConflictsOf ls rs opts) ls rs parent"
  proof (cases path)
    case Nil
    with v e show ?thesis by (auto simp: loop_events_def entry_events_def elim: visits_Nil)
  next
    case (Cons m path')
    from v [unfolded Cons] obtain l r where "lookup_name ls m = Some l" "lookup_name rs m = Some r"
      "descends opts (caseConflictsOf ls rs opts) l r m" "visits opts (children l) (children r) path' ls' rs'"
      by (elim visits_Cons) blast
    with e Cons have "e \<in> entry_events opts (caseConflictsOf ls rs opts) (lookup_name ls m) (lookup_name rs m) parent m"
      by (auto simp: entry_events_def decided_events_def)
    then show ?thesis by (auto simp: loop_events_def)
  qed
next
  fix e assume "e \<in> loop_events opts (caseConflictsOf ls rs opts) ls rs parent"
  then obtain n where n: "e \<in> entry_events opts (caseConflictsOf ls rs opts) (lookup_name ls n) (lookup_name rs n) parent n"
    by (auto simp: loop_events_def)
  show "e \<in> decided_events opts ls rs parent"
  proof (cases "e \<in> set (decide opts (caseConflictsOf ls rs opts) (lookup_name ls n) (lookup_name rs n) parent n)")
    case True
    then show ?thesis
      using visits.here [of opts ls rs] unfolding decided_events_def
      by (intro CollectI exI [of _ "[]"] exI [of _ ls] exI [of _ rs] exI [of _ n]) simp
  next
    case False
    with n obtain l r where lr: "lookup_name ls n = Some l" "lookup_name rs n = Some r"
      "descends opts (caseConflictsOf ls rs opts) l r n" "e \<in> decided_events opts (children l) (children r) (joinRel parent n)"
      by (auto simp: entry_events_def split: option.splits if_splits)
    then obtain path ls' rs' m where v: "visits opts (children l) (children r) path ls' rs'"
      "e \<in> set (decide opts (caseConflictsOf ls' rs' opts) (lookup_name ls' m) (lookup_name rs' m)
        (foldl joinRel (joinRel parent n) path) m)" by (auto simp: decided_events_def)
    from visits.below [OF lr(1-3) v(1)] v(2) show ?thesis
      unfolding decided_events_def by (intro CollectI exI [of _ "n # path"]) auto
  qed
qed

abbreviation sorted_names :: "ScanNode list \<Rightarrow> bool" where
  "sorted_names ns \<equiv> sorted_wrt (<) (map node_name ns)"

lemma lookup_Cons: "lookup_name (l # ls) n = (if node_name l = n then Some l else lookup_name ls n)"
  by (simp add: lookup_name_def)

lemma lookup_Nil: "lookup_name [] n = None"
  by (simp add: lookup_name_def)

lemma lookup_above: "sorted_names ls \<Longrightarrow> (\<And>l. l \<in> set ls \<Longrightarrow> m < node_name l) \<Longrightarrow> lookup_name ls m = None"
  by (auto simp: lookup_name_def find_None_iff)

lemma loop_split:
  assumes "lookup_name ls' n = None" and "lookup_name rs' n = None"
    and "\<And>m. m \<noteq> n \<Longrightarrow> lookup_name ls m = lookup_name ls' m" and "\<And>m. m \<noteq> n \<Longrightarrow> lookup_name rs m = lookup_name rs' m"
  shows "loop_events opts conf ls rs parent =
    entry_events opts conf (lookup_name ls n) (lookup_name rs n) parent n \<union> loop_events opts conf ls' rs' parent"
proof -
  define old where "old m = entry_events opts conf (lookup_name ls m) (lookup_name rs m) parent m" for m
  define new where "new m = entry_events opts conf (lookup_name ls' m) (lookup_name rs' m) parent m" for m
  have "old m = new m" if "m \<noteq> n" for m using assms(3,4) that by (simp add: old_def new_def)
  moreover have "new n = {}" using assms(1,2) by (simp add: new_def)
  ultimately have "(\<Union>m. old m) = old n \<union> (\<Union>m. new m)" by (auto, metis, metis empty_iff)
  then show ?thesis by (simp add: loop_events_def old_def new_def)
qed

definition reports :: "(nat \<Rightarrow> bool) \<Rightarrow> Walk \<Rightarrow> Walk \<Rightarrow> SinkEvent set \<Rightarrow> bool" where
  "reports cancelled w w' E \<longleftrightarrow>
     decisions w \<subseteq> decisions w' \<and> decisions w' \<subseteq> decisions w \<union> E \<and>
     ((\<forall>k. \<not> cancelled k) \<longrightarrow> decisions w' = decisions w \<union> E)"

lemma reports_trans:
  "reports cancelled w w1 E \<Longrightarrow> reports cancelled w1 w2 F \<Longrightarrow> reports cancelled w w2 (E \<union> F)"
  by (auto simp only: reports_def)

lemma reports_eq: "decisions w' = decisions w \<union> E \<Longrightarrow> reports cancelled w w' E"
  by (auto simp only: reports_def)

lemma reports_none: "decisions w' = decisions w \<Longrightarrow> cancelled k \<Longrightarrow> reports cancelled w w' E"
  by (auto simp only: reports_def)

definition pair_events :: "DiffOptions \<Rightarrow> ScanNode \<Rightarrow> ScanNode \<Rightarrow> string \<Rightarrow> string \<Rightarrow> SinkEvent set" where
  "pair_events opts l r relKey parent =
     (case (case blockReasonOf l of Some b \<Rightarrow> Some b | None \<Rightarrow> blockReasonOf r) of
        Some b \<Rightarrow> {OnBlocked relKey b}
      | None \<Rightarrow> set (two_sided_events opts l r relKey parent) \<union>
          (if recursive opts \<and> node_type l = Directory \<and> node_type r = Directory
           then decided_events opts (children l) (children r) relKey else {}))"

lemma blockReasonOf_None: "blockReasonOf n = None \<longleftrightarrow> availability (scan_fields n) = Listed"
  by (cases "availability (scan_fields n)") (simp_all add: blockReasonOf_def)

lemma entry_pair:
  assumes "\<not> hiddenFromWalk opts n" and "n \<notin> conf"
  shows "entry_events opts conf (Some l) (Some r) parent n = pair_events opts l r (joinRel parent n) parent"
  using assms by (cases "blockReasonOf l"; cases "blockReasonOf r")
    (auto simp: entry_events_def decide_def pair_events_def descends_def simp flip: blockReasonOf_None)

lemma emitTwoSided_decisions:
  assumes "\<not> isPair l r Directory Symlink" and "\<not> (node_type l = Directory \<and> node_type r = Directory)"
  shows "decisions (emitTwoSided opts l r relKey parent w) = decisions w \<union> set (two_sided_events opts l r relKey parent)"
proof -
  have two: "chooseTwoSidedAction l r opts = Some a \<Longrightarrow> a = Upload \<or> a = Download" for a
    by (auto simp: chooseTwoSidedAction_def Let_def split: if_splits)
  show ?thesis
  proof (cases "chooseTwoSidedAction l r opts")
    case (Some a)
    from two [OF this] show ?thesis
    proof
      assume "a = Upload"
      then show ?thesis
        using assms Some decisions_simps(3) [of Upload] by (auto simp: emitTwoSided_def two_sided_events_def Let_def)
    next
      assume "a = Download"
      then show ?thesis
        using assms Some decisions_simps(3) [of Download] by (auto simp: emitTwoSided_def two_sided_events_def Let_def)
    qed
  qed (use assms in \<open>auto simp: emitTwoSided_def two_sided_events_def\<close>)
qed

lemma sorted_children: "sorted_tree n \<Longrightarrow> sorted_names (children n) \<and> list_all sorted_tree (children n)"
  by (cases n) simp

lemma merge_reports:
  "sorted_names ls \<Longrightarrow> sorted_names rs \<Longrightarrow> list_all sorted_tree ls \<Longrightarrow> list_all sorted_tree rs \<Longrightarrow>
     reports cancelled w (mergeChildren opts cancelled ls rs parent w) (decided_events opts ls rs parent)"
  "sorted_names ls \<Longrightarrow> sorted_names rs \<Longrightarrow> list_all sorted_tree ls \<Longrightarrow> list_all sorted_tree rs \<Longrightarrow>
     reports cancelled w (mergeLoop opts cancelled conf ls rs parent w) (loop_events opts conf ls rs parent)"
  "sorted_tree l \<Longrightarrow> sorted_tree r \<Longrightarrow>
     reports cancelled w (handleBothPresent opts cancelled l r relKey parent w) (pair_events opts l r relKey parent)"
proof (induction opts cancelled ls rs parent w and opts cancelled conf ls rs parent w and opts cancelled l r relKey parent w
    rule: mergeChildren_mergeLoop_handleBothPresent.induct)
  case (1 opts cancelled ls rs parent w)
  then show ?case by (simp add: mergeChildren.simps decided_unfold)
next
  case (3 opts cancelled l r relKey parent w)
  show ?case
  proof (cases "blockReasonOf l = None \<and> blockReasonOf r = None")
    case True
    show ?thesis
    proof (cases "node_type l = Directory \<and> node_type r = Directory")
      case dirs: True
      then have "two_sided_events opts l r relKey parent = []" "\<not> isPair l r Directory Symlink"
        by (simp_all add: two_sided_events_def isPair_def)
      moreover have "reports cancelled w (mergeChildren opts cancelled (children l) (children r) relKey w)
          (decided_events opts (children l) (children r) relKey)" if "recursive opts"
        using 3 True dirs that sorted_children [OF 3(2)] sorted_children [OF 3(3)] by (simp add: isPair_def)
      ultimately show ?thesis
        using True dirs by (simp add: handleBothPresent.simps pair_events_def reports_eq)
    next
      case False
      then have pe: "pair_events opts l r relKey parent = set (two_sided_events opts l r relKey parent)"
        using True False by (auto simp: pair_events_def)
      show ?thesis
      proof (cases "isPair l r Directory Symlink")
        case pair: True
        then have "handleBothPresent opts cancelled l r relKey parent w = emit (OnBlocked relKey BlockTypeConflict) w"
          using True by (simp add: handleBothPresent.simps)
        moreover have "two_sided_events opts l r relKey parent = [OnBlocked relKey BlockTypeConflict]"
          using pair by (simp add: two_sided_events_def)
        ultimately show ?thesis unfolding pe by (intro reports_eq) simp
      next
        case pair: False
        then have "handleBothPresent opts cancelled l r relKey parent w = emitTwoSided opts l r relKey parent w"
          using True False by (auto simp: handleBothPresent.simps)
        then show ?thesis
          unfolding pe using emitTwoSided_decisions [OF pair False] by (intro reports_eq) simp
      qed
    qed
  next
    case False
    then obtain b where b: "(case blockReasonOf l of Some b \<Rightarrow> Some b | None \<Rightarrow> blockReasonOf r) = Some b"
      by (cases "blockReasonOf l") auto
    then show ?thesis by (intro reports_eq) (simp add: handleBothPresent.simps pair_events_def)
  qed
next
  case (2 opts cancelled conf ls rs parent w)
  let ?w = "w\<lparr>polls := polls w + 1\<rparr>"
  have polled: "reports cancelled ?w v E \<Longrightarrow> reports cancelled w v E" for v E by (simp add: reports_def)
  show ?case
  proof (cases "(ls = [] \<and> rs = []) \<or> cancelled (polls w)")
    case True
    then show ?thesis
    proof
      assume "ls = [] \<and> rs = []"
      then show ?thesis
        by (intro reports_eq) (simp add: mergeLoop.simps loop_events_def lookup_Nil)
    next
      assume c: "cancelled (polls w)"
      then have "mergeLoop opts cancelled conf ls rs parent w = w \<or> mergeLoop opts cancelled conf ls rs parent w = ?w"
        by (simp add: mergeLoop.simps [of opts cancelled conf ls rs parent w])
      then show ?thesis using c by (auto intro!: reports_none)
    qed
  next
    case False
    then have go: "\<not> (ls = [] \<and> rs = [])" "\<not> cancelled (polls w)" by auto
    note step = mergeLoop.simps [of opts cancelled conf ls rs parent w]
    consider (both) l ls' r rs' where "ls = l # ls'" "rs = r # rs'" "node_name l = node_name r"
      | (left) l ls' where "ls = l # ls'" "rs = [] \<or> node_name l < node_name (hd rs)"
      | (right) r rs' where "rs = r # rs'" "ls = [] \<or> node_name r < node_name (hd ls)"
      using go(1) by (cases ls; cases rs) (auto, metis list.sel(1) linorder_less_linear)
    then show ?thesis
    proof cases
      case both
      let ?n = "node_name l"
      let ?key = "joinRel parent ?n"
      have hds: "hd ls = l" "tl ls = ls'" "hd rs = r" "tl rs = rs'" using both by simp_all
      define w1 where "w1 = (if hiddenFromWalk opts ?n then ?w
        else if ?n \<in> conf then emit (OnBlocked ?key BlockCaseConflict) ?w
        else handleBothPresent opts cancelled l r ?key parent ?w)"
      have eq: "mergeLoop opts cancelled conf ls rs parent w =
          mergeLoop opts cancelled conf ls' rs' parent (bumpAndCheckpoint w1)"
        unfolding step using go both by (simp add: w1_def)
      have one: "reports cancelled ?w w1 (entry_events opts conf (Some l) (Some r) parent ?n)"
      proof (cases "hiddenFromWalk opts ?n \<or> ?n \<in> conf")
        case True
        then show ?thesis
          by (intro reports_eq) (auto simp: w1_def entry_events_def decide_def descends_def)
      next
        case False
        have "reports cancelled ?w (handleBothPresent opts cancelled l r ?key parent ?w) (pair_events opts l r ?key parent)"
          using 2(1) [OF go refl] both False 2(7,8) by simp
        with False show ?thesis by (simp add: w1_def entry_pair)
      qed
      have rest: "reports cancelled (bumpAndCheckpoint w1) (mergeLoop opts cancelled conf ls' rs' parent (bumpAndCheckpoint w1))
          (loop_events opts conf ls' rs' parent)"
        by (rule 2(2) [OF go refl, unfolded hds, folded w1_def]) (use both 2(5-8) in simp_all)
      have "reports cancelled w1 (bumpAndCheckpoint w1) {}" by (intro reports_eq) simp
      note all = polled [OF reports_trans [OF reports_trans [OF one this] rest]]
      have "lookup_name ls' ?n = None" "lookup_name rs' ?n = None"
        using 2(5,6) both by (auto intro!: lookup_above)
      then have "loop_events opts conf ls rs parent =
          entry_events opts conf (Some l) (Some r) parent ?n \<union> loop_events opts conf ls' rs' parent"
        using loop_split [of ls' ?n rs' ls rs opts conf parent] both by (simp add: lookup_Cons)
      then show ?thesis using all by (simp add: eq)
    next
      case left
      let ?n = "node_name l"
      let ?w1 = "handleLocalOnly opts conf l parent ?w"
      have ne: "\<not> (rs \<noteq> [] \<and> node_name l = node_name (hd rs))" using left(2) by auto
      have eq: "mergeLoop opts cancelled conf ls rs parent w =
          mergeLoop opts cancelled conf ls' rs parent (bumpAndCheckpoint ?w1)"
        unfolding step using go left ne by auto
      have one: "reports cancelled ?w (bumpAndCheckpoint ?w1) (entry_events opts conf (Some l) None parent ?n)"
        by (intro reports_eq) (simp add: handler_decisions entry_events_def)
      have rest: "reports cancelled (bumpAndCheckpoint ?w1) (mergeLoop opts cancelled conf ls' rs parent (bumpAndCheckpoint ?w1))
          (loop_events opts conf ls' rs parent)"
        using 2(3) [OF go refl] left ne 2(5-8) by auto
      note all = polled [OF reports_trans [OF one rest]]
      have rs: "lookup_name rs ?n = None"
        using 2(6) left(2) by (cases rs) (auto intro!: lookup_above, fastforce)
      have "lookup_name ls' ?n = None" using 2(5) left by (auto intro!: lookup_above)
      then have "loop_events opts conf ls rs parent =
          entry_events opts conf (Some l) None parent ?n \<union> loop_events opts conf ls' rs parent"
        using loop_split [of ls' ?n rs ls rs opts conf parent] left(1) rs by (simp add: lookup_Cons)
      then show ?thesis using all by (simp add: eq)
    next
      case right
      let ?n = "node_name r"
      let ?w1 = "handleRemoteOnly opts conf r parent ?w"
      have ne: "\<not> (ls \<noteq> [] \<and> node_name (hd ls) = node_name r)" "\<not> (ls \<noteq> [] \<and> node_name (hd ls) < node_name r)"
        using right(2) by auto
      have eq: "mergeLoop opts cancelled conf ls rs parent w =
          mergeLoop opts cancelled conf ls rs' parent (bumpAndCheckpoint ?w1)"
        unfolding step using go right ne by auto
      have one: "reports cancelled ?w (bumpAndCheckpoint ?w1) (entry_events opts conf None (Some r) parent ?n)"
        by (intro reports_eq) (simp add: handler_decisions entry_events_def)
      have rest: "reports cancelled (bumpAndCheckpoint ?w1) (mergeLoop opts cancelled conf ls rs' parent (bumpAndCheckpoint ?w1))
          (loop_events opts conf ls rs' parent)"
        using 2(4) [OF go refl] right ne 2(5-8) by auto
      note all = polled [OF reports_trans [OF one rest]]
      have ls: "lookup_name ls ?n = None"
        using 2(5) right(2) by (cases ls) (auto intro!: lookup_above, fastforce)
      have "lookup_name rs' ?n = None" using 2(6) right by (auto intro!: lookup_above)
      then have "loop_events opts conf ls rs parent =
          entry_events opts conf None (Some r) parent ?n \<union> loop_events opts conf ls rs' parent"
        using loop_split [of ls ?n rs' ls rs opts conf parent] right(1) ls by (simp add: lookup_Cons)
      then show ?thesis using all by (simp add: eq)
    qed
  qed
qed

subsection \<open>Where a decision was made\<close>

definition decided_at :: "DiffOptions \<Rightarrow> ScanNode \<Rightarrow> ScanNode \<Rightarrow> string list \<Rightarrow> SinkEvent \<Rightarrow> bool" where
  "decided_at opts L R p e \<longleftrightarrow>
     (\<exists>path n ls rs. p = path @ [n] \<and> visits opts (children L) (children R) path ls rs \<and>
        e \<in> set (decide opts (caseConflictsOf ls rs opts) (lookup_name ls n) (lookup_name rs n) (foldl joinRel [] path) n))"

lemma decisions_decided:
  assumes "sorted_tree L" and "sorted_tree R" and "e \<in> set (trace (diffScanTrees L R opts cancelled))" and "\<not> is_progress e"
  shows "\<exists>p. decided_at opts L R p e"
proof -
  have "e \<in> decisions (mergeChildren opts cancelled (children L) (children R) [] \<lparr>compared = 0, polls = 0, trace = []\<rparr>)"
    using assms(3,4) by (auto simp: diffScanTrees_def emit_def is_progress_def Let_def)
  then have "e \<in> decided_events opts (children L) (children R) []"
    using merge_reports(1) [of "children L" "children R" cancelled "\<lparr>compared = 0, polls = 0, trace = []\<rparr>" opts "[]"]
      sorted_children [OF assms(1)] sorted_children [OF assms(2)] by (auto simp: reports_def)
  then show ?thesis by (auto simp: decided_events_def decided_at_def)
qed

lemma visits_node_at:
  "visits opts ls rs path ls' rs' \<Longrightarrow> children L = ls \<Longrightarrow> children R = rs \<Longrightarrow>
     \<exists>l r. node_at L path = Some l \<and> children l = ls' \<and> node_at R path = Some r \<and> children r = rs' \<and>
       (path \<noteq> [] \<longrightarrow> node_type l = Directory \<and> node_type r = Directory \<and>
          availability (scan_fields l) = Listed \<and> availability (scan_fields r) = Listed)"
proof (induction arbitrary: L R rule: visits.induct)
  case (below ls n l rs r path ls' rs')
  from below.IH [OF refl refl] obtain l' r' where
    ind: "node_at l path = Some l'" "children l' = ls'" "node_at r path = Some r'" "children r' = rs'"
    "path \<noteq> [] \<longrightarrow> node_type l' = Directory \<and> node_type r' = Directory \<and>
       availability (scan_fields l') = Listed \<and> availability (scan_fields r') = Listed" by blast
  have "node_at L (n # path) = Some l'" "node_at R (n # path) = Some r'"
    using below.hyps(1,2) below.prems ind(1,3) by (simp_all add: lookup_name_def)
  moreover have "node_type l' = Directory \<and> node_type r' = Directory \<and>
      availability (scan_fields l') = Listed \<and> availability (scan_fields r') = Listed"
    using ind below.hyps(3) by (cases path) (auto simp: descends_def)
  ultimately show ?case using ind by auto
qed simp

lemma node_at_snoc: "node_at L path = Some l \<Longrightarrow> node_at L (path @ [n]) = lookup_name (children l) n"
  by (induction path arbitrary: L) (auto simp: lookup_name_def split: option.splits)

lemma key_snoc: "foldl joinRel [] (path @ [n]) = joinRel (foldl joinRel [] path) n"
  by simp

lemma visits_append:
  "visits opts ls rs path ls1 rs1 \<Longrightarrow> visits opts ls rs (path @ rest) ls2 rs2 \<Longrightarrow> visits opts ls1 rs1 rest ls2 rs2"
proof (induction rule: visits.induct)
  case (below ls n l rs r path ls' rs')
  from below.prems show ?case
    using below.IH below.hyps(1,2) by (auto elim: visits_Cons)
qed simp

lemma visits_unique: "visits opts ls rs path ls1 rs1 \<Longrightarrow> visits opts ls rs path ls2 rs2 \<Longrightarrow> ls1 = ls2 \<and> rs1 = rs2"
  using visits_append [of opts ls rs path ls1 rs1 "[]" ls2 rs2] by (auto elim: visits_Nil)

lemma decide_single: "e \<in> set (decide opts conf lo ro parent n) \<Longrightarrow> decide opts conf lo ro parent n = [e]"
proof -
  have one: "length (one_sided_events opts x a b k q) \<le> 1" for x a b k q by (cases a) simp_all
  have two: "length (two_sided_events opts l r k q) \<le> 1" for l r k q by (simp add: two_sided_events_def split: option.split)
  have "length (decide opts conf lo ro parent n) \<le> 1"
    by (simp add: decide_def one [simplified] two [simplified] split: option.split)
  then show "e \<in> set (decide opts conf lo ro parent n) \<Longrightarrow> decide opts conf lo ro parent n = [e]"
    by (cases "decide opts conf lo ro parent n") auto
qed

lemma decided_antichain:
  assumes "decided_at opts L R p e" and "decided_at opts L R q f" and "prefix p q"
  shows "p = q \<and> e = f"
proof -
  from assms(1) obtain path n ls rs where p: "p = path @ [n]" "visits opts (children L) (children R) path ls rs"
    "e \<in> set (decide opts (caseConflictsOf ls rs opts) (lookup_name ls n) (lookup_name rs n) (foldl joinRel [] path) n)"
    by (auto simp: decided_at_def)
  from assms(2) obtain path' m ls' rs' where q: "q = path' @ [m]" "visits opts (children L) (children R) path' ls' rs'"
    "f \<in> set (decide opts (caseConflictsOf ls' rs' opts) (lookup_name ls' m) (lookup_name rs' m) (foldl joinRel [] path') m)"
    by (auto simp: decided_at_def)
  show ?thesis
  proof (cases "p = q")
    case True
    then have "path' = path" "m = n" using p(1) q(1) by auto
    moreover have "ls = ls' \<and> rs = rs'" using visits_unique p(2) q(2) \<open>path' = path\<close> by blast
    ultimately show ?thesis using decide_single [OF p(3)] decide_single [OF q(3)] True by simp
  next
    case False
    then have "prefix (path @ [n]) path'" using assms(3) p(1) q(1) by (auto simp: prefix_snoc)
    then obtain rest where "path' = path @ n # rest" by (auto simp: prefix_def)
    with q(2) have "visits opts ls rs (n # rest) ls' rs'" using visits_append [OF p(2)] by blast
    then obtain l r where lr: "lookup_name ls n = Some l" "lookup_name rs n = Some r"
      "descends opts (caseConflictsOf ls rs opts) l r n" by (elim visits_Cons) blast
    then have "decide opts (caseConflictsOf ls rs opts) (Some l) (Some r) (foldl joinRel [] path) n = []"
      by (simp add: decide_def descends_def two_sided_events_def isPair_def flip: blockReasonOf_None)
    with p(3) lr show ?thesis by simp
  qed
qed

lemma decided_sides:
  assumes "decided_at opts L R p e"
  shows "\<exists>path n l r. p = path @ [n] \<and> node_at L path = Some l \<and> node_at R path = Some r \<and>
     node_at L p = lookup_name (children l) n \<and> node_at R p = lookup_name (children r) n \<and>
     e \<in> set (decide opts (caseConflictsOf (children l) (children r) opts) (node_at L p) (node_at R p)
        (foldl joinRel [] path) n)"
proof -
  from assms obtain path n ls rs where p: "p = path @ [n]" and v: "visits opts (children L) (children R) path ls rs" and
    e: "e \<in> set (decide opts (caseConflictsOf ls rs opts) (lookup_name ls n) (lookup_name rs n) (foldl joinRel [] path) n)"
    by (auto simp: decided_at_def)
  from visits_node_at [OF v refl refl] obtain l r where
    "node_at L path = Some l" "children l = ls" "node_at R path = Some r" "children r = rs" by blast
  with e show ?thesis unfolding p
    by (intro exI [of _ path] exI [of _ n] exI [of _ l] exI [of _ r]) (simp add: node_at_snoc)
qed

lemma decide_nothing: "decide opts conf None None parent n = []"
  by (simp add: decide_def)

lemma decided_alone:
  assumes "decided_at opts L R p e"
  shows "(node_at L p \<noteq> None \<or> node_at R p \<noteq> None) \<and>
    (\<exists>path n l r. p = path @ [n] \<and> node_at L path = Some l \<and> node_at R path = Some r \<and>
       decide opts (caseConflictsOf (children l) (children r) opts) (node_at L p) (node_at R p) (foldl joinRel [] path) n = [e])"
proof -
  from decided_sides [OF assms] obtain path n l r where at: "p = path @ [n]" "node_at L path = Some l" "node_at R path = Some r"
    and e: "e \<in> set (decide opts (caseConflictsOf (children l) (children r) opts) (node_at L p) (node_at R p)
      (foldl joinRel [] path) n)" by blast
  have "node_at L p \<noteq> None \<or> node_at R p \<noteq> None" using e decide_nothing by (cases "node_at L p"; cases "node_at R p") auto
  with at decide_single [OF e] show ?thesis by blast
qed

lemma decide_delete:
  assumes "EmitDelete row parent \<in> set (decide opts conf lo ro key n)"
  shows "actionDelete opts \<and> row_relKey row = joinRel key n \<and> parent = key \<and>
    (\<exists>node. availability (scan_fields node) = Listed \<and>
      (node_type node = Directory \<longrightarrow> childrenKnown (scan_fields node) \<and> recursive opts) \<and>
      (direction opts = DirDownload \<and> row_action row = DeleteLocal \<and> lo = Some node \<and> ro = None \<or>
       direction opts = DirUpload \<and> row_action row = DeleteRemote \<and> lo = None \<and> ro = Some node))"
proof -
  have two: "EmitDelete row parent \<notin> set (two_sided_events opts l r k q)" for l r k q
    by (auto simp: two_sided_events_def chooseTwoSidedAction_def Let_def split: option.splits if_splits)
  have one: "a = DeleteLocal \<or> a = DeleteRemote"
    "parent = q" "row_action row = a" "row_relKey row = k" if "action_event a (sided_row opts x k a side) q = EmitDelete row parent" for a x k q side
    using that by (cases a; auto simp: sided_row_def makeOneSidedRow_def Let_def split: if_splits)+
  show ?thesis
  proof (cases lo)
    case None
    then obtain r where r: "ro = Some r" using assms by (cases ro) (auto simp: decide_def)
    with None assms obtain a where "blockReasonOf r = None" "chooseRemoteOnlyAction r opts = Some a"
      "action_event a (sided_row opts r (joinRel key n) a False) key = EmitDelete row parent"
      by (cases "chooseRemoteOnlyAction r opts") (auto simp: decide_def split: if_splits option.splits)
    with one [OF this(3)] None r show ?thesis
      by (auto simp: chooseRemoteOnlyAction_def blockReasonOf_None split: if_splits)
  next
    case (Some l)
    show ?thesis
    proof (cases ro)
      case None
      with Some assms obtain a where "blockReasonOf l = None" "chooseLocalOnlyAction l opts = Some a"
        "action_event a (sided_row opts l (joinRel key n) a True) key = EmitDelete row parent"
        by (cases "chooseLocalOnlyAction l opts") (auto simp: decide_def split: if_splits option.splits)
      with one [OF this(3)] None Some show ?thesis
        by (auto simp: chooseLocalOnlyAction_def blockReasonOf_None split: if_splits)
    next
      case (Some r)
      with \<open>lo = Some l\<close> assms two show ?thesis by (auto simp: decide_def split: if_splits option.splits)
    qed
  qed
qed

lemma two_sided_transfer:
  "EmitUpload row parent \<in> set (two_sided_events opts l r k q) \<Longrightarrow>
     actionUpload opts \<and> direction opts \<noteq> DirDownload \<and> row_relKey row = k \<and> parent = q \<and> entriesDiffer l r \<and>
     \<not> isPair l r Directory Symlink \<and> (direction opts = DirBoth \<longrightarrow> node_mtime r \<le> node_mtime l)"
  "EmitDownload row parent \<in> set (two_sided_events opts l r k q) \<Longrightarrow>
     actionDownload opts \<and> direction opts \<noteq> DirUpload \<and> row_relKey row = k \<and> parent = q \<and> entriesDiffer l r \<and>
     \<not> isPair l r Directory Symlink \<and> (direction opts = DirBoth \<longrightarrow> node_mtime l < node_mtime r)"
  by (cases "direction opts"; auto simp: two_sided_events_def chooseTwoSidedAction_def makeTwoSidedRow_def Let_def
      split: if_splits)+

lemma one_sided_transfer:
  "EmitUpload row parent \<in> set (one_sided_events opts x a side k q) \<Longrightarrow> a = Some Upload \<and> row_relKey row = k \<and> parent = q"
  "EmitDownload row parent \<in> set (one_sided_events opts x a side k q) \<Longrightarrow> a = Some Download \<and> row_relKey row = k \<and> parent = q"
  by (cases a; cases "the a"; auto simp: sided_row_def makeOneSidedRow_def Let_def split: if_splits)+

lemma one_sided_choice:
  "chooseLocalOnlyAction x opts = Some Upload \<longleftrightarrow> actionUpload opts \<and> direction opts \<noteq> DirDownload"
  "chooseLocalOnlyAction x opts \<noteq> Some Download"
  "chooseRemoteOnlyAction x opts = Some Download \<longleftrightarrow> actionDownload opts \<and> direction opts \<noteq> DirUpload"
  "chooseRemoteOnlyAction x opts \<noteq> Some Upload"
  by (auto simp: chooseLocalOnlyAction_def chooseRemoteOnlyAction_def)

lemma decide_cases:
  assumes "e \<in> set (decide opts conf lo ro key n)" and "\<And>k b. e \<noteq> OnBlocked k b"
  obtains (both) l r where "lo = Some l" "ro = Some r" "availability (scan_fields l) = Listed"
      "availability (scan_fields r) = Listed" "e \<in> set (two_sided_events opts l r (joinRel key n) key)"
  | (local) l where "lo = Some l" "ro = None" "availability (scan_fields l) = Listed"
      "e \<in> set (one_sided_events opts l (chooseLocalOnlyAction l opts) True (joinRel key n) key)"
  | (remote) r where "lo = None" "ro = Some r" "availability (scan_fields r) = Listed"
      "e \<in> set (one_sided_events opts r (chooseRemoteOnlyAction r opts) False (joinRel key n) key)"
proof -
  have None: "blockReasonOf x = None \<Longrightarrow> availability (scan_fields x) = Listed" for x by (simp add: blockReasonOf_None)
  note e = assms(1) [unfolded decide_def]
  show thesis
  proof (cases lo; cases ro)
    fix l r assume lr: "lo = Some l" "ro = Some r"
    with e assms(2) have "blockReasonOf l = None" "blockReasonOf r = None" "e \<in> set (two_sided_events opts l r (joinRel key n) key)"
      by (auto split: if_splits option.splits)
    with both lr None show thesis by blast
  next
    fix l assume lr: "lo = Some l" "ro = None"
    with e assms(2) have "blockReasonOf l = None"
      "e \<in> set (one_sided_events opts l (chooseLocalOnlyAction l opts) True (joinRel key n) key)"
      by (auto split: if_splits option.splits)
    with local lr None show thesis by blast
  next
    fix r assume lr: "lo = None" "ro = Some r"
    with e assms(2) have "blockReasonOf r = None"
      "e \<in> set (one_sided_events opts r (chooseRemoteOnlyAction r opts) False (joinRel key n) key)"
      by (auto split: if_splits option.splits)
    with remote lr None show thesis by blast
  qed (use e in auto)
qed

text \<open>What makes an entry of the source side go over an entry of the other side, if there is one.\<close>

definition may_replace :: "DiffOptions \<Rightarrow> bool \<Rightarrow> ScanNode \<Rightarrow> ScanNode option \<Rightarrow> bool" where
  "may_replace opts up source target \<longleftrightarrow> availability (scan_fields source) = Listed \<and>
     (case target of None \<Rightarrow> True
      | Some old \<Rightarrow> availability (scan_fields old) = Listed \<and> \<not> isPair source old Directory Symlink \<and>
          (if up then entriesDiffer source old else entriesDiffer old source) \<and>
          (direction opts = DirBoth \<longrightarrow>
             (if up then node_mtime old \<le> node_mtime source else node_mtime old < node_mtime source)))"

lemma decide_transfer:
  "EmitUpload row parent \<in> set (decide opts conf lo ro key n) \<Longrightarrow>
     actionUpload opts \<and> direction opts \<noteq> DirDownload \<and> row_relKey row = joinRel key n \<and> parent = key \<and>
     (\<exists>l. lo = Some l \<and> may_replace opts True l ro)"
  "EmitDownload row parent \<in> set (decide opts conf lo ro key n) \<Longrightarrow>
     actionDownload opts \<and> direction opts \<noteq> DirUpload \<and> row_relKey row = joinRel key n \<and> parent = key \<and>
     (\<exists>r. ro = Some r \<and> may_replace opts False r lo)"
  by (erule decide_cases; auto simp: may_replace_def isPair_def one_sided_choice
      dest!: two_sided_transfer one_sided_transfer split: option.split)+

fun event_key :: "SinkEvent \<Rightarrow> string" where
  "event_key (EmitUpload row parent) = row_relKey row"
| "event_key (EmitDownload row parent) = row_relKey row"
| "event_key (EmitDelete row parent) = row_relKey row"
| "event_key (OnBlocked key why) = key"
| "event_key (OnProgress n) = []"

lemma action_event_other [simp]:
  "action_event a row p \<noteq> OnBlocked k b" "OnBlocked k b \<noteq> action_event a row p"
  "action_event a row p \<noteq> OnProgress n" "OnProgress n \<noteq> action_event a row p"
  by (cases a; simp)+

lemma decide_key: "e \<in> set (decide opts conf lo ro key n) \<Longrightarrow> event_key e = joinRel key n"
proof (cases e)
  case (OnBlocked k b)
  have "e \<notin> set (one_sided_events opts x a side j q)" for x a side j q
    using OnBlocked by (cases a) auto
  moreover have "e \<in> set (two_sided_events opts l r j q) \<Longrightarrow> k = j" for l r j q
    using OnBlocked by (auto simp: two_sided_events_def split: if_splits option.splits)
  moreover assume "e \<in> set (decide opts conf lo ro key n)"
  ultimately show ?thesis using OnBlocked by (auto simp: decide_def split: if_splits option.splits)
next
  case (OnProgress k)
  have one: "e \<notin> set (one_sided_events opts x a side j q)" for x a side j q
    using OnProgress by (cases a) auto
  have two: "e \<notin> set (two_sided_events opts l r j q)" for l r j q
    using OnProgress by (auto simp: two_sided_events_def split: if_splits option.splits)
  assume "e \<in> set (decide opts conf lo ro key n)"
  then show ?thesis by (rule decide_cases) (use OnProgress one two in auto)
qed (auto dest: decide_transfer decide_delete)

lemma decided_parts:
  assumes "sorted_tree L" and "sorted_tree R" and "e \<in> set (trace (diffScanTrees L R opts cancelled))" and "\<not> is_progress e"
  obtains path n l r where "node_at L path = Some l" and "node_at R path = Some r"
    and "e \<in> set (decide opts (caseConflictsOf (children l) (children r) opts) (node_at L (path @ [n]))
           (node_at R (path @ [n])) (foldl joinRel [] path) n)"
  using decisions_decided [OF assms] decided_sides by blast

text \<open>Where a delete is reported, with the directories on the way: all of them were listed and walked on both sides.\<close>

lemma visits_recursive: "visits opts ls rs path ls' rs' \<Longrightarrow> path \<noteq> [] \<Longrightarrow> recursive opts"
  by (erule visits.cases) (auto simp: descends_def)

lemma delete_parts:
  assumes "sorted_tree L" and "sorted_tree R"
    and "EmitDelete row parent \<in> set (trace (diffScanTrees L R opts cancelled))"
  obtains path n l r node where "node_at L path = Some l" and "node_at R path = Some r"
    and "path \<noteq> [] \<Longrightarrow> recursive opts \<and> node_type l = Directory \<and> node_type r = Directory \<and>
      availability (scan_fields l) = Listed \<and> availability (scan_fields r) = Listed"
    and "parent = foldl joinRel [] path" and "row_relKey row = foldl joinRel [] (path @ [n])"
    and "actionDelete opts" and "availability (scan_fields node) = Listed"
    and "node_type node = Directory \<longrightarrow> childrenKnown (scan_fields node) \<and> recursive opts"
    and "direction opts = DirDownload \<and> row_action row = DeleteLocal \<and>
        lookup_name (children l) n = Some node \<and> lookup_name (children r) n = None \<or>
      direction opts = DirUpload \<and> row_action row = DeleteRemote \<and>
        lookup_name (children r) n = Some node \<and> lookup_name (children l) n = None"
proof -
  have np: "\<not> is_progress (EmitDelete row parent)" by (simp add: is_progress_def)
  from decisions_decided [OF assms np] obtain path n ls rs where v: "visits opts (children L) (children R) path ls rs" and
    e: "EmitDelete row parent \<in> set (decide opts (caseConflictsOf ls rs opts) (lookup_name ls n) (lookup_name rs n) (foldl joinRel [] path) n)"
    by (auto simp: decided_at_def)
  from visits_node_at [OF v refl refl] obtain l r where lr: "node_at L path = Some l" "children l = ls" "node_at R path = Some r" "children r = rs"
    "path \<noteq> [] \<longrightarrow> node_type l = Directory \<and> node_type r = Directory \<and>
      availability (scan_fields l) = Listed \<and> availability (scan_fields r) = Listed" by blast
  from decide_delete [OF e] obtain node where d: "actionDelete opts" "row_relKey row = joinRel (foldl joinRel [] path) n"
    "parent = foldl joinRel [] path" "availability (scan_fields node) = Listed"
    "node_type node = Directory \<longrightarrow> childrenKnown (scan_fields node) \<and> recursive opts"
    "direction opts = DirDownload \<and> row_action row = DeleteLocal \<and> lookup_name ls n = Some node \<and> lookup_name rs n = None \<or>
     direction opts = DirUpload \<and> row_action row = DeleteRemote \<and> lookup_name rs n = Some node \<and> lookup_name ls n = None"
    by metis
  show thesis
    by (rule that [of path l r n node]) (use lr d visits_recursive [OF v] in auto)
qed

subsection \<open>Properties\<close>

definition sample_options :: DiffOptions where
  "sample_options = \<lparr>direction = DirUpload, actionUpload = True, actionDownload = True, actionDelete = True,
     recursive = True, ignoreHidden = False, localCaseInsensitive = False, remoteCaseInsensitive = False\<rparr>"

definition sample_left :: ScanNode where
  "sample_left = sample_leaf [] [sample_leaf ''a'' []]"

definition sample_right :: ScanNode where
  "sample_right = sample_leaf [] [sample_leaf ''b'' []]"

lemma sample_sides:
  "sorted_tree sample_left" "sorted_tree sample_right"
  "children sample_left = [sample_leaf ''a'' []]" "children sample_right = [sample_leaf ''b'' []]"
  by (simp_all add: sample_left_def sample_right_def sample_leaf_def)

lemma sample_diff: "trace (diffScanTrees sample_left sample_right sample_options (\<lambda>_. False)) =
   [EmitUpload (makeOneSidedRow (sample_leaf ''a'' []) ''a'' Upload True) [],
    EmitDelete (makeOneSidedRow (sample_leaf ''b'' []) ''b'' DeleteRemote False) [], OnProgress 2]"
  by (simp add: diffScanTrees_def sample_sides mergeChildren.simps mergeLoop.simps sample_options_def caseConflictsOf_def
      handleLocalOnly_def handleRemoteOnly_def emitOneSided_def makeOneSidedRow_def emit_def bumpAndCheckpoint_def
      hiddenFromWalk_def blockReasonOf_def chooseLocalOnlyAction_def chooseRemoteOnlyAction_def joinRel_def
      sample_leaf_def progressCheckpointInterval_def Let_def)

text \<open>C3: what the merge walk reports besides progress is the decision per name, taken by looking the name up in the two
  directories, for the directories the comparison descends to: nothing else is ever reported, whenever the sink cancels,
  and all of it is reported when the sink never cancels.\<close>

theorem diff_decides_per_name:
  assumes "sorted_tree L" and "sorted_tree R"
  shows "{e \<in> set (trace (diffScanTrees L R opts cancelled)). \<not> is_progress e} \<subseteq> decided_events opts (children L) (children R) [] \<and>
    ((\<forall>k. \<not> cancelled k) \<longrightarrow>
       {e \<in> set (trace (diffScanTrees L R opts cancelled)). \<not> is_progress e} = decided_events opts (children L) (children R) [])"
proof -
  let ?w = "\<lparr>compared = 0, polls = 0, trace = []\<rparr>"
  have same: "{e \<in> set (trace (diffScanTrees L R opts cancelled)). \<not> is_progress e} =
      decisions (mergeChildren opts cancelled (children L) (children R) [] ?w)"
    by (auto simp: diffScanTrees_def emit_def is_progress_def Let_def)
  have "reports cancelled ?w (mergeChildren opts cancelled (children L) (children R) [] ?w)
      (decided_events opts (children L) (children R) [])"
    by (rule merge_reports(1)) (use sorted_children assms in blast)+
  then show ?thesis unfolding same by (simp add: reports_def)
qed

theorem diff_decides_per_name_witness:
  "EmitUpload (makeOneSidedRow (sample_leaf ''a'' []) ''a'' Upload True) []
     \<in> decided_events sample_options (children sample_left) (children sample_right) []"
proof -
  let ?row = "makeOneSidedRow (sample_leaf ''a'' []) ''a'' Upload True"
  have "EmitUpload ?row [] \<in> {e \<in> set (trace (diffScanTrees sample_left sample_right sample_options (\<lambda>_. False))). \<not> is_progress e}"
    unfolding sample_diff by (simp add: is_progress_def)
  also have "\<dots> = decided_events sample_options (children sample_left) (children sample_right) []"
    using diff_decides_per_name [OF sample_sides(1,2)] by simp
  finally show ?thesis .
qed

text \<open>C5: an upload or download is only reported in a direction the options allow, for an entry listed on the source side;
  when the other side has an entry of that name too, that one was listed, is not a directory where the source is a link
  (or the reverse), differs, and with both directions enabled is not newer than the source.\<close>

theorem transfers_follow_options:
  assumes "sorted_tree L" and "sorted_tree R"
    and "e \<in> set (trace (diffScanTrees L R opts cancelled))"
  shows "(e = EmitUpload row parent \<longrightarrow> (\<exists>path n l. parent = foldl joinRel [] path \<and>
      row_relKey row = foldl joinRel [] (path @ [n]) \<and> actionUpload opts \<and> direction opts \<noteq> DirDownload \<and>
      node_at L (path @ [n]) = Some l \<and> may_replace opts True l (node_at R (path @ [n])))) \<and>
    (e = EmitDownload row parent \<longrightarrow> (\<exists>path n r. parent = foldl joinRel [] path \<and>
      row_relKey row = foldl joinRel [] (path @ [n]) \<and> actionDownload opts \<and> direction opts \<noteq> DirUpload \<and>
      node_at R (path @ [n]) = Some r \<and> may_replace opts False r (node_at L (path @ [n]))))"
proof -
  have parts: "\<exists>path n conf. e \<in> set (decide opts conf (node_at L (path @ [n])) (node_at R (path @ [n])) (foldl joinRel [] path) n)"
    if "\<not> is_progress e" using decided_parts [OF assms that] by blast
  then show ?thesis
    using decide_transfer unfolding key_snoc by (fastforce simp: is_progress_def)
qed

theorem transfers_follow_options_witness:
  "\<exists>path n l. foldl joinRel [] (path @ [n]) = ''a'' \<and> node_at sample_left (path @ [n]) = Some l \<and>
     may_replace sample_options True l (node_at sample_right (path @ [n]))"
proof -
  have "EmitUpload (makeOneSidedRow (sample_leaf ''a'' []) ''a'' Upload True) []
      \<in> set (trace (diffScanTrees sample_left sample_right sample_options (\<lambda>_. False)))"
    by (simp add: sample_diff)
  from transfers_follow_options [OF sample_sides(1,2) this, THEN conjunct1, THEN mp, OF refl] obtain path n l where
    "row_relKey (makeOneSidedRow (sample_leaf ''a'' []) ''a'' Upload True) = foldl joinRel [] (path @ [n])"
    "node_at sample_left (path @ [n]) = Some l" "may_replace sample_options True l (node_at sample_right (path @ [n]))" by blast
  then show ?thesis
    by (intro exI [of _ path] exI [of _ n] exI [of _ l]) (simp add: makeOneSidedRow_def Let_def)
qed

text \<open>C19:
  Every reported decision is the decision about one entry of the two trees: it lies at a path of names which its key
  spells, an entry is there on one of the sides, the directory that holds it is in both trees, and it is what has to be
  reported for what the two sides have at that path and nothing else. No decision lies at or below the path of another
  one, so a blocked, transferred or deleted directory is decided as a whole.
\<close>

theorem decisions_do_not_nest:
  assumes "sorted_tree L" and "sorted_tree R"
  shows "\<exists>at. \<forall>e \<in> {e \<in> set (trace (diffScanTrees L R opts cancelled)). \<not> is_progress e}.
     event_key e = foldl joinRel [] (at e) \<and>
     (node_at L (at e) \<noteq> None \<or> node_at R (at e) \<noteq> None) \<and>
     (\<exists>path n l r. at e = path @ [n] \<and> node_at L path = Some l \<and> node_at R path = Some r \<and>
        decide opts (caseConflictsOf (children l) (children r) opts) (node_at L (at e)) (node_at R (at e))
          (foldl joinRel [] path) n = [e]) \<and>
     (\<forall>f \<in> {e \<in> set (trace (diffScanTrees L R opts cancelled)). \<not> is_progress e}. prefix (at e) (at f) \<longrightarrow> f = e)"
proof -
  define at where "at e = (SOME p. decided_at opts L R p e)" for e
  have at: "decided_at opts L R (at e) e"
    if "e \<in> set (trace (diffScanTrees L R opts cancelled))" "\<not> is_progress e" for e
    unfolding at_def by (rule someI_ex) (rule decisions_decided [OF assms that])
  moreover have "event_key e = foldl joinRel [] p" if "decided_at opts L R p e" for p e
    using that decide_key by (force simp: decided_at_def)
  ultimately show ?thesis using decided_antichain decided_alone by (intro exI [of _ at]) blast
qed

theorem decisions_do_not_nest_witness:
  "\<exists>at. foldl joinRel [] (at (EmitDelete (makeOneSidedRow (sample_leaf ''b'' []) ''b'' DeleteRemote False) [])) = ''b'' \<and>
     (node_at sample_left (at (EmitDelete (makeOneSidedRow (sample_leaf ''b'' []) ''b'' DeleteRemote False) [])) \<noteq> None \<or>
      node_at sample_right (at (EmitDelete (makeOneSidedRow (sample_leaf ''b'' []) ''b'' DeleteRemote False) [])) \<noteq> None)"
proof -
  let ?e = "EmitDelete (makeOneSidedRow (sample_leaf ''b'' []) ''b'' DeleteRemote False) []"
  have reported: "?e \<in> {e \<in> set (trace (diffScanTrees sample_left sample_right sample_options (\<lambda>_. False))). \<not> is_progress e}"
    unfolding sample_diff by (simp add: is_progress_def)
  from decisions_do_not_nest [OF sample_sides(1,2), of sample_options "\<lambda>_. False"] obtain at where
    "event_key ?e = foldl joinRel [] (at ?e) \<and> (node_at sample_left (at ?e) \<noteq> None \<or> node_at sample_right (at ?e) \<noteq> None)"
    by (elim exE) (drule bspec [OF _ reported], blast)
  then show ?thesis by (intro exI [of _ at]) (simp add: makeOneSidedRow_def Let_def)
qed

text \<open>comparing a tree with itself reports nothing to do: only progress and blocked names, whatever the options.\<close>

theorem equal_trees_need_nothing:
  assumes "sorted_tree t" and "e \<in> set (trace (diffScanTrees t t opts cancelled))"
  shows "is_progress e \<or> (\<exists>key why. e = OnBlocked key why)"
proof (rule ccontr)
  assume other: "\<not> (is_progress e \<or> (\<exists>key why. e = OnBlocked key why))"
  then obtain path n conf where
    e: "e \<in> set (decide opts conf (node_at t (path @ [n])) (node_at t (path @ [n])) (foldl joinRel [] path) n)"
    using decided_parts [OF assms(1,1,2)] by metis
  have "two_sided_events opts l l k q = []" for l k q
    by (auto simp: two_sided_events_def isPair_def entriesDiffer_def linkTargetsDiffer_def split: option.split)
  with e other show False by (elim decide_cases) auto
qed

theorem equal_trees_need_nothing_witness:
  "is_progress (last (trace (diffScanTrees sample_left sample_left sample_options (\<lambda>_. False)))) \<or>
   (\<exists>key why. last (trace (diffScanTrees sample_left sample_left sample_options (\<lambda>_. False))) = OnBlocked key why)"
proof -
  have "trace (diffScanTrees sample_left sample_left sample_options (\<lambda>_. False)) \<noteq> []"
    by (simp add: diffScanTrees_def emit_def Let_def)
  from equal_trees_need_nothing [OF sample_sides(1) last_in_set [OF this]] show ?thesis .
qed

end
