(* ===== verification/Sync_Scan.thy ===== *)
theory Sync_Scan
  imports Tree_Walker Sync_Diff
begin

text \<open>
  A sync from its two scans: the trees that completed walks of \<open>sync/tree_directory_walker.hpp\<close> hand to
  \<open>diffScanTrees\<close> of \<open>sync/diff.cpp\<close>. The lemmas carry what a tree promises about the listings behind it over to what
  the diff reports, for deletes in particular.
\<close>

subsection \<open>The listings behind a tree\<close>

text \<open>The path that a list of names spells for a scanner.\<close>

definition listed_path :: "string list \<Rightarrow> RelativePath" where
  "listed_path names = foldl (\<lambda>path name. rel_div_segment path (PathSegment name)) (RelativePath []) names"

text \<open>No listing names an entry twice.\<close>

definition lists_once :: "'e WalkConfig \<Rightarrow> bool" where
  "lists_once cfg \<longleftrightarrow> (\<forall>path listing. scanner cfg path = Inr listing \<longrightarrow> distinct (map entry_name (without_dots listing)))"

lemma node_at_pointer:
  "node_at n names = Some d \<Longrightarrow> \<exists>pos. at_pointer n pos = Some d \<and> (pos = [] \<longleftrightarrow> names = []) \<and>
     path_along path n pos = foldl (\<lambda>path name. rel_div_segment path (PathSegment name)) path names"
proof (induction names arbitrary: n path)
  case (Cons name names)
  then obtain c where c: "find (\<lambda>c. node_name c = name) (children n) = Some c" "node_at c names = Some d"
    by (auto split: option.splits)
  then obtain i where i: "i < length (children n)" "c = children n ! i" "node_name c = name" by (auto simp: find_Some_iff)
  from Cons.IH [OF c(2), of "child_path path c"] obtain pos where "at_pointer c pos = Some d"
    "path_along (child_path path c) c pos = foldl (\<lambda>path name. rel_div_segment path (PathSegment name)) (child_path path c) names"
    by blast
  with i show ?case by (intro exI [of _ "i # pos"]) (simp add: child_path_def)
qed (auto intro: exI [of _ "[]"])

lemma listed_distinct:
  assumes "distinct (map entry_name (without_dots listing))"
  shows "sorted_wrt (<) (map node_name (listed_children cfg listing))"
proof -
  have "mset (map node_name (listed_children cfg listing)) = mset (map entry_name (without_dots listing))"
    by (simp add: listed_children_def makeChildren_def makeNode_def without_dots_def image_mset.compositionality comp_def)
  then have "distinct (map node_name (listed_children cfg listing))" using assms mset_eq_imp_distinct_iff by blast
  moreover have "sorted (map node_name (listed_children cfg listing))" by (simp add: listed_children_def makeChildren_def)
  ultimately show ?thesis by (simp add: strict_sorted_iff)
qed

lemma scans_to_sorted:
  assumes "scans_to cfg path depth f n" and "lists_once cfg"
  shows "sorted_tree n"
  using assms
proof (induction rule: scans_to.induct)
  case (listed path listing cs ds depth f)
  have same: "node_name (ds ! i) = node_name (cs ! i) \<and> sorted_tree (ds ! i)" if i: "i < length cs" for i
  proof (cases "recursive_walk cfg \<and> isWalkedChild (cs ! i)")
    case True
    with listed.IH [OF i] scans_to_fields [OF listed.hyps(4) [OF i True]] listed.prems show ?thesis
      by (auto simp: markUnreadable_def)
  next
    case False
    have "children (cs ! i) = []" using made_child [OF nth_mem] i listed.hyps(2) by simp
    then have "sorted_tree (cs ! i)" by (cases "cs ! i") simp
    with False listed.hyps(5) [OF i] show ?thesis by simp
  qed
  have "map node_name ds = map node_name cs" by (rule nth_equalityI) (simp_all add: listed.hyps(3) same)
  moreover have "distinct (map entry_name (without_dots listing))" using listed.prems listed.hyps(1) by (auto simp: lists_once_def)
  then have "sorted_wrt (<) (map node_name cs)" unfolding listed.hyps(2) by (rule listed_distinct)
  ultimately show ?case using same listed.hyps(3) by (auto simp: list_all_length)
qed (simp add: markUnreadable_def)

lemma finalized_sorted: "sorted_tree n \<Longrightarrow> sorted_tree (finalizeCounts n)"
proof (induction n rule: finalizeCounts.induct)
  case (1 f cs)
  have "children (finalizeCounts (ScanNode f cs)) = map finalized_child cs" using finalized_children [of "ScanNode f cs"] by simp
  moreover have "map (node_name \<circ> finalized_child) cs = map node_name cs"
    using forget_counts_eq(1) [OF same_finalized(2)] by simp
  moreover have "sorted_tree (finalized_child c)" if "c \<in> set cs" for c
    using 1 that by (auto simp: finalized_child_def list_all_iff)
  moreover have "sorted_wrt (<) (map node_name cs)" using 1(2) by simp
  ultimately have "sorted_wrt (<) (map (node_name \<circ> finalized_child) cs)" "children (finalizeCounts (ScanNode f cs)) = map finalized_child cs"
    "\<forall>c \<in> set cs. sorted_tree (finalized_child c)" by (simp_all only: simp_thms, blast)
  then show ?case by (cases "finalizeCounts (ScanNode f cs)") (simp add: list_all_iff)
qed

lemma ejected_sorted:
  assumes "walker_walkAll cfg TreeWalker_new = Some (Inr (), w)" and "lists_once cfg"
  shows "sorted_tree (ejectTree w)"
  unfolding ejectTree_def by (rule finalized_sorted) (rule scans_to_sorted [OF completed_walk [OF assms(1)] assms(2)])

text \<open>A listed directory of the tree was read at its path, and what it holds by name is what the listing names.\<close>

lemma directory_read:
  assumes "walker_walkAll cfg TreeWalker_new = Some (Inr (), w)" and "node_at (ejectTree w) names = Some d"
    and "names \<noteq> [] \<Longrightarrow> recursive_walk cfg \<and> node_type d = Directory \<and> availability (scan_fields d) = Listed"
  obtains listing where "scanner cfg (listed_path names) = Inr listing"
    and "set (map node_name (children d)) = set (map entry_name (without_dots listing))"
proof -
  obtain pos where pos: "at_pointer (ejectTree w) pos = Some d" "pos = [] \<longleftrightarrow> names = []"
    "path_along (RelativePath []) (ejectTree w) pos = listed_path names"
    using node_at_pointer [OF assms(2), of "RelativePath []"] unfolding listed_path_def by blast
  have "trustworthy cfg (pos = []) (listed_path names) d" using ejected_trustworthy [OF assms(1) pos(1)] by (simp add: pos(3))
  moreover have "pos = [] \<or> recursive_walk cfg \<and> node_type d = Directory \<and> availability (scan_fields d) = Listed"
    using assms(3) pos(2) by blast
  ultimately obtain listing es where l: "scanner cfg (listed_path names) = Inr listing" "mset es = mset (without_dots listing)"
    "list_all2 (shows_entry cfg) es (children d)" unfolding trustworthy_def by (auto split: if_splits)
  have "map node_name (children d) = map entry_name es"
    using l(3) by (induction rule: list_all2_induct) (simp_all add: shows_entry_def)
  then have "set (map node_name (children d)) = set (map entry_name (without_dots listing))"
    using mset_eq_setD [OF l(2)] by simp
  with l(1) show thesis by (rule that)
qed

lemma lookup_child: "lookup_name cs n = Some c \<Longrightarrow> n \<in> set (map node_name cs)"
  by (auto simp: lookup_name_def find_Some_iff)

lemma lookup_absent: "lookup_name cs n = None \<Longrightarrow> n \<notin> set (map node_name cs)"
  by (auto simp: lookup_name_def find_None_iff)

subsection \<open>A sample sync\<close>

definition sample_file :: "string \<Rightarrow> DirectoryEntry" where
  "sample_file name = sample_entry\<lparr>entry_name := name, entry_type := Regular\<rparr>"

definition sample_side :: "string \<Rightarrow> unit WalkConfig" where
  "sample_side name = \<lparr>scanner = (\<lambda>_. Inr [sample_file name]), recursive_walk = True, isUnreadable = None,
     requireLocalNames = False, excludedSuffixes = [], walk_platform = Posix\<rparr>"

definition sample_side_tree :: "string \<Rightarrow> ScanNode" where
  "sample_side_tree name = ScanNode (scan_fields (walk_root TreeWalker_new)) [makeNode (sample_side name) (sample_file name)]"

lemma sample_side_walk:
  assumes "name \<noteq> ''.''" and "name \<noteq> ''..''"
  obtains w where "walker_walkAll (sample_side name) TreeWalker_new = Some (Inr (), w)"
    and "ejectTree w = finalizeCounts (sample_side_tree name)"
proof -
  have "scans_to (sample_side name) (RelativePath []) 0 (scan_fields (walk_root TreeWalker_new)) (sample_side_tree name)"
    unfolding sample_side_tree_def
  proof (rule scans_to.listed)
    show "scanner (sample_side name) (RelativePath []) = Inr [sample_file name]" by (simp add: sample_side_def)
    show "[makeNode (sample_side name) (sample_file name)] = listed_children (sample_side name) [sample_file name]"
      using assms by (simp add: listed_children_def makeChildren_def sample_file_def)
  qed (simp_all add: isWalkedChild_def makeNode_def sample_file_def)
  from finite_scan_walked [OF this] that show thesis by (auto simp: ejectTree_def)
qed

subsection \<open>Deletes\<close>

lemma content_read:
  assumes "walker_walkAll cfg TreeWalker_new = Some (Inr (), w)" "node_at (ejectTree w) (path @ [n]) = Some node"
    and "availability (scan_fields node) = Listed" "recursive_walk cfg" "node_type node = Directory"
  shows "\<exists>content. scanner cfg (listed_path (path @ [n])) = Inr content"
  using directory_read [OF assms(1,2)] assms(3-5) by metis

text \<open>C4:
  The deletes of a sync of two completed scans, which went as deep as the comparing goes and whose listings name no entry
  twice. A delete is only reported when deletes are enabled, on the destination side of a one way sync, for a name which
  the listing of its directory on that side has. The directory of the same path was listed on the other side too, without
  an error, and that listing does not have the name. A directory is only deleted by a recursive sync and when its own
  content was listed.
\<close>

theorem deletes_are_one_sided:
  assumes walks: "walker_walkAll cfgL TreeWalker_new = Some (Inr (), wL)" "walker_walkAll cfgR TreeWalker_new = Some (Inr (), wR)"
    and once: "lists_once cfgL" "lists_once cfgR"
    and deep: "recursive opts \<longrightarrow> recursive_walk cfgL \<and> recursive_walk cfgR"
    and reported: "EmitDelete row parent \<in> set (trace (diffScanTrees (ejectTree wL) (ejectTree wR) opts cancelled))"
  shows "actionDelete opts \<and>
    (\<exists>path n listingL listingR. parent = foldl joinRel [] path \<and> row_relKey row = foldl joinRel [] (path @ [n]) \<and>
       scanner cfgL (listed_path path) = Inr listingL \<and> scanner cfgR (listed_path path) = Inr listingR \<and>
       (direction opts = DirDownload \<and> row_action row = DeleteLocal \<and>
          n \<in> set (map entry_name (without_dots listingL)) \<and> n \<notin> set (map entry_name (without_dots listingR)) \<and>
          (\<exists>node. node_at (ejectTree wL) (path @ [n]) = Some node \<and> availability (scan_fields node) = Listed \<and>
             (node_type node = Directory \<longrightarrow> recursive opts \<and> (\<exists>content. scanner cfgL (listed_path (path @ [n])) = Inr content))) \<or>
        direction opts = DirUpload \<and> row_action row = DeleteRemote \<and>
          n \<in> set (map entry_name (without_dots listingR)) \<and> n \<notin> set (map entry_name (without_dots listingL)) \<and>
          (\<exists>node. node_at (ejectTree wR) (path @ [n]) = Some node \<and> availability (scan_fields node) = Listed \<and>
             (node_type node = Directory \<longrightarrow> recursive opts \<and> (\<exists>content. scanner cfgR (listed_path (path @ [n])) = Inr content)))))"
proof -
  obtain path n l r node where at: "node_at (ejectTree wL) path = Some l" "node_at (ejectTree wR) path = Some r"
    and way: "path \<noteq> [] \<Longrightarrow> recursive opts \<and> node_type l = Directory \<and> node_type r = Directory \<and>
      availability (scan_fields l) = Listed \<and> availability (scan_fields r) = Listed"
    and keys: "parent = foldl joinRel [] path" "row_relKey row = foldl joinRel [] (path @ [n])" "actionDelete opts"
    and node: "availability (scan_fields node) = Listed" "node_type node = Directory \<longrightarrow> childrenKnown (scan_fields node) \<and> recursive opts"
    and sides: "direction opts = DirDownload \<and> row_action row = DeleteLocal \<and>
        lookup_name (children l) n = Some node \<and> lookup_name (children r) n = None \<or>
      direction opts = DirUpload \<and> row_action row = DeleteRemote \<and>
        lookup_name (children r) n = Some node \<and> lookup_name (children l) n = None"
    by (rule delete_parts [OF ejected_sorted [OF walks(1) once(1)] ejected_sorted [OF walks(2) once(2)] reported]) (rule that; blast)
  obtain listingL where L: "scanner cfgL (listed_path path) = Inr listingL"
    "set (map node_name (children l)) = set (map entry_name (without_dots listingL))"
    by (rule directory_read [OF walks(1) at(1)]) (use way deep in blast)+
  obtain listingR where R: "scanner cfgR (listed_path path) = Inr listingR"
    "set (map node_name (children r)) = set (map entry_name (without_dots listingR))"
    by (rule directory_read [OF walks(2) at(2)]) (use way deep in blast)+
  have found: "node_at (ejectTree wL) (path @ [n]) = lookup_name (children l) n" "node_at (ejectTree wR) (path @ [n]) = lookup_name (children r) n"
    using node_at_snoc at by blast+
  from sides show ?thesis
  proof (elim disjE conjE)
    assume side: "direction opts = DirDownload" "row_action row = DeleteLocal" "lookup_name (children l) n = Some node" "lookup_name (children r) n = None"
    have content': "node_type node = Directory \<longrightarrow> recursive opts \<and> (\<exists>content. scanner cfgL (listed_path (path @ [n])) = Inr content)"
      using content_read [OF walks(1) _ node(1)] found(1) side(3) node(2) deep by simp
    have names: "n \<in> set (map entry_name (without_dots listingL))" "n \<notin> set (map entry_name (without_dots listingR))"
      using lookup_child [OF side(3)] lookup_absent [OF side(4)] unfolding L(2) R(2) by blast+
    have "node_at (ejectTree wL) (path @ [n]) = Some node" using found(1) side(3) by simp
    note facts = keys L(1) R(1) side(1,2) names this node(1) content'
    show ?thesis
      by (rule conjI [OF keys(3)], rule exI [of _ path], rule exI [of _ n], rule exI [of _ listingL], rule exI [of _ listingR])
        (intro conjI disjI1 exI [of _ node] facts)
  next
    assume side: "direction opts = DirUpload" "row_action row = DeleteRemote" "lookup_name (children r) n = Some node" "lookup_name (children l) n = None"
    have content': "node_type node = Directory \<longrightarrow> recursive opts \<and> (\<exists>content. scanner cfgR (listed_path (path @ [n])) = Inr content)"
      using content_read [OF walks(2) _ node(1)] found(2) side(3) node(2) deep by simp
    have names: "n \<in> set (map entry_name (without_dots listingR))" "n \<notin> set (map entry_name (without_dots listingL))"
      using lookup_child [OF side(3)] lookup_absent [OF side(4)] unfolding L(2) R(2) by blast+
    have "node_at (ejectTree wR) (path @ [n]) = Some node" using found(2) side(3) by simp
    note facts = keys L(1) R(1) side(1,2) names this node(1) content'
    show ?thesis
      by (rule conjI [OF keys(3)], rule exI [of _ path], rule exI [of _ n], rule exI [of _ listingL], rule exI [of _ listingR])
        (intro conjI disjI2 exI [of _ node] facts)
  qed
qed

theorem deletes_are_one_sided_witness:
  "\<exists>path n listingL. foldl joinRel [] (path @ [n]) = ''b'' \<and>
     scanner (sample_side ''a'') (listed_path path) = Inr listingL \<and> n \<notin> set (map entry_name (without_dots listingL))"
proof -
  obtain wL where wL: "walker_walkAll (sample_side ''a'') TreeWalker_new = Some (Inr (), wL)" "ejectTree wL = finalizeCounts (sample_side_tree ''a'')"
    by (rule sample_side_walk [of "''a''"]) simp_all
  obtain wR where wR: "walker_walkAll (sample_side ''b'') TreeWalker_new = Some (Inr (), wR)" "ejectTree wR = finalizeCounts (sample_side_tree ''b'')"
    by (rule sample_side_walk [of "''b''"]) simp_all
  have once: "lists_once (sample_side name)" for name by (simp add: lists_once_def sample_side_def without_dots_def)
  let ?trace = "trace (diffScanTrees (finalizeCounts (sample_side_tree ''a'')) (finalizeCounts (sample_side_tree ''b'')) sample_options (\<lambda>_. False))"
  have "list_ex (\<lambda>e. case e of EmitDelete row parent \<Rightarrow> row_relKey row = ''b'' | _ \<Rightarrow> False) ?trace" by code_simp
  then obtain e where found: "e \<in> set ?trace" "case e of EmitDelete row parent \<Rightarrow> row_relKey row = ''b'' | _ \<Rightarrow> False"
    unfolding list_ex_iff by blast
  obtain row parent where "e = EmitDelete row parent" "row_relKey row = ''b''" using found(2) by (cases e) simp_all
  with found(1) have e: "EmitDelete row parent \<in> set ?trace" "row_relKey row = ''b''" by simp_all
  have options: "direction sample_options = DirUpload" "recursive sample_options \<longrightarrow>
      recursive_walk (sample_side ''a'') \<and> recursive_walk (sample_side ''b'')"
    by (simp_all add: sample_options_def sample_side_def)
  from deletes_are_one_sided [OF wL(1) wR(1) once once options(2) e(1) [folded wL(2) wR(2)]]
  obtain path n listingL where "row_relKey row = foldl joinRel [] (path @ [n])"
    "scanner (sample_side ''a'') (listed_path path) = Inr listingL" "n \<notin> set (map entry_name (without_dots listingL))"
    unfolding options(1) by (simp only: Direction.distinct simp_thms) blast
  with e(2) show ?thesis by metis
qed

end
