(* ===== verification/Ignore_Rules.thy ===== *)
theory Ignore_Rules
  imports Path_Segments
begin

text \<open>
  The rules of ignore files: \<open>shared_data/ignore_rules.cpp\<close> and \<open>.hpp\<close>. A matcher is the list of its rule sets in the
  order of their files. The lemmas give the language of a pattern and show that the last matching rule decides.
\<close>

record IgnorePattern =
  glob :: string
  negated :: bool
  directoryOnly :: bool
  anchored :: bool

record IgnoreRuleSet =
  originDir :: RelativePath
  patterns :: "IgnorePattern list"

type_synonym IgnoreMatcher = "IgnoreRuleSet list"

definition isBlank :: "char \<Rightarrow> bool" where
  "isBlank c \<longleftrightarrow> c = CHR '' '' \<or> c = CHR 0x09 \<or> c = CHR 0x0D"

definition trim :: "string \<Rightarrow> string" where
  "trim line = rev (dropWhile isBlank (rev (dropWhile isBlank line)))"

definition patternIsAnchored :: "string \<Rightarrow> bool" where
  "patternIsAnchored pattern =
     (if pattern = [] then False
      else case find_char slash pattern of
          None \<Rightarrow> False
        | Some slashPos \<Rightarrow> slashPos \<noteq> length pattern - 1)"

text \<open>The two loops over the offsets of the text are the searches in a list of offsets; the first one stops behind a
  separator.\<close>

definition dropSlash :: "string \<Rightarrow> string" where
  "dropSlash rest = (if rest \<noteq> [] \<and> hd rest = slash then tl rest else rest)"

function globMatch :: "string \<Rightarrow> string \<Rightarrow> bool" where
  "globMatch [] s = (s = [])"
| "globMatch (c # ps) s =
     (if c = CHR ''*'' then
        (if ps \<noteq> [] \<and> hd ps = CHR ''*'' then
           list_ex (\<lambda>offset. globMatch (dropSlash (tl ps)) (drop offset s)) [0..<length s + 1]
         else list_ex (\<lambda>offset. globMatch ps (drop offset s))
           (takeWhile (\<lambda>offset. \<not> (offset > 0 \<and> s ! (offset - 1) = slash)) [0..<length s + 1]))
      else if s = [] then False
      else if c = CHR ''?'' then (if hd s = slash then False else globMatch ps (tl s))
      else if c = CHR 0x5C \<and> ps \<noteq> [] then (if hd s \<noteq> hd ps then False else globMatch (tl ps) (tl s))
      else if c \<noteq> hd s then False
      else globMatch ps (tl s))"
  by pat_completeness auto
termination by (relation "measure (\<lambda>(p, s). length p)") (auto simp: dropSlash_def)

definition parseLine :: "string \<Rightarrow> IgnorePattern list" where
  "parseLine rawLine =
     (let line = trim rawLine in
      if line = [] \<or> hd line = CHR ''#'' then []
      else
        let neg = (hd line = CHR ''!'');
            line = (if neg then trim (tl line) else line);
            dir = (line \<noteq> [] \<and> last line = slash);
            line = (if dir then butlast line else line);
            line = (if line \<noteq> [] \<and> hd line = slash then tl line else line)
        in if line = [] then []
           else [\<lparr>glob = line, negated = neg, directoryOnly = dir, anchored = patternIsAnchored line\<rparr>])"

function parseIgnoreFile :: "string \<Rightarrow> IgnorePattern list" where
  "parseIgnoreFile content =
     (case find_char (CHR 0x0A) content of
        None \<Rightarrow> parseLine content
      | Some nextLine \<Rightarrow> parseLine (take nextLine content) @ parseIgnoreFile (drop (nextLine + 1) content))"
  by pat_completeness auto
termination by (relation "measure length") (auto dest: find_char_Some)

declare parseIgnoreFile.simps [simp del]

definition addFile :: "IgnoreMatcher \<Rightarrow> RelativePath \<Rightarrow> string \<Rightarrow> IgnoreMatcher" where
  "addFile ruleSets relDir content =
     (let ps = parseIgnoreFile content in
      if ps = [] then ruleSets else ruleSets @ [\<lparr>originDir = relDir, patterns = ps\<rparr>])"

definition patternMatches :: "IgnorePattern \<Rightarrow> string \<Rightarrow> bool" where
  "patternMatches pattern relToOrigin =
     (if anchored pattern then globMatch (glob pattern) relToOrigin
      else list_ex (globMatch (glob pattern)) (splitAtSlashes relToOrigin) \<or> globMatch (glob pattern) relToOrigin)"

definition relToOriginStr :: "IgnoreRuleSet \<Rightarrow> RelativePath \<Rightarrow> string" where
  "relToOriginStr ruleSet relPath =
     (if rel_empty (originDir ruleSet) then rel_value relPath
      else drop (length (rel_value (originDir ruleSet)) + 1) (rel_value relPath))"

definition isIgnored :: "IgnoreMatcher \<Rightarrow> RelativePath \<Rightarrow> bool \<Rightarrow> bool" where
  "isIgnored ruleSets relPath isDirectory =
     fold (\<lambda>ruleSet ignored.
        if relPath = originDir ruleSet \<or> \<not> rel_isWithin relPath (originDir ruleSet) then ignored
        else fold (\<lambda>pattern ignored.
            if directoryOnly pattern \<and> \<not> isDirectory then ignored
            else if patternMatches pattern (relToOriginStr ruleSet relPath) then \<not> negated pattern
            else ignored) (patterns ruleSet) ignored) ruleSets False"

subsection \<open>The language of a pattern\<close>

datatype GlobToken = Lit char | AnyOne | Star | DoubleStar

function glob_tokens :: "string \<Rightarrow> GlobToken list" where
  "glob_tokens [] = []"
| "glob_tokens (c # ps) =
     (if c = CHR ''*'' then
        (if ps \<noteq> [] \<and> hd ps = CHR ''*'' then DoubleStar # glob_tokens (dropSlash (tl ps)) else Star # glob_tokens ps)
      else if c = CHR ''?'' then AnyOne # glob_tokens ps
      else if c = CHR 0x5C \<and> ps \<noteq> [] then Lit (hd ps) # glob_tokens (tl ps)
      else Lit c # glob_tokens ps)"
  by pat_completeness auto
termination by (relation "measure length") (auto simp: dropSlash_def)

fun token_fits :: "GlobToken \<Rightarrow> string \<Rightarrow> bool" where
  "token_fits (Lit c) piece \<longleftrightarrow> piece = [c]"
| "token_fits AnyOne piece \<longleftrightarrow> (\<exists>c. piece = [c] \<and> c \<noteq> slash)"
| "token_fits Star piece \<longleftrightarrow> slash \<notin> set piece"
| "token_fits DoubleStar piece \<longleftrightarrow> True"

definition glob_language :: "GlobToken list \<Rightarrow> string set" where
  "glob_language tokens = {concat pieces | pieces. list_all2 token_fits tokens pieces}"

lemma language_Nil: "s \<in> glob_language [] \<longleftrightarrow> s = []"
  by (auto simp: glob_language_def)

lemma language_Cons: "s \<in> glob_language (t # ts) \<longleftrightarrow> (\<exists>p q. s = p @ q \<and> token_fits t p \<and> q \<in> glob_language ts)"
proof
  assume "s \<in> glob_language (t # ts)"
  then obtain p ps where "s = p @ concat ps" "token_fits t p" "list_all2 token_fits ts ps"
    by (auto simp: glob_language_def list_all2_Cons1)
  then show "\<exists>p q. s = p @ q \<and> token_fits t p \<and> q \<in> glob_language ts" by (auto simp: glob_language_def)
next
  assume "\<exists>p q. s = p @ q \<and> token_fits t p \<and> q \<in> glob_language ts"
  then obtain p ps where "s = concat (p # ps)" "list_all2 token_fits (t # ts) (p # ps)"
    by (auto simp: glob_language_def)
  then show "s \<in> glob_language (t # ts)" unfolding glob_language_def by blast
qed

lemma language_split:
  "s \<in> glob_language (t # ts) \<longleftrightarrow> (\<exists>n \<le> length s. token_fits t (take n s) \<and> drop n s \<in> glob_language ts)"
proof
  assume "s \<in> glob_language (t # ts)"
  then obtain p q where "s = p @ q" "token_fits t p" "q \<in> glob_language ts" by (auto simp: language_Cons)
  then show "\<exists>n \<le> length s. token_fits t (take n s) \<and> drop n s \<in> glob_language ts"
    by (intro exI [of _ "length p"]) simp
next
  assume "\<exists>n \<le> length s. token_fits t (take n s) \<and> drop n s \<in> glob_language ts"
  then show "s \<in> glob_language (t # ts)" unfolding language_Cons by (metis append_take_drop_id)
qed

lemma language_one:
  "s \<in> glob_language (Lit c # ts) \<longleftrightarrow> s \<noteq> [] \<and> hd s = c \<and> tl s \<in> glob_language ts"
  "s \<in> glob_language (AnyOne # ts) \<longleftrightarrow> s \<noteq> [] \<and> hd s \<noteq> slash \<and> tl s \<in> glob_language ts"
  by (cases s; simp add: language_Cons; metis append_Cons append_Nil list.inject)+

lemma in_takeWhile_upt: "n \<in> set (takeWhile P [0..<k]) \<longleftrightarrow> n < k \<and> (\<forall>j \<le> n. P j)"
proof (induction k)
  case (Suc k)
  show ?case
  proof (cases "\<forall>j < k. P j")
    case True
    then have "takeWhile P [0..<Suc k] = (if P k then [0..<Suc k] else [0..<k])"
      by (simp add: takeWhile_append)
    with True show ?thesis by (auto simp: less_Suc_eq dest: le_neq_implies_less)
  next
    case False
    then have "takeWhile P [0..<Suc k] = takeWhile P [0..<k]"
      by (auto intro: takeWhile_append1)
    with Suc False show ?thesis by (auto simp: less_Suc_eq)
  qed
qed simp

lemma star_offsets:
  "n \<in> set (takeWhile (\<lambda>offset. \<not> (offset > 0 \<and> s ! (offset - 1) = slash)) [0..<length s + 1]) \<longleftrightarrow>
     n \<le> length s \<and> slash \<notin> set (take n s)"
proof -
  have "(\<forall>j \<le> n. \<not> (j > 0 \<and> s ! (j - 1) = slash)) \<longleftrightarrow> (\<forall>i < n. s ! i \<noteq> slash)"
    by (metis Suc_leI diff_Suc_1 gr0_implies_Suc less_le_trans lessI zero_less_Suc)
  then show ?thesis unfolding in_takeWhile_upt by (auto simp: in_set_conv_nth)
qed

lemma globMatch_tokens: "globMatch pattern s \<longleftrightarrow> s \<in> glob_language (glob_tokens pattern)"
proof (induction pattern s rule: globMatch.induct)
  case (1 s)
  then show ?case by (simp add: language_Nil)
next
  case (2 c ps s)
  consider (double) "c = CHR ''*''" "ps \<noteq> [] \<and> hd ps = CHR ''*''" | (star) "c = CHR ''*''" "\<not> (ps \<noteq> [] \<and> hd ps = CHR ''*'')"
    | (other) "c \<noteq> CHR ''*''" by blast
  then show ?case
  proof cases
    case double
    have "globMatch (c # ps) s \<longleftrightarrow> (\<exists>n \<in> set [0..<length s + 1]. globMatch (dropSlash (tl ps)) (drop n s))"
      using double by (simp add: list_ex_iff del: upt_Suc set_upt)
    also have "\<dots> \<longleftrightarrow> (\<exists>n \<in> set [0..<length s + 1]. drop n s \<in> glob_language (glob_tokens (dropSlash (tl ps))))"
      using 2(1) [OF double] by (rule bex_cong [OF refl])
    finally show ?thesis using double by (auto simp: language_split less_Suc_eq_le Bex_def simp del: upt_Suc)
  next
    case star
    let ?offsets = "takeWhile (\<lambda>offset. \<not> (offset > 0 \<and> s ! (offset - 1) = slash)) [0..<length s + 1]"
    have "globMatch (c # ps) s \<longleftrightarrow> (\<exists>n \<in> set ?offsets. globMatch ps (drop n s))"
      using star unfolding list_ex_iff [symmetric] by (simp del: upt_Suc) blast
    also have "\<dots> \<longleftrightarrow> (\<exists>n \<in> set ?offsets. drop n s \<in> glob_language (glob_tokens ps))"
      using 2(2) [OF star] by (rule bex_cong [OF refl])
    also have "\<dots> \<longleftrightarrow> (\<exists>n \<le> length s. slash \<notin> set (take n s) \<and> drop n s \<in> glob_language (glob_tokens ps))"
      unfolding Bex_def star_offsets by (simp add: conj_assoc)
    finally show ?thesis using star by (auto simp: language_split)
  next
    case other
    with 2(3-5) show ?thesis by (auto simp: language_one)
  qed
qed

subsection \<open>The last matching rule decides\<close>

lemma fold_last_match:
  "fold (\<lambda>x b. if P x then f x else b) xs b = (case find P (rev xs) of None \<Rightarrow> b | Some x \<Rightarrow> f x)"
proof (induction xs rule: rev_induct)
  case (snoc x xs)
  then show ?case by (cases "P x") simp_all
qed simp

text \<open>The rules of the files above an entry with the names from the file's directory down to the entry.\<close>

definition rules_above :: "IgnoreMatcher \<Rightarrow> string list \<Rightarrow> (string list \<times> IgnorePattern) list" where
  "rules_above ruleSets names = concat (map (\<lambda>ruleSet.
     if strict_prefix (rel_segmentViews (originDir ruleSet)) names
     then map (Pair (drop (length (rel_segmentViews (originDir ruleSet))) names)) (patterns ruleSet) else []) ruleSets)"

definition rule_matches :: "bool \<Rightarrow> string list \<times> IgnorePattern \<Rightarrow> bool" where
  "rule_matches isDirectory rule =
     (case rule of (names, pattern) \<Rightarrow>
        (directoryOnly pattern \<longrightarrow> isDirectory) \<and>
        (join_slash names \<in> glob_language (glob_tokens (glob pattern)) \<or>
         \<not> anchored pattern \<and> (\<exists>name \<in> set names. name \<in> glob_language (glob_tokens (glob pattern)))))"

lemma origin_below:
  assumes "valid_names ps" and "valid_relative (originDir ruleSet)"
  shows "(relative_of ps = originDir ruleSet \<or> \<not> rel_isWithin (relative_of ps) (originDir ruleSet)) \<longleftrightarrow>
      \<not> strict_prefix (rel_segmentViews (originDir ruleSet)) ps"
    and "strict_prefix (rel_segmentViews (originDir ruleSet)) ps \<Longrightarrow>
      relToOriginStr ruleSet (relative_of ps) = join_slash (drop (length (rel_segmentViews (originDir ruleSet))) ps)"
proof -
  from valid_relative_obtain [OF assms(2)] obtain qs where qs: "valid_names qs" "originDir ruleSet = relative_of qs" .
  then have views: "rel_segmentViews (originDir ruleSet) = qs" by (simp add: views_relative_of)
  have "relative_of ps = relative_of qs \<longleftrightarrow> ps = qs" using assms(1) qs(1) by (metis views_relative_of)
  then show "(relative_of ps = originDir ruleSet \<or> \<not> rel_isWithin (relative_of ps) (originDir ruleSet)) \<longleftrightarrow>
      \<not> strict_prefix (rel_segmentViews (originDir ruleSet)) ps"
    unfolding views using rel_operations(5) [OF assms(1) qs(1)] qs(2) by (auto simp: strict_prefix_def)
  assume "strict_prefix (rel_segmentViews (originDir ruleSet)) ps"
  then obtain rs where rs: "ps = qs @ rs" "rs \<noteq> []" unfolding views by (auto simp: strict_prefix_def prefix_def)
  then have "relToOriginStr ruleSet (relative_of ps) = join_slash rs"
    using qs(1) by (cases "qs = []")
      (auto simp: relToOriginStr_def qs(2) rel_empty_iff relative_of_def join_slash_append rel_empty_def join_slash_empty)
  then show "relToOriginStr ruleSet (relative_of ps) = join_slash (drop (length (rel_segmentViews (originDir ruleSet))) ps)"
    unfolding views using rs by simp
qed

lemma patternMatches_names:
  assumes "valid_names names"
  shows "(if directoryOnly pattern \<and> \<not> isDirectory then b
          else if patternMatches pattern (join_slash names) then \<not> negated pattern else b) =
         (if rule_matches isDirectory (names, pattern) then \<not> negated pattern else b)"
  using assms by (auto simp: patternMatches_def rule_matches_def globMatch_tokens list_ex_iff splitAtSlashes_join)

lemma patterns_names:
  assumes "valid_names names"
  shows "fold (\<lambda>pattern ignored. if directoryOnly pattern \<and> \<not> isDirectory then ignored
      else if patternMatches pattern (join_slash names) then \<not> negated pattern else ignored) ps b =
    fold (\<lambda>rule ignored. if rule_matches isDirectory rule then \<not> negated (snd rule) else ignored) (map (Pair names) ps) b"
  unfolding fold_map comp_def snd_conv by (intro fold_cong ext refl) (rule patternMatches_names [OF assms])

lemma isIgnored_rules:
  assumes "valid_names ps" and "\<forall>ruleSet \<in> set ruleSets. valid_relative (originDir ruleSet)"
  shows "isIgnored ruleSets (relative_of ps) isDirectory =
    fold (\<lambda>rule ignored. if rule_matches isDirectory rule then \<not> negated (snd rule) else ignored) (rules_above ruleSets ps) False"
proof -
  define inner where "inner ruleSet b = fold (\<lambda>pattern ignored.
      if directoryOnly pattern \<and> \<not> isDirectory then ignored
      else if patternMatches pattern (relToOriginStr ruleSet (relative_of ps)) then \<not> negated pattern
      else ignored) (patterns ruleSet) b" for ruleSet b
  define rules where "rules = fold (\<lambda>rule ignored. if rule_matches isDirectory rule then \<not> negated (snd rule) else ignored)"
  have valid: "valid_names (drop k ps)" for k using assms(1) by (auto dest: in_set_dropD)
  have inner: "inner r b = rules (map (Pair (drop (length (rel_segmentViews (originDir r))) ps)) (patterns r)) b"
    if "valid_relative (originDir r)" "strict_prefix (rel_segmentViews (originDir r)) ps" for r b
    unfolding inner_def rules_def origin_below(2) [OF assms(1) that] by (rule patterns_names [OF valid])
  have "fold (\<lambda>ruleSet ignored.
        if relative_of ps = originDir ruleSet \<or> \<not> rel_isWithin (relative_of ps) (originDir ruleSet) then ignored
        else inner ruleSet ignored) ruleSets b = rules (rules_above ruleSets ps) b" for b
    using assms(2)
  proof (induction ruleSets arbitrary: b)
    case (Cons r rs)
    have "rules (xs @ ys) b = rules ys (rules xs b)" for xs ys b by (simp add: rules_def)
    with Cons show ?case
      by (cases "strict_prefix (rel_segmentViews (originDir r)) ps")
        (simp_all add: rules_above_def origin_below [OF assms(1)] inner)
  qed (simp add: rules_above_def rules_def)
  then show ?thesis unfolding isIgnored_def inner_def rules_def .
qed

subsection \<open>Properties\<close>

text \<open>C28: a glob matches exactly the texts that split into one piece per token of the pattern: the literal character, one
  character that is not a separator for a question mark, any text without a separator for a star, any text at all for two
  stars (which swallow a separator that follows them).\<close>

theorem globMatch_language:
  "globMatch pattern s \<longleftrightarrow> (\<exists>pieces. s = concat pieces \<and> list_all2 token_fits (glob_tokens pattern) pieces)"
  by (simp add: globMatch_tokens glob_language_def)

text \<open>C27: an entry is ignored exactly when the last rule, in the order of the files and their lines, that matches it is not
  negated; only rules of files in directories above the entry count, each matched against the names from its own directory
  on, as a whole or, when not anchored, name by name.\<close>

theorem ignored_by_last_rule:
  assumes "valid_names ps" and "\<forall>ruleSet \<in> set ruleSets. valid_relative (originDir ruleSet)"
  shows "isIgnored ruleSets (relative_of ps) isDirectory \<longleftrightarrow>
    (\<exists>rule. find (rule_matches isDirectory) (rev (rules_above ruleSets ps)) = Some rule \<and> \<not> negated (snd rule))"
  unfolding isIgnored_rules [OF assms] fold_last_match by (simp split: option.split)

theorem ignored_by_last_rule_witness:
  "\<exists>rule. find (rule_matches False) (rev (rules_above (addFile [] (RelativePath []) ''*.o'') [''src'', ''a.o''])) = Some rule \<and>
     \<not> negated (snd rule)"
proof -
  let ?sets = "addFile [] (RelativePath []) ''*.o''"
  have sets: "?sets = [\<lparr>originDir = RelativePath [],
      patterns = [\<lparr>glob = ''*.o'', negated = False, directoryOnly = False, anchored = False\<rparr>]\<rparr>]"
    by (simp add: addFile_def parseIgnoreFile.simps parseLine_def trim_def isBlank_def patternIsAnchored_def Let_def)
  have names: "valid_names [''src'', ''a.o'']"
    by (simp add: valid_segment_iff) (simp add: string_simps)
  have "isIgnored ?sets (relative_of [''src'', ''a.o'']) False"
    by (simp add: sets isIgnored_def relative_of_def rel_isWithin_def rel_empty_def patternMatches_def relToOriginStr_def
        splitAtSlashes_def upt_rec)
  moreover have "valid_relative (RelativePath [])"
    using valid_relative_of [of "[]"] by (simp add: relative_of_def)
  ultimately show ?thesis
    using ignored_by_last_rule [OF names, of ?sets False] sets by simp
qed

text \<open>A leading separator of a rule is dropped before the rule is tested for one, so it does not anchor the rule: a plain name
  and the same name behind a separator give the same rule, which matches at any depth.\<close>

lemma leading_slash_does_not_anchor:
  assumes "name \<noteq> []" and "CHR 0x0A \<notin> set name" and "\<not> isBlank (hd name)" and "\<not> isBlank (last name)"
    and "hd name \<notin> {slash, CHR ''#'', CHR ''!''}" and "slash \<notin> set name"
  shows "parseIgnoreFile (slash # name) = [\<lparr>glob = name, negated = False, directoryOnly = False, anchored = False\<rparr>]"
proof -
  obtain c cs where name: "name = c # cs" using assms(1) by (cases name) auto
  have "trim (slash # name) = slash # name"
    using assms(1,4) by (simp add: trim_def isBlank_def dropWhile_eq_self_iff hd_append hd_rev)
  moreover have "find_char slash name = None" "find_char (CHR 0x0A) (slash # name) = None"
    using assms(2,6) by (simp_all add: find_char_None del: find_char.simps)
  moreover have "last name \<noteq> slash" using assms(1,6) last_in_set by metis
  ultimately show ?thesis
    using assms(1,5) by (subst parseIgnoreFile.simps) (simp add: parseLine_def Let_def patternIsAnchored_def del: find_char.simps)
qed

end
