(* ===== verification/Enqueue_Minimizer.thy ===== *)
theory Enqueue_Minimizer
  imports Nui_Prelude
begin

text \<open>
  The smallest set of items a sparse selection stands for: \<open>shared_data/sync/enqueue_minimizer.cpp\<close>. The visitor of
  \<open>anyAncestor\<close> is a function on the state it changes. The lemmas show which items are taken, the early exit of the
  ancestor index and the order by length included.
\<close>

record MinimizerItemView =
  item_relKey :: string
  isBulkDir :: bool

function anyAncestor :: "(string \<Rightarrow> 's \<Rightarrow> bool \<times> 's) \<Rightarrow> string \<Rightarrow> 's \<Rightarrow> bool \<times> 's" where
  "anyAncestor visit relKey s =
     (case rfind_char slash relKey of
        None \<Rightarrow> (False, s)
      | Some i \<Rightarrow> (case visit (take i relKey) s of
            (stop, s') \<Rightarrow> if stop then (True, s') else anyAncestor visit (take i relKey) s'))"
  by pat_completeness auto
termination by (relation "measure (\<lambda>(visit, relKey, s). length relKey)") (auto dest: rfind_char_Some)

declare anyAncestor.simps [simp del]

definition insertAncestor :: "string \<Rightarrow> string set \<Rightarrow> bool \<times> string set" where
  "insertAncestor ancestor known = (ancestor \<in> known, insert ancestor known)"

definition descendantIndex :: "MinimizerItemView list \<Rightarrow> string set" where
  "descendantIndex items = fold (\<lambda>item known. snd (anyAncestor insertAncestor (item_relKey item) known)) items {}"

definition ancestorIn :: "string set \<Rightarrow> string \<Rightarrow> bool" where
  "ancestorIn keys relKey = fst (anyAncestor (\<lambda>ancestor s. (ancestor \<in> keys, s)) relKey ())"

definition lengthOrder :: "MinimizerItemView list \<Rightarrow> nat list" where
  "lengthOrder items = sort_key (\<lambda>i. length (item_relKey (items ! i))) [0..<length items]"

definition minimizeStep ::
  "MinimizerItemView list \<Rightarrow> string set \<Rightarrow> string set \<Rightarrow> nat \<Rightarrow> string set \<times> nat list \<Rightarrow> string set \<times> nat list" where
  "minimizeStep items sparseSet hasDescendant index state =
     (case state of (bulkCovered, result) \<Rightarrow>
        let item = items ! index; relKey = item_relKey item in
        if ancestorIn bulkCovered relKey then (bulkCovered, result)
        else if \<not> (relKey \<in> sparseSet \<or> ancestorIn sparseSet relKey) then (bulkCovered, result)
        else if isBulkDir item then (insert relKey bulkCovered, result @ [index])
        else if relKey \<notin> hasDescendant then (bulkCovered, result @ [index])
        else (bulkCovered, result))"

definition minimizeEnqueueIndices :: "MinimizerItemView list \<Rightarrow> string set \<Rightarrow> nat list" where
  "minimizeEnqueueIndices items sparseSet =
     (if length items = 0 then []
      else snd (fold (minimizeStep items sparseSet (descendantIndex items)) (lengthOrder items) ({}, [])))"

subsection \<open>Ancestors\<close>

definition proper_ancestor :: "string \<Rightarrow> string \<Rightarrow> bool" where
  "proper_ancestor a k \<longleftrightarrow> (\<exists>r. k = a @ slash # r)"

lemma ancestor_None: "rfind_char slash k = None \<Longrightarrow> \<not> proper_ancestor a k"
  by (auto simp: rfind_char_None proper_ancestor_def)

lemma ancestor_Some:
  assumes "rfind_char slash k = Some i"
  shows "proper_ancestor a k \<longleftrightarrow> a = take i k \<or> proper_ancestor a (take i k)"
proof -
  from rfind_char_Some [OF assms] have k: "k = take i k @ slash # drop (i + 1) k" "slash \<notin> set (drop (i + 1) k)"
    by (auto simp: id_take_nth_drop)
  show ?thesis
  proof
    assume "proper_ancestor a k"
    then obtain r where r: "take i k @ slash # drop (i + 1) k = a @ slash # r" using k(1) by (auto simp: proper_ancestor_def)
    then consider us where "take i k = a @ us" "us @ slash # drop (i + 1) k = slash # r"
      | us where "a = take i k @ us" "slash # drop (i + 1) k = us @ slash # r"
      by (auto simp: append_eq_append_conv2)
    then show "a = take i k \<or> proper_ancestor a (take i k)"
    proof cases
      case (1 us)
      then show ?thesis by (cases us) (auto simp: proper_ancestor_def)
    next
      case (2 us)
      then show ?thesis using k(2) by (cases us) auto
    qed
  next
    assume "a = take i k \<or> proper_ancestor a (take i k)"
    then show "proper_ancestor a k" using k(1) unfolding proper_ancestor_def by (metis append.assoc append_Cons)
  qed
qed

lemma ancestor_trans: "proper_ancestor a b \<Longrightarrow> proper_ancestor b c \<Longrightarrow> proper_ancestor a c"
  by (auto simp: proper_ancestor_def)

lemma ancestor_length: "proper_ancestor a b \<Longrightarrow> length a < length b"
  by (auto simp: proper_ancestor_def)

lemma ancestorIn_iff: "ancestorIn keys k \<longleftrightarrow> (\<exists>a \<in> keys. proper_ancestor a k)"
proof (induction k rule: length_induct)
  case (1 k)
  show ?case
  proof (cases "rfind_char slash k")
    case None
    then show ?thesis using ancestor_None [OF None] by (subst ancestorIn_def, subst anyAncestor.simps) auto
  next
    case (Some i)
    have "length (take i k) < length k" using rfind_char_Some [OF Some] by simp
    with 1 have "ancestorIn keys (take i k) \<longleftrightarrow> (\<exists>a \<in> keys. proper_ancestor a (take i k))" by blast
    then show ?thesis
      using ancestor_Some [OF Some] unfolding ancestorIn_def by (subst anyAncestor.simps) (auto simp: Some)
  qed
qed

definition ancestor_closed :: "string set \<Rightarrow> bool" where
  "ancestor_closed keys \<longleftrightarrow> (\<forall>k \<in> keys. \<forall>a. proper_ancestor a k \<longrightarrow> a \<in> keys)"

text \<open>While one item climbs, the keys it has just inserted are not closed under ancestors, but they are longer than what the
  climb looks up next, so the early exit only ever meets a key of a finished item.\<close>

lemma index_one:
  "ancestor_closed keys \<Longrightarrow> \<forall>x \<in> extra. length k \<le> length x \<Longrightarrow>
     snd (anyAncestor insertAncestor k (keys \<union> extra)) = keys \<union> extra \<union> {a. proper_ancestor a k}"
proof (induction k arbitrary: extra rule: length_induct)
  case (1 k)
  show ?case
  proof (cases "rfind_char slash k")
    case None
    then show ?thesis using ancestor_None [OF None] by (subst anyAncestor.simps) auto
  next
    case (Some i)
    have less: "length (take i k) < length k" using rfind_char_Some [OF Some] by simp
    have above: "{a. proper_ancestor a k} = insert (take i k) {a. proper_ancestor a (take i k)}"
      using ancestor_Some [OF Some] by auto
    show ?thesis
    proof (cases "take i k \<in> keys \<union> extra")
      case True
      then have "take i k \<in> keys" using 1(3) less by (meson UnE leD)
      then have "{a. proper_ancestor a k} \<subseteq> keys" unfolding above using 1(2) by (auto simp: ancestor_closed_def)
      with True show ?thesis by (subst anyAncestor.simps) (auto simp: Some insertAncestor_def)
    next
      case False
      have "snd (anyAncestor insertAncestor k (keys \<union> extra)) =
          snd (anyAncestor insertAncestor (take i k) (keys \<union> insert (take i k) extra))"
        using False by (subst anyAncestor.simps) (simp add: Some insertAncestor_def)
      moreover have "\<forall>x \<in> insert (take i k) extra. length (take i k) \<le> length x"
        using 1(3) less by auto
      moreover have "snd (anyAncestor insertAncestor (take i k) (keys \<union> insert (take i k) extra)) =
          keys \<union> insert (take i k) extra \<union> {a. proper_ancestor a (take i k)}"
        using 1(1) less 1(2) calculation(2) by blast
      ultimately show ?thesis using above by auto
    qed
  qed
qed

lemma descendantIndex_iff: "k \<in> descendantIndex items \<longleftrightarrow> (\<exists>item \<in> set items. proper_ancestor k (item_relKey item))"
proof -
  have "ancestor_closed keys \<Longrightarrow> fold (\<lambda>item known. snd (anyAncestor insertAncestor (item_relKey item) known)) items keys =
      keys \<union> {k. \<exists>item \<in> set items. proper_ancestor k (item_relKey item)}" for keys
  proof (induction items arbitrary: keys)
    case (Cons item items)
    have one: "snd (anyAncestor insertAncestor (item_relKey item) keys) = keys \<union> {a. proper_ancestor a (item_relKey item)}"
      using index_one [OF Cons.prems, of "{}"] by simp
    have "ancestor_closed (keys \<union> {a. proper_ancestor a (item_relKey item)})"
      using Cons.prems ancestor_trans by (fastforce simp: ancestor_closed_def)
    from Cons.IH [OF this] one show ?case by auto
  qed simp
  from this [of "{}"] show ?thesis by (simp add: descendantIndex_def ancestor_closed_def)
qed

subsection \<open>Which items are taken\<close>

definition selected_item :: "MinimizerItemView list \<Rightarrow> string set \<Rightarrow> nat \<Rightarrow> bool" where
  "selected_item items sparseSet i \<longleftrightarrow>
     item_relKey (items ! i) \<in> sparseSet \<or> (\<exists>a \<in> sparseSet. proper_ancestor a (item_relKey (items ! i)))"

definition covered_item :: "MinimizerItemView list \<Rightarrow> string set \<Rightarrow> nat \<Rightarrow> bool" where
  "covered_item items sparseSet i \<longleftrightarrow> (\<exists>j < length items. isBulkDir (items ! j) \<and> selected_item items sparseSet j \<and>
     proper_ancestor (item_relKey (items ! j)) (item_relKey (items ! i)))"

definition taken_item :: "MinimizerItemView list \<Rightarrow> string set \<Rightarrow> nat \<Rightarrow> bool" where
  "taken_item items sparseSet i \<longleftrightarrow> selected_item items sparseSet i \<and> \<not> covered_item items sparseSet i \<and>
     (isBulkDir (items ! i) \<or> (\<forall>item \<in> set items. \<not> proper_ancestor (item_relKey (items ! i)) (item_relKey item)))"

lemma covered_by_taken:
  assumes "covered_item items sparseSet i"
  shows "\<exists>j < length items. isBulkDir (items ! j) \<and> taken_item items sparseSet j \<and>
    proper_ancestor (item_relKey (items ! j)) (item_relKey (items ! i))"
proof -
  define P where "P j \<longleftrightarrow> j < length items \<and> isBulkDir (items ! j) \<and> selected_item items sparseSet j \<and>
     proper_ancestor (item_relKey (items ! j)) (item_relKey (items ! i))" for j
  let ?len = "\<lambda>j. length (item_relKey (items ! j))"
  obtain j where j: "P j" "\<And>k. P k \<Longrightarrow> ?len j \<le> ?len k"
    using assms ex_has_least_nat [of P _ ?len] unfolding covered_item_def P_def by blast
  have "\<not> covered_item items sparseSet j"
  proof
    assume "covered_item items sparseSet j"
    then obtain k where k: "k < length items" "isBulkDir (items ! k)" "selected_item items sparseSet k"
      "proper_ancestor (item_relKey (items ! k)) (item_relKey (items ! j))" by (auto simp: covered_item_def)
    with j(1) ancestor_trans have "P k" unfolding P_def by blast
    with j(2) have "?len j \<le> ?len k" by blast
    with ancestor_length [OF k(4)] show False by simp
  qed
  with j(1) show ?thesis unfolding P_def taken_item_def by blast
qed

lemma minimize_invariant:
  assumes "lengthOrder items = done @ todo"
  shows "fold (minimizeStep items sparseSet (descendantIndex items)) done ({}, []) =
    ({item_relKey (items ! j) | j. j \<in> set done \<and> isBulkDir (items ! j) \<and> taken_item items sparseSet j},
     filter (taken_item items sparseSet) done)"
  using assms
proof (induction "done" arbitrary: todo rule: rev_induct)
  case (snoc i xs)
  let ?len = "\<lambda>j. length (item_relKey (items ! j))"
  let ?bulk = "{item_relKey (items ! j) | j. j \<in> set xs \<and> isBulkDir (items ! j) \<and> taken_item items sparseSet j}"
  have order: "lengthOrder items = xs @ i # todo" using snoc.prems by simp
  have "sorted (map ?len (xs @ i # todo))" unfolding order [symmetric] lengthOrder_def by simp
  then have later: "k \<in> set todo \<Longrightarrow> ?len i \<le> ?len k" for k by (simp add: sorted_append)
  have "set (xs @ i # todo) = {..<length items}" unfolding order [symmetric] lengthOrder_def by auto
  then have all: "j \<in> set xs \<or> j = i \<or> j \<in> set todo \<longleftrightarrow> j < length items" for j by auto
  have "ancestorIn ?bulk (item_relKey (items ! i)) \<longleftrightarrow> covered_item items sparseSet i"
  proof
    assume "covered_item items sparseSet i"
    from covered_by_taken [OF this] obtain j where j: "j < length items" "isBulkDir (items ! j)" "taken_item items sparseSet j"
      "proper_ancestor (item_relKey (items ! j)) (item_relKey (items ! i))" by blast
    then have "?len j < ?len i" using ancestor_length by blast
    with j(1) all later have "j \<in> set xs" by (metis leD less_irrefl)
    with j show "ancestorIn ?bulk (item_relKey (items ! i))" by (auto simp: ancestorIn_iff)
  next
    assume "ancestorIn ?bulk (item_relKey (items ! i))"
    then obtain j where "j \<in> set xs" "isBulkDir (items ! j)" "taken_item items sparseSet j"
      "proper_ancestor (item_relKey (items ! j)) (item_relKey (items ! i))" by (auto simp: ancestorIn_iff)
    with all [of j] show "covered_item items sparseSet i" by (auto simp: covered_item_def taken_item_def)
  qed
  moreover have "fold (minimizeStep items sparseSet (descendantIndex items)) xs ({}, []) = (?bulk, filter (taken_item items sparseSet) xs)"
    using snoc.IH order by simp
  ultimately have step: "fold (minimizeStep items sparseSet (descendantIndex items)) (xs @ [i]) ({}, []) =
      minimizeStep items sparseSet (descendantIndex items) i (?bulk, filter (taken_item items sparseSet) xs)"
    and covered: "ancestorIn ?bulk (item_relKey (items ! i)) \<longleftrightarrow> covered_item items sparseSet i" by simp_all
  have bulk: "{item_relKey (items ! j) | j. j \<in> set (xs @ [i]) \<and> isBulkDir (items ! j) \<and> taken_item items sparseSet j} =
      (if isBulkDir (items ! i) \<and> taken_item items sparseSet i then insert (item_relKey (items ! i)) ?bulk else ?bulk)"
    by auto
  have sel: "(item_relKey (items ! i) \<in> sparseSet \<or> ancestorIn sparseSet (item_relKey (items ! i))) \<longleftrightarrow>
      selected_item items sparseSet i"
    by (auto simp: selected_item_def ancestorIn_iff)
  have taken: "taken_item items sparseSet i \<longleftrightarrow> selected_item items sparseSet i \<and> \<not> covered_item items sparseSet i \<and>
      (isBulkDir (items ! i) \<or> item_relKey (items ! i) \<notin> descendantIndex items)"
    by (simp add: taken_item_def descendantIndex_iff)
  show ?case
    unfolding step bulk unfolding minimizeStep_def Let_def prod.case covered sel by (simp add: taken)
qed simp

lemma minimize_eq: "minimizeEnqueueIndices items sparseSet = filter (taken_item items sparseSet) (lengthOrder items)"
  using minimize_invariant [of items "lengthOrder items" "[]" sparseSet]
  by (simp add: minimizeEnqueueIndices_def lengthOrder_def)

subsection \<open>Properties\<close>

text \<open>C29: the minimizer takes, shortest key first and in listing order among keys of one length, exactly the items that are
  selected by themselves or an ancestor, do not lie below a selected bulk directory, and are bulk directories or have no
  item below them; every selected bulk directory or leaf is taken or lies below a bulk directory that is taken.\<close>

theorem minimizer_takes:
  "minimizeEnqueueIndices items sparseSet =
     filter (taken_item items sparseSet) (sort_key (\<lambda>i. length (item_relKey (items ! i))) [0..<length items]) \<and>
   (\<forall>i < length items. selected_item items sparseSet i \<and>
      (isBulkDir (items ! i) \<or> item_relKey (items ! i) \<notin> descendantIndex items) \<longrightarrow>
      i \<in> set (minimizeEnqueueIndices items sparseSet) \<or>
      (\<exists>j \<in> set (minimizeEnqueueIndices items sparseSet). isBulkDir (items ! j) \<and>
         proper_ancestor (item_relKey (items ! j)) (item_relKey (items ! i))))"
proof -
  have "i \<in> set (minimizeEnqueueIndices items sparseSet) \<or>
      (\<exists>j \<in> set (minimizeEnqueueIndices items sparseSet). isBulkDir (items ! j) \<and>
         proper_ancestor (item_relKey (items ! j)) (item_relKey (items ! i)))"
    if "i < length items" "selected_item items sparseSet i"
      "isBulkDir (items ! i) \<or> item_relKey (items ! i) \<notin> descendantIndex items" for i
  proof (cases "covered_item items sparseSet i")
    case True
    from covered_by_taken [OF this] show ?thesis by (auto simp: minimize_eq lengthOrder_def)
  next
    case False
    with that show ?thesis by (auto simp: minimize_eq lengthOrder_def taken_item_def descendantIndex_iff)
  qed
  then show ?thesis by (auto simp: minimize_eq lengthOrder_def)
qed

theorem minimizer_takes_witness:
  "minimizeEnqueueIndices [\<lparr>item_relKey = ''d/f'', isBulkDir = False\<rparr>, \<lparr>item_relKey = ''d'', isBulkDir = True\<rparr>] {''d''} \<noteq> []"
  using minimizer_takes [of "[\<lparr>item_relKey = ''d/f'', isBulkDir = False\<rparr>, \<lparr>item_relKey = ''d'', isBulkDir = True\<rparr>]" "{''d''}"]
  by (force simp: selected_item_def)

end
