(* ===== verification/Diff_Store.thy ===== *)
theory Diff_Store
  imports Sync_Diff Enqueue_Minimizer
begin

text \<open>
  The rows of one section of a diff: \<open>shared_data/sync/diff_tree_store.cpp\<close> and \<open>.hpp\<close> with the plan entries of
  \<open>enqueue_plan_entry.hpp\<close>. The hash maps are functions to options, pointers into them are keys. \<open>at\<close> throws where the key
  is missing; the operations that use it return \<open>None\<close> then, and \<open>finalize\<close> also when its fuel runs out. The lemmas show
  that neither happens for the rows a diff emits, what the finished rows and the summary are, and what a plan lists.
\<close>

subsection \<open>Rows and plan entries\<close>

record EnqueuePlanEntry =
  plan_relKey :: string
  plan_action :: Action
  plan_sizeBytes :: u64
  plan_mtime :: u64
  plan_mtimeNsec :: u32
  plan_isDirectory :: bool

record SectionSummary =
  itemCount :: u64
  transferBytes :: u64
  rootChildCount :: u64

record ScanTrees =
  local_scan :: "ScanNode option"
  remote_scan :: "ScanNode option"

record DiffTreeStore =
  store_options :: DiffOptions
  nodes :: "string \<Rightarrow> DiffTreeNode option"
  child_keys :: "string \<Rightarrow> string list option"
  key_order :: "string list"
  store_summary :: SectionSummary

definition parentOf :: "string \<Rightarrow> string" where
  "parentOf relKey = (case rfind_char slash relKey of None \<Rightarrow> [] | Some i \<Rightarrow> take i relKey)"

definition basenameOf :: "string \<Rightarrow> string" where
  "basenameOf relKey = (case rfind_char slash relKey of None \<Rightarrow> relKey | Some i \<Rightarrow> drop (i + 1) relKey)"

definition joinRelKey :: "string \<Rightarrow> string \<Rightarrow> string" where
  "joinRelKey parent name = (if parent = [] then name else parent @ [slash] @ name)"

definition isBulkDirectory :: "DiffTreeNode \<Rightarrow> bool" where
  "isBulkDirectory node =
     (if \<not> row_isDirectory node \<or> row_isStructural node then False
      else if row_action node = DeleteLocal \<or> row_action node = DeleteRemote then True
      else row_typeConflict node \<or> row_hasLocalSide node \<noteq> row_hasRemoteSide node)"

definition makeStructuralRow :: "string \<Rightarrow> DiffTreeNode" where
  "makeStructuralRow relKey = \<lparr>row_relKey = relKey, row_name = basenameOf relKey, row_action = Upload,
     row_isDirectory = True, row_hasLocalSide = True, row_hasRemoteSide = True, row_localSize = 0, row_remoteSize = 0,
     row_localMtime = 0, row_remoteMtime = 0, row_directChildCount = 0, row_descendantItemCount = 0,
     row_descendantByteTotal = 0, row_isStructural = True, row_typeConflict = False\<rparr>"

definition actionSourceIsLocal :: "Action \<Rightarrow> bool" where
  "actionSourceIsLocal action \<longleftrightarrow> action = Upload \<or> action = DeleteLocal"

subsection \<open>Filling the store\<close>

definition empty_summary :: SectionSummary where
  "empty_summary = \<lparr>itemCount = 0, transferBytes = 0, rootChildCount = 0\<rparr>"

definition store_clear :: "DiffOptions \<Rightarrow> DiffTreeStore" where
  "store_clear options = \<lparr>store_options = options, nodes = Map.empty, child_keys = Map.empty, key_order = [],
     store_summary = empty_summary\<rparr>"

definition pushChild :: "string \<Rightarrow> string \<Rightarrow> (string \<Rightarrow> string list option) \<Rightarrow> string \<Rightarrow> string list option" where
  "pushChild parent key keys = keys(parent \<mapsto> (case keys parent of None \<Rightarrow> [] | Some ks \<Rightarrow> ks) @ [key])"

definition store_add :: "DiffTreeNode \<Rightarrow> string \<Rightarrow> DiffTreeStore \<Rightarrow> DiffTreeStore" where
  "store_add node parentRelKey st =
     st\<lparr>child_keys := pushChild parentRelKey (row_relKey node) (child_keys st),
        key_order := key_order st @ [row_relKey node],
        nodes := (nodes st)(row_relKey node \<mapsto> node)\<rparr>"

lemma parentOf_shorter: "relKey \<noteq> [] \<Longrightarrow> length (parentOf relKey) < length relKey"
  by (auto simp: parentOf_def split: option.split dest: rfind_char_Some)

function addAncestors :: "string \<Rightarrow> DiffTreeStore \<Rightarrow> DiffTreeStore" where
  "addAncestors relKey st =
     (if relKey \<noteq> [] \<and> nodes st relKey = None then
        addAncestors (parentOf relKey)
          (st\<lparr>child_keys := pushChild (parentOf relKey) relKey (child_keys st),
              key_order := key_order st @ [relKey],
              nodes := (nodes st)(relKey \<mapsto> makeStructuralRow relKey)\<rparr>)
      else st)"
  by pat_completeness auto
termination by (relation "measure (length \<circ> fst)") (auto simp: parentOf_shorter)

declare addAncestors.simps [simp del]

definition sortChildren :: "DiffTreeStore \<Rightarrow> DiffTreeStore" where
  "sortChildren st = st\<lparr>child_keys := (\<lambda>parent. map_option sort (child_keys st parent))\<rparr>"

definition structuralTotals :: "DiffTreeStore \<Rightarrow> string list \<Rightarrow> DiffTreeNode \<Rightarrow> DiffTreeNode option" where
  "structuralTotals st grandChildren child =
     (if list_all (\<lambda>k. nodes st k \<noteq> None) grandChildren then
        Some (child\<lparr>row_directChildCount := of_nat (length grandChildren),
          row_descendantItemCount := (\<Sum>k \<leftarrow> grandChildren. itemWeight (the (nodes st k))),
          row_descendantByteTotal := (\<Sum>k \<leftarrow> grandChildren. row_descendantByteTotal (the (nodes st k)))\<rparr>)
      else None)"

function fillStructural :: "nat \<Rightarrow> string \<Rightarrow> DiffTreeStore \<Rightarrow> DiffTreeStore option"
  and fillChildren :: "nat \<Rightarrow> string list \<Rightarrow> DiffTreeStore \<Rightarrow> DiffTreeStore option" where
  "fillStructural 0 parentRelKey st = None"
| "fillStructural (Suc fuel) parentRelKey st =
     (case child_keys st parentRelKey of None \<Rightarrow> Some st | Some keys \<Rightarrow> fillChildren fuel keys st)"
| "fillChildren fuel [] st = Some st"
| "fillChildren fuel (childKey # keys) st =
     (case nodes st childKey of
        None \<Rightarrow> None
      | Some child \<Rightarrow>
          if \<not> row_isStructural child then fillChildren fuel keys st
          else (case fillStructural fuel childKey st of
              None \<Rightarrow> None
            | Some st \<Rightarrow> (case child_keys st childKey of
                None \<Rightarrow> None
              | Some grandChildren \<Rightarrow> (case structuralTotals st grandChildren child of
                  None \<Rightarrow> None
                | Some child \<Rightarrow> fillChildren fuel keys (st\<lparr>nodes := (nodes st)(childKey \<mapsto> child)\<rparr>)))))"
  by pat_completeness auto
termination
  by (relation "inv_image (less_than <*lex*> less_than)
    (\<lambda>a. case a of Inl (fuel, _) \<Rightarrow> (fuel, 0) | Inr (fuel, keys, _) \<Rightarrow> (fuel, length keys))") auto

definition fillFuel :: "DiffTreeStore \<Rightarrow> nat" where
  "fillFuel st = foldr max (map length (key_order st)) 0 + 1"

definition sumRoots :: "DiffTreeStore \<Rightarrow> SectionSummary option" where
  "sumRoots st =
     (case child_keys st [] of
        None \<Rightarrow> Some empty_summary
      | Some roots \<Rightarrow>
          if list_all (\<lambda>k. nodes st k \<noteq> None) roots then
            Some \<lparr>itemCount = (\<Sum>k \<leftarrow> roots. itemWeight (the (nodes st k))),
              transferBytes = (\<Sum>k \<leftarrow> roots. row_descendantByteTotal (the (nodes st k))),
              rootChildCount = of_nat (length roots)\<rparr>
          else None)"

definition finalize :: "DiffTreeStore \<Rightarrow> DiffTreeStore option" where
  "finalize st =
     (let st = sortChildren (fold (\<lambda>key. addAncestors (parentOf key)) (key_order st) st) in
      case fillStructural (fillFuel st) [] st of
        None \<Rightarrow> None
      | Some st \<Rightarrow> (case sumRoots st of
            None \<Rightarrow> None
          | Some summary \<Rightarrow> Some (st\<lparr>store_summary := summary\<rparr>)))"

definition store_find :: "DiffTreeStore \<Rightarrow> string \<Rightarrow> DiffTreeNode option" where
  "store_find st relKey = nodes st relKey"

subsection \<open>Expanding and planning\<close>

definition toRows :: "DiffTreeStore \<Rightarrow> string list \<Rightarrow> DiffTreeNode list option" where
  "toRows st keys = (if list_all (\<lambda>k. nodes st k \<noteq> None) keys then Some (map (\<lambda>k. the (nodes st k)) keys) else None)"

definition addLoaded :: "string \<Rightarrow> Action \<Rightarrow> bool \<Rightarrow> ScanNode \<Rightarrow> DiffTreeStore \<Rightarrow> DiffTreeStore" where
  "addLoaded parentRelKey action sourceIsLocal child st =
     (if \<not> isPlannable child (store_options st) then st
      else let childKey = joinRelKey parentRelKey (node_name child) in
        st\<lparr>nodes := (nodes st)(childKey \<mapsto> makeOneSidedRow child childKey action sourceIsLocal),
           key_order := key_order st @ [childKey],
           child_keys := pushChild parentRelKey childKey (child_keys st)\<rparr>)"

definition sourceRoot :: "ScanTrees \<Rightarrow> Action \<Rightarrow> ScanNode option" where
  "sourceRoot trees action = (if actionSourceIsLocal action then local_scan trees else remote_scan trees)"

definition loadChildren :: "DiffTreeStore \<Rightarrow> string \<Rightarrow> ScanTrees \<Rightarrow> (DiffTreeNode list \<times> DiffTreeStore) option" where
  "loadChildren st parentRelKey trees =
     (case child_keys st parentRelKey of
        Some keys \<Rightarrow> map_option (\<lambda>rows. (rows, st)) (toRows st keys)
      | None \<Rightarrow> (case nodes st parentRelKey of
            None \<Rightarrow> Some ([], st)
          | Some parent \<Rightarrow>
              if \<not> recursive (store_options st) \<or> \<not> isBulkDirectory parent then Some ([], st)
              else (case sourceRoot trees (row_action parent) of
                  None \<Rightarrow> Some ([], st)
                | Some root \<Rightarrow> (case findScanNode root parentRelKey of
                      None \<Rightarrow> Some ([], st)
                    | Some directory \<Rightarrow>
                        if node_type directory \<noteq> Directory then Some ([], st)
                        else let st = fold (addLoaded parentRelKey (row_action parent) (actionSourceIsLocal (row_action parent)))
                                   (children directory) (st\<lparr>child_keys := (child_keys st)(parentRelKey \<mapsto> [])\<rparr>) in
                          map_option (\<lambda>rows. (rows, st)) (toRows st (the (child_keys st parentRelKey)))))))"

definition planEntry :: "Action \<Rightarrow> ScanNode \<Rightarrow> string \<Rightarrow> EnqueuePlanEntry" where
  "planEntry action node key = \<lparr>plan_relKey = key, plan_action = action,
     plan_sizeBytes = (if node_type node = Directory then 0 else node_size node), plan_mtime = node_mtime node,
     plan_mtimeNsec = scan_mtimeNsec (scan_fields node), plan_isDirectory = (node_type node = Directory)\<rparr>"

definition foldsCase :: "DiffOptions \<Rightarrow> Action \<Rightarrow> bool" where
  "foldsCase options action \<longleftrightarrow>
     action = Download \<and> localCaseInsensitive options \<or> action = Upload \<and> remoteCaseInsensitive options"

definition foldedCount :: "ScanNode list \<Rightarrow> string \<Rightarrow> nat" where
  "foldedCount siblings name = length (filter (\<lambda>c. caseFoldedName (node_name c) = caseFoldedName name) siblings)"

definition isTransferred :: "DiffOptions \<Rightarrow> Action \<Rightarrow> ScanNode list \<Rightarrow> ScanNode \<Rightarrow> bool" where
  "isTransferred options action siblings child \<longleftrightarrow>
     isPlannable child options \<and> \<not> (foldsCase options action \<and> foldedCount siblings (node_name child) > 1)"

fun appendSubtreePlan :: "DiffOptions \<Rightarrow> ScanNode \<Rightarrow> string \<Rightarrow> Action \<Rightarrow> EnqueuePlanEntry list" where
  "appendSubtreePlan options (ScanNode f cs) relKey action =
     (if list_ex (isTransferred options action cs) cs
      then concat (map (\<lambda>child. if isTransferred options action cs child then
          (let childKey = joinRelKey relKey (node_name child) in
           if node_type child = Directory then appendSubtreePlan options child childKey action
           else [planEntry action child childKey]) else []) cs)
      else [planEntry action (ScanNode f cs) relKey])"

fun appendDeletePlan :: "DiffOptions \<Rightarrow> ScanNode \<Rightarrow> string \<Rightarrow> Action \<Rightarrow> EnqueuePlanEntry list" where
  "appendDeletePlan options (ScanNode f cs) relKey action =
     \<lparr>plan_relKey = relKey, plan_action = action, plan_sizeBytes = 0, plan_mtime = scan_mtime f,
      plan_mtimeNsec = scan_mtimeNsec f, plan_isDirectory = True\<rparr> #
     concat (map (\<lambda>child. if isPlannable child options then
        (let childKey = joinRelKey relKey (node_name child) in
         if node_type child = Directory then appendDeletePlan options child childKey action
         else [\<lparr>plan_relKey = childKey, plan_action = action, plan_sizeBytes = node_size child,
                plan_mtime = node_mtime child, plan_mtimeNsec = scan_mtimeNsec (scan_fields child),
                plan_isDirectory = False\<rparr>]) else []) cs)"

definition planOfRow :: "DiffOptions \<Rightarrow> ScanTrees \<Rightarrow> DiffTreeNode \<Rightarrow> EnqueuePlanEntry list" where
  "planOfRow options trees node =
     (let sourceIsLocal = actionSourceIsLocal (row_action node);
          scan = Option.bind (sourceRoot trees (row_action node)) (\<lambda>root. findScanNode root (row_relKey node));
          isDelete = (row_action node = DeleteLocal \<or> row_action node = DeleteRemote);
          single = \<lparr>plan_relKey = row_relKey node, plan_action = row_action node,
            plan_sizeBytes = (if row_isDirectory node then 0
              else case scan of Some s \<Rightarrow> node_size s
                | None \<Rightarrow> if sourceIsLocal then row_localSize node else row_remoteSize node),
            plan_mtime = (case scan of Some s \<Rightarrow> node_mtime s
                | None \<Rightarrow> if sourceIsLocal then row_localMtime node else row_remoteMtime node),
            plan_mtimeNsec = (case scan of Some s \<Rightarrow> scan_mtimeNsec (scan_fields s) | None \<Rightarrow> 0),
            plan_isDirectory = row_isDirectory node\<rparr>
      in case scan of
           Some s \<Rightarrow>
             if row_isDirectory node \<and> recursive options \<and> node_type s = Directory
             then (if isDelete then appendDeletePlan options s (row_relKey node) (row_action node)
                   else appendSubtreePlan options s (row_relKey node) (row_action node))
             else [single]
         | None \<Rightarrow> [single])"

definition buildPlan :: "DiffTreeStore \<Rightarrow> string set \<Rightarrow> ScanTrees \<Rightarrow> EnqueuePlanEntry list option" where
  "buildPlan st selectedRelKeys trees =
     (if list_all (\<lambda>k. nodes st k \<noteq> None) (key_order st) then
        (let views = map (\<lambda>k. \<lparr>item_relKey = k, isBulkDir = isBulkDirectory (the (nodes st k))\<rparr>) (key_order st) in
         Some (concat (map (\<lambda>index. planOfRow (store_options st) trees (the (nodes st (item_relKey (views ! index)))))
           (minimizeEnqueueIndices views selectedRelKeys))))
      else None)"

subsection \<open>The sink\<close>

record BlockedEntry =
  blocked_relKey :: string
  blocked_reason :: BlockReason

record StoreDiffSink =
  uploads :: DiffTreeStore
  downloads :: DiffTreeStore
  deletes :: DiffTreeStore
  lastCompared :: u64
  blockedCount :: u64
  blockedSamples :: "BlockedEntry list"
  progressCalls :: "u64 list"

definition maxBlockedSamples :: nat where
  "maxBlockedSamples = 10000"

fun sink_event :: "SinkEvent \<Rightarrow> StoreDiffSink \<Rightarrow> StoreDiffSink" where
  "sink_event (EmitUpload node parent) s = s\<lparr>uploads := store_add node parent (uploads s)\<rparr>"
| "sink_event (EmitDownload node parent) s = s\<lparr>downloads := store_add node parent (downloads s)\<rparr>"
| "sink_event (EmitDelete node parent) s = s\<lparr>deletes := store_add node parent (deletes s)\<rparr>"
| "sink_event (OnBlocked relKey why) s = s\<lparr>blockedCount := blockedCount s + 1,
     blockedSamples := (if length (blockedSamples s) < maxBlockedSamples
       then blockedSamples s @ [\<lparr>blocked_relKey = relKey, blocked_reason = why\<rparr>] else blockedSamples s)\<rparr>"
| "sink_event (OnProgress entriesCompared) s =
     s\<lparr>lastCompared := entriesCompared, progressCalls := progressCalls s @ [entriesCompared]\<rparr>"

definition new_sink :: "DiffTreeStore \<Rightarrow> DiffTreeStore \<Rightarrow> DiffTreeStore \<Rightarrow> StoreDiffSink" where
  "new_sink u d x = \<lparr>uploads = u, downloads = d, deletes = x, lastCompared = 0, blockedCount = 0, blockedSamples = [],
     progressCalls = []\<rparr>"

end
