(* ===== verification/Store_Finalize.thy ===== *)
theory Store_Finalize
  imports Diff_Store
begin

text \<open>
  What \<open>finalize\<close> of \<open>sync/diff_tree_store.cpp\<close> makes of the rows a diff added: the structural rows, the child lists and the
  totals.
\<close>

subsection \<open>Keys below a key\<close>

definition below :: "string \<Rightarrow> string \<Rightarrow> bool" where
  "below p k \<longleftrightarrow> k \<noteq> [] \<and> (p = [] \<or> proper_ancestor p k)"

lemma below_step: "below p k \<longleftrightarrow> k \<noteq> [] \<and> (parentOf k = p \<or> below p (parentOf k))"
proof (cases "rfind_char slash k")
  case None
  then show ?thesis using ancestor_None [OF None, of p] by (auto simp: below_def parentOf_def)
next
  case (Some i)
  have "take i k \<noteq> []" if "proper_ancestor p (take i k)"
    using that unfolding proper_ancestor_def by (metis append_is_Nil_conv list.distinct(1))
  then have "below p (take i k) \<longleftrightarrow> take i k \<noteq> [] \<and> p = [] \<or> proper_ancestor p (take i k)" unfolding below_def by blast
  moreover have "parentOf k = take i k" by (simp add: parentOf_def Some)
  moreover have "k \<noteq> []" using Some by auto
  ultimately show ?thesis using ancestor_Some [OF Some, of p] unfolding below_def by metis
qed

lemma below_nonempty: "below p k \<Longrightarrow> k \<noteq> []"
  by (simp add: below_def)

lemma below_longer: "below p k \<Longrightarrow> length p < length k"
  by (auto simp: below_def dest: ancestor_length)

lemma below_parent: "k \<noteq> [] \<Longrightarrow> below (parentOf k) k"
  using below_step by blast

lemma below_trans: "below p k \<Longrightarrow> below k l \<Longrightarrow> below p l"
  by (auto simp: below_def dest: ancestor_trans)

lemma below_ancestor: "p \<noteq> [] \<Longrightarrow> below p k \<longleftrightarrow> proper_ancestor p k"
  by (auto simp: below_def proper_ancestor_def)

text \<open>Two children of one directory have nothing in common below them.\<close>

lemma one_child:
  "parentOf g = c \<Longrightarrow> parentOf h = c \<Longrightarrow> g \<noteq> [] \<Longrightarrow> h \<noteq> [] \<Longrightarrow> e = g \<or> below g e \<Longrightarrow> e = h \<or> below h e \<Longrightarrow> g = h"
proof (induction e rule: length_induct)
  case (1 e)
  have up: "\<not> below x c" if "parentOf x = c" "x \<noteq> []" for x
    using below_longer below_parent that by (metis less_asym)
  show ?case
  proof (cases "e = g \<or> e = h")
    case True
    then show ?thesis using 1(2-7) up below_step by metis
  next
    case False
    then have "e \<noteq> []" and par: "parentOf e = g \<or> below g (parentOf e)" "parentOf e = h \<or> below h (parentOf e)"
      using 1(6,7) below_step by (metis below_nonempty)+
    moreover have "length (parentOf e) < length e" using \<open>e \<noteq> []\<close> by (rule parentOf_shorter)
    ultimately show ?thesis using 1(1) 1(2-5) by blast
  qed
qed

subsection \<open>Linked stores\<close>

definition linked :: "DiffTreeStore \<Rightarrow> bool" where
  "linked st \<longleftrightarrow>
     (\<forall>p ks. child_keys st p = Some ks \<longrightarrow> ks \<noteq> [] \<and> distinct ks \<and>
        set ks = {k. k \<in> dom (nodes st) \<and> parentOf k = p}) \<and>
     (\<forall>k \<in> dom (nodes st). k \<noteq> [] \<and> child_keys st (parentOf k) \<noteq> None) \<and>
     distinct (key_order st) \<and> set (key_order st) = dom (nodes st)"

definition insert_row :: "string \<Rightarrow> DiffTreeNode \<Rightarrow> DiffTreeStore \<Rightarrow> DiffTreeStore" where
  "insert_row key row st = st\<lparr>child_keys := pushChild (parentOf key) key (child_keys st),
     key_order := key_order st @ [key], nodes := (nodes st)(key \<mapsto> row)\<rparr>"

lemma insert_fields [simp]:
  "nodes (insert_row key row st) = (nodes st)(key \<mapsto> row)"
  "key_order (insert_row key row st) = key_order st @ [key]"
  "child_keys (insert_row key row st) = pushChild (parentOf key) key (child_keys st)"
  "store_options (insert_row key row st) = store_options st"
  by (simp_all add: insert_row_def)

lemma push_some: "keys p \<noteq> None \<Longrightarrow> pushChild q k keys p \<noteq> None" "pushChild q k keys q \<noteq> None"
  by (auto simp: pushChild_def)

lemma linked_insert:
  assumes "linked st" and "key \<notin> dom (nodes st)" and "key \<noteq> []"
  shows "linked (insert_row key row st)"
proof -
  have old: "child_keys st p = Some ks \<Longrightarrow> ks \<noteq> [] \<and> distinct ks \<and> set ks = {k. k \<in> dom (nodes st) \<and> parentOf k = p}"
    "k \<in> dom (nodes st) \<Longrightarrow> k \<noteq> [] \<and> child_keys st (parentOf k) \<noteq> None" for p ks k
    using assms(1) by (auto simp: linked_def)
  have "ks \<noteq> [] \<and> distinct ks \<and> set ks = {k. k \<in> dom ((nodes st)(key \<mapsto> row)) \<and> parentOf k = p}"
    if "pushChild (parentOf key) key (child_keys st) p = Some ks" for p ks
  proof (cases "p = parentOf key")
    case True
    show ?thesis
    proof (cases "child_keys st p")
      case None
      then have only: "parentOf k \<noteq> p" if "k \<in> dom (nodes st)" for k
        using old(2) [OF that] None by (intro notI) simp
      have "{k. k \<in> dom ((nodes st)(key \<mapsto> row)) \<and> parentOf k = p} = {key}"
      proof (intro equalityI subsetI)
        fix k assume "k \<in> {k. k \<in> dom ((nodes st)(key \<mapsto> row)) \<and> parentOf k = p}"
        then have "k = key \<or> k \<in> dom (nodes st)" "parentOf k = p" by (auto split: if_splits)
        with only show "k \<in> {key}" by blast
      qed (use True in simp)
      moreover have "ks = [key]" using that True None by (simp add: pushChild_def)
      ultimately show ?thesis by simp
    next
      case (Some old_ks)
      with that True have "ks = old_ks @ [key]" by (simp add: pushChild_def)
      moreover from old(1) [OF Some] assms(2) have "key \<notin> set old_ks" by auto
      ultimately show ?thesis using old(1) [OF Some] True by auto
    qed
  next
    case False
    with that have "child_keys st p = Some ks" by (simp add: pushChild_def)
    from old(1) [OF this] show ?thesis using False by auto
  qed
  moreover have "k \<noteq> [] \<and> pushChild (parentOf key) key (child_keys st) (parentOf k) \<noteq> None"
    if "k \<in> dom ((nodes st)(key \<mapsto> row))" for k
  proof (cases "k = key")
    case True
    with assms(3) show ?thesis by (simp add: pushChild_def)
  next
    case False
    with that have "k \<in> dom (nodes st)" by auto
    from old(2) [OF this] show ?thesis by (simp add: pushChild_def)
  qed
  moreover have "distinct (key_order st @ [key])" "set (key_order st @ [key]) = dom ((nodes st)(key \<mapsto> row))"
    using assms(1,2) by (auto simp: linked_def)
  ultimately show ?thesis unfolding linked_def insert_fields by blast
qed

text \<open>Every row is an emitted one or a structural row with children, above an emitted one.\<close>

definition rows_of :: "(string \<Rightarrow> DiffTreeNode option) \<Rightarrow> DiffTreeStore \<Rightarrow> bool" where
  "rows_of E st \<longleftrightarrow> E \<subseteq>\<^sub>m nodes st \<and>
     (\<forall>k n. nodes st k = Some n \<longrightarrow> E k = Some n \<or>
        E k = None \<and> n = makeStructuralRow k \<and> child_keys st k \<noteq> None \<and> (\<exists>e \<in> dom E. below k e))"

lemma rows_insert:
  assumes "rows_of E st" and "key \<notin> dom (nodes st)" and "child_keys st key \<noteq> None" and "\<exists>e \<in> dom E. below key e"
  shows "rows_of E (insert_row key (makeStructuralRow key) st)"
proof -
  have "key \<notin> dom E" using assms(1,2) map_le_implies_dom_le unfolding rows_of_def by blast
  have kept: "child_keys st k \<noteq> None \<Longrightarrow> pushChild (parentOf key) key (child_keys st) k \<noteq> None" for k
    by (simp add: pushChild_def)
  have "E \<subseteq>\<^sub>m nodes st" using assms(1) by (simp add: rows_of_def)
  with \<open>key \<notin> dom E\<close> have "E \<subseteq>\<^sub>m (nodes st)(key \<mapsto> makeStructuralRow key)" by (auto simp: map_le_def)
  moreover have "E k = Some n \<or> E k = None \<and> n = makeStructuralRow k \<and>
      pushChild (parentOf key) key (child_keys st) k \<noteq> None \<and> (\<exists>e \<in> dom E. below k e)"
    if "((nodes st)(key \<mapsto> makeStructuralRow key)) k = Some n" for k n
  proof (cases "k = key")
    case True
    with that assms(3,4) kept \<open>key \<notin> dom E\<close> show ?thesis by (auto simp del: not_None_eq)
  next
    case False
    with that have "nodes st k = Some n" by simp
    with assms(1) kept show ?thesis unfolding rows_of_def by blast
  qed
  ultimately show ?thesis unfolding rows_of_def insert_fields by blast
qed

lemma addAncestors_ok:
  "linked st \<Longrightarrow> rows_of E st \<Longrightarrow> key = [] \<or> child_keys st key \<noteq> None \<and> (\<exists>e \<in> dom E. below key e) \<Longrightarrow>
     st' = addAncestors key st \<Longrightarrow>
     linked st' \<and> rows_of E st' \<and> store_options st' = store_options st \<and>
     (key = [] \<or> key \<in> dom (nodes st')) \<and> nodes st \<subseteq>\<^sub>m nodes st' \<and>
     (\<forall>k \<in> dom (nodes st') - dom (nodes st). parentOf k = [] \<or> parentOf k \<in> dom (nodes st'))"
proof (induction key st arbitrary: st' rule: addAncestors.induct)
  case (1 key st)
  show ?case
  proof (cases "key \<noteq> [] \<and> nodes st key = None")
    case True
    let ?st = "insert_row key (makeStructuralRow key) st"
    have st': "st' = addAncestors (parentOf key) ?st"
      using 1(5) True by (simp add: addAncestors.simps [of key st] insert_row_def)
    have "linked ?st" using linked_insert 1(2) True by blast
    moreover have "rows_of E ?st" using rows_insert 1(3,4) True by blast
    moreover have "child_keys ?st (parentOf key) \<noteq> None" by (simp add: pushChild_def)
    moreover obtain e where "e \<in> dom E" "below key e" using True 1(4) by blast
    moreover from this have "below (parentOf key) e" using True below_trans below_parent by blast
    ultimately have "linked ?st" "rows_of E ?st"
      "parentOf key = [] \<or> child_keys ?st (parentOf key) \<noteq> None \<and> (\<exists>e \<in> dom E. below (parentOf key) e)" by blast+
    with "1.IH" [OF True _ _ _ refl, folded insert_row_def, folded st']
    have climbed: "linked st' \<and> rows_of E st' \<and> store_options st' = store_options ?st \<and>
       (parentOf key = [] \<or> parentOf key \<in> dom (nodes st')) \<and> nodes ?st \<subseteq>\<^sub>m nodes st' \<and>
       (\<forall>k \<in> dom (nodes st') - dom (nodes ?st). parentOf k = [] \<or> parentOf k \<in> dom (nodes st'))"
      by blast
    then have "nodes ?st \<subseteq>\<^sub>m nodes st'" by blast
    moreover have "nodes st \<subseteq>\<^sub>m nodes ?st" using True by (auto simp: map_le_def)
    ultimately have "nodes st \<subseteq>\<^sub>m nodes st'" using map_le_trans by blast
    moreover have "dom (nodes ?st) \<subseteq> dom (nodes st')" using climbed by (intro map_le_implies_dom_le) blast
    moreover have "parentOf k = [] \<or> parentOf k \<in> dom (nodes st')" if "k \<in> dom (nodes st') - dom (nodes st)" for k
      using climbed that by (cases "k = key") auto
    ultimately show ?thesis using climbed by auto
  next
    case False
    then have "st' = st" using 1(5) by (auto simp: addAncestors.simps [of key st])
    with False 1(2,3) show ?thesis by auto
  qed
qed

definition closed_store :: "DiffTreeStore \<Rightarrow> bool" where
  "closed_store st \<longleftrightarrow> (\<forall>k \<in> dom (nodes st). parentOf k = [] \<or> parentOf k \<in> dom (nodes st))"

lemma addAll_ok:
  assumes "linked st" and "rows_of E st" and "dom (nodes st) = dom E"
  shows "let st' = fold (\<lambda>key. addAncestors (parentOf key)) (key_order st) st in
     linked st' \<and> rows_of E st' \<and> closed_store st' \<and> store_options st' = store_options st"
proof -
  have "set keys \<subseteq> dom E \<Longrightarrow> linked st \<Longrightarrow> rows_of E st \<Longrightarrow>
     \<forall>k \<in> dom (nodes st). k \<in> set keys \<or> parentOf k = [] \<or> parentOf k \<in> dom (nodes st) \<Longrightarrow>
     let st' = fold (\<lambda>key. addAncestors (parentOf key)) keys st in
     linked st' \<and> rows_of E st' \<and> closed_store st' \<and> store_options st' = store_options st" for keys
  proof (induction keys arbitrary: st)
    case Nil
    then show ?case by (simp add: closed_store_def)
  next
    case (Cons key keys)
    let ?st = "addAncestors (parentOf key) st"
    have key: "key \<in> dom E" using Cons.prems(1) by simp
    moreover have "dom E \<subseteq> dom (nodes st)" using Cons.prems(3) unfolding rows_of_def by (intro map_le_implies_dom_le) blast
    ultimately have "key \<in> dom (nodes st)" by blast
    then have "key \<noteq> []" "child_keys st (parentOf key) \<noteq> None"
      using Cons.prems(2) unfolding linked_def by blast+
    then have "parentOf key = [] \<or> child_keys st (parentOf key) \<noteq> None \<and> (\<exists>e \<in> dom E. below (parentOf key) e)"
      using key below_parent by blast
    from addAncestors_ok [OF Cons.prems(2,3) this refl] have one: "linked ?st \<and> rows_of E ?st \<and> store_options ?st = store_options st \<and>
        (parentOf key = [] \<or> parentOf key \<in> dom (nodes ?st)) \<and> nodes st \<subseteq>\<^sub>m nodes ?st \<and>
        (\<forall>k \<in> dom (nodes ?st) - dom (nodes st). parentOf k = [] \<or> parentOf k \<in> dom (nodes ?st))"
      .
    have mono: "dom (nodes st) \<subseteq> dom (nodes ?st)" using one by (intro map_le_implies_dom_le) blast
    have "k \<in> set keys \<or> parentOf k = [] \<or> parentOf k \<in> dom (nodes ?st)" if "k \<in> dom (nodes ?st)" for k
    proof (cases "k \<in> dom (nodes st)")
      case True
      with Cons.prems(4) have "k = key \<or> k \<in> set keys \<or> parentOf k = [] \<or> parentOf k \<in> dom (nodes st)" by auto
      with one mono show ?thesis by blast
    next
      case False
      with that one show ?thesis by blast
    qed
    with Cons.IH [of ?st] one Cons.prems(1) show ?case by (simp add: Let_def)
  qed
  moreover have "set (key_order st) = dom E" using assms by (simp add: linked_def)
  ultimately show ?thesis using assms by simp
qed

subsection \<open>The totals of structural rows\<close>

text \<open>The store before the fill: linked, with every emitted row flat, and no emitted row below another one.\<close>

definition ready :: "(string \<Rightarrow> DiffTreeNode option) \<Rightarrow> DiffTreeStore \<Rightarrow> bool" where
  "ready E st \<longleftrightarrow> linked st \<and> rows_of E st \<and> closed_store st \<and> finite (dom E) \<and>
     (\<forall>k n. E k = Some n \<longrightarrow> \<not> row_isStructural n) \<and> (\<forall>k \<in> dom E. \<forall>l \<in> dom E. \<not> below k l)"

definition weight_below :: "(string \<Rightarrow> DiffTreeNode option) \<Rightarrow> string \<Rightarrow> u64" where
  "weight_below E k = (\<Sum>e \<in> {e \<in> dom E. below k e}. itemWeight (the (E e)))"

definition bytes_below :: "(string \<Rightarrow> DiffTreeNode option) \<Rightarrow> string \<Rightarrow> u64" where
  "bytes_below E k = (\<Sum>e \<in> {e \<in> dom E. below k e}. row_descendantByteTotal (the (E e)))"

definition finished_row :: "(string \<Rightarrow> DiffTreeNode option) \<Rightarrow> DiffTreeStore \<Rightarrow> string \<Rightarrow> DiffTreeNode \<Rightarrow> DiffTreeNode" where
  "finished_row E st k n =
     (if row_isStructural n then n\<lparr>row_directChildCount := of_nat (length (the (child_keys st k))),
        row_descendantItemCount := weight_below E k, row_descendantByteTotal := bytes_below E k\<rparr> else n)"

definition filled :: "(string \<Rightarrow> DiffTreeNode option) \<Rightarrow> DiffTreeStore \<Rightarrow> string set \<Rightarrow> DiffTreeStore" where
  "filled E st S = st\<lparr>nodes := (\<lambda>k. if k \<in> S then map_option (finished_row E st k) (nodes st k) else nodes st k)\<rparr>"

lemma filled_fields [simp]:
  "child_keys (filled E st S) = child_keys st" "key_order (filled E st S) = key_order st"
  "store_options (filled E st S) = store_options st" "store_summary (filled E st S) = store_summary st"
  by (simp_all add: filled_def)

lemma filled_cong: "S \<inter> dom (nodes st) = T \<inter> dom (nodes st) \<Longrightarrow> filled E st S = filled E st T"
proof -
  assume same: "S \<inter> dom (nodes st) = T \<inter> dom (nodes st)"
  have "(if k \<in> S then map_option (finished_row E st k) (nodes st k) else nodes st k) =
      (if k \<in> T then map_option (finished_row E st k) (nodes st k) else nodes st k)" for k
    using same by (cases "nodes st k") auto
  then show ?thesis by (simp add: filled_def)
qed

lemma filled_insert: "nodes st k = Some n \<Longrightarrow>
    (filled E st S)\<lparr>nodes := (nodes (filled E st S))(k \<mapsto> finished_row E st k n)\<rparr> = filled E st (insert k S)"
  by (auto simp: filled_def fun_eq_iff)

lemma child_set:
  "ready E st \<Longrightarrow> child_keys st p = Some ks \<Longrightarrow> ks \<noteq> [] \<and> distinct ks \<and> set ks = {k. k \<in> dom (nodes st) \<and> parentOf k = p}"
  by (simp add: ready_def linked_def)

lemma node_key: "ready E st \<Longrightarrow> k \<in> dom (nodes st) \<Longrightarrow> k \<noteq> [] \<and> child_keys st (parentOf k) \<noteq> None"
  unfolding ready_def linked_def by blast

lemma below_child:
  assumes "ready E st" and "k \<in> dom (nodes st)" and "below p k"
  shows "\<exists>c. c \<in> dom (nodes st) \<and> parentOf c = p \<and> (k = c \<or> below c k)"
  using assms(2,3)
proof (induction k rule: length_induct)
  case (1 k)
  show ?case
  proof (cases "parentOf k = p")
    case False
    with 1(3) have par: "below p (parentOf k)" using below_step by blast
    then have "parentOf k \<noteq> []" by (rule below_nonempty)
    then have "parentOf k \<in> dom (nodes st)" using 1(2) assms(1) by (auto simp: ready_def closed_store_def)
    moreover have "length (parentOf k) < length k" using parentOf_shorter below_nonempty 1(3) by blast
    ultimately obtain c where "c \<in> dom (nodes st)" "parentOf c = p" "parentOf k = c \<or> below c (parentOf k)"
      using 1(1) par by blast
    then show ?thesis using below_step below_nonempty 1(3) by blast
  qed (use 1(2) in blast)
qed

lemma below_children_iff:
  assumes "ready E st" and "child_keys st p = Some ks" and "k \<in> dom (nodes st)"
  shows "below p k \<longleftrightarrow> (\<exists>c \<in> set ks. k = c \<or> below c k)"
proof
  assume "below p k"
  from below_child [OF assms(1,3) this] child_set [OF assms(1,2)]
  show "\<exists>c \<in> set ks. k = c \<or> below c k" by blast
next
  assume "\<exists>c \<in> set ks. k = c \<or> below c k"
  then obtain c where c: "c \<in> set ks" "k = c \<or> below c k" by blast
  then have "c \<in> dom (nodes st)" "parentOf c = p" using child_set [OF assms(1,2)] by auto
  then have "below p c" using node_key [OF assms(1)] below_parent by blast
  with c(2) below_trans show "below p k" by blast
qed

lemma below_children:
  assumes "ready E st" and "child_keys st p = Some ks"
  shows "{k. below p k} \<inter> dom (nodes st) = (\<Union>c \<in> set ks. insert c {k. below c k}) \<inter> dom (nodes st)"
  using below_children_iff [OF assms] by (auto simp del: dom_def)

lemma no_children: "ready E st \<Longrightarrow> child_keys st p = None \<Longrightarrow> {k. below p k} \<inter> dom (nodes st) = {}"
  using below_child node_key by blast

lemma emitted_nodes: "ready E st \<Longrightarrow> E k = Some n \<Longrightarrow> nodes st k = Some n"
  unfolding ready_def rows_of_def map_le_def by (metis domI)

lemma node_cases:
  assumes "ready E st" and "nodes st k = Some n"
  obtains (emitted) "E k = Some n" "\<not> row_isStructural n" "{e \<in> dom E. below k e} = {}"
  | (structural) "E k = None" "row_isStructural n" "child_keys st k \<noteq> None"
proof -
  have "E k = Some n \<or> E k = None \<and> n = makeStructuralRow k \<and> child_keys st k \<noteq> None"
    using assms unfolding ready_def rows_of_def by blast
  then show thesis
  proof
    assume k: "E k = Some n"
    have "\<not> row_isStructural n" using assms(1) k unfolding ready_def by blast
    moreover have "{e \<in> dom E. below k e} = {}" using assms(1) k unfolding ready_def by blast
    ultimately show thesis using emitted k by blast
  next
    assume "E k = None \<and> n = makeStructuralRow k \<and> child_keys st k \<noteq> None"
    then show thesis using structural by (simp add: makeStructuralRow_def)
  qed
qed

text \<open>What is below a key is what its children stand for.\<close>

lemma sum_children:
  assumes "ready E st" and "child_keys st c = Some ks"
  shows "(\<Sum>k \<leftarrow> ks. \<Sum>e \<in> {e \<in> dom E. e = k \<or> below k e}. f e :: u64) = (\<Sum>e \<in> {e \<in> dom E. below c e}. f e)"
proof -
  note ks = child_set [OF assms]
  have E: "dom E \<subseteq> dom (nodes st)" using emitted_nodes [OF assms(1)] by auto
  have nonempty: "k \<in> set ks \<Longrightarrow> k \<noteq> []" for k using ks node_key [OF assms(1)] by blast
  have "e \<in> dom E \<Longrightarrow> below c e \<longleftrightarrow> (\<exists>k \<in> set ks. e = k \<or> below k e)" for e
    using below_children_iff [OF assms] E by blast
  then have "{e \<in> dom E. below c e} = (\<Union>k \<in> set ks. {e \<in> dom E. e = k \<or> below k e})" by blast
  then have "(\<Sum>e \<in> {e \<in> dom E. below c e}. f e) = (\<Sum>e \<in> (\<Union>k \<in> set ks. {e \<in> dom E. e = k \<or> below k e}). f e)"
    by simp
  also have "\<dots> = (\<Sum>k \<in> set ks. \<Sum>e \<in> {e \<in> dom E. e = k \<or> below k e}. f e)"
  proof (rule sum.UNION_disjoint)
    show "\<forall>k \<in> set ks. finite {e \<in> dom E. e = k \<or> below k e}" using assms(1) by (simp add: ready_def)
    show "\<forall>k \<in> set ks. \<forall>l \<in> set ks. k \<noteq> l \<longrightarrow> {e \<in> dom E. e = k \<or> below k e} \<inter> {e \<in> dom E. e = l \<or> below l e} = {}"
    proof (intro ballI impI)
      fix k l assume kl: "k \<in> set ks" "l \<in> set ks" "k \<noteq> l"
      have "parentOf k = c" "parentOf l = c" "k \<noteq> []" "l \<noteq> []" using kl ks nonempty by auto
      from one_child [OF this] kl(3)
      show "{e \<in> dom E. e = k \<or> below k e} \<inter> {e \<in> dom E. e = l \<or> below l e} = {}" by blast
    qed
  qed simp
  also have "\<dots> = (\<Sum>k \<leftarrow> ks. \<Sum>e \<in> {e \<in> dom E. e = k \<or> below k e}. f e)"
    using ks by (simp add: sum_list_distinct_conv_sum_set)
  finally show ?thesis by simp
qed

lemma finished_weights:
  assumes "ready E st" and "nodes st k = Some n"
  shows "itemWeight (finished_row E st k n) = (\<Sum>e \<in> {e \<in> dom E. e = k \<or> below k e}. itemWeight (the (E e))) \<and>
    row_descendantByteTotal (finished_row E st k n) =
      (\<Sum>e \<in> {e \<in> dom E. e = k \<or> below k e}. row_descendantByteTotal (the (E e)))"
  using assms
proof (cases rule: node_cases)
  case emitted
  have "\<not> below k e" if "e \<in> dom E" for e using emitted(3) that by blast
  then have "{e \<in> dom E. e = k \<or> below k e} = {k}" using emitted(1) by auto
  then show ?thesis using emitted by (simp add: finished_row_def)
next
  case structural
  then have "{e \<in> dom E. e = k \<or> below k e} = {e \<in> dom E. below k e}" by auto
  then show ?thesis
    using structural by (simp add: finished_row_def itemWeight_def weight_below_def bytes_below_def)
qed

lemma children_totals:
  assumes "ready E st" and "child_keys st c = Some ks" and "set ks \<subseteq> S"
  shows "list_all (\<lambda>k. nodes (filled E st S) k \<noteq> None) ks"
    and "(\<Sum>k \<leftarrow> ks. itemWeight (the (nodes (filled E st S) k))) = weight_below E c"
    and "(\<Sum>k \<leftarrow> ks. row_descendantByteTotal (the (nodes (filled E st S) k))) = bytes_below E c"
proof -
  have some: "nodes st k = Some (the (nodes st k))" if "k \<in> set ks" for k
    using that child_set [OF assms(1,2)] by auto
  have row: "nodes (filled E st S) k = Some (finished_row E st k (the (nodes st k)))" if "k \<in> set ks" for k
    using that assms(3) some [OF that] by (auto simp: filled_def)
  then show "list_all (\<lambda>k. nodes (filled E st S) k \<noteq> None) ks" by (simp add: list_all_iff)
  note weights = finished_weights [OF assms(1) some, THEN conjunct1] finished_weights [OF assms(1) some, THEN conjunct2]
  have "map (\<lambda>k. itemWeight (the (nodes (filled E st S) k))) ks =
      map (\<lambda>k. \<Sum>e \<in> {e \<in> dom E. e = k \<or> below k e}. itemWeight (the (E e))) ks"
    by (intro map_cong refl) (simp add: row weights(1))
  then show "(\<Sum>k \<leftarrow> ks. itemWeight (the (nodes (filled E st S) k))) = weight_below E c"
    unfolding weight_below_def sum_children [OF assms(1,2), symmetric] by (rule arg_cong)
  have "map (\<lambda>k. row_descendantByteTotal (the (nodes (filled E st S) k))) ks =
      map (\<lambda>k. \<Sum>e \<in> {e \<in> dom E. e = k \<or> below k e}. row_descendantByteTotal (the (E e))) ks"
    by (intro map_cong refl) (simp add: row weights(2))
  then show "(\<Sum>k \<leftarrow> ks. row_descendantByteTotal (the (nodes (filled E st S) k))) = bytes_below E c"
    unfolding bytes_below_def sum_children [OF assms(1,2), symmetric] by (rule arg_cong)
qed

lemma fill_works:
  "ready E base \<Longrightarrow> st = filled E base S \<Longrightarrow> fuel \<noteq> 0 \<Longrightarrow>
     \<forall>k \<in> dom (nodes base). below p k \<longrightarrow> length k < length p + fuel \<Longrightarrow>
     fillStructural fuel p st = Some (filled E base (S \<union> {k. below p k}))"
  "ready E base \<Longrightarrow> st = filled E base S \<Longrightarrow> set ks \<subseteq> dom (nodes base) \<Longrightarrow>
     \<forall>c \<in> set ks. \<forall>k \<in> dom (nodes base). k = c \<or> below c k \<longrightarrow> length k < length (parentOf c) + Suc fuel \<Longrightarrow>
     fillChildren fuel ks st = Some (filled E base (S \<union> (\<Union>c \<in> set ks. insert c {k. below c k})))"
proof (induction fuel p st and fuel ks st arbitrary: S and S rule: fillStructural_fillChildren.induct)
  case (2 fuel p st)
  show ?case
  proof (cases "child_keys base p")
    case None
    have "filled E base (S \<union> {k. below p k}) = filled E base S"
      using no_children [OF 2(2) None] by (intro filled_cong) blast
    with None 2(3) show ?thesis by simp
  next
    case (Some ks)
    note kids = child_set [OF 2(2) Some]
    have "\<forall>c \<in> set ks. \<forall>k \<in> dom (nodes base). k = c \<or> below c k \<longrightarrow> length k < length (parentOf c) + Suc fuel"
    proof (intro ballI impI)
      fix c k assume c: "c \<in> set ks" and k: "k \<in> dom (nodes base)" "k = c \<or> below c k"
      then have "parentOf c = p" "c \<noteq> []" using kids node_key [OF 2(2)] by auto
      then have "below p k" using k(2) below_parent below_trans by blast
      with 2(5) k(1) \<open>parentOf c = p\<close> show "length k < length (parentOf c) + Suc fuel" by simp
    qed
    moreover have "set ks \<subseteq> dom (nodes base)" using kids by blast
    moreover have "child_keys st p = Some ks" using Some 2(3) by simp
    ultimately have "fillChildren fuel ks st = Some (filled E base (S \<union> (\<Union>c \<in> set ks. insert c {k. below c k})))"
      using 2(1) [OF _ 2(2,3)] by blast
    moreover have "filled E base (S \<union> (\<Union>c \<in> set ks. insert c {k. below c k})) = filled E base (S \<union> {k. below p k})"
      using below_children [OF 2(2) Some] by (intro filled_cong) blast
    ultimately show ?thesis using \<open>child_keys st p = Some ks\<close> by simp
  qed
next
  case (4 fuel c ks st)
  have c: "c \<in> dom (nodes base)" and rest: "set ks \<subseteq> dom (nodes base)"
    "\<forall>c \<in> set ks. \<forall>k \<in> dom (nodes base). k = c \<or> below c k \<longrightarrow> length k < length (parentOf c) + Suc fuel"
    using 4(6,7) by auto
  then obtain n where n: "nodes base c = Some n" by auto
  define m where "m = (if c \<in> S then finished_row E base c n else n)"
  have st: "nodes st c = Some m" using 4(5) n by (simp add: filled_def m_def)
  have flag: "row_isStructural m = row_isStructural n" by (simp add: finished_row_def m_def)
  have all: "S \<union> (\<Union>d \<in> set (c # ks). insert d {k. below d k}) =
      insert c (S \<union> {k. below c k}) \<union> (\<Union>d \<in> set ks. insert d {k. below d k})" by auto
  show ?case
    using 4(4) n
  proof (cases rule: node_cases)
    case emitted
    have flat: "finished_row E base c n = n" using emitted(2) by (simp add: finished_row_def)
    have "{k. below c k} \<inter> dom (nodes base) = {}"
    proof (rule ccontr)
      assume "{k. below c k} \<inter> dom (nodes base) \<noteq> {}"
      then obtain k m where k: "below c k" "nodes base k = Some m" by blast
      from 4(4) k(2) have "k \<in> dom E \<or> (\<exists>e \<in> dom E. below k e)" unfolding ready_def rows_of_def by blast
      with k(1) below_trans emitted(3) show False by blast
    qed
    then have "filled E base (insert c (S \<union> {k. below c k})) = filled E base (insert c S)"
      by (intro filled_cong) blast
    also have "\<dots> = filled E base S"
      using n flat by (auto simp: filled_def fun_eq_iff)
    finally have "st = filled E base (insert c (S \<union> {k. below c k}))" using 4(5) by simp
    from 4(1) [OF st _ 4(4) this rest] emitted(2) flag show ?thesis unfolding all by (simp add: st)
  next
    case structural
    obtain gs where gs: "child_keys base c = Some gs" using structural(3) by blast
    note kids = child_set [OF 4(4) gs]
    obtain g where g: "g \<in> set gs" using kids by (meson list.set_sel(1))
    then have g': "g \<in> dom (nodes base)" "below c g" using kids node_key [OF 4(4)] below_parent by auto
    have "length c < length g" using below_longer g'(2) .
    moreover have "length (parentOf c) < length c" using parentOf_shorter node_key [OF 4(4)] c by blast
    moreover have "length g < length (parentOf c) + Suc fuel" using 4(7) g' by auto
    ultimately have fuel: "fuel \<noteq> 0" by linarith
    have "\<forall>k \<in> dom (nodes base). below c k \<longrightarrow> length k < length c + fuel"
      using 4(7) \<open>length (parentOf c) < length c\<close> by fastforce
    with 4(2) [OF st _ 4(4,5) fuel] structural(2) flag
    have one: "fillStructural fuel c st = Some (filled E base (S \<union> {k. below c k}))" by simp
    let ?st = "filled E base (S \<union> {k. below c k})"
    have "below c g" if "g \<in> set gs" for g
    proof -
      have "g \<in> dom (nodes base)" "parentOf g = c" using that kids by auto
      with node_key [OF 4(4)] below_parent [of g] show ?thesis by blast
    qed
    then have sub: "set gs \<subseteq> S \<union> {k. below c k}" by blast
    note totals = children_totals [OF 4(4) gs sub]
    have sums: "structuralTotals ?st gs m = Some (finished_row E base c n)"
      using totals structural(2) gs unfolding structuralTotals_def by (auto simp: finished_row_def m_def)
    have next_st: "?st\<lparr>nodes := (nodes ?st)(c \<mapsto> finished_row E base c n)\<rparr> = filled E base (insert c (S \<union> {k. below c k}))"
      using filled_insert [OF n] by simp
    have gs': "child_keys ?st c = Some gs" using gs by simp
    have "\<not> \<not> row_isStructural m" using flag structural(2) by simp
    note tail = 4(3) [OF st this one gs' sums 4(4) next_st rest]
    have step: "fillChildren fuel (c # ks) st = fillChildren fuel ks (?st\<lparr>nodes := (nodes ?st)(c \<mapsto> finished_row E base c n)\<rparr>)"
      by (simp only: fillChildren.simps st option.case flag structural(2) not_True_eq_False if_False one gs' sums)
    from step tail show ?thesis unfolding all by (rule trans)
  qed
qed auto

subsection \<open>Finalizing\<close>

text \<open>Rows as a diff emits them into one section: each one flat, under its own key, given to its parent's key, no key twice and
  none below another one.\<close>

definition row_keys :: "(DiffTreeNode \<times> string) list \<Rightarrow> string list" where
  "row_keys rows = map (\<lambda>(row, parent). row_relKey row) rows"

definition proper_rows :: "(DiffTreeNode \<times> string) list \<Rightarrow> bool" where
  "proper_rows rows \<longleftrightarrow> distinct (row_keys rows) \<and>
     (\<forall>(row, parent) \<in> set rows. row_relKey row \<noteq> [] \<and> parent = parentOf (row_relKey row) \<and> \<not> row_isStructural row) \<and>
     (\<forall>k \<in> set (row_keys rows). \<forall>l \<in> set (row_keys rows). \<not> proper_ancestor k l)"

definition store_rows :: "DiffOptions \<Rightarrow> (DiffTreeNode \<times> string) list \<Rightarrow> DiffTreeStore" where
  "store_rows options rows = fold (\<lambda>(row, parent). store_add row parent) rows (store_clear options)"

definition emitted_rows :: "(DiffTreeNode \<times> string) list \<Rightarrow> string \<Rightarrow> DiffTreeNode option" where
  "emitted_rows rows = map_of (map (\<lambda>(row, parent). (row_relKey row, row)) rows)"

lemma emitted_dom: "dom (emitted_rows rows) = set (row_keys rows)"
  by (simp add: emitted_rows_def row_keys_def dom_map_of_conv_image_fst image_image case_prod_beta)

lemma proper_butlast: "proper_rows (rows @ [r]) \<Longrightarrow> proper_rows rows"
  by (auto simp: proper_rows_def row_keys_def)

lemma store_rows_linked:
  "proper_rows rows \<Longrightarrow> linked (store_rows options rows) \<and> nodes (store_rows options rows) = emitted_rows rows \<and>
     store_options (store_rows options rows) = options"
proof (induction rows rule: rev_induct)
  case Nil
  then show ?case by (simp add: store_rows_def store_clear_def linked_def emitted_rows_def)
next
  case (snoc r rows)
  obtain row parent where r: "r = (row, parent)" by (cases r)
  let ?st = "store_rows options rows"
  have IH: "linked ?st" "nodes ?st = emitted_rows rows" "store_options ?st = options"
    using snoc.IH proper_butlast [OF snoc.prems] by auto
  have key: "row_relKey row \<noteq> []" "parent = parentOf (row_relKey row)" "row_relKey row \<notin> set (row_keys rows)"
    using snoc.prems by (auto simp: proper_rows_def row_keys_def r)
  have step: "store_rows options (rows @ [r]) = insert_row (row_relKey row) row ?st"
    using key(2) by (simp add: store_rows_def r store_add_def insert_row_def)
  have "row_relKey row \<notin> dom (nodes ?st)" using key(3) by (simp add: IH(2) emitted_dom)
  moreover from this have "emitted_rows (rows @ [r]) = (emitted_rows rows)(row_relKey row \<mapsto> row)"
    unfolding IH(2) by (auto simp: emitted_rows_def r map_add_def fun_eq_iff split: option.split)
  ultimately show ?case using linked_insert [OF IH(1) _ key(1)] IH unfolding step by simp
qed

lemma sort_ready:
  assumes "ready E st"
  shows "ready E (sortChildren st)"
proof -
  have "sort ks = [] \<longleftrightarrow> ks = []" for ks :: "string list" by (metis length_0_conv length_sort)
  then have "linked (sortChildren st)"
    using assms unfolding ready_def linked_def sortChildren_def by (auto simp del: dom_def)
  then show ?thesis using assms by (auto simp: ready_def rows_of_def closed_store_def sortChildren_def)
qed

lemma fuel_enough: "ready E st \<Longrightarrow> k \<in> dom (nodes st) \<Longrightarrow> length k < fillFuel st"
proof -
  have "x \<in> set xs \<Longrightarrow> length x \<le> foldr max (map length xs) 0" for x :: string and xs by (induction xs) auto
  then show "ready E st \<Longrightarrow> k \<in> dom (nodes st) \<Longrightarrow> length k < fillFuel st"
    by (fastforce simp: fillFuel_def ready_def linked_def less_Suc_eq_le)
qed

lemma finalize_ready:
  assumes "proper_rows rows" and "E = emitted_rows rows"
  shows "\<exists>base. ready E base \<and> store_options base = options \<and> (\<forall>p ks. child_keys base p = Some ks \<longrightarrow> sorted ks) \<and>
    finalize (store_rows options rows) = Some ((filled E base UNIV)\<lparr>store_summary :=
      \<lparr>itemCount = weight_below E [], transferBytes = bytes_below E [],
       rootChildCount = of_nat (card {k \<in> dom (nodes base). parentOf k = []})\<rparr>\<rparr>)"
proof -
  let ?st = "store_rows options rows"
  have st: "linked ?st" "nodes ?st = E" "store_options ?st = options"
    using store_rows_linked [OF assms(1)] assms(2) by auto
  have "rows_of E ?st" by (simp add: rows_of_def st)
  from addAll_ok [OF st(1) this] st(2) have all: "linked (fold (\<lambda>key. addAncestors (parentOf key)) (key_order ?st) ?st)"
    "rows_of E (fold (\<lambda>key. addAncestors (parentOf key)) (key_order ?st) ?st)"
    "closed_store (fold (\<lambda>key. addAncestors (parentOf key)) (key_order ?st) ?st)"
    "store_options (fold (\<lambda>key. addAncestors (parentOf key)) (key_order ?st) ?st) = options"
    by (simp_all add: st(3) Let_def)
  define base where "base = sortChildren (fold (\<lambda>key. addAncestors (parentOf key)) (key_order ?st) ?st)"
  have flat: "\<not> row_isStructural n" if "E k = Some n" for k n
    using that assms by (auto simp: emitted_rows_def proper_rows_def dest!: map_of_SomeD)
  have "\<not> below k l" if "k \<in> dom E" "l \<in> dom E" for k l
  proof -
    have "k \<noteq> []" using that(1) assms by (auto simp: emitted_dom proper_rows_def row_keys_def)
    then show ?thesis using that assms below_ancestor by (auto simp: emitted_dom proper_rows_def)
  qed
  moreover have "finite (dom E)" by (simp add: assms(2) emitted_dom)
  ultimately have ready: "ready E base"
    unfolding base_def using all flat by (intro sort_ready) (auto simp: ready_def)
  have opts: "store_options base = options" using all(4) by (simp add: base_def sortChildren_def)
  have sorted: "sorted ks" if "child_keys base p = Some ks" for p ks
    using that by (auto simp: base_def sortChildren_def)
  have "filled E base {} = base" by (simp add: filled_def)
  moreover have "\<forall>k \<in> dom (nodes base). below [] k \<longrightarrow> length k < length [] + fillFuel base"
    using fuel_enough [OF ready] by simp
  ultimately have "fillStructural (fillFuel base) [] base = Some (filled E base ({} \<union> {k. below [] k}))"
    by (intro fill_works(1) [OF ready]) (auto simp: fillFuel_def)
  moreover have "filled E base ({} \<union> {k. below [] k}) = filled E base UNIV"
    using node_key [OF ready] by (intro filled_cong) (auto simp: below_def)
  ultimately have fill: "fillStructural (fillFuel base) [] base = Some (filled E base UNIV)" by simp
  have "sumRoots (filled E base UNIV) = Some \<lparr>itemCount = weight_below E [], transferBytes = bytes_below E [],
      rootChildCount = of_nat (card {k \<in> dom (nodes base). parentOf k = []})\<rparr>"
  proof (cases "child_keys base []")
    case None
    have "parentOf k \<noteq> []" if "k \<in> dom (nodes base)" for k
      using node_key [OF ready that] None by (intro notI) simp
    then have "{k \<in> dom (nodes base). parentOf k = []} = {}" by blast
    moreover have "{e \<in> dom E. below [] e} = {}"
      using no_children [OF ready None] emitted_nodes [OF ready] by blast
    ultimately show ?thesis
      using None by (simp only: sumRoots_def filled_fields option.case weight_below_def bytes_below_def empty_summary_def
          sum.empty card.empty) simp
  next
    case (Some ks)
    have "card (set ks) = length ks" using child_set [OF ready Some] distinct_card by blast
    moreover have "set ks = {k \<in> dom (nodes base). parentOf k = []}" using child_set [OF ready Some] by blast
    ultimately show ?thesis
      using children_totals [OF ready Some subset_UNIV] Some by (simp add: sumRoots_def)
  qed
  then have "finalize ?st = Some ((filled E base UNIV)\<lparr>store_summary :=
      \<lparr>itemCount = weight_below E [], transferBytes = bytes_below E [],
       rootChildCount = of_nat (card {k \<in> dom (nodes base). parentOf k = []})\<rparr>\<rparr>)"
    unfolding finalize_def Let_def base_def [symmetric] fill by simp
  with ready opts sorted show ?thesis by blast
qed

lemma closed_above:
  "ready E st \<Longrightarrow> k \<in> dom (nodes st) \<Longrightarrow> below a k \<Longrightarrow> a \<noteq> [] \<Longrightarrow> a \<in> dom (nodes st)"
proof (induction k rule: length_induct)
  case (1 k)
  then have "k \<noteq> []" and step: "parentOf k = a \<or> below a (parentOf k)" using below_step by blast+
  then have "parentOf k \<noteq> []" using 1(5) below_nonempty by blast
  then have "parentOf k \<in> dom (nodes st)" using 1(2,3) unfolding ready_def closed_store_def by blast
  moreover have "length (parentOf k) < length k" using parentOf_shorter \<open>k \<noteq> []\<close> .
  ultimately show ?case using 1(1,2,5) step by blast
qed

lemma emitted_get:
  assumes "proper_rows rows" and "(row, parent) \<in> set rows"
  shows "emitted_rows rows (row_relKey row) = Some row"
proof -
  have "map fst (map (\<lambda>(row, parent). (row_relKey row, row)) rows) = row_keys rows"
    unfolding row_keys_def by (simp add: split_def comp_def)
  moreover have "(row_relKey row, row) \<in> set (map (\<lambda>(row, parent). (row_relKey row, row)) rows)" using assms(2) by force
  ultimately show ?thesis using assms(1) unfolding emitted_rows_def proper_rows_def by simp
qed

lemma sum_rows:
  assumes "proper_rows rows"
  shows "(\<Sum>e \<in> {e \<in> dom (emitted_rows rows). P e}. f (the (emitted_rows rows e))) =
    (\<Sum>(row, parent) \<leftarrow> filter (\<lambda>(row, parent). P (row_relKey row)) rows. f row :: u64)"
proof -
  have distinct: "distinct (row_keys rows)" using assms by (simp add: proper_rows_def)
  have get: "the (emitted_rows rows (row_relKey row)) = row" if "(row, parent) \<in> set rows" for row parent
    using emitted_get [OF assms that] by simp
  have "{e \<in> dom (emitted_rows rows). P e} = set (filter P (row_keys rows))" by (auto simp: emitted_dom)
  then have "(\<Sum>e \<in> {e \<in> dom (emitted_rows rows). P e}. f (the (emitted_rows rows e))) =
      (\<Sum>e \<leftarrow> filter P (row_keys rows). f (the (emitted_rows rows e)))"
    using distinct by (simp add: sum_list_distinct_conv_sum_set)
  also have "filter P (row_keys rows) = map (\<lambda>(row, parent). row_relKey row) (filter (\<lambda>(row, parent). P (row_relKey row)) rows)"
    by (simp add: row_keys_def filter_map comp_def split_def)
  also have "(\<Sum>e \<leftarrow> \<dots>. f (the (emitted_rows rows e))) =
      (\<Sum>(row, parent) \<leftarrow> filter (\<lambda>(row, parent). P (row_relKey row)) rows. f row)"
    unfolding map_map by (intro arg_cong [of _ _ sum_list] map_cong refl) (auto simp: get)
  finally show ?thesis .
qed

definition rows_under :: "(DiffTreeNode \<times> string) list \<Rightarrow> string \<Rightarrow> DiffTreeNode list" where
  "rows_under rows key = map fst (filter (\<lambda>(row, parent). proper_ancestor key (row_relKey row)) rows)"

text \<open>The finished section of a list of rows.\<close>

definition finished_section :: "(DiffTreeNode \<times> string) list \<Rightarrow> DiffTreeStore \<Rightarrow> bool" where
  "finished_section rows st \<longleftrightarrow>
     (\<forall>(row, parent) \<in> set rows. store_find st (row_relKey row) = Some row) \<and>
     dom (nodes st) = set (row_keys rows) \<union> {a. a \<noteq> [] \<and> rows_under rows a \<noteq> []} \<and>
     (\<forall>a. a \<noteq> [] \<and> rows_under rows a \<noteq> [] \<longrightarrow>
        store_find st a = Some ((makeStructuralRow a)\<lparr>row_directChildCount := of_nat (card {k \<in> dom (nodes st). parentOf k = a}),
          row_descendantItemCount := (\<Sum>row \<leftarrow> rows_under rows a. itemWeight row),
          row_descendantByteTotal := (\<Sum>row \<leftarrow> rows_under rows a. row_descendantByteTotal row)\<rparr>)) \<and>
     (\<forall>p. child_keys st p = (if {k \<in> dom (nodes st). parentOf k = p} = {} then None
        else Some (sorted_list_of_set {k \<in> dom (nodes st). parentOf k = p}))) \<and>
     store_summary st = \<lparr>itemCount = (\<Sum>(row, parent) \<leftarrow> rows. itemWeight row),
       transferBytes = (\<Sum>(row, parent) \<leftarrow> rows. row_descendantByteTotal row),
       rootChildCount = of_nat (card {k \<in> dom (nodes st). parentOf k = []})\<rparr> \<and>
     distinct (key_order st) \<and> set (key_order st) = dom (nodes st)"

lemma finalize_section:
  assumes "proper_rows rows"
  shows "\<exists>st. finalize (store_rows options rows) = Some st \<and> store_options st = options \<and> finished_section rows st"
proof -
  define E where "E = emitted_rows rows"
  from finalize_ready [OF assms E_def, of options] obtain base where ready: "ready E base" and
    opts: "store_options base = options" and sorted: "\<And>p ks. child_keys base p = Some ks \<Longrightarrow> sorted ks" and
    fin: "finalize (store_rows options rows) = Some ((filled E base UNIV)\<lparr>store_summary :=
      \<lparr>itemCount = weight_below E [], transferBytes = bytes_below E [],
       rootChildCount = of_nat (card {k \<in> dom (nodes base). parentOf k = []})\<rparr>\<rparr>)" by blast
  define st where "st = (filled E base UNIV)\<lparr>store_summary :=
      \<lparr>itemCount = weight_below E [], transferBytes = bytes_below E [],
       rootChildCount = of_nat (card {k \<in> dom (nodes base). parentOf k = []})\<rparr>\<rparr>"
  have nodes: "nodes st k = map_option (finished_row E base k) (nodes base k)" for k by (simp add: st_def filled_def)
  then have dom: "dom (nodes st) = dom (nodes base)" by (auto simp: dom_def)
  have keys: "child_keys st = child_keys base" by (simp add: st_def)
  have domE: "dom E = set (row_keys rows)" by (simp add: E_def emitted_dom)
  have under: "rows_under rows a \<noteq> [] \<longleftrightarrow> (\<exists>e \<in> dom E. proper_ancestor a e)" for a
    unfolding domE by (force simp: rows_under_def row_keys_def filter_empty_conv)
  have "store_find st (row_relKey row) = Some row" if "(row, parent) \<in> set rows" for row parent
  proof -
    have "E (row_relKey row) = Some row" unfolding E_def by (rule emitted_get [OF assms that])
    moreover have "\<not> row_isStructural row" using assms that by (auto simp: proper_rows_def)
    ultimately show ?thesis
      using emitted_nodes [OF ready] nodes by (simp add: store_find_def finished_row_def)
  qed
  moreover have doms: "dom (nodes st) = set (row_keys rows) \<union> {a. a \<noteq> [] \<and> rows_under rows a \<noteq> []}"
  proof (intro equalityI subsetI)
    fix k assume "k \<in> dom (nodes st)"
    then have k: "k \<in> dom (nodes base)" "k \<noteq> []" using node_key [OF ready] by (auto simp: dom)
    then have "k \<in> dom E \<or> (\<exists>e \<in> dom E. below k e)" using ready unfolding ready_def rows_of_def by blast
    with k(2) show "k \<in> set (row_keys rows) \<union> {a. a \<noteq> [] \<and> rows_under rows a \<noteq> []}"
      by (auto simp: under domE [symmetric] below_ancestor)
  next
    fix k assume "k \<in> set (row_keys rows) \<union> {a. a \<noteq> [] \<and> rows_under rows a \<noteq> []}"
    then consider "k \<in> dom E" | e where "e \<in> dom E" "below k e" "k \<noteq> []"
      by (auto simp: under domE [symmetric] below_ancestor)
    then show "k \<in> dom (nodes st)"
    proof cases
      case (2 e)
      then have "e \<in> dom (nodes base)" using emitted_nodes [OF ready] by blast
      from closed_above [OF ready this 2(2,3)] show ?thesis by (simp add: dom)
    qed (use emitted_nodes [OF ready] in \<open>auto simp: dom\<close>)
  qed
  moreover have "store_find st a = Some ((makeStructuralRow a)\<lparr>row_directChildCount := of_nat (card {k \<in> dom (nodes st). parentOf k = a}),
      row_descendantItemCount := (\<Sum>row \<leftarrow> rows_under rows a. itemWeight row),
      row_descendantByteTotal := (\<Sum>row \<leftarrow> rows_under rows a. row_descendantByteTotal row)\<rparr>)"
    if a: "a \<noteq> []" "rows_under rows a \<noteq> []" for a
  proof -
    from a under obtain e where e: "e \<in> dom E" "proper_ancestor a e" by blast
    have "a \<in> dom (nodes base)" using a doms by (auto simp: dom)
    then obtain n where n: "nodes base a = Some n" by blast
    have "a \<notin> dom E" using e assms by (auto simp: domE proper_rows_def)
    then have n': "n = makeStructuralRow a" "child_keys base a \<noteq> None"
      using ready n unfolding ready_def rows_of_def by blast+
    then obtain ks where ks: "child_keys base a = Some ks" by blast
    have "card (set ks) = length ks" using child_set [OF ready ks] distinct_card by blast
    then have len: "length ks = card {k \<in> dom (nodes st). parentOf k = a}" using child_set [OF ready ks] by (simp add: dom)
    have "weight_below E a = (\<Sum>row \<leftarrow> rows_under rows a. itemWeight row)"
      "bytes_below E a = (\<Sum>row \<leftarrow> rows_under rows a. row_descendantByteTotal row)"
      using sum_rows [OF assms, where P = "below a"] below_ancestor [OF a(1)]
      by (simp_all add: weight_below_def bytes_below_def E_def rows_under_def comp_def split_def)
    then show ?thesis
      using nodes [of a] n n' ks len by (simp add: store_find_def finished_row_def makeStructuralRow_def)
  qed
  moreover have "child_keys st p = (if {k \<in> dom (nodes st). parentOf k = p} = {} then None
      else Some (sorted_list_of_set {k \<in> dom (nodes st). parentOf k = p}))" for p
  proof (cases "child_keys base p")
    case None
    have "parentOf k \<noteq> p" if "k \<in> dom (nodes base)" for k using node_key [OF ready that] None by (intro notI) simp
    then have "{k \<in> dom (nodes st). parentOf k = p} = {}" unfolding dom by blast
    with None keys show ?thesis by simp
  next
    case (Some ks)
    note ks = child_set [OF ready Some]
    then have set: "{k \<in> dom (nodes st). parentOf k = p} = set ks" unfolding dom by blast
    have "sorted_list_of_set (set ks) = ks" using sorted [OF Some] ks by (intro sorted_list_of_set.idem_if_sorted_distinct) blast+
    moreover have "ks \<noteq> []" using ks by blast
    moreover from this have "set ks \<noteq> {}" by simp
    ultimately show ?thesis using Some keys unfolding set by (simp only: if_False)
  qed
  moreover have "store_summary st = \<lparr>itemCount = (\<Sum>(row, parent) \<leftarrow> rows. itemWeight row),
      transferBytes = (\<Sum>(row, parent) \<leftarrow> rows. row_descendantByteTotal row),
      rootChildCount = of_nat (card {k \<in> dom (nodes st). parentOf k = []})\<rparr>"
  proof -
    have all: "filter (\<lambda>(row, parent). below [] (row_relKey row)) rows = rows"
      using assms by (auto simp: proper_rows_def below_def intro!: filter_True)
    show ?thesis
      using sum_rows [OF assms, where P = "below []", folded E_def, unfolded all]
      unfolding dom by (simp add: st_def weight_below_def bytes_below_def)
  qed
  moreover have "distinct (key_order st)" "set (key_order st) = dom (nodes st)"
    using ready unfolding dom by (simp_all add: st_def ready_def linked_def)
  moreover have "store_options st = options" by (simp add: st_def opts)
  ultimately show ?thesis using fin unfolding st_def [symmetric] finished_section_def by blast
qed

end
