(* ===== verification/Diff_Sections.thy ===== *)
theory Diff_Sections
  imports Store_Finalize
begin

text \<open>
  The diff and its stores together: the sink of \<open>sync/diff_tree_store.cpp\<close> fed by the merge walk of \<open>sync/diff.cpp\<close>. The
  walk reports every row once, under its own key, so the stores can be finalized; and what a plan lists.
\<close>

subsection \<open>The rows of a walk\<close>

fun named_tree :: "ScanNode \<Rightarrow> bool" where
  "named_tree (ScanNode f cs) \<longleftrightarrow>
     list_all (\<lambda>c. (availability (scan_fields c) = Listed \<longrightarrow> valid_segment (node_name c)) \<and> named_tree c) cs"

definition is_row :: "SinkEvent \<Rightarrow> bool" where
  "is_row e \<longleftrightarrow> (case e of OnBlocked _ _ \<Rightarrow> False | OnProgress _ \<Rightarrow> False | _ \<Rightarrow> True)"

fun event_row :: "SinkEvent \<Rightarrow> DiffTreeNode \<times> string" where
  "event_row (EmitUpload row parent) = (row, parent)"
| "event_row (EmitDownload row parent) = (row, parent)"
| "event_row (EmitDelete row parent) = (row, parent)"

definition row_at :: "SinkEvent \<Rightarrow> string list \<Rightarrow> bool" where
  "row_at e q \<longleftrightarrow> q \<noteq> [] \<and> valid_names q \<and> is_row e \<and> snd (event_row e) = join_slash (butlast q) \<and>
     row_relKey (fst (event_row e)) = join_slash q \<and> \<not> row_isStructural (fst (event_row e))"

definition apart :: "string list set \<Rightarrow> string list set \<Rightarrow> bool" where
  "apart P Q \<longleftrightarrow> (\<forall>p \<in> P. \<forall>q \<in> Q. \<not> prefix p q \<and> \<not> prefix q p)"

definition appended :: "Walk \<Rightarrow> Walk \<Rightarrow> string list set \<Rightarrow> bool" where
  "appended w w' P \<longleftrightarrow> (\<exists>es ps. trace w' = trace w @ es \<and> list_all2 row_at (filter is_row es) ps \<and> distinct ps \<and>
     set ps \<subseteq> P \<and> (\<forall>p \<in> set ps. \<forall>q \<in> set ps. prefix p q \<longrightarrow> p = q))"

lemma appended_trans:
  assumes "appended w w1 P" and "appended w1 w2 Q" and "apart P Q"
  shows "appended w w2 (P \<union> Q)"
proof -
  from assms(1) obtain es ps where 1: "trace w1 = trace w @ es" "list_all2 row_at (filter is_row es) ps" "distinct ps"
    "set ps \<subseteq> P" "\<forall>p \<in> set ps. \<forall>q \<in> set ps. prefix p q \<longrightarrow> p = q" by (auto simp: appended_def)
  from assms(2) obtain fs qs where 2: "trace w2 = trace w1 @ fs" "list_all2 row_at (filter is_row fs) qs" "distinct qs"
    "set qs \<subseteq> Q" "\<forall>p \<in> set qs. \<forall>q \<in> set qs. prefix p q \<longrightarrow> p = q" by (auto simp: appended_def)
  have far: "\<not> prefix p q \<and> \<not> prefix q p" if "p \<in> set ps" "q \<in> set qs" for p q
    using that 1(4) 2(4) assms(3) unfolding apart_def by blast
  then have "set ps \<inter> set qs = {}" by auto
  then have "distinct (ps @ qs)" using 1(3) 2(3) by simp
  moreover have "list_all2 row_at (filter is_row (es @ fs)) (ps @ qs)" using 1(2) 2(2) by (simp add: list_all2_appendI)
  moreover have "\<forall>p \<in> set (ps @ qs). \<forall>q \<in> set (ps @ qs). prefix p q \<longrightarrow> p = q" using 1(5) 2(5) far by auto
  moreover have "trace w2 = trace w @ es @ fs" using 1(1) 2(1) by simp
  moreover have "set (ps @ qs) \<subseteq> P \<union> Q" using 1(4) 2(4) by auto
  ultimately show ?thesis unfolding appended_def by blast
qed

lemma appended_mono: "appended w w' P \<Longrightarrow> P \<subseteq> Q \<Longrightarrow> appended w w' Q"
  unfolding appended_def by (meson order_trans)

lemma appended_none: "trace w' = trace w @ es \<Longrightarrow> filter is_row es = [] \<Longrightarrow> appended w w' P"
  unfolding appended_def by (intro exI [of _ es] exI [of _ "[]"]) simp

lemma appended_one: "trace w' = trace w @ [e] \<Longrightarrow> row_at e q \<Longrightarrow> q \<in> P \<Longrightarrow> appended w w' P"
  unfolding appended_def by (intro exI [of _ "[e]"] exI [of _ "[q]"]) (simp add: row_at_def)

lemma appended_same [simp]: "appended w w P"
  by (rule appended_none [of _ _ "[]"]) simp_all

definition paths_at :: "string list \<Rightarrow> string \<Rightarrow> string list set" where
  "paths_at p n = {p @ n # rest | rest. True}"

lemma paths_apart: "n \<noteq> m \<Longrightarrow> apart (paths_at p n) (paths_at p m)"
  by (auto simp: apart_def paths_at_def prefix_def)

lemma join_rel: "valid_names p \<Longrightarrow> joinRel (join_slash p) n = join_slash (p @ [n])"
  by (cases "p = []") (auto simp: joinRel_def join_slash_append join_slash_empty)

lemma bump_appended: "appended w (bumpAndCheckpoint w) P"
proof -
  have "\<exists>es. trace (bumpAndCheckpoint w) = trace w @ es \<and> filter is_row es = []"
    by (auto simp: bumpAndCheckpoint_def emit_def is_row_def Let_def)
  then show ?thesis using appended_none by blast
qed

lemma polled_appended: "appended (w\<lparr>polls := n\<rparr>) w' P = appended w w' P" "appended w (w\<lparr>polls := n\<rparr>) P"
  by (simp_all add: appended_def)

lemma blocked_appended: "appended w (emit (OnBlocked k b) w) P"
  by (rule appended_none [of _ _ "[OnBlocked k b]"]) (simp_all add: emit_def is_row_def)

text \<open>A listed entry emitted on its own.\<close>

lemma one_sided_appended:
  assumes "valid_names p" and "valid_segment n"
  shows "appended w (emitOneSided (makeOneSidedRow node (joinRel (join_slash p) n) action side) action (join_slash p) opts w) (paths_at p n)"
proof -
  let ?w = "emitOneSided (makeOneSidedRow node (joinRel (join_slash p) n) action side) action (join_slash p) opts w"
  have "\<exists>e. trace ?w = trace w @ [e] \<and> row_at e (p @ [n])"
    using assms by (cases action; auto simp: emitOneSided_def makeOneSidedRow_def emit_def row_at_def is_row_def join_rel Let_def)
  moreover have "p @ [n] \<in> paths_at p n" by (simp add: paths_at_def)
  ultimately show ?thesis using appended_one by blast
qed

lemma local_appended:
  assumes "valid_names p" and "availability (scan_fields lc) = Listed \<longrightarrow> valid_segment (node_name lc)"
  shows "appended w (handleLocalOnly opts conf lc (join_slash p) w) (paths_at p (node_name lc))"
  using assms blockReasonOf_None [of lc] one_sided_appended blocked_appended
  by (auto simp: handleLocalOnly_def split: option.split)

lemma remote_appended:
  assumes "valid_names p" and "availability (scan_fields rc) = Listed \<longrightarrow> valid_segment (node_name rc)"
  shows "appended w (handleRemoteOnly opts conf rc (join_slash p) w) (paths_at p (node_name rc))"
  using assms blockReasonOf_None [of rc] one_sided_appended blocked_appended
  by (auto simp: handleRemoteOnly_def split: option.split)

lemma two_sided_appended:
  assumes "valid_names p" and "valid_segment n"
  shows "appended w (emitTwoSided opts l r (joinRel (join_slash p) n) (join_slash p) w) (paths_at p n)"
proof -
  let ?w = "emitTwoSided opts l r (joinRel (join_slash p) n) (join_slash p) w"
  have "?w = w \<or> (\<exists>e. trace ?w = trace w @ [e] \<and> row_at e (p @ [n]))"
    using assms by (auto simp: emitTwoSided_def makeTwoSidedRow_def emit_def row_at_def is_row_def join_rel Let_def split: option.split)
  moreover have "p @ [n] \<in> paths_at p n" by (simp add: paths_at_def)
  ultimately show ?thesis using appended_one by (metis appended_same)
qed

definition names_of :: "ScanNode list \<Rightarrow> string set" where
  "names_of ns = node_name ` set ns"

definition paths_in :: "string list \<Rightarrow> string set \<Rightarrow> string list set" where
  "paths_in p N = (\<Union>n \<in> N. paths_at p n)"

lemma paths_in_apart: "n \<notin> N \<Longrightarrow> apart (paths_at i n) (paths_in i N)"
proof -
  assume n: "n \<notin> N"
  have "\<not> prefix p q \<and> \<not> prefix q p" if "p \<in> paths_at i n" "q \<in> paths_at i m" "m \<in> N" for p q m and i :: "string list"
  proof -
    have "n \<noteq> m" using that(3) n by auto
    from paths_apart [OF this, of i] that(1,2) show ?thesis unfolding apart_def by blast
  qed
  then show ?thesis unfolding apart_def paths_in_def by blast
qed

abbreviation named_children :: "ScanNode list \<Rightarrow> bool" where
  "named_children cs \<equiv> \<forall>c \<in> set cs. (availability (scan_fields c) = Listed \<longrightarrow> valid_segment (node_name c)) \<and> named_tree c"

lemma named_down: "named_tree n \<Longrightarrow> named_children (children n)"
  by (cases n) (simp add: list_all_iff)

text \<open>The names of a directory are taken once each, so the rows of different names lie apart.\<close>

lemma merge_appended:
  "parent = join_slash p \<Longrightarrow> valid_names p \<Longrightarrow> sorted_names ls \<Longrightarrow> sorted_names rs \<Longrightarrow> list_all sorted_tree ls \<Longrightarrow>
     list_all sorted_tree rs \<Longrightarrow> named_children ls \<Longrightarrow> named_children rs \<Longrightarrow>
     appended w (mergeChildren opts cancelled ls rs parent w) (paths_in p (names_of ls \<union> names_of rs))"
  "parent = join_slash p \<Longrightarrow> valid_names p \<Longrightarrow> sorted_names ls \<Longrightarrow> sorted_names rs \<Longrightarrow> list_all sorted_tree ls \<Longrightarrow>
     list_all sorted_tree rs \<Longrightarrow> named_children ls \<Longrightarrow> named_children rs \<Longrightarrow>
     appended w (mergeLoop opts cancelled conf ls rs parent w) (paths_in p (names_of ls \<union> names_of rs))"
  "parent = join_slash p \<Longrightarrow> valid_names p \<Longrightarrow> relKey = joinRel parent (node_name l) \<Longrightarrow> sorted_tree l \<Longrightarrow> sorted_tree r \<Longrightarrow>
     named_children [l, r] \<Longrightarrow>
     appended w (handleBothPresent opts cancelled l r relKey parent w) (paths_at p (node_name l))"
proof (induction opts cancelled ls rs parent w and opts cancelled conf ls rs parent w and opts cancelled l r relKey parent w
    arbitrary: p and p and p rule: mergeChildren_mergeLoop_handleBothPresent.induct)
  case (1 opts cancelled ls rs parent w)
  then show ?case by (simp add: mergeChildren.simps)
next
  case (3 opts cancelled l r relKey parent w)
  show ?case
  proof (cases "blockReasonOf l = None \<and> blockReasonOf r = None")
    case True
    then have n: "valid_segment (node_name l)" using 3(7) by (simp add: blockReasonOf_None)
    note key = 3(4) [unfolded 3(2) join_rel [OF 3(3)]]
    show ?thesis
    proof (cases "isPair l r Directory Symlink")
      case pair: True
      then show ?thesis using True blocked_appended by (simp add: handleBothPresent.simps)
    next
      case pair: False
      show ?thesis
      proof (cases "node_type l = Directory \<and> node_type r = Directory")
        case dirs: True
        have "appended w (mergeChildren opts cancelled (children l) (children r) relKey w) (paths_at p (node_name l))"
          if rec: "recursive opts"
        proof (rule appended_mono)
          show "appended w (mergeChildren opts cancelled (children l) (children r) relKey w)
              (paths_in (p @ [node_name l]) (names_of (children l) \<union> names_of (children r)))"
          proof (rule 3(1))
            show "(case blockReasonOf l of None \<Rightarrow> blockReasonOf r | Some b \<Rightarrow> Some b) = None" using True by simp
            show "named_children (children l)" "named_children (children r)"
              by (rule named_down, use 3(7) in simp)+
          qed (use pair dirs rec key 3(3) n sorted_children [OF 3(5)] sorted_children [OF 3(6)] in auto)
          show "paths_in (p @ [node_name l]) (names_of (children l) \<union> names_of (children r)) \<subseteq> paths_at p (node_name l)"
            by (auto simp: paths_in_def paths_at_def)
        qed
        then show ?thesis using True pair dirs by (simp add: handleBothPresent.simps)
      next
        case False
        then have "handleBothPresent opts cancelled l r relKey parent w = emitTwoSided opts l r relKey parent w"
          using True pair by (auto simp: handleBothPresent.simps)
        then show ?thesis using two_sided_appended [OF 3(3) n] 3(2,4) by simp
      qed
    qed
  next
    case False
    then obtain b where "(case blockReasonOf l of Some b \<Rightarrow> Some b | None \<Rightarrow> blockReasonOf r) = Some b"
      by (cases "blockReasonOf l") auto
    then show ?thesis using blocked_appended by (simp add: handleBothPresent.simps)
  qed
next
  case (2 opts cancelled conf ls rs parent w)
  let ?w = "w\<lparr>polls := polls w + 1\<rparr>"
  note step = mergeLoop.simps [of opts cancelled conf ls rs parent w]
  have chain: "appended w (mergeLoop opts cancelled conf ls' rs' parent (bumpAndCheckpoint w1)) (paths_in p (names_of ls \<union> names_of rs))"
    if one: "appended ?w w1 (paths_at p n)" and n: "n \<notin> names_of ls' \<union> names_of rs'"
      and all: "names_of ls \<union> names_of rs = insert n (names_of ls' \<union> names_of rs')"
      and rest: "appended (bumpAndCheckpoint w1) (mergeLoop opts cancelled conf ls' rs' parent (bumpAndCheckpoint w1))
        (paths_in p (names_of ls' \<union> names_of rs'))"
    for n w1 ls' rs'
  proof -
    have "apart (paths_at p n) {}" by (simp add: apart_def)
    then have "appended ?w (bumpAndCheckpoint w1) (paths_at p n \<union> {})" by (rule appended_trans [OF one bump_appended])
    then have "appended ?w (bumpAndCheckpoint w1) (paths_at p n)" by simp
    from appended_trans [OF this rest paths_in_apart [OF n]]
    show ?thesis unfolding all by (simp add: paths_in_def polled_appended)
  qed
  show ?case
  proof (cases "(ls = [] \<and> rs = []) \<or> cancelled (polls w)")
    case True
    then show ?thesis unfolding step by (auto simp: polled_appended)
  next
    case False
    then have go: "\<not> (ls = [] \<and> rs = [])" "\<not> cancelled (polls w)" by auto
    consider (both) l ls' r rs' where "ls = l # ls'" "rs = r # rs'" "node_name l = node_name r"
      | (left) l ls' where "ls = l # ls'" "rs = [] \<or> node_name l < node_name (hd rs)"
      | (right) r rs' where "rs = r # rs'" "ls = [] \<or> node_name r < node_name (hd ls)"
      using go(1) by (cases ls; cases rs) (auto, metis list.sel(1) linorder_less_linear)
    then show ?thesis
    proof cases
      case both
      let ?n = "node_name l"
      have hds: "hd ls = l" "tl ls = ls'" "hd rs = r" "tl rs = rs'" using both by simp_all
      define w1 where "w1 = (if hiddenFromWalk opts ?n then ?w
        else if ?n \<in> conf then emit (OnBlocked (joinRel parent ?n) BlockCaseConflict) ?w
        else handleBothPresent opts cancelled l r (joinRel parent ?n) parent ?w)"
      have eq: "mergeLoop opts cancelled conf ls rs parent w = mergeLoop opts cancelled conf ls' rs' parent (bumpAndCheckpoint w1)"
        unfolding step using go both by (simp add: w1_def)
      have "appended ?w w1 (paths_at p ?n)"
      proof (cases "hiddenFromWalk opts ?n \<or> ?n \<in> conf")
        case True
        then show ?thesis using blocked_appended by (auto simp: w1_def)
      next
        case False
        have "appended ?w (handleBothPresent opts cancelled l r (joinRel parent ?n) parent ?w) (paths_at p ?n)"
          using 2(1) [OF go refl] both False 2(5,6,9-12) by auto
        with False show ?thesis by (simp add: w1_def)
      qed
      moreover have "?n \<notin> names_of ls' \<union> names_of rs'" using 2(7,8) both by (auto simp: names_of_def)
      moreover have "names_of ls \<union> names_of rs = insert ?n (names_of ls' \<union> names_of rs')"
        using both by (auto simp: names_of_def)
      moreover have "appended (bumpAndCheckpoint w1) (mergeLoop opts cancelled conf ls' rs' parent (bumpAndCheckpoint w1))
          (paths_in p (names_of ls' \<union> names_of rs'))"
        by (rule 2(2) [OF go refl, unfolded hds, folded w1_def]) (use both 2(5-12) in simp_all)
      ultimately show ?thesis unfolding eq by (rule chain)
    next
      case left
      let ?n = "node_name l"
      let ?w1 = "handleLocalOnly opts conf l parent ?w"
      have ne: "\<not> (rs \<noteq> [] \<and> node_name l = node_name (hd rs))" using left(2) by auto
      have eq: "mergeLoop opts cancelled conf ls rs parent w = mergeLoop opts cancelled conf ls' rs parent (bumpAndCheckpoint ?w1)"
        unfolding step using go left ne by auto
      have "appended ?w ?w1 (paths_at p ?n)" using local_appended 2(5,6,11) left(1) by simp
      moreover have "node_name x \<noteq> ?n" if "x \<in> set rs" for x
        using that left(2) 2(8) by (cases rs) fastforce+
      then have "?n \<notin> names_of rs" unfolding names_of_def by (metis imageE)
      then have "?n \<notin> names_of ls' \<union> names_of rs" using 2(7) left(1) by (auto simp: names_of_def)
      moreover have "names_of ls \<union> names_of rs = insert ?n (names_of ls' \<union> names_of rs)"
        using left(1) by (auto simp: names_of_def)
      moreover have "appended (bumpAndCheckpoint ?w1) (mergeLoop opts cancelled conf ls' rs parent (bumpAndCheckpoint ?w1))
          (paths_in p (names_of ls' \<union> names_of rs))"
        using 2(3) [OF go refl] left ne 2(5-12) by auto
      ultimately show ?thesis unfolding eq by (rule chain)
    next
      case right
      let ?n = "node_name r"
      let ?w1 = "handleRemoteOnly opts conf r parent ?w"
      have ne: "\<not> (ls \<noteq> [] \<and> node_name (hd ls) = node_name r)" "\<not> (ls \<noteq> [] \<and> node_name (hd ls) < node_name r)"
        using right(2) by auto
      have eq: "mergeLoop opts cancelled conf ls rs parent w = mergeLoop opts cancelled conf ls rs' parent (bumpAndCheckpoint ?w1)"
        unfolding step using go right ne by auto
      have "appended ?w ?w1 (paths_at p ?n)" using remote_appended 2(5,6,12) right(1) by simp
      moreover have "node_name x \<noteq> ?n" if "x \<in> set ls" for x
        using that right(2) 2(7) by (cases ls) fastforce+
      then have "?n \<notin> names_of ls" unfolding names_of_def by (metis imageE)
      then have "?n \<notin> names_of ls \<union> names_of rs'" using 2(8) right(1) by (auto simp: names_of_def)
      moreover have "names_of ls \<union> names_of rs = insert ?n (names_of ls \<union> names_of rs')"
        using right(1) by (auto simp: names_of_def)
      moreover have "appended (bumpAndCheckpoint ?w1) (mergeLoop opts cancelled conf ls rs' parent (bumpAndCheckpoint ?w1))
          (paths_in p (names_of ls \<union> names_of rs'))"
        using 2(4) [OF go refl] right ne 2(5-12) by auto
      ultimately show ?thesis unfolding eq by (rule chain)
    qed
  qed
qed

subsection \<open>The sections of a diff\<close>

definition upload_rows :: "SinkEvent list \<Rightarrow> (DiffTreeNode \<times> string) list" where
  "upload_rows es = map event_row (filter (\<lambda>e. case e of EmitUpload _ _ \<Rightarrow> True | _ \<Rightarrow> False) es)"

definition download_rows :: "SinkEvent list \<Rightarrow> (DiffTreeNode \<times> string) list" where
  "download_rows es = map event_row (filter (\<lambda>e. case e of EmitDownload _ _ \<Rightarrow> True | _ \<Rightarrow> False) es)"

definition delete_rows :: "SinkEvent list \<Rightarrow> (DiffTreeNode \<times> string) list" where
  "delete_rows es = map event_row (filter (\<lambda>e. case e of EmitDelete _ _ \<Rightarrow> True | _ \<Rightarrow> False) es)"

definition blocked_entries :: "SinkEvent list \<Rightarrow> BlockedEntry list" where
  "blocked_entries es = concat (map (\<lambda>e. case e of OnBlocked k b \<Rightarrow> [\<lparr>blocked_relKey = k, blocked_reason = b\<rparr>] | _ \<Rightarrow> []) es)"

text \<open>The sink filled by a list of events.\<close>

definition fed_sink :: "DiffOptions \<Rightarrow> SinkEvent list \<Rightarrow> StoreDiffSink" where
  "fed_sink options es = fold sink_event es (new_sink (store_clear options) (store_clear options) (store_clear options))"

lemma fed_stores:
  "uploads (fed_sink options es) = store_rows options (upload_rows es)"
  "downloads (fed_sink options es) = store_rows options (download_rows es)"
  "deletes (fed_sink options es) = store_rows options (delete_rows es)"
proof (induction es rule: rev_induct)
  case (snoc e es)
  {
    case 1
    then show ?case using snoc by (cases e) (simp_all add: fed_sink_def store_rows_def upload_rows_def)
  next
    case 2
    then show ?case using snoc by (cases e) (simp_all add: fed_sink_def store_rows_def download_rows_def)
  next
    case 3
    then show ?case using snoc by (cases e) (simp_all add: fed_sink_def store_rows_def delete_rows_def)
  }
qed (simp_all add: fed_sink_def new_sink_def store_rows_def upload_rows_def download_rows_def delete_rows_def)

lemma fed_blocked:
  "blockedCount (fed_sink options es) = of_nat (length (blocked_entries es)) \<and>
   blockedSamples (fed_sink options es) = take maxBlockedSamples (blocked_entries es)"
proof (induction es rule: rev_induct)
  case (snoc e es)
  then show ?case by (cases e) (auto simp: fed_sink_def blocked_entries_def)
qed (simp add: fed_sink_def new_sink_def blocked_entries_def)

lemma rev_exclude: "join_slash ps = join_slash qs \<Longrightarrow> valid_names ps \<Longrightarrow> valid_names qs \<Longrightarrow> ps = qs"
  by (metis splitAtSlashes_join)

lemma parentOf_join: "valid_names q \<Longrightarrow> q \<noteq> [] \<Longrightarrow> parentOf (join_slash q) = join_slash (butlast q)"
  using rfind_join [of q] join_butlast [of q] by (cases "butlast q = []") (auto simp: parentOf_def)

lemma ancestor_prefix:
  assumes "valid_names p" and "valid_names q" and "p \<noteq> []" and "q \<noteq> []" and "proper_ancestor (join_slash p) (join_slash q)"
  shows "prefix p q"
proof -
  have "prefix (split_slash (join_slash p)) (split_slash (join_slash q))"
    using assms(5) by (intro within_prefix [THEN iffD1]) (auto simp: proper_ancestor_def)
  then show ?thesis using assms by (simp add: split_join valid_segment_slash)
qed

lemma ancestor_irrefl: "\<not> proper_ancestor k k"
  using ancestor_length by blast

lemma rows_proper:
  assumes "list_all2 row_at es ps" and "distinct ps" and "\<forall>p \<in> set ps. \<forall>q \<in> set ps. prefix p q \<longrightarrow> p = q"
  shows "proper_rows (map event_row es)"
proof -
  have keys: "row_keys (map event_row es) = map join_slash ps"
    using assms(1) unfolding row_keys_def by (induction es ps rule: list_all2_induct) (auto simp: row_at_def split_def)
  have valid: "valid_names q \<and> q \<noteq> []" if "q \<in> set ps" for q
    using assms(1) that by (induction es ps rule: list_all2_induct) (auto simp: row_at_def)
  have "inj_on join_slash (set ps)" using valid rev_exclude by (intro inj_onI) blast
  then have "distinct (row_keys (map event_row es))" using assms(2) unfolding keys by (simp add: distinct_map)
  moreover have "row_relKey row \<noteq> [] \<and> parent = parentOf (row_relKey row) \<and> \<not> row_isStructural row"
    if "(row, parent) \<in> set (map event_row es)" for row parent
  proof -
    from that obtain e where e: "e \<in> set es" "event_row e = (row, parent)" by auto
    then obtain q where q: "row_at e q"
      using assms(1) by (metis in_set_conv_nth list_all2_nthD)
    then have "valid_names q" "q \<noteq> []" by (simp_all add: row_at_def)
    then have "join_slash q \<noteq> []" "parentOf (join_slash q) = join_slash (butlast q)"
      by (auto simp: join_slash_empty parentOf_join)
    with q e(2) show ?thesis by (simp add: row_at_def)
  qed
  moreover have "\<not> proper_ancestor k l" if "k \<in> set (row_keys (map event_row es))" "l \<in> set (row_keys (map event_row es))" for k l
  proof
    assume anc: "proper_ancestor k l"
    from that obtain p q where pq: "p \<in> set ps" "q \<in> set ps" "k = join_slash p" "l = join_slash q" unfolding keys by auto
    with anc valid ancestor_prefix have "prefix p q" by blast
    with assms(3) pq anc ancestor_irrefl show False by blast
  qed
  ultimately show ?thesis unfolding proper_rows_def by blast
qed

lemma sub_rows:
  assumes "list_all2 row_at es ps" and "distinct ps" and "\<forall>p \<in> set ps. \<forall>q \<in> set ps. prefix p q \<longrightarrow> p = q"
  shows "proper_rows (map event_row (filter P es))"
proof -
  have "\<exists>qs. list_all2 row_at (filter P es) qs \<and> subseq qs ps"
    using assms(1)
  proof (induction es ps rule: list_all2_induct)
    case (Cons e es p ps)
    then obtain qs where qs: "list_all2 row_at (filter P es) qs" "subseq qs ps" by blast
    show ?case
    proof (cases "P e")
      case True
      then show ?thesis using qs Cons(1) by (intro exI [of _ "p # qs"]) simp
    next
      case False
      then show ?thesis using qs by (intro exI [of _ qs]) (auto intro: list_emb_Cons)
    qed
  qed simp
  then obtain qs where qs: "list_all2 row_at (filter P es) qs" "subseq qs ps" by blast
  have "set qs \<subseteq> set ps" 
  proof
    fix x assume "x \<in> set qs"
    from list_emb_set [OF qs(2) this] show "x \<in> set ps" by auto
  qed
  moreover have "distinct qs" using qs(2) assms(2) by (intro subseqs_distinctD [of qs ps]) simp_all
  ultimately show ?thesis using assms(3) by (intro rows_proper [OF qs(1)]) blast+
qed

lemma diff_rows_proper:
  assumes "sorted_tree L" and "sorted_tree R" and "named_tree L" and "named_tree R"
  shows "proper_rows (upload_rows (trace (diffScanTrees L R opts cancelled)))"
    and "proper_rows (download_rows (trace (diffScanTrees L R opts cancelled)))"
    and "proper_rows (delete_rows (trace (diffScanTrees L R opts cancelled)))"
proof -
  let ?w = "\<lparr>compared = 0, polls = 0, trace = []\<rparr>"
  let ?es = "trace (diffScanTrees L R opts cancelled)"
  have "appended ?w (mergeChildren opts cancelled (children L) (children R) [] ?w) (paths_in [] (names_of (children L) \<union> names_of (children R)))"
    using sorted_children [OF assms(1)] sorted_children [OF assms(2)] named_down [OF assms(3)] named_down [OF assms(4)]
    by (intro merge_appended(1)) auto
  then obtain es ps where es: "trace (mergeChildren opts cancelled (children L) (children R) [] ?w) = es"
    "list_all2 row_at (filter is_row es) ps" "distinct ps" "\<forall>p \<in> set ps. \<forall>q \<in> set ps. prefix p q \<longrightarrow> p = q"
    by (auto simp: appended_def)
  have all: "filter is_row ?es = filter is_row es"
    using es(1) by (auto simp: diffScanTrees_def emit_def is_row_def Let_def)
  have pick: "filter P ?es = filter P (filter is_row es)" if "\<And>e. P e \<Longrightarrow> is_row e" for P
  proof -
    have "filter P ?es = filter P (filter is_row ?es)" using that by (auto simp: filter_filter intro!: filter_cong)
    then show ?thesis unfolding all .
  qed
  show "proper_rows (upload_rows ?es)" "proper_rows (download_rows ?es)" "proper_rows (delete_rows ?es)"
    unfolding upload_rows_def download_rows_def delete_rows_def
    by (subst pick, simp add: is_row_def split: SinkEvent.splits, rule sub_rows [OF es(2-4)])+
qed

subsection \<open>Properties\<close>

text \<open>C15: a diff of two scan trees fills three stores that can each be finalized, whenever the walk was cancelled: no lookup
  fails and the recursion ends. Each finished section holds exactly the rows the walk reported for it and a structural row
  for every directory above one, child lists in the order of the names, and totals that are the sums over the reported
  rows below a row, and over all of them in the summary. The sink counts every blocked entry and keeps the first 10000.\<close>

theorem sections_of_diff:
  assumes "sorted_tree L" and "sorted_tree R" and "named_tree L" and "named_tree R"
    and "es = trace (diffScanTrees L R opts cancelled)"
  shows "(\<exists>u d x. finalize (uploads (fed_sink opts es)) = Some u \<and> finished_section (upload_rows es) u \<and>
      finalize (downloads (fed_sink opts es)) = Some d \<and> finished_section (download_rows es) d \<and>
      finalize (deletes (fed_sink opts es)) = Some x \<and> finished_section (delete_rows es) x) \<and>
    blockedCount (fed_sink opts es) = of_nat (length (blocked_entries es)) \<and>
    blockedSamples (fed_sink opts es) = take 10000 (blocked_entries es)"
  using finalize_section [OF diff_rows_proper(1) [OF assms(1-4)], of opts opts cancelled]
    finalize_section [OF diff_rows_proper(2) [OF assms(1-4)], of opts opts cancelled]
    finalize_section [OF diff_rows_proper(3) [OF assms(1-4)], of opts opts cancelled]
  unfolding fed_stores assms(5) using fed_blocked [unfolded maxBlockedSamples_def] by blast

lemma sample_named: "named_tree sample_left" "named_tree sample_right"
  by (simp_all add: sample_left_def sample_right_def sample_leaf_def valid_segment_iff string_simps)

theorem sections_of_diff_witness:
  "\<exists>u. finalize (uploads (fed_sink sample_options (trace (diffScanTrees sample_left sample_right sample_options (\<lambda>_. False))))) = Some u \<and>
     itemCount (store_summary u) = 1"
proof -
  from sections_of_diff [OF sample_sides(1,2) sample_named refl, of sample_options "\<lambda>_. False"]
  obtain u where u: "finalize (uploads (fed_sink sample_options (trace (diffScanTrees sample_left sample_right sample_options (\<lambda>_. False))))) = Some u"
    "finished_section (upload_rows (trace (diffScanTrees sample_left sample_right sample_options (\<lambda>_. False)))) u" by blast
  have "itemCount (store_summary u) = 1"
    using u(2) unfolding sample_diff finished_section_def
    by (simp add: upload_rows_def makeOneSidedRow_def itemWeight_def sample_leaf_def Let_def)
  with u(1) show ?thesis by blast
qed

end
