(* ===== verification/Diff_Plans.thy ===== *)
theory Diff_Plans
  imports Diff_Sections
begin

text \<open>
  What the plans of \<open>sync/diff_tree_store.cpp\<close> list: the entries of a transfer and of a delete against the scan tree, and the
  plan of a selection against what its rows stand for by their action.
\<close>

subsection \<open>Reaching entries below a directory\<close>

text \<open>The entry the names lead to when every step takes an entry that passes the test among its siblings, through directories
  only.\<close>

fun reached :: "(ScanNode list \<Rightarrow> ScanNode \<Rightarrow> bool) \<Rightarrow> ScanNode \<Rightarrow> string list \<Rightarrow> ScanNode option" where
  "reached test n [] = Some n"
| "reached test n (x # xs) =
     (case find (\<lambda>c. node_name c = x) (children n) of
        None \<Rightarrow> None
      | Some c \<Rightarrow> if test (children n) c \<and> (xs = [] \<or> node_type c = Directory) then reached test c xs else None)"

lemma find_name:
  assumes "sorted_names cs"
  shows "find (\<lambda>c. node_name c = x) cs = Some c \<longleftrightarrow> c \<in> set cs \<and> node_name c = x"
  using assms
proof (induction cs)
  case (Cons d ds)
  then show ?case by auto
qed simp

text \<open>What is reached is the directory itself, or one of its children that pass, or below one that is a directory.\<close>

definition reached_set :: "(ScanNode list \<Rightarrow> ScanNode \<Rightarrow> bool) \<Rightarrow> ScanNode \<Rightarrow> string \<Rightarrow> (string \<times> ScanNode) set" where
  "reached_set test n key = {(foldl joinRelKey key path, m) | path m. reached test n path = Some m}"

lemma reached_children:
  assumes "sorted_names (children n)"
  shows "reached_set test n key = insert (key, n)
     (\<Union>c \<in> {c \<in> set (children n). test (children n) c}.
        if node_type c = Directory then reached_set test c (joinRelKey key (node_name c)) else {(joinRelKey key (node_name c), c)})"
    (is "_ = insert _ ?below")
proof (intro set_eqI iffI)
  fix e assume "e \<in> reached_set test n key"
  then obtain path m where e: "e = (foldl joinRelKey key path, m)" "reached test n path = Some m" by (auto simp: reached_set_def)
  show "e \<in> insert (key, n) ?below"
  proof (cases path)
    case Nil
    with e show ?thesis by simp
  next
    case (Cons x xs)
    with e(2) obtain c where c: "find (\<lambda>c. node_name c = x) (children n) = Some c" "test (children n) c"
      "xs = [] \<or> node_type c = Directory" "reached test c xs = Some m" by (auto split: option.splits if_splits)
    then have "c \<in> set (children n)" "node_name c = x" using find_name [OF assms] by blast+
    moreover have "e \<in> (if node_type c = Directory then reached_set test c (joinRelKey key (node_name c))
        else {(joinRelKey key (node_name c), c)})"
      using c e(1) Cons \<open>node_name c = x\<close> by (auto simp: reached_set_def)
    ultimately show ?thesis using c(2) by blast
  qed
next
  fix e assume "e \<in> insert (key, n) ?below"
  then consider "e = (key, n)" | c where "c \<in> set (children n)" "test (children n) c"
    "e \<in> (if node_type c = Directory then reached_set test c (joinRelKey key (node_name c)) else {(joinRelKey key (node_name c), c)})"
    by auto
  then show "e \<in> reached_set test n key"
  proof cases
    case 1
    then show ?thesis unfolding reached_set_def by (intro CollectI exI [of _ "[]"] exI [of _ n]) simp
  next
    case (2 c)
    have find: "find (\<lambda>d. node_name d = node_name c) (children n) = Some c" using find_name [OF assms] 2(1) by blast
    from 2(3) obtain xs m where xs: "e = (foldl joinRelKey (joinRelKey key (node_name c)) xs, m)" "reached test c xs = Some m"
      "xs = [] \<or> node_type c = Directory"
      by (cases "node_type c = Directory") (auto simp: reached_set_def intro: exI [of _ "[]"])
    show ?thesis unfolding reached_set_def using xs find 2(2)
      by (intro CollectI exI [of _ "node_name c # xs"] exI [of _ m]) simp
  qed
qed

definition child_reach :: "(ScanNode list \<Rightarrow> ScanNode \<Rightarrow> bool) \<Rightarrow> ScanNode list \<Rightarrow> string \<Rightarrow> ScanNode \<Rightarrow> (string \<times> ScanNode) set" where
  "child_reach test cs key c = (if test cs c then
      (if node_type c = Directory then reached_set test c (joinRelKey key (node_name c))
       else {(joinRelKey key (node_name c), c)}) else {})"

lemma reached_split:
  assumes "sorted_names cs"
  shows "reached_set test (ScanNode f cs) key = insert (key, ScanNode f cs) (\<Union>c \<in> set cs. child_reach test cs key c)"
proof -
  have "sorted_names (children (ScanNode f cs))" using assms by simp
  from reached_children [OF this, of test key]
  show ?thesis unfolding child_reach_def by (auto split: if_splits)
qed

lemma delete_plan_set:
  "sorted_tree n \<Longrightarrow> node_type n = Directory \<Longrightarrow>
     set (appendDeletePlan options n key action) =
       (\<lambda>(k, m). planEntry action m k) ` reached_set (\<lambda>_ c. isPlannable c options) n key"
proof (induction options n key action rule: appendDeletePlan.induct)
  case (1 options f cs key action)
  let ?test = "\<lambda>(_ :: ScanNode list) c. isPlannable c options"
  define child where "child = (\<lambda>c. if isPlannable c options then
        (let childKey = joinRelKey key (node_name c) in
         if node_type c = Directory then appendDeletePlan options c childKey action
         else [\<lparr>plan_relKey = childKey, plan_action = action, plan_sizeBytes = node_size c,
                plan_mtime = node_mtime c, plan_mtimeNsec = scan_mtimeNsec (scan_fields c), plan_isDirectory = False\<rparr>]) else [])"
  have sorted: "sorted_names cs" using 1(2) by simp
  have one: "set (child c) = (\<lambda>(k, m). planEntry action m k) ` child_reach ?test cs key c" if "c \<in> set cs" for c
    using 1(1) [OF that _ refl] 1(2) that by (auto simp: child_def child_reach_def Let_def planEntry_def list_all_iff)
  have "appendDeletePlan options (ScanNode f cs) key action = planEntry action (ScanNode f cs) key # concat (map child cs)"
    using 1(3) by (simp add: child_def planEntry_def)
  then have "set (appendDeletePlan options (ScanNode f cs) key action) =
      insert (planEntry action (ScanNode f cs) key) (\<Union>c \<in> set cs. set (child c))" by simp
  also have "(\<Union>c \<in> set cs. set (child c)) = (\<Union>c \<in> set cs. (\<lambda>(k, m). planEntry action m k) ` child_reach ?test cs key c)"
    using one by (intro SUP_cong refl)
  finally show ?case unfolding reached_split [OF sorted] by (simp add: image_UN)
qed

lemma transfer_plan_set:
  "sorted_tree n \<Longrightarrow> node_type n = Directory \<Longrightarrow>
     set (appendSubtreePlan options n key action) =
       (\<lambda>(k, m). planEntry action m k) `
         {(k, m) \<in> reached_set (isTransferred options action) n key.
            node_type m \<noteq> Directory \<or> \<not> list_ex (isTransferred options action (children m)) (children m)}"
proof (induction options n key action rule: appendSubtreePlan.induct)
  case (1 options f cs key action)
  let ?test = "isTransferred options action"
  let ?plan = "\<lambda>(k :: string, m). planEntry action m k"
  define leaf where "leaf = (\<lambda>(k :: string, m). node_type m \<noteq> Directory \<or> \<not> list_ex (?test (children m)) (children m))"
  define child where "child = (\<lambda>c. if ?test cs c then
        (let childKey = joinRelKey key (node_name c) in
         if node_type c = Directory then appendSubtreePlan options c childKey action
         else [planEntry action c childKey]) else [])"
  have sorted: "sorted_names cs" using 1(2) by simp
  have IH: "set (appendSubtreePlan options c (joinRelKey key (node_name c)) action) =
      ?plan ` {km \<in> reached_set ?test c (joinRelKey key (node_name c)). leaf km}"
    if "c \<in> set cs" "list_ex (?test cs) cs" "?test cs c" "node_type c = Directory" for c
    using 1(1) [OF that(2,1,3) refl that(4)] 1(2) that(1,4) by (simp add: list_all_iff leaf_def case_prod_beta')
  have one: "set (child c) = ?plan ` {km \<in> child_reach ?test cs key c. leaf km}"
    if "c \<in> set cs" "list_ex (?test cs) cs" for c
  proof (cases "?test cs c \<and> node_type c = Directory")
    case True
    with IH [OF that] show ?thesis by (simp add: child_def child_reach_def Let_def)
  next
    case False
    have "{km. km = (joinRelKey key (node_name c), c) \<and> leaf km} = {(joinRelKey key (node_name c), c)}"
      if "node_type c \<noteq> Directory" using that by (auto simp: leaf_def)
    with False show ?thesis by (auto simp: child_def child_reach_def Let_def)
  qed
  have all: "{km \<in> reached_set ?test (ScanNode f cs) key. leaf km} =
      (if leaf (key, ScanNode f cs) then {(key, ScanNode f cs)} else {}) \<union> (\<Union>c \<in> set cs. {km \<in> child_reach ?test cs key c. leaf km})"
    unfolding reached_split [OF sorted] by auto
  have root: "leaf (key, ScanNode f cs) \<longleftrightarrow> \<not> list_ex (?test cs) cs" using 1(3) by (simp add: leaf_def)
  have "set (appendSubtreePlan options (ScanNode f cs) key action) =
      ?plan ` {km \<in> reached_set ?test (ScanNode f cs) key. leaf km}"
  proof (cases "list_ex (?test cs) cs")
    case True
    then have "appendSubtreePlan options (ScanNode f cs) key action = concat (map child cs)"
      by (simp add: child_def)
    then have "set (appendSubtreePlan options (ScanNode f cs) key action) = (\<Union>c \<in> set cs. set (child c))" by simp
    also have "\<dots> = (\<Union>c \<in> set cs. ?plan ` {km \<in> child_reach ?test cs key c. leaf km})"
      using one True by (intro SUP_cong refl)
    finally show ?thesis using True unfolding all root by (simp add: image_UN)
  next
    case False
    then have "child_reach ?test cs key c = {}" if "c \<in> set cs" for c
      using that by (auto simp: list_ex_iff child_reach_def)
    then have none: "(\<Union>c \<in> set cs. {km \<in> child_reach ?test cs key c. leaf km}) = {}" by blast
    from False show ?thesis unfolding all root none by simp
  qed
  then show ?case by (simp add: leaf_def case_prod_beta')
qed

subsection \<open>The order of a delete\<close>

lemma join_key: "k \<noteq> [] \<Longrightarrow> joinRelKey k n = k @ slash # n"
  by (simp add: joinRelKey_def)

definition at_or_below :: "string \<Rightarrow> string \<Rightarrow> bool" where
  "at_or_below k l \<longleftrightarrow> l = k \<or> proper_ancestor k l"

lemma at_or_below_self: "at_or_below k k"
  by (simp add: at_or_below_def)

lemma at_or_below_join: "k \<noteq> [] \<Longrightarrow> at_or_below (joinRelKey k n) l \<Longrightarrow> proper_ancestor k l"
  by (auto simp: at_or_below_def join_key proper_ancestor_def)

lemma folded_below: "k \<noteq> [] \<Longrightarrow> at_or_below k (foldl joinRelKey k path)"
proof (induction path rule: rev_induct)
  case (snoc x path)
  then have "foldl joinRelKey k path \<noteq> []" by (auto simp: at_or_below_def proper_ancestor_def)
  with snoc show ?case by (auto simp: join_key at_or_below_def proper_ancestor_def)
qed (simp add: at_or_below_def)

lemma delete_keys: "key \<noteq> [] \<Longrightarrow> e \<in> set (appendDeletePlan options n key action) \<Longrightarrow> at_or_below key (plan_relKey e)"
proof (induction options n key action arbitrary: e rule: appendDeletePlan.induct)
  case (1 options f cs key action)
  from 1(3) consider "plan_relKey e = key"
    | c where "c \<in> set cs" "isPlannable c options" "node_type c = Directory"
        "e \<in> set (appendDeletePlan options c (joinRelKey key (node_name c)) action)"
    | c where "c \<in> set cs" "plan_relKey e = joinRelKey key (node_name c)"
    by (auto simp: Let_def split: if_splits)
  then show ?case
  proof cases
    case (2 c)
    have "joinRelKey key (node_name c) \<noteq> []" using 1(2) by (simp add: join_key)
    from 1(1) [OF 2(1,2) refl 2(3) this 2(4)] have "at_or_below (joinRelKey key (node_name c)) (plan_relKey e)" .
    from at_or_below_join [OF 1(2) this] show ?thesis by (simp add: at_or_below_def)
  next
    case (3 c)
    then show ?thesis using 1(2) by (auto simp: at_or_below_def join_key proper_ancestor_def)
  qed (simp add: at_or_below_def)
qed

lemma siblings_unrelated:
  assumes "key \<noteq> []" and "slash \<notin> set c" and "slash \<notin> set d" and "c \<noteq> d"
    and "at_or_below (joinRelKey key c) k" and "at_or_below (joinRelKey key d) l"
  shows "\<not> proper_ancestor l k"
proof
  assume "proper_ancestor l k"
  moreover have "prefix (split_slash (joinRelKey key d)) (split_slash l)"
    using assms(6) unfolding at_or_below_def proper_ancestor_def by (intro within_prefix [THEN iffD1]) auto
  moreover have "prefix (split_slash (joinRelKey key c)) (split_slash k)"
    using assms(5) unfolding at_or_below_def proper_ancestor_def by (intro within_prefix [THEN iffD1]) auto
  moreover have "prefix (split_slash l) (split_slash k)" if "proper_ancestor l k"
    using that by (intro within_prefix [THEN iffD1]) (auto simp: proper_ancestor_def)
  ultimately have "prefix (split_slash key @ [d]) (split_slash k)" "prefix (split_slash key @ [c]) (split_slash k)"
    using assms(1-3) by (auto simp: join_key split_slash_append split_slash_single intro: prefix_order.trans)
  with assms(4) show False by (auto simp: prefix_def)
qed

definition delete_before :: "EnqueuePlanEntry \<Rightarrow> EnqueuePlanEntry \<Rightarrow> bool" where
  "delete_before a b \<longleftrightarrow> \<not> proper_ancestor (plan_relKey b) (plan_relKey a)"

lemma sorted_wrt_concat:
  assumes "\<And>xs. xs \<in> set xss \<Longrightarrow> sorted_wrt P xs"
    and "sorted_wrt (\<lambda>xs ys. \<forall>x \<in> set xs. \<forall>y \<in> set ys. P x y) xss"
  shows "sorted_wrt P (concat xss)"
  using assms by (induction xss) (auto simp: sorted_wrt_append)

lemma delete_order:
  "sorted_tree n \<Longrightarrow> named_tree n \<Longrightarrow> key \<noteq> [] \<Longrightarrow> sorted_wrt delete_before (appendDeletePlan options n key action)"
proof (induction options n key action rule: appendDeletePlan.induct)
  case (1 options f cs key action)
  define child where "child = (\<lambda>c. if isPlannable c options then
        (let childKey = joinRelKey key (node_name c) in
         if node_type c = Directory then appendDeletePlan options c childKey action
         else [\<lparr>plan_relKey = childKey, plan_action = action, plan_sizeBytes = node_size c,
                plan_mtime = node_mtime c, plan_mtimeNsec = scan_mtimeNsec (scan_fields c), plan_isDirectory = False\<rparr>]) else [])"
  define top where "top = \<lparr>plan_relKey = key, plan_action = action, plan_sizeBytes = 0, plan_mtime = scan_mtime f,
      plan_mtimeNsec = scan_mtimeNsec f, plan_isDirectory = True\<rparr>"
  have plan: "appendDeletePlan options (ScanNode f cs) key action = top # concat (map child cs)"
    by (simp add: top_def child_def)
  have key: "joinRelKey key (node_name c) \<noteq> []" for c using 1(4) by (simp add: join_key)
  have named: "availability (scan_fields c) = Listed \<longrightarrow> valid_segment (node_name c)" "named_tree c" if "c \<in> set cs" for c
    using 1(3) that by (simp_all add: list_all_iff)
  have inner: "sorted_wrt delete_before (child c)" if "c \<in> set cs" for c
    using 1(1) [OF that _ refl _ _ named(2) [OF that] key] 1(2) that
    by (auto simp: child_def Let_def list_all_iff)
  have keys: "at_or_below (joinRelKey key (node_name c)) (plan_relKey e) \<and> slash \<notin> set (node_name c)"
    if "c \<in> set cs" "e \<in> set (child c)" for c e
  proof -
    have "isPlannable c options" using that(2) by (auto simp: child_def split: if_splits)
    then have "slash \<notin> set (node_name c)" using named(1) [OF that(1)] by (simp add: isPlannable_def valid_segment_slash)
    moreover have "at_or_below (joinRelKey key (node_name c)) (plan_relKey e)"
      using that(2) delete_keys [OF key] at_or_below_self by (auto simp: child_def Let_def split: if_splits)
    ultimately show ?thesis by simp
  qed
  have cross: "sorted_wrt (\<lambda>c d. \<forall>x \<in> set (child c). \<forall>y \<in> set (child d). delete_before x y) cs"
  proof (rule sorted_wrt_mono_rel [where P = "\<lambda>c d. node_name c < node_name d"])
    show "sorted_wrt (\<lambda>c d. node_name c < node_name d) cs" using 1(2) by (simp add: sorted_wrt_map)
    fix c d assume "c \<in> set cs" "d \<in> set cs" "node_name c < node_name d"
    then show "\<forall>x \<in> set (child c). \<forall>y \<in> set (child d). delete_before x y"
      using siblings_unrelated [OF 1(4)] keys unfolding delete_before_def by (metis less_irrefl)
  qed
  have "sorted_wrt delete_before (concat (map child cs))"
    by (rule sorted_wrt_concat) (use inner cross in \<open>auto simp: sorted_wrt_map\<close>)
  moreover have "delete_before top e" if "e \<in> set (concat (map child cs))" for e
  proof -
    from that obtain c where "c \<in> set cs" "e \<in> set (child c)" by auto
    then have "proper_ancestor key (plan_relKey e)" using keys at_or_below_join [OF 1(4)] by blast
    then have "\<not> proper_ancestor (plan_relKey e) key" using ancestor_length by (metis less_asym)
    then show ?thesis by (simp add: delete_before_def top_def)
  qed
  ultimately show ?case unfolding plan sorted_wrt.simps by blast
qed

subsection \<open>The plan of a selection\<close>

lemma subtree_keys: "key \<noteq> [] \<Longrightarrow> e \<in> set (appendSubtreePlan options n key action) \<Longrightarrow>
    at_or_below key (plan_relKey e) \<and> plan_action e = action"
proof (induction options n key action arbitrary: e rule: appendSubtreePlan.induct)
  case (1 options f cs key action)
  consider "e = planEntry action (ScanNode f cs) key"
    | c where "c \<in> set cs" "list_ex (isTransferred options action cs) cs" "isTransferred options action cs c" "node_type c = Directory"
        "e \<in> set (appendSubtreePlan options c (joinRelKey key (node_name c)) action)"
    | c where "e = planEntry action c (joinRelKey key (node_name c))"
    using 1(3) by (auto simp: Let_def split: if_splits)
  then show ?case
  proof cases
    case (2 c)
    have "joinRelKey key (node_name c) \<noteq> []" using 1(2) by (simp add: join_key)
    from 1(1) [OF 2(2,1,3) refl 2(4) this 2(5)] at_or_below_join [OF 1(2)]
    show ?thesis unfolding at_or_below_def by blast
  next
    case (3 c)
    then show ?thesis using 1(2) by (auto simp: at_or_below_def join_key proper_ancestor_def planEntry_def)
  qed (simp add: at_or_below_def planEntry_def)
qed

lemma subtree_nonempty: "appendSubtreePlan options n key action \<noteq> []"
proof (induction options n key action rule: appendSubtreePlan.induct)
  case (1 options f cs key action)
  show ?case
  proof (cases "list_ex (isTransferred options action cs) cs")
    case True
    then obtain c where c: "c \<in> set cs" "isTransferred options action cs c" by (auto simp: list_ex_iff)
    define child where "child = (\<lambda>c. if isTransferred options action cs c then
        (let childKey = joinRelKey key (node_name c) in
         if node_type c = Directory then appendSubtreePlan options c childKey action
         else [planEntry action c childKey]) else [])"
    have "child c \<noteq> []" using 1 [OF True c refl] c(2) by (simp add: child_def Let_def)
    with c(1) have "concat (map child cs) \<noteq> []" by auto
    then show ?thesis using True by (simp add: child_def)
  qed simp
qed

lemma delete_action: "e \<in> set (appendDeletePlan options n key action) \<Longrightarrow> plan_action e = action"
proof (induction options n key action arbitrary: e rule: appendDeletePlan.induct)
  case (1 options f cs key action)
  then show ?case by (auto simp: Let_def split: if_splits)
qed

lemma planOfRow_keys:
  assumes "row_relKey row \<noteq> []" and "e \<in> set (planOfRow options trees row)"
  shows "at_or_below (row_relKey row) (plan_relKey e)"
  using assms subtree_keys [OF assms(1)] delete_keys [OF assms(1)] at_or_below_self
  by (auto simp: planOfRow_def Let_def split: option.splits if_splits)

lemma below_siblings:
  assumes "key \<noteq> []" and "slash \<notin> set c" and "slash \<notin> set d" and "c \<noteq> d"
    and "at_or_below (joinRelKey key c) k" and "at_or_below (joinRelKey key d) l"
  shows "k \<noteq> l"
proof
  assume same: "k = l"
  have "prefix (split_slash (joinRelKey key c)) (split_slash k)" "prefix (split_slash (joinRelKey key d)) (split_slash k)"
    using assms(5,6) unfolding same at_or_below_def proper_ancestor_def by (auto intro!: within_prefix [THEN iffD1])
  then have "prefix (split_slash key @ [c]) (split_slash k)" "prefix (split_slash key @ [d]) (split_slash k)"
    using assms(1-3) by (simp_all add: join_key split_slash_append split_slash_single)
  with assms(4) show False by (auto simp: prefix_def)
qed

lemma below_unrelated:
  assumes "at_or_below a k" and "at_or_below b k" and "\<not> proper_ancestor a b" and "\<not> proper_ancestor b a"
  shows "a = b"
proof -
  have within: "at_or_below x y \<longleftrightarrow> prefix (split_slash x) (split_slash y)" for x y
    unfolding at_or_below_def proper_ancestor_def by (rule within_prefix)
  have "prefix (split_slash a) (split_slash b) \<or> prefix (split_slash b) (split_slash a)"
    using assms(1,2) unfolding within by (rule prefix_same_cases)
  with assms(3,4) show ?thesis unfolding within [symmetric] by (auto simp: at_or_below_def)
qed

abbreviation keys_differ :: "EnqueuePlanEntry list \<Rightarrow> bool" where
  "keys_differ \<equiv> sorted_wrt (\<lambda>a b. plan_relKey a \<noteq> plan_relKey b)"

lemma distinct_apart: "distinct xs \<longleftrightarrow> sorted_wrt (\<lambda>x y. x \<noteq> y) xs"
  by (induction xs) auto

text \<open>Lists for the children of a directory that keep to the key of their child do not meet.\<close>

lemma children_keys_differ:
  assumes "sorted_names cs" and "key \<noteq> []"
    and "\<And>c. c \<in> set cs \<Longrightarrow> keys_differ (child c)"
    and "\<And>c e. c \<in> set cs \<Longrightarrow> e \<in> set (child c) \<Longrightarrow> at_or_below (joinRelKey key (node_name c)) (plan_relKey e) \<and> slash \<notin> set (node_name c)"
  shows "keys_differ (concat (map child cs))"
proof (rule sorted_wrt_concat)
  have "sorted_wrt (\<lambda>c d. \<forall>x \<in> set (child c). \<forall>y \<in> set (child d). plan_relKey x \<noteq> plan_relKey y) cs"
  proof (rule sorted_wrt_mono_rel [where P = "\<lambda>c d. node_name c < node_name d"])
    show "sorted_wrt (\<lambda>c d. node_name c < node_name d) cs" using assms(1) by (simp add: sorted_wrt_map)
    fix c d assume "c \<in> set cs" "d \<in> set cs" "node_name c < node_name d"
    then show "\<forall>x \<in> set (child c). \<forall>y \<in> set (child d). plan_relKey x \<noteq> plan_relKey y"
      using below_siblings [OF assms(2)] assms(4) by (metis less_irrefl)
  qed
  then show "sorted_wrt (\<lambda>xs ys. \<forall>x \<in> set xs. \<forall>y \<in> set ys. plan_relKey x \<noteq> plan_relKey y) (map child cs)"
    by (simp add: sorted_wrt_map)
qed (use assms(3) in auto)

lemma delete_keys_differ:
  "sorted_tree n \<Longrightarrow> named_tree n \<Longrightarrow> key \<noteq> [] \<Longrightarrow> keys_differ (appendDeletePlan options n key action)"
proof (induction options n key action rule: appendDeletePlan.induct)
  case (1 options f cs key action)
  define child where "child = (\<lambda>c. if isPlannable c options then
        (let childKey = joinRelKey key (node_name c) in
         if node_type c = Directory then appendDeletePlan options c childKey action
         else [\<lparr>plan_relKey = childKey, plan_action = action, plan_sizeBytes = node_size c,
                plan_mtime = node_mtime c, plan_mtimeNsec = scan_mtimeNsec (scan_fields c), plan_isDirectory = False\<rparr>]) else [])"
  have join: "joinRelKey key (node_name c) \<noteq> []" for c using 1(4) by (simp add: join_key)
  have named: "availability (scan_fields c) = Listed \<longrightarrow> valid_segment (node_name c)" "named_tree c" "sorted_tree c" if "c \<in> set cs" for c
    using 1(2,3) that by (simp_all add: list_all_iff)
  have keys: "at_or_below (joinRelKey key (node_name c)) (plan_relKey e) \<and> slash \<notin> set (node_name c)"
    if "c \<in> set cs" "e \<in> set (child c)" for c e
  proof -
    have "isPlannable c options" using that(2) by (auto simp: child_def split: if_splits)
    then have "slash \<notin> set (node_name c)" using named(1) [OF that(1)] by (simp add: isPlannable_def valid_segment_slash)
    moreover have "at_or_below (joinRelKey key (node_name c)) (plan_relKey e)"
      using that(2) delete_keys [OF join] at_or_below_self by (auto simp: child_def Let_def split: if_splits)
    ultimately show ?thesis by simp
  qed
  have "keys_differ (child c)" if "c \<in> set cs" for c
    using 1(1) [OF that _ refl _ named(3,2) [OF that] join] by (auto simp: child_def Let_def)
  then have "keys_differ (concat (map child cs))" using 1(2,4) keys by (intro children_keys_differ) auto
  moreover have "key \<noteq> plan_relKey e" if "e \<in> set (concat (map child cs))" for e
  proof -
    from that obtain c where "c \<in> set cs" "e \<in> set (child c)" by auto
    then have "proper_ancestor key (plan_relKey e)" using keys at_or_below_join [OF 1(4)] by blast
    then show ?thesis using ancestor_length by (metis less_irrefl)
  qed
  ultimately show ?case by (simp add: child_def)
qed

lemma subtree_keys_differ:
  "sorted_tree n \<Longrightarrow> named_tree n \<Longrightarrow> key \<noteq> [] \<Longrightarrow> keys_differ (appendSubtreePlan options n key action)"
proof (induction options n key action rule: appendSubtreePlan.induct)
  case (1 options f cs key action)
  define child where "child = (\<lambda>c. if isTransferred options action cs c then
        (let childKey = joinRelKey key (node_name c) in
         if node_type c = Directory then appendSubtreePlan options c childKey action
         else [planEntry action c childKey]) else [])"
  show ?case
  proof (cases "list_ex (isTransferred options action cs) cs")
    case True
    have join: "joinRelKey key (node_name c) \<noteq> []" for c using 1(4) by (simp add: join_key)
    have named: "availability (scan_fields c) = Listed \<longrightarrow> valid_segment (node_name c)" "named_tree c" "sorted_tree c" if "c \<in> set cs" for c
      using 1(2,3) that by (simp_all add: list_all_iff)
    have keys: "at_or_below (joinRelKey key (node_name c)) (plan_relKey e) \<and> slash \<notin> set (node_name c)"
      if "c \<in> set cs" "e \<in> set (child c)" for c e
    proof -
      have "isTransferred options action cs c" using that(2) by (auto simp: child_def split: if_splits)
      then have "slash \<notin> set (node_name c)"
        using named(1) [OF that(1)] by (simp add: isTransferred_def isPlannable_def valid_segment_slash)
      moreover have "at_or_below (joinRelKey key (node_name c)) (plan_relKey e)"
        using that(2) subtree_keys [OF join] at_or_below_self by (auto simp: child_def Let_def planEntry_def split: if_splits)
      ultimately show ?thesis by simp
    qed
    have "keys_differ (child c)" if "c \<in> set cs" for c
      using 1(1) [OF True that _ refl _ named(3,2) [OF that] join] by (auto simp: child_def Let_def)
    then have "keys_differ (concat (map child cs))" using 1(2,4) keys by (intro children_keys_differ) auto
    then show ?thesis using True by (simp add: child_def)
  qed simp
qed

text \<open>A directory found in a tree keeps the order and the names of the tree.\<close>

lemma found_keeps:
  "findScanNode n key = Some s \<Longrightarrow> sorted_tree n \<Longrightarrow> named_tree n \<Longrightarrow> sorted_tree s \<and> named_tree s"
proof (induction n key rule: findScanNode.induct)
  case (1 current relKey)
  show ?case
  proof (cases "relKey = []")
    case True
    with 1(2-4) show ?thesis by (simp add: findScanNode.simps)
  next
    case False
    let ?i = "find_char slash relKey"
    from False 1(2) obtain child where child: "lowerBoundChild (children current) (case ?i of None \<Rightarrow> relKey | Some k \<Rightarrow> take k relKey) = Some child"
      "node_name child = (case ?i of None \<Rightarrow> relKey | Some k \<Rightarrow> take k relKey)"
      "findScanNode child (case ?i of None \<Rightarrow> [] | Some k \<Rightarrow> drop (k + 1) relKey) = Some s"
      by (subst (asm) findScanNode.simps) (simp add: Let_def split: option.splits if_splits)
    from child(1) obtain xs where "dropWhile (\<lambda>n. node_name n < (case ?i of None \<Rightarrow> relKey | Some k \<Rightarrow> take k relKey)) (children current) = child # xs"
      by (auto simp: lowerBoundChild_def split: list.splits)
    then have "child \<in> set (children current)" by (metis list.set_intros(1) set_dropWhileD)
    then have "sorted_tree child" "named_tree child" using 1(3,4) by (cases current; simp add: list_all_iff)+
    with 1(1) [OF False refl refl child(1)] child(2,3) show ?thesis by simp
  qed
qed

text \<open>
  What a row stands for, by its action and not by how the plan is built. The side it comes from is the local tree for an
  upload and a local delete. A row of a directory of a recursive sync that the tree of that side still has as a directory
  stands for what lies in it: a delete for the directory and everything plannable it reaches, a transfer for the files and
  links it reaches through transferred directories and for the directories among those without transferred content. Any
  other row stands for itself, with the size and times the scan has for it, or the row when the scan has nothing there.
\<close>

definition row_node :: "ScanTrees \<Rightarrow> DiffTreeNode \<Rightarrow> ScanNode option" where
  "row_node trees row =
     (case (case row_action row of Upload \<Rightarrow> local_scan trees | DeleteLocal \<Rightarrow> local_scan trees
          | Download \<Rightarrow> remote_scan trees | DeleteRemote \<Rightarrow> remote_scan trees) of
        None \<Rightarrow> None | Some root \<Rightarrow> findScanNode root (row_relKey row))"

definition row_itself :: "ScanTrees \<Rightarrow> DiffTreeNode \<Rightarrow> EnqueuePlanEntry \<Rightarrow> bool" where
  "row_itself trees row e \<longleftrightarrow> plan_relKey e = row_relKey row \<and> plan_action e = row_action row \<and>
     plan_isDirectory e = row_isDirectory row \<and>
     (case row_node trees row of
        Some s \<Rightarrow> plan_sizeBytes e = (if row_isDirectory row then 0 else node_size s) \<and> plan_mtime e = node_mtime s \<and>
          plan_mtimeNsec e = scan_mtimeNsec (scan_fields s)
      | None \<Rightarrow> plan_mtimeNsec e = 0 \<and>
          (if row_action row \<in> {Upload, DeleteLocal}
           then plan_sizeBytes e = (if row_isDirectory row then 0 else row_localSize row) \<and> plan_mtime e = row_localMtime row
           else plan_sizeBytes e = (if row_isDirectory row then 0 else row_remoteSize row) \<and> plan_mtime e = row_remoteMtime row))"

definition stands_for :: "DiffOptions \<Rightarrow> ScanTrees \<Rightarrow> DiffTreeNode \<Rightarrow> EnqueuePlanEntry \<Rightarrow> bool" where
  "stands_for options trees row e \<longleftrightarrow>
     (if \<exists>s. row_node trees row = Some s \<and> row_isDirectory row \<and> recursive options \<and> node_type s = Directory
      then \<exists>s path m. row_node trees row = Some s \<and> e = planEntry (row_action row) m (foldl joinRelKey (row_relKey row) path) \<and>
        (case row_action row of
           DeleteLocal \<Rightarrow> reached (\<lambda>_ c. isPlannable c options) s path = Some m
         | DeleteRemote \<Rightarrow> reached (\<lambda>_ c. isPlannable c options) s path = Some m
         | transfer \<Rightarrow> reached (isTransferred options transfer) s path = Some m \<and>
             (node_type m = Directory \<longrightarrow> (\<forall>c \<in> set (children m). \<not> isTransferred options transfer (children m) c)))
      else row_itself trees row e)"

lemma row_node_eq: "row_node trees row = Option.bind (sourceRoot trees (row_action row)) (\<lambda>root. findScanNode root (row_relKey row))"
  by (cases "row_action row"; cases "local_scan trees"; cases "remote_scan trees")
    (simp_all add: row_node_def sourceRoot_def actionSourceIsLocal_def)

definition good_trees :: "ScanTrees \<Rightarrow> bool" where
  "good_trees trees \<longleftrightarrow> (\<forall>n. local_scan trees = Some n \<or> remote_scan trees = Some n \<longrightarrow> sorted_tree n \<and> named_tree n)"

lemma row_node_keeps:
  "good_trees trees \<Longrightarrow> row_node trees row = Some s \<Longrightarrow> sorted_tree s \<and> named_tree s"
  using found_keeps by (auto simp: good_trees_def row_node_def split: option.splits Action.splits)

lemma planOfRow_stands_for:
  assumes "good_trees trees"
  shows "set (planOfRow options trees row) = {e. stands_for options trees row e}"
proof (cases "\<exists>s. row_node trees row = Some s \<and> row_isDirectory row \<and> recursive options \<and> node_type s = Directory")
  case True
  then obtain s where s: "row_node trees row = Some s" "row_isDirectory row" "recursive options" "node_type s = Directory" by blast
  have sorted: "sorted_tree s" using row_node_keeps [OF assms s(1)] by blast
  have plan: "planOfRow options trees row = (if row_action row = DeleteLocal \<or> row_action row = DeleteRemote
      then appendDeletePlan options s (row_relKey row) (row_action row) else appendSubtreePlan options s (row_relKey row) (row_action row))"
    using s by (simp add: planOfRow_def row_node_eq Let_def)
  show ?thesis
    unfolding plan using s(1) True
    by (cases "row_action row")
      (simp_all add: stands_for_def delete_plan_set [OF sorted s(4)] transfer_plan_set [OF sorted s(4)] reached_set_def
        list_ex_iff image_def set_eq_iff; blast)+
next
  case False
  define e where "e = \<lparr>plan_relKey = row_relKey row, plan_action = row_action row,
      plan_sizeBytes = (if row_isDirectory row then 0
        else case row_node trees row of Some s \<Rightarrow> node_size s
          | None \<Rightarrow> if actionSourceIsLocal (row_action row) then row_localSize row else row_remoteSize row),
      plan_mtime = (case row_node trees row of Some s \<Rightarrow> node_mtime s
          | None \<Rightarrow> if actionSourceIsLocal (row_action row) then row_localMtime row else row_remoteMtime row),
      plan_mtimeNsec = (case row_node trees row of Some s \<Rightarrow> scan_mtimeNsec (scan_fields s) | None \<Rightarrow> 0),
      plan_isDirectory = row_isDirectory row\<rparr>"
  have "planOfRow options trees row = [e]"
    using False by (cases "row_node trees row") (auto simp: planOfRow_def row_node_eq [symmetric] e_def Let_def)
  moreover have "row_itself trees row x \<longleftrightarrow> x = e" for x
    by (cases "row_node trees row") (auto simp: row_itself_def e_def actionSourceIsLocal_def intro!: EnqueuePlanEntry.equality)
  ultimately show ?thesis using False by (auto simp: stands_for_def)
qed

lemma planOfRow_keys_differ:
  assumes "good_trees trees" and "row_relKey row \<noteq> []"
  shows "keys_differ (planOfRow options trees row)"
proof (cases "row_node trees row")
  case (Some s)
  then show ?thesis
    using delete_keys_differ [OF _ _ assms(2)] subtree_keys_differ [OF _ _ assms(2)] row_node_keeps [OF assms(1) Some]
    by (simp add: planOfRow_def row_node_eq [symmetric] Let_def)
qed (simp add: planOfRow_def row_node_eq [symmetric] Let_def)

definition selected_key :: "string set \<Rightarrow> string \<Rightarrow> bool" where
  "selected_key selection k \<longleftrightarrow> k \<in> selection \<or> (\<exists>a \<in> selection. proper_ancestor a k)"

lemma section_keys:
  assumes "proper_rows rows" and "finished_section rows st" and "k \<in> dom (nodes st)"
  obtains (row) row parent where "(row, parent) \<in> set rows" "nodes st k = Some row" "row_relKey row = k" "\<not> row_isStructural row"
    | (structural) n where "nodes st k = Some n" "row_isStructural n" "\<exists>l \<in> dom (nodes st). proper_ancestor k l"
proof -
  from assms(2,3) have "k \<in> set (row_keys rows) \<or> k \<noteq> [] \<and> rows_under rows k \<noteq> []" by (auto simp: finished_section_def)
  then show thesis
  proof
    assume "k \<in> set (row_keys rows)"
    then obtain r parent where r: "(r, parent) \<in> set rows" "k = row_relKey r" by (auto simp: row_keys_def)
    then have "nodes st k = Some r" using assms(2) by (auto simp: finished_section_def store_find_def)
    moreover have "\<not> row_isStructural r" using assms(1) r by (auto simp: proper_rows_def)
    ultimately show thesis using row r by blast
  next
    assume k: "k \<noteq> [] \<and> rows_under rows k \<noteq> []"
    then obtain n where "nodes st k = Some n" "row_isStructural n"
      using assms(2) by (simp add: finished_section_def store_find_def makeStructuralRow_def)
    moreover from k obtain r parent where r: "(r, parent) \<in> set rows" "proper_ancestor k (row_relKey r)"
      by (auto simp: rows_under_def filter_empty_conv)
    moreover have "row_relKey r \<in> dom (nodes st)"
      using r(1) assms(2) by (fastforce simp: finished_section_def store_find_def)
    ultimately show thesis using structural by blast
  qed
qed

lemma row_isolated:
  assumes "proper_rows rows" and "finished_section rows st" and "(row, parent) \<in> set rows" and "l \<in> dom (nodes st)"
  shows "\<not> proper_ancestor (row_relKey row) l"
proof
  assume anc: "proper_ancestor (row_relKey row) l"
  have key: "row_relKey row \<in> set (row_keys rows)" using assms(3) by (force simp: row_keys_def)
  from assms(2,4) have "l \<in> set (row_keys rows) \<or> rows_under rows l \<noteq> []" by (auto simp: finished_section_def)
  then obtain m where "m \<in> set (row_keys rows)" "m = l \<or> proper_ancestor l m"
    by (auto simp: rows_under_def row_keys_def filter_empty_conv)
  with anc ancestor_trans have "proper_ancestor (row_relKey row) m" by blast
  with assms(1) key \<open>m \<in> set (row_keys rows)\<close> show False by (auto simp: proper_rows_def)
qed

lemma plan_of_section:
  assumes "proper_rows rows" and "finished_section rows st" and "good_trees trees"
  shows "\<exists>plan. buildPlan st selection trees = Some plan \<and> keys_differ plan \<and>
    set plan = (\<Union>(row, parent) \<in> {(row, parent) \<in> set rows. selected_key selection (row_relKey row)}.
      set (planOfRow (store_options st) trees row))"
proof -
  define views where "views = map (\<lambda>k. \<lparr>item_relKey = k, isBulkDir = isBulkDirectory (the (nodes st k))\<rparr>) (key_order st)"
  have keys: "set (key_order st) = dom (nodes st)" using assms(2) by (simp add: finished_section_def)
  have view: "item_relKey (views ! i) = key_order st ! i \<and> isBulkDir (views ! i) = isBulkDirectory (the (nodes st (key_order st ! i)))"
    if "i < length views" for i using that by (simp add: views_def)
  have len: "length views = length (key_order st)" by (simp add: views_def)
  have items: "item_relKey ` set views = dom (nodes st)" by (simp add: views_def image_image keys)
  have taken: "taken_item views selection i \<longleftrightarrow> selected_key selection (key_order st ! i) \<and>
      (\<exists>row parent. (row, parent) \<in> set rows \<and> row_relKey row = key_order st ! i)" if i: "i < length views" for i
  proof -
    let ?k = "key_order st ! i"
    have k: "?k \<in> dom (nodes st)" using keys i len nth_mem by metis
    have bulk_row: "\<not> proper_ancestor (key_order st ! j) ?k" if "j < length views" "isBulkDir (views ! j)" for j
    proof -
      have "key_order st ! j \<in> dom (nodes st)" using keys that(1) len nth_mem by metis
      with that view [OF that(1)] obtain row parent where "(row, parent) \<in> set rows" "row_relKey row = key_order st ! j"
        by (cases rule: section_keys [OF assms(1,2)]) (auto simp: isBulkDirectory_def)
      with row_isolated [OF assms(1,2) _ k] show ?thesis by metis
    qed
    then have "\<not> covered_item views selection i" using view [OF i] view unfolding covered_item_def by metis
    moreover have "selected_item views selection i \<longleftrightarrow> selected_key selection ?k"
      using view [OF i] by (simp add: selected_item_def selected_key_def)
    moreover have "(\<forall>item \<in> set views. \<not> proper_ancestor (item_relKey (views ! i)) (item_relKey item)) \<longleftrightarrow>
        (\<forall>l \<in> dom (nodes st). \<not> proper_ancestor ?k l)"
      using view [OF i] items by (metis imageE imageI)
    moreover have "(isBulkDir (views ! i) \<or> (\<forall>l \<in> dom (nodes st). \<not> proper_ancestor ?k l)) \<longleftrightarrow>
        (\<exists>row parent. (row, parent) \<in> set rows \<and> row_relKey row = ?k)"
      using assms(1,2) k
    proof (cases rule: section_keys)
      case (row row parent)
      then show ?thesis using row_isolated [OF assms(1,2)] by metis
    next
      case (structural n)
      then have "\<not> isBulkDir (views ! i)" using view [OF i] by (simp add: isBulkDirectory_def)
      then show ?thesis using structural(3) row_isolated [OF assms(1,2)] by metis
    qed
    ultimately show ?thesis unfolding taken_item_def by blast
  qed
  let ?plan = "concat (map (\<lambda>index. planOfRow (store_options st) trees (the (nodes st (item_relKey (views ! index)))))
      (minimizeEnqueueIndices views selection))"
  have "set ?plan = (\<Union>i \<in> {i. i < length views \<and> taken_item views selection i}.
      set (planOfRow (store_options st) trees (the (nodes st (key_order st ! i)))))"
    using view by (auto simp: minimize_eq lengthOrder_def)
  also have "\<dots> = (\<Union>(row, parent) \<in> {(row, parent) \<in> set rows. selected_key selection (row_relKey row)}.
      set (planOfRow (store_options st) trees row))" (is "?A = ?B")
  proof (intro equalityI subsetI)
    fix e assume "e \<in> ?A"
    then obtain i where i: "i < length views" "taken_item views selection i"
      "e \<in> set (planOfRow (store_options st) trees (the (nodes st (key_order st ! i))))" by blast
    with taken obtain row parent where r: "(row, parent) \<in> set rows" "row_relKey row = key_order st ! i"
      "selected_key selection (row_relKey row)" by metis
    then have "nodes st (key_order st ! i) = Some row" using assms(2) by (auto simp: finished_section_def store_find_def)
    with i(3) r show "e \<in> ?B" by auto
  next
    fix e assume "e \<in> ?B"
    then obtain row parent where r: "(row, parent) \<in> set rows" "selected_key selection (row_relKey row)"
      "e \<in> set (planOfRow (store_options st) trees row)" by blast
    then have n: "nodes st (row_relKey row) = Some row" using assms(2) by (auto simp: finished_section_def store_find_def)
    then obtain i where i: "i < length views" "key_order st ! i = row_relKey row"
      using keys len by (metis domI in_set_conv_nth)
    then have "taken_item views selection i" using taken r by metis
    with i n r(3) show "e \<in> ?A" by (intro UN_I [of i]) auto
  qed
  finally have "set ?plan = ?B" .
  moreover have "keys_differ ?plan"
  proof -
    let ?entries = "\<lambda>i. planOfRow (store_options st) trees (the (nodes st (item_relKey (views ! i))))"
    let ?taken = "minimizeEnqueueIndices views selection"
    have picked: "\<exists>row parent. (row, parent) \<in> set rows \<and> row_relKey row = key_order st ! i \<and> row_relKey row \<noteq> [] \<and>
        nodes st (item_relKey (views ! i)) = Some row \<and> i < length views" if "i \<in> set ?taken" for i
    proof -
      have i: "i < length views" "taken_item views selection i" using that by (auto simp: minimize_eq lengthOrder_def)
      then obtain row parent where r: "(row, parent) \<in> set rows" "row_relKey row = key_order st ! i" using taken by blast
      then have "nodes st (key_order st ! i) = Some row" using assms(2) by (auto simp: finished_section_def store_find_def)
      moreover have "row_relKey row \<noteq> []" using assms(1) r(1) by (auto simp: proper_rows_def)
      ultimately show ?thesis using i(1) r view by metis
    qed
    have inner: "keys_differ (?entries i)" if "i \<in> set ?taken" for i
      using picked [OF that] planOfRow_keys_differ [OF assms(3)] by fastforce
    have cross: "plan_relKey x \<noteq> plan_relKey y"
      if ij: "i \<in> set ?taken" "j \<in> set ?taken" "i \<noteq> j" and xy: "x \<in> set (?entries i)" "y \<in> set (?entries j)" for i j x y
    proof
      assume same: "plan_relKey x = plan_relKey y"
      from picked [OF ij(1)] obtain a where a: "a \<in> fst ` set rows" "row_relKey a = key_order st ! i" "row_relKey a \<noteq> []"
        "nodes st (item_relKey (views ! i)) = Some a" "i < length views" by force
      from picked [OF ij(2)] obtain b where b: "b \<in> fst ` set rows" "row_relKey b = key_order st ! j" "row_relKey b \<noteq> []"
        "nodes st (item_relKey (views ! j)) = Some b" "j < length views" by force
      have "x \<in> set (planOfRow (store_options st) trees a)" "y \<in> set (planOfRow (store_options st) trees b)"
        using xy a(4) b(4) by simp_all
      from planOfRow_keys [OF a(3) this(1)] planOfRow_keys [OF b(3) this(2)]
      have "at_or_below (row_relKey a) (plan_relKey x)" "at_or_below (row_relKey b) (plan_relKey x)" unfolding same .
      moreover have "row_relKey a \<in> set (row_keys rows)" "row_relKey b \<in> set (row_keys rows)"
        using a(1) b(1) by (force simp: row_keys_def)+
      then have "\<not> proper_ancestor (row_relKey a) (row_relKey b)" "\<not> proper_ancestor (row_relKey b) (row_relKey a)"
        using assms(1) by (simp_all add: proper_rows_def)
      ultimately have "row_relKey a = row_relKey b" by (rule below_unrelated)
      moreover have "distinct (key_order st)" using assms(2) by (simp add: finished_section_def)
      ultimately show False using a(2,5) b(2,5) ij(3) len by (simp add: nth_eq_iff_index_eq)
    qed
    have "distinct ?taken" by (simp add: minimize_eq lengthOrder_def)
    then have "sorted_wrt (\<lambda>i j. \<forall>x \<in> set (?entries i). \<forall>y \<in> set (?entries j). plan_relKey x \<noteq> plan_relKey y) ?taken"
      unfolding distinct_apart by (rule sorted_wrt_mono_rel [rotated]) (use cross in blast)
    then show ?thesis by (intro sorted_wrt_concat) (use inner in \<open>auto simp: sorted_wrt_map\<close>)
  qed
  moreover have "buildPlan st selection trees = Some ?plan"
    using keys by (auto simp: buildPlan_def list_all_iff views_def Let_def)
  ultimately show ?thesis by blast
qed

subsection \<open>Properties\<close>

definition sample_dir :: ScanNode where
  "sample_dir = sample_leaf ''d'' [sample_leaf ''a'' [sample_leaf ''b'' []], sample_leaf ''c'' []]"

lemma sample_dir_ok: "sorted_tree sample_dir" "named_tree sample_dir" "node_type sample_dir = Directory"
  by (simp_all add: sample_dir_def sample_leaf_def valid_segment_iff string_simps)

text \<open>C18:
  The plan of a selection in a section: finalizing the section and building the plan never fail, and the plan holds exactly
  what the selected rows stand for by their action, a row being selected by its own key or a directory above it, so
  structural rows plan nothing by themselves. No two entries of the plan have the same key: nothing is planned twice,
  neither through two rows nor within one.
\<close>

theorem plan_follows_selection:
  assumes "proper_rows rows" and "good_trees trees"
  shows "\<exists>st plan. finalize (store_rows options rows) = Some st \<and> buildPlan st selection trees = Some plan \<and>
    set plan = {e. \<exists>(row, parent) \<in> set rows. selected_key selection (row_relKey row) \<and> stands_for options trees row e} \<and>
    distinct (map plan_relKey plan)"
proof -
  from finalize_section [OF assms(1), of options] obtain st where
    st: "finalize (store_rows options rows) = Some st" "store_options st = options" "finished_section rows st" by blast
  from plan_of_section [OF assms(1) st(3) assms(2), of selection] obtain plan where
    plan: "buildPlan st selection trees = Some plan" "keys_differ plan"
    "set plan = (\<Union>(row, parent) \<in> {(row, parent) \<in> set rows. selected_key selection (row_relKey row)}.
      set (planOfRow (store_options st) trees row))" by blast
  have "distinct (map plan_relKey plan)"
    using plan(2) by (simp add: distinct_apart sorted_wrt_map)
  moreover have "set plan = {e. \<exists>(row, parent) \<in> set rows. selected_key selection (row_relKey row) \<and> stands_for options trees row e}"
    unfolding plan(3) st(2) using planOfRow_stands_for [OF assms(2)] by auto
  ultimately show ?thesis using st(1) plan(1) by blast
qed

theorem plan_follows_selection_witness:
  "\<exists>st plan. finalize (store_rows sample_options [(makeOneSidedRow sample_dir ''d'' Upload True, [])]) = Some st \<and>
     buildPlan st {''d''} \<lparr>local_scan = Some (sample_leaf [] [sample_dir]), remote_scan = None\<rparr> = Some plan \<and>
     planEntry Upload (sample_leaf ''b'' []) ''d/a/b'' \<in> set plan \<and> distinct (map plan_relKey plan)"
proof -
  define r where "r = makeOneSidedRow sample_dir ''d'' Upload True"
  let ?trees = "\<lparr>local_scan = Some (sample_leaf [] [sample_dir]), remote_scan = None\<rparr>" and ?e = "planEntry Upload (sample_leaf ''b'' []) ''d/a/b''"
  have r: "row_relKey r = ''d''" "\<not> row_isStructural r" "row_action r = Upload" "row_isDirectory r"
    by (simp_all add: r_def makeOneSidedRow_def sample_dir_def sample_leaf_def Let_def)
  have rows: "proper_rows [(r, [])]"
    by (simp add: proper_rows_def row_keys_def r parentOf_def proper_ancestor_def)
  have trees: "good_trees ?trees"
    by (simp add: good_trees_def sample_dir_def sample_leaf_def valid_segment_iff string_simps)
  have node: "row_node ?trees r = Some sample_dir" by (simp add: row_node_def r) code_simp
  have "reached (isTransferred sample_options Upload) sample_dir [''a'', ''b''] = Some (sample_leaf ''b'' [])"
    by (simp add: sample_dir_def sample_leaf_def isTransferred_def isPlannable_def sample_options_def foldsCase_def)
  moreover have leaf: "node_type sample_dir = Directory" "node_type (sample_leaf ''b'' []) \<noteq> Directory" "recursive sample_options"
    by (simp_all add: sample_dir_def sample_leaf_def sample_options_def)
  moreover have "?e = planEntry Upload (sample_leaf ''b'' []) (foldl joinRelKey ''d'' [''a'', ''b''])" by (simp add: joinRelKey_def)
  ultimately have "\<exists>path m. ?e = planEntry Upload m (foldl joinRelKey ''d'' path) \<and>
      reached (isTransferred sample_options Upload) sample_dir path = Some m \<and> node_type m \<noteq> Directory" by blast
  then have e: "stands_for sample_options ?trees r ?e"
    using leaf unfolding stands_for_def by (simp add: node r del: reached.simps) blast
  have selected: "selected_key {''d''} (row_relKey r)" by (simp add: selected_key_def r)
  from plan_follows_selection [OF rows trees, of sample_options "{''d''}"] obtain st plan where p:
    "finalize (store_rows sample_options [(r, [])]) = Some st" "buildPlan st {''d''} ?trees = Some plan"
    "set plan = {e. \<exists>(row, parent) \<in> set [(r, [] :: string)]. selected_key {''d''} (row_relKey row) \<and> stands_for sample_options ?trees row e}"
    "distinct (map plan_relKey plan)" by (elim exE conjE) (rule that)
  have "case (r, [] :: string) of (row, parent) \<Rightarrow> selected_key {''d''} (row_relKey row) \<and> stands_for sample_options ?trees row ?e"
    unfolding prod.case using selected e by (rule conjI)
  then have "?e \<in> set plan" unfolding p(3) by (intro CollectI bexI) (assumption, rule list.set_intros)
  with p(1,2,4) show ?thesis unfolding r_def [symmetric] by (intro exI [of _ st] exI [of _ plan] conjI)
qed

text \<open>C16: the plan of a transferred directory lists exactly the entries that can be reached through transferred directories,
  files and links each by itself and of the directories those without transferred content: nothing blocked or hidden, nor
  below it, and no name that meets another one on a destination that folds case.\<close>

theorem transfer_plan_exact:
  assumes "sorted_tree n" and "node_type n = Directory"
  shows "set (appendSubtreePlan options n key action) =
    {planEntry action m (foldl joinRelKey key path) | path m. reached (isTransferred options action) n path = Some m \<and>
       (node_type m = Directory \<longrightarrow> (\<forall>c \<in> set (children m). \<not> isTransferred options action (children m) c))}"
  unfolding transfer_plan_set [OF assms] reached_set_def by (force simp: list_ex_iff)

theorem transfer_plan_exact_witness:
  "planEntry Upload (sample_leaf ''b'' []) ''d/a/b'' \<in> set (appendSubtreePlan sample_options sample_dir ''d'' Upload)"
proof -
  have "reached (isTransferred sample_options Upload) sample_dir [''a'', ''b''] = Some (sample_leaf ''b'' [])"
    by (simp add: sample_dir_def sample_leaf_def isTransferred_def isPlannable_def sample_options_def foldsCase_def)
  then show ?thesis
    unfolding transfer_plan_exact [OF sample_dir_ok(1,3)]
    by (intro CollectI exI [of _ "[''a'', ''b'']"] exI [of _ "sample_leaf ''b'' []"]) (simp add: joinRelKey_def sample_leaf_def)
qed

text \<open>C17: the plan of a deleted directory lists exactly the directory and what can be reached below it through plannable
  directories, so nothing unreadable, excluded, invalid or hidden, and every directory stands before what lies below it:
  deleting from the back only ever removes a directory after its listed content.\<close>

theorem delete_plan_exact:
  assumes "sorted_tree n" and "named_tree n" and "node_type n = Directory" and "key \<noteq> []"
  shows "set (appendDeletePlan options n key action) =
      {planEntry action m (foldl joinRelKey key path) | path m. reached (\<lambda>_ c. isPlannable c options) n path = Some m} \<and>
    sorted_wrt (\<lambda>a b. \<not> proper_ancestor (plan_relKey b) (plan_relKey a)) (appendDeletePlan options n key action)"
  using delete_order [OF assms(1,2,4), of options action] delete_plan_set [OF assms(1,3), of options key action]
  unfolding delete_before_def [abs_def] reached_set_def by force

theorem delete_plan_exact_witness:
  "sorted_wrt (\<lambda>a b. \<not> proper_ancestor (plan_relKey b) (plan_relKey a)) (appendDeletePlan sample_options sample_dir ''d'' DeleteLocal)"
  using delete_plan_exact [OF sample_dir_ok, of "''d''" sample_options DeleteLocal] by simp

end
