(* ===== verification/Tar_Fields.thy ===== *)
theory Tar_Fields
  imports Utf8 "HOL-Library.While_Combinator"
begin

text \<open>
  The fields of a tar record, after \<open>tar-archive/source/tar_archive/header.cpp\<close>: the layout of the 512 bytes, the
  routines that write a text or a number into the span of a field and those that read it back, the checksum of a
  record, and the "length key=value" items of a PAX header. A \<open>std::byte\<close> is a character, so that a span of bytes and
  a \<open>std::string\<close> are the same lists and the casts of the source between the two are the identity; its value is
  \<open>of_char\<close>. A routine that overwrites a span is the function that returns the new contents of the span, and
  \<open>putField\<close> stores them in the record. \<open>std::to_chars\<close>, \<open>std::from_chars\<close> and \<open>std::to_string\<close> are
  \<open>to_chars\<close> and \<open>from_chars\<close>. The lemmas say what a reader makes of what a writer wrote.
\<close>

subsection \<open>Errors\<close>

datatype TarErrorCode =
    NoError
  | FileNotFound | FileAlreadyExists | IoError
  | UnknownCompression | MagicMismatch
  | PathTooLong | LinkTargetTooLong | UnsupportedFileType | FileTooLarge
  | InvalidHeader | TruncatedArchive | ChecksumMismatch
  | EntryStillOpen | NoActiveEntry | AlreadyFinalized | AlreadyClosed | OverrunOnWrite | UnderrunOnClose
  | ReadAfterEnd | WriteAfterFinalize
  | CompressionLibraryError

record TarError =
  code :: TarErrorCode
  message :: string
  nativeCode :: int

definition makeError :: "TarErrorCode \<Rightarrow> string \<Rightarrow> TarError" where
  "makeError c text = \<lparr>code = c, message = text, nativeCode = 0\<rparr>"

text \<open>How a call ends that does not return a value: with a \<open>TarError\<close>, with an exception of the allocation of a
  vector that is longer than any vector can be, or by an access behind the end of a span, which has no defined
  behaviour in C++.\<close>

datatype TarFailure = TarFailed TarError | LengthError | OutOfBounds

text \<open>The early return on an error of a \<open>std::expected\<close>.\<close>

fun andThen :: "'e + 'a \<Rightarrow> ('a \<Rightarrow> 'e + 'b) \<Rightarrow> 'e + 'b" where
  "andThen (Inl e) k = Inl e"
| "andThen (Inr a) k = k a"

lemma andThen_Inr: "andThen x k = Inr b \<longleftrightarrow> (\<exists>a. x = Inr a \<and> k a = Inr b)"
  by (cases x) auto

lemma andThen_Inl: "andThen x k = Inl e \<longleftrightarrow> x = Inl e \<or> (\<exists>a. x = Inr a \<and> k a = Inl e)"
  by (cases x) auto

subsection \<open>Numbers as digits\<close>

abbreviation NUL :: char where "NUL \<equiv> CHR 0x00"
abbreviation zero_digit :: char where "zero_digit \<equiv> CHR ''0''"

definition digitChar :: "nat \<Rightarrow> char" where
  "digitChar d = char_of (48 + d)"

definition digitValue :: "char \<Rightarrow> nat" where
  "digitValue c = of_char c - 48"

definition isDigitOf :: "nat \<Rightarrow> char \<Rightarrow> bool" where
  "isDigitOf base c \<longleftrightarrow> 48 \<le> (of_char c :: nat) \<and> (of_char c :: nat) < 48 + base"

function to_chars :: "nat \<Rightarrow> nat \<Rightarrow> string" where
  "to_chars base v =
     (if v < base \<or> base < 2 then [digitChar v] else to_chars base (v div base) @ [digitChar (v mod base)])"
  by pat_completeness auto
termination by (relation "measure snd") (auto simp: not_less intro!: div_less_dividend)

declare to_chars.simps [simp del]

definition digits_value :: "nat \<Rightarrow> string \<Rightarrow> nat" where
  "digits_value base ds = foldl (\<lambda>v c. v * base + digitValue c) 0 ds"

text \<open>\<open>std::from_chars\<close> reads the longest start of digits; there must be one, and its value must fit the type.\<close>

definition from_chars :: "nat \<Rightarrow> nat \<Rightarrow> string \<Rightarrow> nat option" where
  "from_chars base bound text =
     (let ds = takeWhile (isDigitOf base) text in
      if ds = [] \<or> bound \<le> digits_value base ds then None else Some (digits_value base ds))"

subsection \<open>The layout of a record\<close>

definition recordSize :: nat where "recordSize = 512"

type_synonym RawRecord = string

record FieldLayout =
  field_offset :: nat
  field_length :: nat

definition fieldName :: FieldLayout where "fieldName = \<lparr>field_offset = 0, field_length = 100\<rparr>"
definition fieldMode :: FieldLayout where "fieldMode = \<lparr>field_offset = 100, field_length = 8\<rparr>"
definition fieldUid :: FieldLayout where "fieldUid = \<lparr>field_offset = 108, field_length = 8\<rparr>"
definition fieldGid :: FieldLayout where "fieldGid = \<lparr>field_offset = 116, field_length = 8\<rparr>"
definition fieldSize :: FieldLayout where "fieldSize = \<lparr>field_offset = 124, field_length = 12\<rparr>"
definition fieldMtime :: FieldLayout where "fieldMtime = \<lparr>field_offset = 136, field_length = 12\<rparr>"
definition fieldChecksum :: FieldLayout where "fieldChecksum = \<lparr>field_offset = 148, field_length = 8\<rparr>"
definition fieldTypeFlag :: FieldLayout where "fieldTypeFlag = \<lparr>field_offset = 156, field_length = 1\<rparr>"
definition fieldLinkName :: FieldLayout where "fieldLinkName = \<lparr>field_offset = 157, field_length = 100\<rparr>"
definition fieldMagic :: FieldLayout where "fieldMagic = \<lparr>field_offset = 257, field_length = 6\<rparr>"
definition fieldVersion :: FieldLayout where "fieldVersion = \<lparr>field_offset = 263, field_length = 2\<rparr>"
definition fieldUName :: FieldLayout where "fieldUName = \<lparr>field_offset = 265, field_length = 32\<rparr>"
definition fieldGName :: FieldLayout where "fieldGName = \<lparr>field_offset = 297, field_length = 32\<rparr>"
definition fieldDevMajor :: FieldLayout where "fieldDevMajor = \<lparr>field_offset = 329, field_length = 8\<rparr>"
definition fieldDevMinor :: FieldLayout where "fieldDevMinor = \<lparr>field_offset = 337, field_length = 8\<rparr>"
definition fieldPrefix :: FieldLayout where "fieldPrefix = \<lparr>field_offset = 345, field_length = 155\<rparr>"

lemmas field_defs = fieldName_def fieldMode_def fieldUid_def fieldGid_def fieldSize_def fieldMtime_def
  fieldChecksum_def fieldTypeFlag_def fieldLinkName_def fieldMagic_def fieldVersion_def fieldUName_def
  fieldGName_def fieldDevMajor_def fieldDevMinor_def fieldPrefix_def

definition ustarMagic :: string where "ustarMagic = ''ustar''"
definition ustarVersion :: string where "ustarVersion = ''00''"

definition fieldSpan :: "RawRecord \<Rightarrow> FieldLayout \<Rightarrow> string" where
  "fieldSpan record field = take (field_length field) (drop (field_offset field) record)"

definition putField :: "RawRecord \<Rightarrow> FieldLayout \<Rightarrow> string \<Rightarrow> RawRecord" where
  "putField record field contents =
     take (field_offset field) record @ contents @ drop (field_offset field + field_length field) record"

subsection \<open>Writing fields\<close>

definition stringContents :: "nat \<Rightarrow> string \<Rightarrow> string" where
  "stringContents len text =
     (let copyLength = min (length text) len in take copyLength text @ replicate (len - copyLength) NUL)"

definition writeString :: "RawRecord \<Rightarrow> FieldLayout \<Rightarrow> string \<Rightarrow> RawRecord" where
  "writeString record field text = putField record field (stringContents (field_length field) text)"

text \<open>The number of the source is a \<open>uint64_t\<close>, whose 22 octal digits always fit the scratch array of 32.\<close>

definition writeOctalNumeric :: "nat \<Rightarrow> u64 \<Rightarrow> string option" where
  "writeOctalNumeric len v =
     (if len = 0 then None
      else let digits = to_chars 8 (unat v); digitCapacity = len - 1 in
        if length digits > digitCapacity then None
        else Some (replicate (digitCapacity - length digits) zero_digit @ digits @ [NUL]))"

fun bigEndianBytes :: "nat \<Rightarrow> u64 \<Rightarrow> string" where
  "bigEndianBytes 0 v = []"
| "bigEndianBytes (Suc position) v =
     bigEndianBytes position (drop_bit 8 v) @ [char_of (unat (v AND 0xFF))]"

definition writeBase256Numeric :: "nat \<Rightarrow> u64 \<Rightarrow> string" where
  "writeBase256Numeric len v =
     (let target = bigEndianBytes len v in target[0 := char_of ((of_char (target ! 0) :: nat) OR 0x80)])"

definition numericContents :: "nat \<Rightarrow> u64 \<Rightarrow> string" where
  "numericContents len v =
     (case writeOctalNumeric len v of Some contents \<Rightarrow> contents | None \<Rightarrow> writeBase256Numeric len v)"

definition writeNumeric :: "RawRecord \<Rightarrow> FieldLayout \<Rightarrow> u64 \<Rightarrow> RawRecord" where
  "writeNumeric record field v = putField record field (numericContents (field_length field) v)"

text \<open>The checksum of a record is below \<open>8 ^ 6\<close> (\<open>calculateChecksum_bound\<close>), so its digits fit the six characters
  the source converts into.\<close>

definition checksumContents :: "u32 \<Rightarrow> string" where
  "checksumContents checksum =
     (let digits = to_chars 8 (unat checksum) in
      replicate (6 - length digits) zero_digit @ digits @ [NUL, CHR '' ''])"

definition writeChecksum :: "RawRecord \<Rightarrow> u32 \<Rightarrow> RawRecord" where
  "writeChecksum record checksum = putField record fieldChecksum (checksumContents checksum)"

subsection \<open>Reading fields\<close>

definition readTerminatedString :: "string \<Rightarrow> string" where
  "readTerminatedString source = takeWhile (\<lambda>character. character \<noteq> NUL) source"

fun octalDigits :: "string \<Rightarrow> TarError + string" where
  "octalDigits [] = Inr []"
| "octalDigits (character # rest) =
     (if character = NUL \<or> character = CHR '' '' then octalDigits rest
      else if \<not> isDigitOf 8 character
      then Inl (makeError InvalidHeader (''non-octal digit in numeric field: '' @ [CHR 0x27, character, CHR 0x27]))
      else andThen (octalDigits rest) (\<lambda>digits. Inr (character # digits)))"

definition readNumeric :: "string \<Rightarrow> TarError + u64" where
  "readNumeric source =
     (if source = [] then Inr 0
      else let firstByte = (of_char (source ! 0) :: nat) in
        if firstByte AND 0x80 \<noteq> 0
        then Inr (foldl (\<lambda>v datum. push_bit 8 v OR of_nat (of_char datum)) (of_nat (firstByte AND 0x7F)) (tl source))
        else andThen (octalDigits source) (\<lambda>digits.
          if digits = [] then Inr 0
          else case from_chars 8 (2 ^ 64) digits of
              Some v \<Rightarrow> Inr (of_nat v)
            | None \<Rightarrow> Inl (makeError InvalidHeader ''could not parse octal numeric field'')))"

definition calculateChecksum :: "RawRecord \<Rightarrow> u32" where
  "calculateChecksum record =
     foldl (\<lambda>total position.
         if field_offset fieldChecksum \<le> position \<and>
            position < field_offset fieldChecksum + field_length fieldChecksum
         then total + 32
         else total + of_nat (of_char (record ! position)))
       0 [0..<length record]"

definition isZeroRecord :: "RawRecord \<Rightarrow> bool" where
  "isZeroRecord record \<longleftrightarrow> list_all (\<lambda>datum. datum = NUL) record"

subsection \<open>Digits\<close>

lemma digitChar_simps:
  "d < 10 \<Longrightarrow> digitValue (digitChar d) = d" "d < 10 \<Longrightarrow> isDigitOf b (digitChar d) = (d < b)"
  by (simp_all add: digitChar_def digitValue_def isDigitOf_def)

lemma to_chars_not_Nil [simp]: "to_chars b v \<noteq> []"
  by (subst to_chars.simps) simp

lemma to_chars_digits: "2 \<le> b \<Longrightarrow> b \<le> 10 \<Longrightarrow> c \<in> set (to_chars b v) \<Longrightarrow> isDigitOf b c"
proof (induction b v rule: to_chars.induct)
  case (1 b v)
  have "v mod b < 10" using 1(2,3) mod_less_divisor [of b v] by linarith
  moreover have "c \<in> set (if v < b \<or> b < 2 then [digitChar v] else to_chars b (v div b) @ [digitChar (v mod b)])"
    using 1(4) to_chars.simps [of b v] by simp
  ultimately show ?case
    using 1 mod_less_divisor [of b v] by (auto simp: digitChar_simps split: if_splits)
qed

lemma digits_value_append:
  "digits_value b (ds @ es) = digits_value b ds * b ^ length es + digits_value b es"
proof (induction es rule: rev_induct)
  case Nil
  then show ?case by (simp add: digits_value_def)
next
  case (snoc e es)
  then show ?case by (simp add: digits_value_def algebra_simps)
qed

lemma digits_value_to_chars: "2 \<le> b \<Longrightarrow> b \<le> 10 \<Longrightarrow> digits_value b (to_chars b v) = v"
proof (induction b v rule: to_chars.induct)
  case (1 b v)
  have small: "v mod b < 10" using 1(2,3) mod_less_divisor [of b v] by linarith
  show ?case
  proof (cases "v < b")
    case True
    then show ?thesis using 1 small by (subst to_chars.simps) (simp add: digits_value_def digitChar_simps)
  next
    case False
    then show ?thesis using 1 small
      by (subst to_chars.simps) (simp add: digits_value_append, simp add: digits_value_def digitChar_simps)
  qed
qed

lemma digits_value_zeros: "digits_value b (replicate n zero_digit @ ds) = digits_value b ds"
  by (simp add: digits_value_append, induction n) (simp_all add: digits_value_def digitValue_def)

lemma digits_value_bound: "(\<And>c. c \<in> set ds \<Longrightarrow> isDigitOf b c) \<Longrightarrow> digits_value b ds < b ^ length ds"
proof (induction ds rule: rev_induct)
  case Nil
  then show ?case by (simp add: digits_value_def)
next
  case (snoc c ds)
  have "digitValue c < b" using snoc.prems [of c] by (simp add: digitValue_def isDigitOf_def less_diff_conv2)
  moreover have "Suc (digits_value b ds) * b \<le> b ^ length ds * b"
    using snoc.IH snoc.prems by (intro mult_le_mono1) (simp add: Suc_leI)
  ultimately show ?case
    by (simp add: digits_value_append digits_value_def algebra_simps)
qed

lemma length_to_chars: "2 \<le> b \<Longrightarrow> 0 < k \<Longrightarrow> length (to_chars b v) \<le> k \<longleftrightarrow> v < b ^ k"
proof (induction b v arbitrary: k rule: to_chars.induct)
  case (1 b v)
  then obtain j where k: "k = Suc j" by (cases k) auto
  show ?case
  proof (cases "v < b")
    case True
    then have "v < b ^ k" using 1 k by (simp add: less_le_trans)
    then show ?thesis using True k by (subst to_chars.simps) simp
  next
    case False
    have "length (to_chars b (v div b)) \<le> j \<longleftrightarrow> v div b < b ^ j"
      using 1 False by (cases "j = 0") (auto simp: div_eq_0_iff)
    also have "\<dots> \<longleftrightarrow> v < b ^ k" using 1 k by (simp add: div_less_iff_less_mult mult.commute)
    finally show ?thesis using False 1 k by (subst to_chars.simps) simp
  qed
qed

lemma from_chars_to_chars:
  assumes "2 \<le> b" "b \<le> 10" "v < bound" "rest = [] \<or> \<not> isDigitOf b (hd rest)"
  shows "from_chars b bound (replicate n zero_digit @ to_chars b v @ rest) = Some v"
proof -
  have "isDigitOf b c" if "c \<in> set (replicate n zero_digit @ to_chars b v)" for c
    using that assms to_chars_digits [of b c v] by (auto simp: isDigitOf_def)
  then have "takeWhile (isDigitOf b) ((replicate n zero_digit @ to_chars b v) @ rest)
      = (replicate n zero_digit @ to_chars b v) @ takeWhile (isDigitOf b) rest"
    by (rule takeWhile_append2)
  moreover have "takeWhile (isDigitOf b) rest = []" using assms(4) by (cases rest) auto
  ultimately show ?thesis
    using assms by (simp add: from_chars_def digits_value_zeros digits_value_to_chars)
qed

subsection \<open>Numeric fields\<close>

lemma unat_below: "unat (w :: 'a::len word) < 2 ^ LENGTH('a)"
  by (rule unsigned_less)

lemma high_bit: "n < 256 \<Longrightarrow> (n::nat) AND 0x80 \<noteq> 0 \<longleftrightarrow> 128 \<le> n"
  using and_high_bits [of n 7 1] by (auto simp: push_bit_eq_mult div_less_iff_less_mult)

lemma octalDigits_skip:
  assumes "rest = [NUL] \<or> rest = [NUL, CHR '' '']"
  shows "octalDigits (ds @ rest) = octalDigits ds"
  using assms by (induction ds) auto

lemma octalDigits_digits:
  "(\<And>c. c \<in> set ds \<Longrightarrow> isDigitOf 8 c) \<Longrightarrow> octalDigits ds = Inr ds"
proof (induction ds)
  case Nil
  then show ?case by simp
next
  case (Cons c ds)
  have "isDigitOf 8 c" using Cons.prems by simp
  moreover have "\<not> isDigitOf 8 NUL" "\<not> isDigitOf 8 CHR '' ''" by (simp_all add: isDigitOf_def)
  ultimately have "c \<noteq> NUL" "c \<noteq> CHR '' ''" by blast+
  moreover have "octalDigits ds = Inr ds" using Cons.prems by (intro Cons.IH) simp
  ultimately show ?case using \<open>isDigitOf 8 c\<close> by simp
qed

lemma octal_read:
  assumes "unat v < 8 ^ k" "0 < k" "rest = [NUL] \<or> rest = [NUL, CHR '' '']"
  shows "readNumeric (replicate (k - length (to_chars 8 (unat (v::u64)))) zero_digit @ to_chars 8 (unat v) @ rest) = Inr v"
    (is "readNumeric (?ds @ _ @ rest) = _")
proof -
  let ?text = "?ds @ to_chars 8 (unat v)"
  have digits: "isDigitOf 8 c" if "c \<in> set ?text" for c
    using that to_chars_digits [of 8 c "unat v"] by (auto simp: isDigitOf_def)
  have "octalDigits (?text @ rest) = octalDigits ?text"
    using assms(3) by (rule octalDigits_skip)
  also have "\<dots> = Inr ?text" using digits by (rule octalDigits_digits)
  finally have read: "octalDigits (?text @ rest) = Inr ?text" .
  have "isDigitOf 8 ((?text @ rest) ! 0)" using digits [of "?text ! 0"] by (simp add: nth_append del: append_assoc)
  then have "(of_char ((?text @ rest) ! 0) :: nat) AND 0x80 = 0"
    using high_bit [of "of_char ((?text @ rest) ! 0)"] by (simp add: isDigitOf_def)
  moreover have "from_chars 8 (2 ^ 64) ?text = Some (unat v)"
    using from_chars_to_chars [of 8 "unat v" "2 ^ 64" "[]"] unsigned_less [of v] by simp
  ultimately show ?thesis
    using read by (simp add: readNumeric_def Let_def)
qed

lemma bigEndianBytes_length [simp]: "length (bigEndianBytes n v) = n"
  by (induction n arbitrary: v) simp_all

lemma bigEndianBytes_first:
  "bigEndianBytes (Suc n) v = char_of (unat (drop_bit (8 * n) v AND 0xFF)) # bigEndianBytes n v"
proof (induction n arbitrary: v)
  case 0
  then show ?case by simp
next
  case (Suc n)
  have "bigEndianBytes (Suc (Suc n)) v = bigEndianBytes (Suc n) (drop_bit 8 v) @ [char_of (unat (v AND 0xFF))]"
    by (simp only: bigEndianBytes.simps)
  also have "\<dots> = char_of (unat (drop_bit (8 * n) (drop_bit 8 v) AND 0xFF))
      # bigEndianBytes n (drop_bit 8 v) @ [char_of (unat (v AND 0xFF))]"
    by (simp only: Suc.IH append_Cons)
  finally show ?case by (simp add: drop_bit_drop_bit add.commute)
qed

lemma byte_of_word: "of_char (char_of (unat ((v::u64) AND 0xFF))) = unat (v AND 0xFF)"
proof -
  have "v AND 0xFF = take_bit 8 v" by (simp add: take_bit_eq_mask mask_numeral)
  then have "unat (v AND 0xFF) < 256"
    using take_bit_nat_less_exp [of 8 "unat v"] by (simp only: unsigned_take_bit_eq) simp
  then show ?thesis by simp
qed

lemma bigEndian_read:
  "foldl (\<lambda>v datum. push_bit 8 v OR of_nat (of_char datum)) a (bigEndianBytes n v)
     = push_bit (8 * n) a OR take_bit (8 * n) (v::u64)"
proof (induction n arbitrary: v)
  case 0
  then show ?case by simp
next
  case (Suc n)
  have "push_bit 8 (push_bit (8 * n) a OR take_bit (8 * n) (drop_bit 8 v)) OR (v AND 0xFF)
      = push_bit (8 * Suc n) a OR take_bit (8 * Suc n) v"
  proof -
    have low: "v AND 0xFF = take_bit 8 v" by (simp add: take_bit_eq_mask mask_numeral)
    show ?thesis unfolding low by (rule bit_word_eqI) (auto simp: bit_simps)
  qed
  then show ?case
    using Suc.IH [of "drop_bit 8 v"]
    by (simp only: bigEndianBytes.simps foldl_append foldl.simps byte_of_word of_nat_unat ucast_id)
qed

lemma first_byte_marked:
  "((of_char (char_of ((b::nat) OR 0x80)) :: nat) AND 0x80 \<noteq> 0) \<and>
   (of_char (char_of (b OR 0x80)) :: nat) AND 0x7F = b AND 0x7F"
proof -
  have "(of_char (char_of (b OR 0x80)) :: nat) = take_bit 8 (b OR 0x80)"
    by (simp add: take_bit_eq_mod)
  moreover have "bit (take_bit 8 (b OR 0x80) AND 0x80) 7" by (simp add: bit_simps)
  then have "take_bit 8 (b OR 0x80) AND 0x80 \<noteq> 0" by (cases "take_bit 8 (b OR 0x80) AND 0x80 = 0") simp_all
  moreover have "take_bit 7 (take_bit 8 (b OR 0x80)) = take_bit 7 b"
    by (simp add: take_bit_or)
  then have "take_bit 8 (b OR 0x80) AND 0x7F = b AND 0x7F"
    by (simp only: take_bit_eq_mod and_masks) simp
  ultimately show ?thesis by auto
qed

lemma numericContents_length [simp]: "0 < n \<Longrightarrow> length (numericContents n v) = n"
  by (auto simp: numericContents_def writeOctalNumeric_def writeBase256Numeric_def Let_def split: option.splits)

lemma base256_read:
  assumes "8 * n + 7 \<ge> 64 \<or> unat v < 2 ^ (8 * n + 7)"
  shows "readNumeric (writeBase256Numeric (Suc n) v) = Inr (v::u64)"
proof -
  let ?b = "unat (drop_bit (8 * n) v AND 0xFF)"
  have target: "writeBase256Numeric (Suc n) v = char_of (?b OR 0x80) # bigEndianBytes n v"
    by (simp only: writeBase256Numeric_def Let_def bigEndianBytes_first byte_of_word nth_Cons_0 list_update_code)
  have "(of_nat (?b AND 0x7F) :: u64) = of_nat (unat (drop_bit (8 * n) v AND 0xFF AND 0x7F))"
    by (simp add: unsigned_and_eq and.assoc)
  also have "\<dots> = take_bit 7 (drop_bit (8 * n) v)"
    by (simp add: and.assoc take_bit_eq_mask mask_numeral)
  finally have first: "(of_nat (?b AND 0x7F) :: u64) = take_bit 7 (drop_bit (8 * n) v)" .
  have "push_bit (8 * n) (take_bit 7 (drop_bit (8 * n) v)) OR take_bit (8 * n) v = take_bit (8 * n + 7) v"
    by (rule bit_word_eqI) (auto simp: bit_simps)
  moreover have "unat v < 2 ^ (8 * n + 7)"
    using assms unat_below [of v] power_increasing [of 64 "8 * n + 7" "2::nat"] by auto
  then have "unat (take_bit (8 * n + 7) v) = unat v"
    by (simp add: unsigned_take_bit_eq take_bit_nat_eq_self)
  then have "take_bit (8 * n + 7) v = v" by (simp only: word_unat_eq_iff)
  ultimately show ?thesis
    using first_byte_marked [of ?b]
    by (simp only: target readNumeric_def Let_def nth_Cons_0 list.sel list.distinct if_True if_False first bigEndian_read)
      simp
qed

lemma numeric_read:
  assumes "1 < n" "8 * n > 64 \<or> unat v < 2 ^ (8 * n - 1)"
  shows "readNumeric (numericContents n v) = Inr v"
proof (cases "length (to_chars 8 (unat v)) \<le> n - 1")
  case True
  then have "numericContents n v
      = replicate (n - 1 - length (to_chars 8 (unat v))) zero_digit @ to_chars 8 (unat v) @ [NUL]"
    using assms(1) by (simp add: numericContents_def writeOctalNumeric_def Let_def)
  then show ?thesis
    using octal_read [of v "n - 1" "[NUL]"] True assms(1) length_to_chars [of 8 "n - 1" "unat v"] by simp
next
  case False
  then have "numericContents n v = writeBase256Numeric (Suc (n - 1)) v"
    using assms(1) by (simp add: numericContents_def writeOctalNumeric_def Let_def)
  moreover have e: "8 * (n - 1) + 7 = 8 * n - 1" using assms(1) by simp
  moreover have "8 * n - 1 \<ge> 64 \<or> unat v < 2 ^ (8 * n - 1)" using assms(2) by auto
  ultimately show ?thesis
    using base256_read [of "n - 1" v] by simp
qed

lemma numeric_read_32: "n = 8 \<or> n = 12 \<Longrightarrow> readNumeric (numericContents n (ucast (v::u32))) = Inr (ucast v)"
proof (rule numeric_read)
  assume "n = 8 \<or> n = 12"
  moreover have "unat (ucast v :: u64) < 2 ^ 32"
    using unat_below [of v] by (simp add: unsigned_ucast_eq take_bit_eq_mod)
  ultimately show "8 * n > 64 \<or> unat (ucast v :: u64) < 2 ^ (8 * n - 1)"
    by (auto elim: less_trans)
qed auto

lemma checksum_read:
  assumes "unat c < 8 ^ 6"
  shows "readNumeric (checksumContents c) = Inr (ucast c) \<and> length (checksumContents c) = 8"
proof -
  have "unat (ucast c :: u64) = unat c"
    using unat_below [of c] by (simp add: unsigned_ucast_eq take_bit_eq_mod)
  moreover have "length (to_chars 8 (unat c)) \<le> 6" using assms length_to_chars [of 8 6 "unat c"] by simp
  ultimately show ?thesis
    using octal_read [of "ucast c" 6 "[NUL, CHR '' '']"] assms by (simp add: checksumContents_def Let_def)
qed

subsection \<open>Texts and spans\<close>

lemma stringContents_length [simp]: "length (stringContents n text) = n"
  by (simp add: stringContents_def Let_def)

lemma string_read:
  assumes "NUL \<notin> set text" "length text \<le> n"
  shows "readTerminatedString (stringContents n text) = text"
proof -
  have "takeWhile (\<lambda>c. c \<noteq> NUL) (text @ replicate (n - length text) NUL)
      = text @ takeWhile (\<lambda>c. c \<noteq> NUL) (replicate (n - length text) NUL)"
    using assms(1) by (intro takeWhile_append2) auto
  then show ?thesis using assms(2) by (simp add: readTerminatedString_def stringContents_def Let_def)
qed

definition in_record :: "FieldLayout \<Rightarrow> bool" where
  "in_record f \<longleftrightarrow> field_offset f + field_length f \<le> recordSize"

definition apart :: "FieldLayout \<Rightarrow> FieldLayout \<Rightarrow> bool" where
  "apart f g \<longleftrightarrow> field_offset f + field_length f \<le> field_offset g \<or>
     field_offset g + field_length g \<le> field_offset f"

lemma putField_length:
  "length r = recordSize \<Longrightarrow> in_record f \<Longrightarrow> length c = field_length f \<Longrightarrow> length (putField r f c) = recordSize"
  by (simp add: putField_def in_record_def)

lemma putField_nth:
  assumes "length r = recordSize" "in_record f" "length c = field_length f" "p < recordSize"
  shows "putField r f c ! p =
    (if field_offset f \<le> p \<and> p < field_offset f + field_length f then c ! (p - field_offset f) else r ! p)"
  using assms by (auto simp: putField_def in_record_def nth_append min_def)

lemma fieldSpan_put:
  assumes "length r = recordSize" "in_record f" "length c = field_length f"
  shows "fieldSpan (putField r f c) f = c"
  using assms by (simp add: fieldSpan_def putField_def in_record_def)

lemma fieldSpan_apart:
  assumes "length r = recordSize" "in_record f" "in_record g" "length c = field_length f" "apart f g"
  shows "fieldSpan (putField r f c) g = fieldSpan r g"
proof (rule nth_equalityI)
  have len: "length (putField r f c) = recordSize" using assms putField_length by blast
  show "length (fieldSpan (putField r f c) g) = length (fieldSpan r g)"
    using assms len by (simp add: fieldSpan_def)
  fix i assume "i < length (fieldSpan (putField r f c) g)"
  then have i: "i < field_length g" by (simp add: fieldSpan_def)
  then have "field_offset g + i < recordSize" using assms(3) by (simp add: in_record_def)
  then show "fieldSpan (putField r f c) g ! i = fieldSpan r g ! i"
    using assms i len putField_nth [OF assms(1,2,4), of "field_offset g + i"]
    by (auto simp: fieldSpan_def apart_def in_record_def)
qed

subsection \<open>The checksum\<close>

definition checksum_term :: "RawRecord \<Rightarrow> nat \<Rightarrow> nat" where
  "checksum_term r p = (if 148 \<le> p \<and> p < 156 then 32 else of_char (r ! p))"

lemma calculateChecksum_sum: "calculateChecksum r = of_nat (\<Sum>p<length r. checksum_term r p)"
proof -
  have "foldl (\<lambda>total position.
         if field_offset fieldChecksum \<le> position \<and>
            position < field_offset fieldChecksum + field_length fieldChecksum
         then total + 32 else total + of_nat (of_char (r ! position))) (0::u32) [0..<n]
      = of_nat (\<Sum>p<n. checksum_term r p)" for n
    by (induction n) (auto simp: fieldChecksum_def checksum_term_def)
  then show ?thesis by (simp add: calculateChecksum_def)
qed

lemma checksum_term_bound: "checksum_term r p \<le> 255"
proof -
  have "(of_char (r ! p) :: nat) \<le> 255" using nat_of_char_less_256 [of "r ! p"] by linarith
  then show ?thesis by (simp add: checksum_term_def)
qed

lemma checksum_sum_bound: "length r = recordSize \<Longrightarrow> (\<Sum>p<length r. checksum_term r p) < 8 ^ 6"
  using sum_bounded_above [of "{..<recordSize}" "checksum_term r" 255] checksum_term_bound
  by (simp add: recordSize_def)

lemma calculateChecksum_unat:
  "length r = recordSize \<Longrightarrow> unat (calculateChecksum r) = (\<Sum>p<length r. checksum_term r p)"
  using checksum_sum_bound [of r] by (simp add: calculateChecksum_sum unsigned_of_nat take_bit_nat_eq_self del: of_nat_sum)

lemma calculateChecksum_bound: "length r = recordSize \<Longrightarrow> unat (calculateChecksum r) < 8 ^ 6"
  using checksum_sum_bound [of r] by (simp add: calculateChecksum_unat)

lemma checksum_field_free:
  assumes "length r = recordSize" "length c = 8"
  shows "calculateChecksum (putField r fieldChecksum c) = calculateChecksum r"
proof -
  have f: "in_record fieldChecksum" "length c = field_length fieldChecksum"
    using assms by (simp_all add: in_record_def fieldChecksum_def recordSize_def)
  have "checksum_term (putField r fieldChecksum c) p = checksum_term r p" if "p < recordSize" for p
    using putField_nth [OF assms(1) f that] by (auto simp: checksum_term_def fieldChecksum_def)
  then show ?thesis
    using assms(1) putField_length [OF assms(1) f] by (simp add: calculateChecksum_sum)
qed

text \<open>Changing one byte outside the checksum field changes the checksum.\<close>

lemma checksum_detects_byte:
  assumes "length r = recordSize" "i < recordSize" "i < 148 \<or> 156 \<le> i" "b \<noteq> r ! i"
  shows "calculateChecksum (r[i := b]) \<noteq> calculateChecksum r"
proof -
  have others: "(\<Sum>p \<in> {..<recordSize} - {i}. checksum_term (r[i := b]) p)
      = (\<Sum>p \<in> {..<recordSize} - {i}. checksum_term r p)"
    by (intro sum.cong) (auto simp: checksum_term_def)
  have "checksum_term (r[i := b]) i \<noteq> checksum_term r i"
    using assms by (auto simp: checksum_term_def of_char_eq_iff)
  then have "(\<Sum>p<recordSize. checksum_term (r[i := b]) p) \<noteq> (\<Sum>p<recordSize. checksum_term r p)"
    using others assms(2) by (simp add: sum.remove [of _ i])
  then have "unat (calculateChecksum (r[i := b])) \<noteq> unat (calculateChecksum r)"
    using assms(1) by (simp add: calculateChecksum_unat)
  then show ?thesis by auto
qed

end
