(* ===== verification/Tar_Header.thy ===== *)
theory Tar_Header
  imports Tar_Fields Scan_Tree
begin

text \<open>
  \<open>tar_archive/header.hpp\<close>, \<open>header.cpp\<close> and \<open>member_header.hpp\<close>: the header records of a member, the PAX extended
  header that carries what the record cannot, and their parsers. \<open>buildRecords\<close> is partial: the search of the
  length of a PAX item is a loop of the source with no bound of its own, \<open>while_option\<close> here, so that a search that
  does not end is \<open>None\<close>; \<open>pax_length_found\<close> shows that it always ends. The only library call that is a parameter is
  \<open>std::stod\<close> with the conversion of its result to \<open>uint64_t\<close>: \<open>stod\<close> is \<open>None\<close> where it throws.
\<close>

subsection \<open>Headers\<close>

datatype TypeFlag =
    RegularFileAlternate | RegularFile | HardLink | SymbolicLink | CharacterSpecial | BlockSpecial
  | Directory_flag | FifoSpecial | ContiguousFile | GlobalExtendedHeader | ExtendedHeader
  | Unlisted char

text \<open>The enumeration has the type \<open>char\<close>, and a record can hold a flag it does not list.\<close>

fun typeFlagChar :: "TypeFlag \<Rightarrow> char" where
  "typeFlagChar RegularFileAlternate = NUL"
| "typeFlagChar RegularFile = CHR ''0''"
| "typeFlagChar HardLink = CHR ''1''"
| "typeFlagChar SymbolicLink = CHR ''2''"
| "typeFlagChar CharacterSpecial = CHR ''3''"
| "typeFlagChar BlockSpecial = CHR ''4''"
| "typeFlagChar Directory_flag = CHR ''5''"
| "typeFlagChar FifoSpecial = CHR ''6''"
| "typeFlagChar ContiguousFile = CHR ''7''"
| "typeFlagChar GlobalExtendedHeader = CHR ''g''"
| "typeFlagChar ExtendedHeader = CHR ''x''"
| "typeFlagChar (Unlisted c) = c"

definition typeFlagOf :: "char \<Rightarrow> TypeFlag" where
  "typeFlagOf c =
     (if c = NUL then RegularFileAlternate else
      if c = CHR ''0'' then RegularFile else
      if c = CHR ''1'' then HardLink else
      if c = CHR ''2'' then SymbolicLink else
      if c = CHR ''3'' then CharacterSpecial else
      if c = CHR ''4'' then BlockSpecial else
      if c = CHR ''5'' then Directory_flag else
      if c = CHR ''6'' then FifoSpecial else
      if c = CHR ''7'' then ContiguousFile else
      if c = CHR ''g'' then GlobalExtendedHeader else
      if c = CHR ''x'' then ExtendedHeader else
      Unlisted c)"

fun listedFlag :: "TypeFlag \<Rightarrow> bool" where
  "listedFlag (Unlisted c) = False"
| "listedFlag flag = True"

text \<open>\<open>std::filesystem::perms\<close> is an unsigned number, with one value for unknown permissions.\<close>

definition perms_unknown :: u32 where "perms_unknown = 0xFFFF"

record MemberHeader =
  mh_path :: string
  mh_type :: FileType
  mh_size :: u64
  mh_uid :: u32
  mh_gid :: u32
  mh_owner :: string
  mh_group :: string
  mh_permissions :: u32
  mh_mtime :: u64
  mh_linkTarget :: "string option"

definition defaultHeader :: MemberHeader where
  "defaultHeader = \<lparr>mh_path = [], mh_type = Regular, mh_size = 0, mh_uid = 0, mh_gid = 0, mh_owner = [], mh_group = [],
     mh_permissions = perms_unknown, mh_mtime = 0, mh_linkTarget = None\<rparr>"

record BuiltEntry =
  built_records :: "RawRecord list"
  built_payloadSize :: u64

record ParsedUstar =
  pu_name :: string
  pu_prefix :: string
  pu_permissions :: u32
  pu_uid :: u32
  pu_gid :: u32
  pu_size :: u64
  pu_mtime :: u64
  pu_typeflag :: TypeFlag
  pu_linkName :: string
  pu_uName :: string
  pu_gName :: string
  pu_hasUstarMagic :: bool

record PaxOverrides =
  po_path :: "string option"
  po_linkPath :: "string option"
  po_size :: "u64 option"
  po_mtime :: "u64 option"
  po_uid :: "u32 option"
  po_gid :: "u32 option"
  po_uName :: "string option"
  po_gName :: "string option"

definition noOverrides :: PaxOverrides where
  "noOverrides = \<lparr>po_path = None, po_linkPath = None, po_size = None, po_mtime = None, po_uid = None, po_gid = None,
     po_uName = None, po_gName = None\<rparr>"

fun typeFlagFromFileType :: "FileType \<Rightarrow> TarError + TypeFlag" where
  "typeFlagFromFileType Regular = Inr RegularFile"
| "typeFlagFromFileType Directory = Inr Directory_flag"
| "typeFlagFromFileType Symlink = Inr SymbolicLink"
| "typeFlagFromFileType CharDevice = Inr CharacterSpecial"
| "typeFlagFromFileType BlockDevice = Inr BlockSpecial"
| "typeFlagFromFileType Fifo = Inr FifoSpecial"
| "typeFlagFromFileType Socket = Inl (makeError UnsupportedFileType ''file type has no USTAR representation'')"
| "typeFlagFromFileType Special = Inl (makeError UnsupportedFileType ''file type has no USTAR representation'')"
| "typeFlagFromFileType Unknown = Inl (makeError UnsupportedFileType ''file type has no USTAR representation'')"

fun fileTypeFromTypeFlag :: "TypeFlag \<Rightarrow> FileType" where
  "fileTypeFromTypeFlag RegularFile = Regular"
| "fileTypeFromTypeFlag RegularFileAlternate = Regular"
| "fileTypeFromTypeFlag ContiguousFile = Regular"
| "fileTypeFromTypeFlag HardLink = Regular"
| "fileTypeFromTypeFlag Directory_flag = Directory"
| "fileTypeFromTypeFlag SymbolicLink = Symlink"
| "fileTypeFromTypeFlag CharacterSpecial = CharDevice"
| "fileTypeFromTypeFlag BlockSpecial = BlockDevice"
| "fileTypeFromTypeFlag FifoSpecial = Fifo"
| "fileTypeFromTypeFlag ExtendedHeader = Unknown"
| "fileTypeFromTypeFlag GlobalExtendedHeader = Unknown"
| "fileTypeFromTypeFlag (Unlisted c) = Unknown"

subsection \<open>Building a record\<close>

definition hasNonAsciiByte :: "string \<Rightarrow> bool" where
  "hasNonAsciiByte text \<longleftrightarrow> list_ex (\<lambda>character. (of_char character :: nat) \<ge> 0x80) text"

fun collapseSlashes :: "bool \<Rightarrow> string \<Rightarrow> string" where
  "collapseSlashes previousWasSlash [] = []"
| "collapseSlashes previousWasSlash (character # rest) =
     (if character = slash \<and> previousWasSlash then collapseSlashes previousWasSlash rest
      else character # collapseSlashes (character = slash) rest)"

definition normaliseArchivePath :: "string \<Rightarrow> string" where
  "normaliseArchivePath text = collapseSlashes False (dropWhile (\<lambda>character. character = slash) text)"

text \<open>The loop over the slashes of the path, from the position where the rest first fits the name field.\<close>

definition trySplitUstarPath :: "string \<Rightarrow> bool \<Rightarrow> (string \<times> string) option" where
  "trySplitUstarPath path markDirectory =
     (let nameSuffix = (if markDirectory then ''/'' else '''') in
      if length path + length nameSuffix \<le> field_length fieldName then Some ([], path @ nameSuffix)
      else if length path > field_length fieldPrefix + 1 + field_length fieldName then None
      else
        let start = (if length path > field_length fieldName then length path - field_length fieldName else 0);
            splitIndex = start + length (takeWhile (\<lambda>character. character \<noteq> slash) (drop start path))
        in map_option (\<lambda>splitIndex. (take splitIndex path, drop (splitIndex + 1) path @ nameSuffix))
             (find (\<lambda>splitIndex. path ! splitIndex = slash \<and>
                 take splitIndex path \<noteq> [] \<and> length (take splitIndex path) \<le> field_length fieldPrefix \<and>
                 length (drop (splitIndex + 1) path @ nameSuffix) \<le> field_length fieldName)
               [splitIndex..<length path]))"

definition modeOf :: "u32 \<Rightarrow> TypeFlag \<Rightarrow> u32" where
  "modeOf permissions typeflag =
     (if permissions \<noteq> perms_unknown then permissions AND 0xFFF
      else if typeflag = Directory_flag then 0x1ED
      else if typeflag = SymbolicLink then 0x1FF
      else 0x1A4)"

definition populateUstarHeader ::
  "string \<Rightarrow> string \<Rightarrow> MemberHeader \<Rightarrow> TypeFlag \<Rightarrow> u64 \<Rightarrow> string \<Rightarrow> RawRecord" where
  "populateUstarHeader name namePrefix meta typeflag payloadSize linkTarget =
     (let r = replicate recordSize NUL;
          r = writeString r fieldName name;
          r = writeString r fieldPrefix namePrefix;
          r = writeNumeric r fieldMode (ucast (modeOf (mh_permissions meta) typeflag));
          r = writeNumeric r fieldUid (ucast (mh_uid meta));
          r = writeNumeric r fieldGid (ucast (mh_gid meta));
          r = writeNumeric r fieldSize payloadSize;
          r = writeNumeric r fieldMtime (mh_mtime meta);
          r = putField r fieldTypeFlag [typeFlagChar typeflag];
          r = writeString r fieldLinkName linkTarget;
          r = writeString r fieldMagic ustarMagic;
          r = putField r fieldVersion [ustarVersion ! 0, ustarVersion ! 1];
          r = writeString r fieldUName (mh_owner meta);
          r = writeString r fieldGName (mh_group meta);
          r = writeNumeric r fieldDevMajor 0;
          r = writeNumeric r fieldDevMinor 0;
          r = putField r fieldChecksum (replicate (field_length fieldChecksum) (CHR '' ''))
      in writeChecksum r (calculateChecksum r))"

definition fullName :: "ParsedUstar \<Rightarrow> string" where
  "fullName u = (if pu_prefix u = [] then pu_name u else pu_prefix u @ ''/'' @ pu_name u)"

definition parseRecord :: "RawRecord \<Rightarrow> TarError + ParsedUstar" where
  "parseRecord r =
     andThen (readNumeric (fieldSpan r fieldChecksum)) (\<lambda>checksumStored.
     if ucast (calculateChecksum r) \<noteq> checksumStored
     then Inl (makeError ChecksumMismatch ''USTAR record checksum does not match'')
     else andThen (readNumeric (fieldSpan r fieldMode)) (\<lambda>modeValue.
     andThen (readNumeric (fieldSpan r fieldUid)) (\<lambda>uidValue.
     andThen (readNumeric (fieldSpan r fieldGid)) (\<lambda>gidValue.
     andThen (readNumeric (fieldSpan r fieldSize)) (\<lambda>sizeValue.
     andThen (readNumeric (fieldSpan r fieldMtime)) (\<lambda>mtimeValue.
     let magic = readTerminatedString (fieldSpan r fieldMagic) in
     Inr \<lparr>pu_name = readTerminatedString (fieldSpan r fieldName),
       pu_prefix = readTerminatedString (fieldSpan r fieldPrefix),
       pu_permissions = ucast (modeValue AND 0xFFF),
       pu_uid = ucast uidValue,
       pu_gid = ucast gidValue,
       pu_size = sizeValue,
       pu_mtime = mtimeValue,
       pu_typeflag = typeFlagOf (r ! field_offset fieldTypeFlag),
       pu_linkName = readTerminatedString (fieldSpan r fieldLinkName),
       pu_uName = readTerminatedString (fieldSpan r fieldUName),
       pu_gName = readTerminatedString (fieldSpan r fieldGName),
       pu_hasUstarMagic = (magic = ustarMagic)\<rparr>))))))"

subsection \<open>PAX extended headers\<close>

text \<open>The item "length key=value" counts its own length, which the source searches upwards.\<close>

definition paxRecordLength :: "nat \<Rightarrow> nat option" where
  "paxRecordLength suffixSize =
     while_option (\<lambda>len. length (to_chars 10 len) + suffixSize \<noteq> len) Suc (suffixSize + 1)"

fun buildPaxPayload :: "(string \<times> string) list \<Rightarrow> string option" where
  "buildPaxPayload [] = Some []"
| "buildPaxPayload ((key, text) # entries) =
     (let suffix = '' '' @ key @ ''='' @ text @ [CHR 0x0A] in
      case paxRecordLength (length suffix) of
        None \<Rightarrow> None
      | Some len \<Rightarrow> map_option (\<lambda>rest. to_chars 10 len @ suffix @ rest) (buildPaxPayload entries))"

definition parseDecimal :: "nat \<Rightarrow> string \<Rightarrow> TarError + nat" where
  "parseDecimal bound digits =
     (case from_chars 10 bound digits of
        Some v \<Rightarrow> Inr v
      | None \<Rightarrow> Inl (makeError InvalidHeader (''malformed decimal value: '' @ digits)))"

record PaxRecordSlice =
  slice_key :: string
  slice_value :: string
  recordLength :: nat

definition findByte :: "string \<Rightarrow> nat \<Rightarrow> char \<Rightarrow> nat" where
  "findByte payload start target =
     (case find_char target (drop start payload) of Some i \<Rightarrow> start + i | None \<Rightarrow> length payload)"

definition sliceToString :: "string \<Rightarrow> nat \<Rightarrow> nat \<Rightarrow> string" where
  "sliceToString payload start stop = take (stop - start) (drop start payload)"

text \<open>Sums of \<open>size_t\<close> wrap. A length of \<open>2 ^ 64 - cursor\<close> makes \<open>recordEnd\<close> zero, and the byte before it is looked
  up at index \<open>2 ^ 64 - 1\<close>.\<close>

definition extractPaxRecord :: "string \<Rightarrow> nat \<Rightarrow> TarFailure + PaxRecordSlice" where
  "extractPaxRecord payload cursor =
     (let spacePosition = findByte payload cursor (CHR '' '') in
      if spacePosition = length payload
      then Inl (TarFailed (makeError InvalidHeader ''PAX record missing length delimiter''))
      else case parseDecimal (2 ^ 64) (sliceToString payload cursor spacePosition) of
          Inl e \<Rightarrow> Inl (TarFailed e)
        | Inr len \<Rightarrow>
          if len = 0 \<or> (cursor + len) mod 2 ^ 64 > length payload
          then Inl (TarFailed (makeError InvalidHeader ''PAX record length out of range''))
          else let recordEnd = (cursor + len) mod 2 ^ 64 in
            if recordEnd = 0 then Inl OutOfBounds
            else if payload ! (recordEnd - 1) \<noteq> CHR 0x0A
            then Inl (TarFailed (makeError InvalidHeader ''PAX record missing trailing newline''))
            else
              let keyStart = spacePosition + 1; equalsPosition = findByte payload keyStart (CHR ''='') in
              if equalsPosition \<ge> recordEnd - 1
              then Inl (TarFailed (makeError InvalidHeader (''PAX record missing '' @ [CHR 0x27, CHR ''='', CHR 0x27])))
              else Inr \<lparr>slice_key = sliceToString payload keyStart equalsPosition,
                slice_value = sliceToString payload (equalsPosition + 1) (recordEnd - 1),
                recordLength = len\<rparr>)"

definition applyPaxRecord :: "(string \<Rightarrow> u64 option) \<Rightarrow> PaxRecordSlice \<Rightarrow> PaxOverrides \<Rightarrow> TarError + PaxOverrides" where
  "applyPaxRecord stod item target =
     (if slice_key item = ''path'' then Inr (target\<lparr>po_path := Some (slice_value item)\<rparr>)
      else if slice_key item = ''linkpath'' then Inr (target\<lparr>po_linkPath := Some (slice_value item)\<rparr>)
      else if slice_key item = ''size''
      then andThen (parseDecimal (2 ^ 64) (slice_value item)) (\<lambda>v. Inr (target\<lparr>po_size := Some (of_nat v)\<rparr>))
      else if slice_key item = ''mtime''
      then (case stod (slice_value item) of
          Some seconds \<Rightarrow> Inr (target\<lparr>po_mtime := Some seconds\<rparr>)
        | None \<Rightarrow> Inl (makeError InvalidHeader ''malformed PAX mtime''))
      else if slice_key item = ''uid''
      then andThen (parseDecimal (2 ^ 32) (slice_value item)) (\<lambda>v. Inr (target\<lparr>po_uid := Some (of_nat v)\<rparr>))
      else if slice_key item = ''gid''
      then andThen (parseDecimal (2 ^ 32) (slice_value item)) (\<lambda>v. Inr (target\<lparr>po_gid := Some (of_nat v)\<rparr>))
      else if slice_key item = ''uname'' then Inr (target\<lparr>po_uName := Some (slice_value item)\<rparr>)
      else if slice_key item = ''gname'' then Inr (target\<lparr>po_gName := Some (slice_value item)\<rparr>)
      else Inr target)"

lemma extractPaxRecord_advances:
  assumes "extractPaxRecord payload cursor = Inr item"
  shows "cursor < (cursor + recordLength item) mod 2 ^ 64" "(cursor + recordLength item) mod 2 ^ 64 \<le> length payload"
proof -
  let ?stop = "(cursor + recordLength item) mod 2 ^ 64"
  let ?space = "findByte payload cursor (CHR '' '')"
  have "?stop \<le> length payload \<and> findByte payload (?space + 1) (CHR ''='') < ?stop - 1 \<and> ?space \<noteq> length payload"
    using assms by (auto simp: extractPaxRecord_def Let_def split: if_splits sum.splits)
  moreover have "cursor \<le> ?space \<or> ?space = length payload"
    by (auto simp: findByte_def split: option.splits)
  moreover have "?space + 1 \<le> findByte payload (?space + 1) (CHR ''='') \<or>
      findByte payload (?space + 1) (CHR ''='') = length payload"
    by (auto simp: findByte_def split: option.splits)
  ultimately show "cursor < ?stop" "?stop \<le> length payload" by auto
qed

text \<open>The loop over the items ends because every item it takes moves the cursor on.\<close>

function parsePaxFrom :: "(string \<Rightarrow> u64 option) \<Rightarrow> string \<Rightarrow> nat \<Rightarrow> PaxOverrides \<Rightarrow> TarFailure + PaxOverrides" where
  "parsePaxFrom stod payload cursor overrides =
     (if cursor < length payload
      then case extractPaxRecord payload cursor of
          Inl e \<Rightarrow> Inl e
        | Inr item \<Rightarrow>
          (case applyPaxRecord stod item overrides of
             Inl e \<Rightarrow> Inl (TarFailed e)
           | Inr overrides' \<Rightarrow> parsePaxFrom stod payload ((cursor + recordLength item) mod 2 ^ 64) overrides')
      else Inr overrides)"
  by pat_completeness auto
termination
  by (relation "measure (\<lambda>(_, payload, cursor, _). length payload - cursor)")
    (auto dest: extractPaxRecord_advances)

declare parsePaxFrom.simps [simp del]

definition parsePaxPayload :: "(string \<Rightarrow> u64 option) \<Rightarrow> string \<Rightarrow> TarFailure + PaxOverrides" where
  "parsePaxPayload stod payload = parsePaxFrom stod payload 0 noOverrides"

subsection \<open>Members\<close>

definition valueOr :: "'a option \<Rightarrow> 'a \<Rightarrow> 'a" where
  "valueOr x d = (case x of Some v \<Rightarrow> v | None \<Rightarrow> d)"

definition assembleMemberHeader :: "ParsedUstar \<Rightarrow> PaxOverrides \<Rightarrow> MemberHeader" where
  "assembleMemberHeader ustar overrides =
     (let chosenPath = valueOr (po_path overrides) (fullName ustar);
          chosenPath = (if pu_typeflag ustar = Directory_flag \<and> chosenPath \<noteq> [] \<and> last chosenPath = slash
            then butlast chosenPath else chosenPath)
      in \<lparr>mh_path = chosenPath,
          mh_type = fileTypeFromTypeFlag (pu_typeflag ustar),
          mh_size = valueOr (po_size overrides) (pu_size ustar),
          mh_uid = valueOr (po_uid overrides) (pu_uid ustar),
          mh_gid = valueOr (po_gid overrides) (pu_gid ustar),
          mh_owner = valueOr (po_uName overrides) (pu_uName ustar),
          mh_group = valueOr (po_gName overrides) (pu_gName ustar),
          mh_permissions = pu_permissions ustar,
          mh_mtime = valueOr (po_mtime overrides) (pu_mtime ustar),
          mh_linkTarget = (if pu_typeflag ustar = SymbolicLink
            then Some (valueOr (po_linkPath overrides) (pu_linkName ustar)) else None)\<rparr>)"

text \<open>The records of the PAX payload: the payload in slices of one record, the last filled up with zero bytes.\<close>

definition payloadRecords :: "string \<Rightarrow> RawRecord list" where
  "payloadRecords payload =
     (let paxRecordCount = (length payload + recordSize - 1) div recordSize in
      map (\<lambda>recordIndex.
          let sliceOffset = recordIndex * recordSize; sliceLength = min recordSize (length payload - sliceOffset) in
          take sliceLength (drop sliceOffset payload) @ replicate (recordSize - sliceLength) NUL)
        [0..<paxRecordCount])"

definition paxHeaderRecord :: "MemberHeader \<Rightarrow> string \<Rightarrow> string \<Rightarrow> RawRecord" where
  "paxHeaderRecord meta truncatedPath paxPayload =
     (let paxMeta = defaultHeader\<lparr>mh_permissions := 0x1A4, mh_mtime := mh_mtime meta, mh_owner := mh_owner meta,
            mh_group := mh_group meta, mh_uid := mh_uid meta, mh_gid := mh_gid meta,
            mh_size := of_nat (length paxPayload)\<rparr>;
          paxName = ''PaxHeaders/'' @ (if truncatedPath = [] then ''entry'' else truncatedPath);
          paxSplit = trySplitUstarPath paxName False;
          paxNameField = (case paxSplit of Some (_, name) \<Rightarrow> name | None \<Rightarrow> truncatedUtf8 paxName (field_length fieldName));
          paxPrefixField = (case paxSplit of Some (namePrefix, _) \<Rightarrow> namePrefix | None \<Rightarrow> [])
      in populateUstarHeader paxNameField paxPrefixField paxMeta ExtendedHeader (of_nat (length paxPayload)) [])"

definition paxEntriesOf :: "string \<Rightarrow> string \<Rightarrow> bool \<Rightarrow> u64 \<Rightarrow> (string \<times> string) list" where
  "paxEntriesOf normalisedPath linkTargetText isDirectory payloadSize =
     (if trySplitUstarPath normalisedPath isDirectory = None \<or> hasNonAsciiByte normalisedPath
      then [(''path'', normalisedPath)] else []) @
     (if length linkTargetText > field_length fieldLinkName \<or> hasNonAsciiByte linkTargetText
      then [(''linkpath'', linkTargetText)] else []) @
     (if payloadSize > 0x1FFFFFFFF then [(''size'', to_chars 10 (unat payloadSize))] else [])"

definition linkTargetTextOf :: "MemberHeader \<Rightarrow> TypeFlag \<Rightarrow> TarError + string" where
  "linkTargetTextOf meta typeflag =
     (if typeflag = SymbolicLink
      then (case mh_linkTarget meta of
          None \<Rightarrow> Inl (makeError InvalidHeader ''symlink entry has no linkTarget set'')
        | Some target \<Rightarrow> Inr target)
      else Inr [])"

definition entryRecords :: "MemberHeader \<Rightarrow> TypeFlag \<Rightarrow> string \<Rightarrow> string \<Rightarrow> BuiltEntry option" where
  "entryRecords meta typeflag normalisedPath linkTargetText =
     (let isDirectory = (typeflag = Directory_flag);
          payloadSize = (if isDirectory then 0 else mh_size meta);
          sizeExceedsOctal = payloadSize > 0x1FFFFFFFF;
          paxEntries = paxEntriesOf normalisedPath linkTargetText isDirectory payloadSize;
          split = trySplitUstarPath normalisedPath isDirectory;
          truncatedPath = (if split = None then truncatedUtf8 normalisedPath (field_length fieldName) else normalisedPath);
          split = (case split of None \<Rightarrow> ([], truncatedPath) | Some names \<Rightarrow> names);
          truncatedLink = (if length linkTargetText > field_length fieldLinkName \<or> hasNonAsciiByte linkTargetText
            then truncatedUtf8 linkTargetText (field_length fieldLinkName) else linkTargetText);
          recordedSize = (if sizeExceedsOctal then 0 else payloadSize);
          mainRecord = populateUstarHeader (snd split) (fst split) meta typeflag recordedSize truncatedLink
      in if paxEntries = [] then Some \<lparr>built_records = [mainRecord], built_payloadSize = payloadSize\<rparr>
         else map_option (\<lambda>paxPayload.
             \<lparr>built_records = paxHeaderRecord meta truncatedPath paxPayload # payloadRecords paxPayload @ [mainRecord],
              built_payloadSize = payloadSize\<rparr>)
           (buildPaxPayload paxEntries))"

definition buildRecords :: "MemberHeader \<Rightarrow> (TarError + BuiltEntry) option" where
  "buildRecords meta =
     (case typeFlagFromFileType (mh_type meta) of
        Inl e \<Rightarrow> Some (Inl e)
      | Inr typeflag \<Rightarrow>
        let normalisedPath = normaliseArchivePath (mh_path meta) in
        if normalisedPath = [] then Some (Inl (makeError InvalidHeader ''entry path is empty''))
        else case linkTargetTextOf meta typeflag of
            Inl e \<Rightarrow> Some (Inl e)
          | Inr linkTargetText \<Rightarrow> map_option Inr (entryRecords meta typeflag normalisedPath linkTargetText))"

subsection \<open>The length of a PAX item\<close>

lemma digits_of_sum:
  "\<exists>d. length (to_chars 10 (n + d)) = d \<and> 0 < d \<and> d \<le> Suc n"
proof -
  define d where "d = (LEAST d. 0 < d \<and> n + d < 10 ^ d)"
  have enough: "n + Suc n < 10 ^ Suc n" by (induction n) auto
  then have d: "0 < d \<and> n + d < 10 ^ d"
    unfolding d_def by (intro LeastI [of "\<lambda>d. 0 < d \<and> n + d < 10 ^ d" "Suc n"]) simp
  have "d \<le> Suc n" unfolding d_def using enough by (intro Least_le) simp
  have "\<not> (length (to_chars 10 (n + d)) \<le> d - 1 \<and> 0 < d - 1)"
  proof
    assume a: "length (to_chars 10 (n + d)) \<le> d - 1 \<and> 0 < d - 1"
    then have "n + d < 10 ^ (d - 1)" using length_to_chars [of 10 "d - 1" "n + d"] by simp
    then have "d \<le> d - 1" using a unfolding d_def by (intro Least_le) (auto simp: d_def)
    then show False using d by linarith
  qed
  moreover have "length (to_chars 10 (n + d)) \<le> d" using d length_to_chars [of 10 d "n + d"] by simp
  moreover have "length (to_chars 10 (n + d)) \<noteq> 0" by simp
  ultimately have "length (to_chars 10 (n + d)) = d" using d by linarith
  then show ?thesis using d \<open>d \<le> Suc n\<close> by blast
qed

lemma pax_length_found:
  "\<exists>len. paxRecordLength n = Some len \<and> len = length (to_chars 10 len) + n \<and> len \<le> 2 * n + 1"
proof -
  obtain d where d: "length (to_chars 10 (n + d)) = d" "0 < d" "d \<le> Suc n" using digits_of_sum by blast
  have "\<exists>len. while_option (\<lambda>len. length (to_chars 10 len) + n \<noteq> len) Suc (n + 1) = Some len"
  proof (rule measure_while_option_Some [where P = "\<lambda>len. len \<le> n + d" and f = "\<lambda>len. n + d - len"])
    fix len
    assume "len \<le> n + d" "length (to_chars 10 len) + n \<noteq> len"
    then have "len < n + d" using d by (cases "len = n + d") auto
    then show "Suc len \<le> n + d \<and> n + d - Suc len < n + d - len" by simp
  next
    show "n + 1 \<le> n + d" using d by simp
  qed
  then obtain len where len: "while_option (\<lambda>len. length (to_chars 10 len) + n \<noteq> len) Suc (n + 1) = Some len" by blast
  then have "length (to_chars 10 len) + n = len" using while_option_stop by fastforce
  moreover have "len \<le> n + d"
    using len d by (intro while_option_rule [where P = "\<lambda>len. len \<le> n + d", OF _ len]) (auto simp: le_less)
  ultimately show ?thesis using len d by (auto simp: paxRecordLength_def)
qed

definition paxItem :: "string \<times> string \<Rightarrow> string" where
  "paxItem e = (let suffix = '' '' @ fst e @ ''='' @ snd e @ [CHR 0x0A] in
     to_chars 10 (the (paxRecordLength (length suffix))) @ suffix)"

lemma buildPaxPayload_items: "buildPaxPayload entries = Some (concat (map paxItem entries))"
proof (induction entries)
  case Nil
  then show ?case by simp
next
  case (Cons e entries)
  obtain key v where e: "e = (key, v)" by (cases e)
  obtain len where "paxRecordLength (length ('' '' @ key @ ''='' @ v @ [CHR 0x0A])) = Some len"
    using pax_length_found by blast
  then show ?case using Cons.IH by (simp add: e paxItem_def Let_def)
qed

lemma paxItem_length:
  "\<exists>len. paxItem (key, text) = to_chars 10 len @ '' '' @ key @ ''='' @ text @ [CHR 0x0A] \<and>
     length (paxItem (key, text)) = len \<and> len \<le> 2 * (length key + length text) + 7"
proof -
  let ?suffix = "'' '' @ key @ ''='' @ text @ [CHR 0x0A]"
  obtain len where "paxRecordLength (length ?suffix) = Some len" "len = length (to_chars 10 len) + length ?suffix"
    "len \<le> 2 * length ?suffix + 1"
    using pax_length_found by blast
  then show ?thesis by (intro exI [of _ len]) (simp add: paxItem_def Let_def)
qed

lemma findByte_at:
  assumes "c \<notin> set a"
  shows "findByte (p @ a @ c # b) (length p) c = length p + length a"
  using assms by (simp add: findByte_def find_char_append)

lemma sliceToString_at: "sliceToString (p @ a @ b) (length p) (length p + length a) = a"
  by (simp add: sliceToString_def)

lemma extract_item:
  assumes "CHR ''='' \<notin> set key" "length (p @ paxItem (key, text) @ r) < 2 ^ 64"
  shows "extractPaxRecord (p @ paxItem (key, text) @ r) (length p)
     = Inr \<lparr>slice_key = key, slice_value = text, recordLength = length (paxItem (key, text))\<rparr>"
proof -
  obtain len where item: "paxItem (key, text) = to_chars 10 len @ '' '' @ key @ ''='' @ text @ [CHR 0x0A]"
    and len: "length (paxItem (key, text)) = len"
    using paxItem_length by blast
  let ?d = "to_chars 10 len" and ?all = "p @ paxItem (key, text) @ r"
  let ?space = "length p + length ?d"
  have total: "len = length ?d + length key + length text + 3" using len item by simp
  have "CHR '' '' \<notin> set ?d" using to_chars_digits [of 10 "CHR '' ''" len] by (auto simp: isDigitOf_def)
  then have space: "findByte ?all (length p) (CHR '' '') = ?space"
    using findByte_at [of "CHR '' ''" ?d p] by (simp add: item)
  have digits: "sliceToString ?all (length p) ?space = ?d"
    using sliceToString_at [of p ?d] by (simp add: item)
  have "len < 2 ^ 64" using assms(2) len by simp
  then have decimal: "parseDecimal (2 ^ 64) ?d = Inr len"
    using from_chars_to_chars [of 10 len "2 ^ 64" "[]" 0] by (simp add: parseDecimal_def)
  have wrap: "(length p + len) mod 2 ^ 64 = length p + len" using assms(2) len by simp
  have "length p + len - 1 = length (p @ ?d @ '' '' @ key @ ''='' @ text)" using total by simp
  then have newline: "?all ! (length p + len - 1) = CHR 0x0A"
    using nth_append_length [of "p @ ?d @ '' '' @ key @ ''='' @ text" "CHR 0x0A" r] by (simp add: item)
  have equals: "findByte ?all (?space + 1) (CHR ''='') = ?space + 1 + length key"
    using findByte_at [OF assms(1), of "p @ ?d @ '' ''"] by (simp add: item)
  have k: "sliceToString ?all (?space + 1) (?space + 1 + length key) = key"
    using sliceToString_at [of "p @ ?d @ '' ''" key] by (simp add: item)
  have last_byte: "length p + len - 1 = length p + length ?d + length key + length text + 2" using total by simp
  have v: "sliceToString ?all (?space + 1 + length key + 1) (length p + len - 1) = text"
    unfolding last_byte using sliceToString_at [of "p @ ?d @ '' '' @ key @ ''=''" "text"] by (simp add: item add.assoc)
  have "?space \<noteq> length ?all" "\<not> length p + len > length ?all" "len \<noteq> 0" "length p + len \<noteq> 0"
    "\<not> ?space + 1 + length key \<ge> length p + len - 1"
    using total len by auto
  then show ?thesis
    by (simp only: extractPaxRecord_def Let_def space digits decimal wrap newline equals k v len sum.case if_False
        if_True simp_thms)
qed

fun applyEntries :: "(string \<Rightarrow> u64 option) \<Rightarrow> (string \<times> string) list \<Rightarrow> PaxOverrides \<Rightarrow> TarError + PaxOverrides" where
  "applyEntries stod [] overrides = Inr overrides"
| "applyEntries stod ((key, text) # entries) overrides =
     andThen (applyPaxRecord stod \<lparr>slice_key = key, slice_value = text, recordLength = length (paxItem (key, text))\<rparr>
         overrides)
       (applyEntries stod entries)"

lemma applyPax_key_value:
  "applyPaxRecord stod \<lparr>slice_key = key, slice_value = v, recordLength = l\<rparr> o' =
   applyPaxRecord stod \<lparr>slice_key = key, slice_value = v, recordLength = l'\<rparr> o'"
  by (simp add: applyPaxRecord_def)

lemma parse_items:
  assumes "\<And>key. key \<in> fst ` set entries \<Longrightarrow> CHR ''='' \<notin> set key"
    "length (p @ concat (map paxItem entries)) < 2 ^ 64"
  shows "parsePaxFrom stod (p @ concat (map paxItem entries)) (length p) overrides =
    (case applyEntries stod entries overrides of Inl e \<Rightarrow> Inl (TarFailed e) | Inr overrides' \<Rightarrow> Inr overrides')"
  using assms
proof (induction entries arbitrary: p overrides)
  case Nil
  then show ?case by (simp add: parsePaxFrom.simps)
next
  case (Cons e entries)
  obtain key v where e: "e = (key, v)" by (cases e)
  let ?all = "p @ concat (map paxItem (e # entries))" and ?n = "length (paxItem (key, v))"
  have item: "extractPaxRecord ?all (length p) = Inr \<lparr>slice_key = key, slice_value = v, recordLength = ?n\<rparr>"
    using extract_item [of key p v "concat (map paxItem entries)"] Cons.prems by (simp add: e)
  have "(length p + ?n) mod 2 ^ 64 = length (p @ paxItem e)" using Cons.prems by (simp add: e)
  moreover have "length p < length ?all" using paxItem_length [of key v] by (auto simp: e)
  moreover have "parsePaxFrom stod ((p @ paxItem e) @ concat (map paxItem entries)) (length (p @ paxItem e)) o' =
      (case applyEntries stod entries o' of Inl e \<Rightarrow> Inl (TarFailed e) | Inr overrides' \<Rightarrow> Inr overrides')" for o'
    using Cons.prems by (intro Cons.IH) auto
  ultimately show ?case
    using item by (subst parsePaxFrom.simps) (simp add: e split: sum.splits)
qed

lemma pax_payload_parsed:
  assumes "\<And>key. key \<in> fst ` set entries \<Longrightarrow> CHR ''='' \<notin> set key"
    "buildPaxPayload entries = Some payload" "length payload < 2 ^ 64"
    "applyEntries stod entries noOverrides = Inr overrides"
  shows "parsePaxPayload stod payload = Inr overrides"
  using parse_items [of entries "[]" stod noOverrides] assms
  by (simp add: parsePaxPayload_def buildPaxPayload_items)

subsection \<open>A record read back\<close>

definition fits :: "FieldLayout \<times> string \<Rightarrow> bool" where
  "fits fc \<longleftrightarrow> in_record (fst fc) \<and> length (snd fc) = field_length (fst fc)"

definition put_all :: "(FieldLayout \<times> string) list \<Rightarrow> RawRecord \<Rightarrow> RawRecord" where
  "put_all puts r = foldl (\<lambda>r fc. putField r (fst fc) (snd fc)) r puts"

lemma put_all_simps [simp]:
  "put_all [] r = r" "put_all (fc # puts) r = put_all puts (putField r (fst fc) (snd fc))"
  "put_all (before @ after) r = put_all after (put_all before r)"
  by (simp_all add: put_all_def)

lemma put_all_length: "length r = recordSize \<Longrightarrow> list_all fits puts \<Longrightarrow> length (put_all puts r) = recordSize"
  by (induction puts arbitrary: r) (auto simp: fits_def putField_length)

lemma put_all_apart:
  "length r = recordSize \<Longrightarrow> list_all fits puts \<Longrightarrow> in_record g \<Longrightarrow> list_all (\<lambda>fc. apart (fst fc) g) puts \<Longrightarrow>
   fieldSpan (put_all puts r) g = fieldSpan r g"
  by (induction puts arbitrary: r) (auto simp: fits_def putField_length fieldSpan_apart)

lemma put_all_span:
  assumes "length r = recordSize" "list_all fits puts" "sorted_wrt apart (map fst puts)" "(g, c) \<in> set puts"
  shows "fieldSpan (put_all puts r) g = c"
proof -
  obtain before after where puts: "puts = before @ (g, c) # after" using assms(4) by (meson split_list)
  have r: "length (put_all before r) = recordSize" using assms(1,2) by (simp add: puts put_all_length)
  have g: "in_record g" "length c = field_length g" using assms(2) by (simp_all add: puts fits_def)
  have "list_all (\<lambda>fc. apart (fst fc) g) after"
    using assms(3) by (auto simp: puts sorted_wrt_append apart_def list_all_iff)
  then have "fieldSpan (put_all puts r) g = fieldSpan (putField (put_all before r) g c) g"
    using assms(2) put_all_apart [OF putField_length [OF r g] _ g(1)] by (simp add: puts)
  then show ?thesis using fieldSpan_put [OF r g] by simp
qed

lemma field_lengths [simp]:
  "field_length fieldName = 100" "field_length fieldMode = 8" "field_length fieldUid = 8" "field_length fieldGid = 8"
  "field_length fieldSize = 12" "field_length fieldMtime = 12" "field_length fieldChecksum = 8"
  "field_length fieldLinkName = 100" "field_length fieldMagic = 6" "field_length fieldUName = 32"
  "field_length fieldGName = 32" "field_length fieldDevMajor = 8" "field_length fieldDevMinor = 8"
  "field_length fieldPrefix = 155"
  by (simp_all add: field_defs)

text \<open>The fields of a header in the order they are written, without the checksum.\<close>

definition headerFields ::
  "string \<Rightarrow> string \<Rightarrow> MemberHeader \<Rightarrow> TypeFlag \<Rightarrow> u64 \<Rightarrow> string \<Rightarrow> (FieldLayout \<times> string) list" where
  "headerFields name namePrefix meta typeflag payloadSize linkTarget =
     [(fieldName, stringContents 100 name), (fieldPrefix, stringContents 155 namePrefix),
      (fieldMode, numericContents 8 (ucast (modeOf (mh_permissions meta) typeflag))),
      (fieldUid, numericContents 8 (ucast (mh_uid meta))), (fieldGid, numericContents 8 (ucast (mh_gid meta))),
      (fieldSize, numericContents 12 payloadSize), (fieldMtime, numericContents 12 (mh_mtime meta)),
      (fieldTypeFlag, [typeFlagChar typeflag]), (fieldLinkName, stringContents 100 linkTarget),
      (fieldMagic, stringContents 6 ustarMagic), (fieldVersion, [ustarVersion ! 0, ustarVersion ! 1]),
      (fieldUName, stringContents 32 (mh_owner meta)), (fieldGName, stringContents 32 (mh_group meta)),
      (fieldDevMajor, numericContents 8 0), (fieldDevMinor, numericContents 8 0),
      (fieldChecksum, replicate 8 (CHR '' ''))]"

lemma headerFields_fit:
  "list_all fits (headerFields name namePrefix meta typeflag payloadSize linkTarget)"
  "sorted_wrt apart (map fst (headerFields name namePrefix meta typeflag payloadSize linkTarget))"
  by (simp_all add: headerFields_def fits_def in_record_def recordSize_def apart_def field_defs)

lemma populate_fields:
  fixes name namePrefix meta typeflag payloadSize linkTarget
  defines "r \<equiv> populateUstarHeader name namePrefix meta typeflag payloadSize linkTarget"
    and "puts \<equiv> headerFields name namePrefix meta typeflag payloadSize linkTarget"
  shows "length r = recordSize"
    and "(g, c) \<in> set puts \<Longrightarrow> g \<noteq> fieldChecksum \<Longrightarrow> fieldSpan r g = c"
    and "readNumeric (fieldSpan r fieldChecksum) = Inr (ucast (calculateChecksum r))"
proof -
  let ?r = "put_all puts (replicate recordSize NUL)"
  have r: "r = writeChecksum ?r (calculateChecksum ?r)"
    unfolding r_def puts_def
    by (simp add: populateUstarHeader_def headerFields_def writeString_def writeNumeric_def Let_def del: list_update_code)
  have fit: "list_all fits puts" "sorted_wrt apart (map fst puts)"
    unfolding puts_def by (rule headerFields_fit)+
  have len: "length ?r = recordSize" using fit(1) by (intro put_all_length) simp
  have sum: "unat (calculateChecksum ?r) < 8 ^ 6" using len by (rule calculateChecksum_bound)
  have c: "in_record fieldChecksum" "length (checksumContents (calculateChecksum ?r)) = field_length fieldChecksum"
    using checksum_read [OF sum] by (simp_all add: in_record_def recordSize_def fieldChecksum_def)
  show "length r = recordSize" using putField_length [OF len c] by (simp add: r writeChecksum_def)
  have "fieldSpan r fieldChecksum = checksumContents (calculateChecksum ?r)"
    using fieldSpan_put [OF len c] by (simp add: r writeChecksum_def)
  moreover have "calculateChecksum r = calculateChecksum ?r"
    using checksum_field_free [OF len, of "checksumContents (calculateChecksum ?r)"] c
    by (simp add: r writeChecksum_def fieldChecksum_def)
  ultimately show "readNumeric (fieldSpan r fieldChecksum) = Inr (ucast (calculateChecksum r))"
    using checksum_read [OF sum] by simp
  assume g: "(g, c) \<in> set puts" "g \<noteq> fieldChecksum"
  have "in_record g" using fit(1) g(1) by (auto simp: list_all_iff fits_def)
  moreover have "apart fieldChecksum g"
    using g unfolding puts_def by (auto simp: headerFields_def field_defs apart_def)
  ultimately have "fieldSpan r g = fieldSpan ?r g"
    using fieldSpan_apart [OF len c(1) _ c(2)] by (simp add: r writeChecksum_def)
  then show "fieldSpan r g = c" using put_all_span [OF _ fit g(1)] by simp
qed

lemma typeFlagOf_char: "listedFlag flag \<Longrightarrow> typeFlagOf (typeFlagChar flag) = flag"
  by (cases flag) (simp_all add: typeFlagOf_def)

lemma byte_of_span: "fieldSpan r fieldTypeFlag = [c] \<Longrightarrow> r ! field_offset fieldTypeFlag = c"
  by (cases "drop 156 r") (auto simp: fieldSpan_def fieldTypeFlag_def nth_via_drop)

lemma ucast_down_up: "(ucast (ucast (v :: u32) :: u64) :: u32) = v"
  by (rule bit_word_eqI) (simp add: bit_simps)

lemma mode_read: "(ucast (ucast (modeOf p flag) AND 0xFFF :: u64) :: u32) = modeOf p flag"
proof -
  have "modeOf p flag AND 0xFFF = modeOf p flag" by (simp add: modeOf_def and.assoc)
  moreover have "(ucast (ucast (m :: u32) AND 0xFFF :: u64) :: u32) = m AND 0xFFF" for m
  proof -
    have masks: "(0xFFF :: u64) = mask 12" "(0xFFF :: u32) = mask 12" by (simp_all add: mask_numeral)
    show ?thesis unfolding masks by (rule bit_word_eqI) (auto simp: bit_simps)
  qed
  ultimately show ?thesis by simp
qed

definition recorded :: "string \<Rightarrow> string \<Rightarrow> MemberHeader \<Rightarrow> TypeFlag \<Rightarrow> u64 \<Rightarrow> string \<Rightarrow> ParsedUstar" where
  "recorded name namePrefix meta typeflag payloadSize linkTarget =
     \<lparr>pu_name = readTerminatedString (stringContents 100 name),
      pu_prefix = readTerminatedString (stringContents 155 namePrefix),
      pu_permissions = modeOf (mh_permissions meta) typeflag,
      pu_uid = mh_uid meta, pu_gid = mh_gid meta, pu_size = payloadSize, pu_mtime = mh_mtime meta,
      pu_typeflag = typeflag,
      pu_linkName = readTerminatedString (stringContents 100 linkTarget),
      pu_uName = readTerminatedString (stringContents 32 (mh_owner meta)),
      pu_gName = readTerminatedString (stringContents 32 (mh_group meta)),
      pu_hasUstarMagic = True\<rparr>"

lemma header_read_back:
  assumes "listedFlag typeflag"
  shows "parseRecord (populateUstarHeader name namePrefix meta typeflag payloadSize linkTarget)
     = Inr (recorded name namePrefix meta typeflag payloadSize linkTarget)"
proof -
  let ?r = "populateUstarHeader name namePrefix meta typeflag payloadSize linkTarget"
  note checksum = populate_fields(3) [of name namePrefix meta typeflag payloadSize linkTarget]
  note spans = populate_fields(2) [of _ _ name namePrefix meta typeflag payloadSize linkTarget]
  have texts: "fieldSpan ?r fieldName = stringContents 100 name"
    "fieldSpan ?r fieldPrefix = stringContents 155 namePrefix"
    "fieldSpan ?r fieldLinkName = stringContents 100 linkTarget"
    "fieldSpan ?r fieldMagic = stringContents 6 ustarMagic"
    "fieldSpan ?r fieldUName = stringContents 32 (mh_owner meta)"
    "fieldSpan ?r fieldGName = stringContents 32 (mh_group meta)"
    "fieldSpan ?r fieldTypeFlag = [typeFlagChar typeflag]"
    by (rule spans; simp add: headerFields_def field_defs)+
  have numbers: "fieldSpan ?r fieldMode = numericContents 8 (ucast (modeOf (mh_permissions meta) typeflag))"
    "fieldSpan ?r fieldUid = numericContents 8 (ucast (mh_uid meta))"
    "fieldSpan ?r fieldGid = numericContents 8 (ucast (mh_gid meta))"
    "fieldSpan ?r fieldSize = numericContents 12 payloadSize"
    "fieldSpan ?r fieldMtime = numericContents 12 (mh_mtime meta)"
    by (rule spans; simp add: headerFields_def field_defs)+
  have "readTerminatedString (stringContents 6 ustarMagic) = ustarMagic"
    by (rule string_read) (simp_all add: ustarMagic_def)
  then show ?thesis
    using numeric_read [of 12 payloadSize] numeric_read [of 12 "mh_mtime meta"] byte_of_span [OF texts(7)]
    by (simp add: parseRecord_def checksum texts numbers numeric_read_32 recorded_def typeFlagOf_char assms mode_read
        ucast_down_up)
qed

subsection \<open>Paths\<close>

lemma trySplit_rejoins:
  assumes "trySplitUstarPath path markDirectory = Some (namePrefix, name)"
  shows "(if namePrefix = [] then name else namePrefix @ slash # name) = path @ (if markDirectory then ''/'' else [])
    \<and> length name \<le> 100 \<and> length namePrefix \<le> 155"
proof (cases "length path + length (if markDirectory then ''/'' else []) \<le> 100")
  case True
  then show ?thesis using assms by (auto simp: trySplitUstarPath_def Let_def)
next
  case False
  define suffix where "suffix = (if markDirectory then ''/'' else [])"
  define P where "P = (\<lambda>i. path ! i = slash \<and> take i path \<noteq> [] \<and> length (take i path) \<le> 155 \<and>
      length (drop (i + 1) path @ suffix) \<le> 100)"
  define start where "start = (if length path > 100 then length path - 100 else 0)"
  define xs where "xs = [start + length (takeWhile (\<lambda>c. c \<noteq> slash) (drop start path))..<length path]"
  have "Some (namePrefix, name) = (if length path > 155 + 1 + 100 then None
      else map_option (\<lambda>i. (take i path, drop (i + 1) path @ suffix))
        (find P xs))"
    unfolding assms [symmetric] trySplitUstarPath_def Let_def field_lengths P_def start_def xs_def suffix_def [symmetric]
    using False by (simp only: suffix_def if_False)
  then obtain i where found: "find P xs = Some i"
    and names: "namePrefix = take i path" "name = drop (i + 1) path @ suffix"
    by (cases "find P xs") (auto split: if_splits)
  have "set xs \<subseteq> {..<length path}" by (auto simp: xs_def)
  then have "P i" "i < length path" using found by (auto simp: find_Some_iff dest: nth_mem)
  then show ?thesis
    using id_take_nth_drop [of i path] names unfolding P_def suffix_def by auto
qed

lemma trySplit_names:
  assumes "trySplitUstarPath path markDirectory = Some (namePrefix, name)" "NUL \<notin> set path"
  shows "NUL \<notin> set name" "NUL \<notin> set namePrefix"
proof -
  have "set name \<union> set namePrefix \<subseteq> set (if namePrefix = [] then name else namePrefix @ slash # name)" by auto
  also have "\<dots> = set (path @ (if markDirectory then ''/'' else []))"
    using trySplit_rejoins [OF assms(1)] by (simp only:)
  also have "\<dots> \<subseteq> set path \<union> {slash}" by auto
  finally have "set name \<union> set namePrefix \<subseteq> set path \<union> {slash}" .
  then show "NUL \<notin> set name" "NUL \<notin> set namePrefix" using assms(2) by auto
qed

lemma recorded_path:
  assumes "trySplitUstarPath path markDirectory = Some (namePrefix, name)" "NUL \<notin> set path"
  shows "fullName (recorded name namePrefix meta typeflag payloadSize linkTarget)
     = path @ (if markDirectory then ''/'' else [])"
  using trySplit_rejoins [OF assms(1)] trySplit_names [OF assms] string_read [of name 100] string_read [of namePrefix 155]
  by (auto simp: fullName_def recorded_def split: if_splits)

subsection \<open>A member read back\<close>

text \<open>What the header of a member says after it was written and read: the path without its leading and repeated
  slashes, the permissions of \<open>modeOf\<close>, and as much of the names of owner and group as fits their fields.\<close>

definition archivedHeader :: "MemberHeader \<Rightarrow> TypeFlag \<Rightarrow> MemberHeader" where
  "archivedHeader meta typeflag =
     \<lparr>mh_path = normaliseArchivePath (mh_path meta),
      mh_type = mh_type meta,
      mh_size = (if typeflag = Directory_flag then 0 else mh_size meta),
      mh_uid = mh_uid meta,
      mh_gid = mh_gid meta,
      mh_owner = readTerminatedString (take 32 (mh_owner meta)),
      mh_group = readTerminatedString (take 32 (mh_group meta)),
      mh_permissions = modeOf (mh_permissions meta) typeflag,
      mh_mtime = mh_mtime meta,
      mh_linkTarget = (if typeflag = SymbolicLink then mh_linkTarget meta else None)\<rparr>"

text \<open>The members the records can hold: the texts are free of zero bytes and of a memory's size, and the path of a
  directory does not end with a slash, which the reader takes for the mark of a directory.\<close>

definition recordable :: "MemberHeader \<Rightarrow> bool" where
  "recordable meta \<longleftrightarrow>
     NUL \<notin> set (mh_path meta) \<and> length (mh_path meta) < 2 ^ 40 \<and>
     (case mh_linkTarget meta of None \<Rightarrow> True | Some target \<Rightarrow> NUL \<notin> set target \<and> length target < 2 ^ 40) \<and>
     (mh_type meta = Directory \<longrightarrow> mh_path meta = [] \<or> last (mh_path meta) \<noteq> slash)"

lemma stringContents_cut:
  "readTerminatedString (stringContents n t) = readTerminatedString (take n t)"
proof -
  have "takeWhile (\<lambda>c. c \<noteq> NUL) (t @ replicate k NUL) = takeWhile (\<lambda>c. c \<noteq> NUL) t" for k
    by (induction t) (simp_all add: takeWhile_eq_Nil_iff)
  then show ?thesis
    by (cases "length t \<le> n") (simp_all add: stringContents_def readTerminatedString_def Let_def min_def)
qed

lemma collapse_set: "set (collapseSlashes b t) \<subseteq> set t" "length (collapseSlashes b t) \<le> length t"
  by (induction b t rule: collapseSlashes.induct) (auto simp: le_SucI)

lemma collapse_last:
  "t \<noteq> [] \<Longrightarrow> last t \<noteq> slash \<Longrightarrow> collapseSlashes b t \<noteq> [] \<and> last (collapseSlashes b t) = last t"
  by (induction b t rule: collapseSlashes.induct) (auto split: if_splits)

lemma normalise_simps:
  "set (normaliseArchivePath t) \<subseteq> set t" "length (normaliseArchivePath t) \<le> length t"
  "t \<noteq> [] \<Longrightarrow> last t \<noteq> slash \<Longrightarrow> last (normaliseArchivePath t) = last t"
proof -
  show "set (normaliseArchivePath t) \<subseteq> set t"
    using collapse_set(1) set_dropWhileD unfolding normaliseArchivePath_def by fastforce
  show "length (normaliseArchivePath t) \<le> length t"
    using collapse_set(2) [of False "dropWhile (\<lambda>c. c = slash) t"] length_dropWhile_le [of "\<lambda>c. c = slash" t]
    unfolding normaliseArchivePath_def by (meson le_trans)
  assume t: "t \<noteq> []" "last t \<noteq> slash"
  then have "dropWhile (\<lambda>c. c = slash) t \<noteq> []"
    using last_in_set [OF t(1)] unfolding dropWhile_eq_Nil_conv by blast
  moreover from this have "last (dropWhile (\<lambda>c. c = slash) t) = last t"
    using last_appendR [of "dropWhile (\<lambda>c. c = slash) t" "takeWhile (\<lambda>c. c = slash) t"] by simp
  ultimately show "last (normaliseArchivePath t) = last t"
    using collapse_last t unfolding normaliseArchivePath_def by metis
qed

lemma normalise_Nil: "normaliseArchivePath [] = []"
  by (simp add: normaliseArchivePath_def)

lemma pax_size: "parseDecimal (2 ^ 64) (to_chars 10 (unat (v :: u64))) = Inr (unat v)"
  using from_chars_to_chars [of 10 "unat v" "2 ^ 64" "[]" 0] unat_below [of v] by (simp add: parseDecimal_def)

text \<open>The overrides that the items of a member's PAX header stand for.\<close>

lemma pax_entries_applied:
  "applyEntries stod (paxEntriesOf path link isDirectory payloadSize) noOverrides = Inr (noOverrides
     \<lparr>po_path := (if trySplitUstarPath path isDirectory = None \<or> hasNonAsciiByte path then Some path else None),
      po_linkPath := (if length link > 100 \<or> hasNonAsciiByte link then Some link else None),
      po_size := (if payloadSize > 0x1FFFFFFFF then Some payloadSize else None)\<rparr>)"
  by (auto simp: paxEntriesOf_def applyPaxRecord_def pax_size [simplified] noOverrides_def)

lemma pax_keys: "key \<in> fst ` set (paxEntriesOf path link isDirectory payloadSize) \<Longrightarrow> CHR ''='' \<notin> set key"
  by (auto simp: paxEntriesOf_def split: if_splits)

lemma pax_entries_length:
  assumes "length path < 2 ^ 40" "length link < 2 ^ 40"
  shows "length (concat (map paxItem (paxEntriesOf path link isDirectory payloadSize))) < 2 ^ 63"
proof -
  have item: "length (paxItem (key, v)) \<le> 2 * (length key + length v) + 7" for key v
    using paxItem_length [of key v] by auto
  have "length (to_chars 10 (unat payloadSize)) \<le> 20"
    using length_to_chars [of 10 20 "unat payloadSize"] unat_below [of payloadSize] by simp
  then show ?thesis
    using assms item [of "''path''" path] item [of "''linkpath''" link] item [of "''size''" "to_chars 10 (unat payloadSize)"]
    unfolding paxEntriesOf_def by auto
qed

lemma flag_types:
  "typeFlagFromFileType t = Inr flag \<Longrightarrow> fileTypeFromTypeFlag flag = t \<and> listedFlag flag \<and>
     (flag = Directory_flag \<longleftrightarrow> t = Directory) \<and> flag \<noteq> ExtendedHeader \<and> flag \<noteq> GlobalExtendedHeader"
  by (cases t) auto

lemma assembled_path:
  assumes "NUL \<notin> set path" "flag = Directory_flag \<Longrightarrow> path = [] \<or> last path \<noteq> slash"
    "parts = trySplitUstarPath path (flag = Directory_flag)"
    "names = (case parts of None \<Rightarrow> ([], shortName) | Some names \<Rightarrow> names)"
  shows "mh_path (assembleMemberHeader (recorded (snd names) (fst names) meta flag n link)
      (o'\<lparr>po_path := (if parts = None \<or> hasNonAsciiByte path then Some path else None),
          po_linkPath := l, po_size := z\<rparr>)) = path"
proof (cases "parts = None \<or> hasNonAsciiByte path")
  case True
  then show ?thesis using assms(2) by (auto simp: assembleMemberHeader_def Let_def valueOr_def recorded_def)
next
  case False
  then obtain a b where "trySplitUstarPath path (flag = Directory_flag) = Some (a, b)" "names = (a, b)"
    using assms(3,4) by (cases parts) auto
  then show ?thesis
    using False assms(1) recorded_path [of path "flag = Directory_flag" a b]
    by (auto simp: assembleMemberHeader_def Let_def valueOr_def recorded_def split: if_splits)
qed

lemma member_assembled:
  fixes meta flag path link shortName
  defines "z \<equiv> (if flag = Directory_flag then 0 else mh_size meta)"
    and "names \<equiv> (case trySplitUstarPath path (flag = Directory_flag) of None \<Rightarrow> ([], shortName) | Some names \<Rightarrow> names)"
  assumes "typeFlagFromFileType (mh_type meta) = Inr flag" "path = normaliseArchivePath (mh_path meta)"
    "linkTargetTextOf meta flag = Inr link" "recordable meta"
    "linkField = (if length link > 100 \<or> hasNonAsciiByte link then shortName' else link)"
  shows "assembleMemberHeader
      (recorded (snd names) (fst names) meta flag (if z > 0x1FFFFFFFF then 0 else z) linkField)
      (noOverrides
        \<lparr>po_path := (if trySplitUstarPath path (flag = Directory_flag) = None \<or> hasNonAsciiByte path then Some path else None),
         po_linkPath := (if length link > 100 \<or> hasNonAsciiByte link then Some link else None),
         po_size := (if z > 0x1FFFFFFFF then Some z else None)\<rparr>) = archivedHeader meta flag"
    (is "assembleMemberHeader ?u ?o = _")
proof -
  have path: "NUL \<notin> set path" "flag = Directory_flag \<Longrightarrow> path = [] \<or> last path \<noteq> slash"
    using assms(6) normalise_simps [of "mh_path meta"] flag_types [OF assms(3)]
    by (cases "mh_path meta = []"; auto simp: recordable_def assms(4) normalise_Nil)+
  have names: "mh_path (assembleMemberHeader ?u ?o) = path"
    unfolding names_def using path by (rule assembled_path) simp_all
  have link: "mh_linkTarget (assembleMemberHeader ?u ?o) = (if flag = SymbolicLink then mh_linkTarget meta else None)"
  proof (cases "flag = SymbolicLink")
    case True
    then have target: "mh_linkTarget meta = Some link"
      using assms(5) by (auto simp: linkTargetTextOf_def split: option.splits)
    then have "NUL \<notin> set link" using assms(6) by (simp add: recordable_def)
    then have "\<not> (length link > 100 \<or> hasNonAsciiByte link) \<Longrightarrow>
        readTerminatedString (stringContents 100 linkField) = link"
      using string_read [of link 100] by (simp add: assms(7))
    then show ?thesis
      using True target by (simp add: assembleMemberHeader_def Let_def valueOr_def recorded_def)
  qed (simp add: assembleMemberHeader_def Let_def recorded_def)
  have "assembleMemberHeader ?u ?o = (archivedHeader meta flag)
      \<lparr>mh_path := mh_path (assembleMemberHeader ?u ?o), mh_linkTarget := mh_linkTarget (assembleMemberHeader ?u ?o)\<rparr>"
    using flag_types [OF assms(3)]
    by (simp add: assembleMemberHeader_def archivedHeader_def Let_def recorded_def valueOr_def noOverrides_def
        stringContents_cut z_def)
  then show ?thesis by (simp only: names link) (simp add: archivedHeader_def assms(4))
qed

lemma populated_not_zero:
  "\<not> isZeroRecord (populateUstarHeader name namePrefix meta typeflag payloadSize linkTarget)"
proof
  let ?r = "populateUstarHeader name namePrefix meta typeflag payloadSize linkTarget"
  assume "isZeroRecord ?r"
  moreover have "fieldSpan ?r fieldMagic = stringContents 6 ustarMagic"
    by (rule populate_fields(2) [of _ _ name namePrefix meta typeflag payloadSize linkTarget];
        simp add: headerFields_def field_defs)
  then have "CHR ''u'' \<in> set (fieldSpan ?r fieldMagic)"
    by (simp add: stringContents_def ustarMagic_def)
  then have "CHR ''u'' \<in> set ?r" unfolding fieldSpan_def by (meson in_set_dropD in_set_takeD)
  ultimately show False by (auto simp: isZeroRecord_def list_all_iff)
qed

text \<open>A PAX header of a payload that a reader takes for the overrides \<open>o'\<close>.\<close>

definition pax_records :: "(string \<Rightarrow> u64 option) \<Rightarrow> RawRecord list \<Rightarrow> PaxOverrides \<Rightarrow> bool" where
  "pax_records stod records o' \<longleftrightarrow> (\<exists>payload headRecord h. records = headRecord # payloadRecords payload \<and>
     length headRecord = recordSize \<and> \<not> isZeroRecord headRecord \<and> parseRecord headRecord = Inr h \<and>
     pu_typeflag h = ExtendedHeader \<and> pu_size h = of_nat (length payload) \<and> length payload < 2 ^ 63 \<and>
     parsePaxPayload stod payload = Inr o')"

lemma pax_header_records:
  assumes "length payload < 2 ^ 63" "parsePaxPayload stod payload = Inr o'"
  shows "pax_records stod (paxHeaderRecord meta path payload # payloadRecords payload) o'"
proof -
  obtain a b m where r: "paxHeaderRecord meta path payload
      = populateUstarHeader a b m ExtendedHeader (of_nat (length payload)) []"
    by (auto simp: paxHeaderRecord_def Let_def)
  then show ?thesis
    unfolding pax_records_def using assms populated_not_zero
      populate_fields(1) [of a b m ExtendedHeader "of_nat (length payload)" "[]"]
      header_read_back [of ExtendedHeader a b m "of_nat (length payload)" "[]"]
    by (intro exI [of _ payload] exI) (auto simp: recorded_def)
qed

lemma entryRecords_parts:
  fixes meta flag path link
  defines "z \<equiv> (if flag = Directory_flag then 0 else mh_size meta)"
  defines "entries \<equiv> paxEntriesOf path link (flag = Directory_flag) z"
  shows "\<exists>shortName shortLink headName. entryRecords meta flag path link = Some
    \<lparr>built_records = (if entries = [] then []
        else paxHeaderRecord meta headName (concat (map paxItem entries)) #
          payloadRecords (concat (map paxItem entries))) @
      [populateUstarHeader
        (snd (case trySplitUstarPath path (flag = Directory_flag) of None \<Rightarrow> ([], shortName) | Some names \<Rightarrow> names))
        (fst (case trySplitUstarPath path (flag = Directory_flag) of None \<Rightarrow> ([], shortName) | Some names \<Rightarrow> names))
        meta flag (if z > 0x1FFFFFFFF then 0 else z)
        (if length link > 100 \<or> hasNonAsciiByte link then shortLink else link)],
     built_payloadSize = z\<rparr>"
proof -
  let ?headName = "if trySplitUstarPath path (flag = Directory_flag) = None then truncatedUtf8 path 100 else path"
  show ?thesis
    unfolding entries_def
    by (rule exI [of _ "truncatedUtf8 path 100"], rule exI [of _ "truncatedUtf8 link 100"], rule exI [of _ ?headName],
        cases "trySplitUstarPath path (flag = Directory_flag)"; cases "paxEntriesOf path link (flag = Directory_flag) z = []")
      (simp_all add: entryRecords_def Let_def buildPaxPayload_items flip: z_def)
qed

lemma built_entry:
  assumes "buildRecords meta = Some (Inr built)" "recordable meta"
  obtains flag extra main u o' where
    "typeFlagFromFileType (mh_type meta) = Inr flag"
    "built_payloadSize built = (if flag = Directory_flag then 0 else mh_size meta)"
    "built_records built = extra @ [main]"
    "length main = recordSize" "\<not> isZeroRecord main" "parseRecord main = Inr u" "pu_typeflag u = flag"
    "assembleMemberHeader u o' = archivedHeader meta flag"
    "extra = [] \<and> o' = noOverrides \<or> pax_records stod extra o'"
proof -
  let ?path = "normaliseArchivePath (mh_path meta)"
  obtain flag link where flag: "typeFlagFromFileType (mh_type meta) = Inr flag"
    and link: "linkTargetTextOf meta flag = Inr link"
    and entry: "entryRecords meta flag ?path link = Some built"
    using assms(1) by (auto simp: buildRecords_def Let_def split: sum.splits if_splits)
  define z where "z = (if flag = Directory_flag then 0 else mh_size meta)"
  define entries where "entries = paxEntriesOf ?path link (flag = Directory_flag) z"
  define payload where "payload = concat (map paxItem entries)"
  let ?names = "\<lambda>shortName. case trySplitUstarPath ?path (flag = Directory_flag) of None \<Rightarrow> ([], shortName)
    | Some names \<Rightarrow> names"
  let ?linkField = "\<lambda>shortLink. if length link > 100 \<or> hasNonAsciiByte link then shortLink else link"
  let ?size = "if z > 0x1FFFFFFFF then 0 else z"
  obtain shortName shortLink headName where built: "built =
    \<lparr>built_records = (if entries = [] then [] else paxHeaderRecord meta headName payload # payloadRecords payload) @
      [populateUstarHeader (snd (?names shortName)) (fst (?names shortName)) meta flag ?size (?linkField shortLink)],
     built_payloadSize = z\<rparr>"
    using entryRecords_parts [of meta flag ?path link] entry
    unfolding z_def [symmetric] entries_def [symmetric] payload_def [symmetric] by auto
  define o' where "o' = noOverrides
        \<lparr>po_path := (if trySplitUstarPath ?path (flag = Directory_flag) = None \<or> hasNonAsciiByte ?path
           then Some ?path else None),
         po_linkPath := (if length link > 100 \<or> hasNonAsciiByte link then Some link else None),
         po_size := (if z > 0x1FFFFFFFF then Some z else None)\<rparr>"
  let ?u = "recorded (snd (?names shortName)) (fst (?names shortName)) meta flag ?size (?linkField shortLink)"
  have lengths: "length ?path < 2 ^ 40" "length link < 2 ^ 40"
    using assms(2) link normalise_simps(2) [of "mh_path meta"]
    by (auto simp: recordable_def linkTargetTextOf_def split: option.splits if_splits)
  then have short: "length payload < 2 ^ 63" unfolding payload_def entries_def by (rule pax_entries_length)
  have "parsePaxPayload stod payload = Inr o'"
  proof (rule pax_payload_parsed)
    show "buildPaxPayload entries = Some payload" by (simp add: payload_def buildPaxPayload_items)
    show "applyEntries stod entries noOverrides = Inr o'" unfolding entries_def o'_def by (rule pax_entries_applied)
    show "length payload < 2 ^ 64" using short by simp
    show "CHR ''='' \<notin> set key" if "key \<in> fst ` set entries" for key
      using that unfolding entries_def by (rule pax_keys)
  qed
  then have pax: "pax_records stod (paxHeaderRecord meta headName payload # payloadRecords payload) o'"
    by (rule pax_header_records [OF short])
  have none: "entries = [] \<Longrightarrow> o' = noOverrides"
    by (auto simp: o'_def entries_def paxEntriesOf_def noOverrides_def split: if_splits)
  have assembled: "assembleMemberHeader ?u o' = archivedHeader meta flag"
    unfolding o'_def z_def using flag refl link assms(2) refl by (rule member_assembled)
  have "listedFlag flag" using flag_types [OF flag] by simp
  note parsed = header_read_back [OF this, of "snd (?names shortName)" "fst (?names shortName)" meta ?size
      "?linkField shortLink"]
  define extra where "extra = (if entries = [] then [] else paxHeaderRecord meta headName payload # payloadRecords payload)"
  have extra: "extra = [] \<and> o' = noOverrides \<or> pax_records stod extra o'"
    using pax none by (simp add: extra_def)
  show thesis
    by (rule that [OF flag _ _ populate_fields(1) populated_not_zero parsed _ assembled extra])
      (use built in \<open>simp_all add: z_def recorded_def extra_def\<close>)
qed

subsection \<open>The bounds of an item\<close>

lemma parsed_length: "parseDecimal bound digits = Inr len \<longleftrightarrow> from_chars 10 bound digits = Some len"
  by (auto simp: parseDecimal_def split: option.splits)

lemma from_chars_bound: "from_chars base bound digits = Some v \<Longrightarrow> v < bound"
  by (auto simp: from_chars_def Let_def split: if_splits)

lemma extract_in_bounds:
  assumes "cursor < length payload" "length payload < 2 ^ 64" "extractPaxRecord payload cursor = Inr item"
  shows "0 < recordLength item \<and> cursor + recordLength item \<le> length payload"
proof -
  have "recordLength item < 2 ^ 64"
    using assms(3) by (auto simp: extractPaxRecord_def Let_def parsed_length dest: from_chars_bound
        split: if_splits sum.splits)
  moreover from this have "(cursor + recordLength item) mod 2 ^ 64 =
      (if cursor + recordLength item < 2 ^ 64 then cursor + recordLength item else cursor + recordLength item - 2 ^ 64)"
    using assms(1,2) by (simp add: mod_if)
  ultimately show ?thesis
    using extractPaxRecord_advances [OF assms(3)] assms(1,2) by (auto split: if_splits)
qed

lemma extract_out_of_bounds:
  assumes "cursor < length payload" "length payload < 2 ^ 64"
  shows "extractPaxRecord payload cursor = Inl OutOfBounds \<longleftrightarrow>
      (\<exists>digits rest. drop cursor payload = digits @ CHR '' '' # rest \<and> CHR '' '' \<notin> set digits \<and>
         from_chars 10 (2 ^ 64) digits = Some (2 ^ 64 - cursor))" (is "?l \<longleftrightarrow> ?r")
proof
  assume ?l
  then obtain len where out: "findByte payload cursor (CHR '' '') \<noteq> length payload"
    "from_chars 10 (2 ^ 64) (sliceToString payload cursor (findByte payload cursor (CHR '' ''))) = Some len"
    "len \<noteq> 0" "(cursor + len) mod 2 ^ 64 = 0"
    by (auto simp: extractPaxRecord_def Let_def parsed_length split: if_splits sum.splits)
  then obtain i where i: "find_char (CHR '' '') (drop cursor payload) = Some i"
    by (auto simp: findByte_def split: option.splits)
  have "len < 2 ^ 64" using out(2) by (rule from_chars_bound)
  then have "len = 2 ^ 64 - cursor" using out(3,4) assms by (auto simp: mod_if split: if_splits)
  then show ?r
    using out(2) i find_char_Some [OF i]
    by (intro exI [of _ "take i (drop cursor payload)"] exI [of _ "drop (Suc i) (drop cursor payload)"])
      (auto simp: findByte_def sliceToString_def)
next
  assume ?r
  then obtain digits rest where d: "drop cursor payload = digits @ CHR '' '' # rest" "CHR '' '' \<notin> set digits"
    "from_chars 10 (2 ^ 64) digits = Some (2 ^ 64 - cursor)" by blast
  then have space: "findByte payload cursor (CHR '' '') = cursor + length digits"
    "sliceToString payload cursor (cursor + length digits) = digits"
    by (simp_all add: findByte_def find_char_append sliceToString_def)
  have "length payload = cursor + length digits + 1 + length rest"
    using arg_cong [OF d(1), of length] assms(1) by simp
  then have neq: "cursor + length digits \<noteq> length payload" by simp
  have sum: "(cursor + (2 ^ 64 - cursor)) mod 2 ^ 64 = 0" "2 ^ 64 - cursor \<noteq> 0" using assms by auto
  have dec: "parseDecimal (2 ^ 64) digits = Inr (2 ^ 64 - cursor)" using d(3) by (simp only: parsed_length)
  show ?l unfolding extractPaxRecord_def Let_def space dec using neq sum by simp
qed

text \<open>The zero bytes after a payload.\<close>

definition padding :: "nat \<Rightarrow> string" where
  "padding n = (if n mod recordSize = 0 then [] else replicate (recordSize - n mod recordSize) NUL)"

subsection \<open>Properties\<close>

text \<open>C30: a record that parses stops parsing when one byte outside its checksum field changes: the parser compares the
  stored checksum before it reads any other field, and reports the mismatch.\<close>

theorem corruption_detected:
  assumes "parseRecord r = Inr u" "length r = recordSize" "i < recordSize" "i < 148 \<or> 156 \<le> i" "b \<noteq> r ! i"
  shows "parseRecord (r[i := b]) = Inl (makeError ChecksumMismatch ''USTAR record checksum does not match'')"
proof -
  obtain stored where stored: "readNumeric (fieldSpan r fieldChecksum) = Inr stored" "ucast (calculateChecksum r) = stored"
    using assms(1) by (auto simp: parseRecord_def andThen_Inr split: if_splits)
  have "take 8 (drop 148 (r[i := b])) = take 8 (drop 148 r)"
    using assms(4) by (cases "i < 148") (simp_all add: drop_update_swap)
  then have span: "fieldSpan (r[i := b]) fieldChecksum = fieldSpan r fieldChecksum"
    by (simp add: fieldSpan_def fieldChecksum_def)
  have "unat (ucast c :: u64) = unat c" for c :: u32
    using unat_below [of c] by (simp add: unsigned_ucast_eq take_bit_eq_mod)
  then have "(ucast (calculateChecksum (r[i := b])) :: u64) \<noteq> ucast (calculateChecksum r)"
    using checksum_detects_byte [OF assms(2-5)] by (metis word_unat_eq_iff)
  then show ?thesis using stored by (simp add: parseRecord_def span)
qed

theorem corruption_detected_witness:
  "parseRecord ((populateUstarHeader ''a.txt'' [] defaultHeader RegularFile 3 [])[0 := CHR ''b''])
     = Inl (makeError ChecksumMismatch ''USTAR record checksum does not match'')"
proof -
  let ?r = "populateUstarHeader ''a.txt'' [] defaultHeader RegularFile 3 []"
  have "fieldSpan ?r fieldName = stringContents 100 ''a.txt''"
    by (rule populate_fields(2) [of _ _ "''a.txt''" "[]" defaultHeader RegularFile 3 "[]"])
      (simp_all add: headerFields_def field_defs)
  then have "?r ! 0 = CHR ''a''"
    by (cases ?r) (simp_all add: fieldSpan_def fieldName_def stringContents_def)
  then show ?thesis
    using corruption_detected [OF header_read_back populate_fields(1), of RegularFile 0 "CHR ''b''" "''a.txt''" "[]"
        defaultHeader 3 "[]"] by (simp add: recordSize_def)
qed

text \<open>C31: the loop that searches the length of an item always ends, so the payload of a PAX header is always built; and
  the parser reads from it the same keys and values in the same order, whatever the values hold, with the error of the
  first item it cannot take.\<close>

theorem pax_payload_roundtrip:
  assumes "\<And>key. key \<in> fst ` set entries \<Longrightarrow> CHR ''='' \<notin> set key"
    "(\<Sum>(key, v) \<leftarrow> entries. 2 * (length key + length v) + 7) < 2 ^ 64"
  shows "\<exists>payload. buildPaxPayload entries = Some payload \<and> parsePaxPayload stod payload =
    (case applyEntries stod entries noOverrides of
       Inl e \<Rightarrow> Inl (TarFailed e)
     | Inr overrides \<Rightarrow> Inr overrides)"
proof -
  have "length (concat (map paxItem entries)) \<le> (\<Sum>(key, v) \<leftarrow> entries. 2 * (length key + length v) + 7)" for entries
  proof (induction entries)
    case (Cons e entries)
    then show ?case using paxItem_length [of "fst e" "snd e"] by (auto simp: split_beta)
  qed simp
  then have "length (concat (map paxItem entries)) < 2 ^ 64" using assms(2) by (rule le_less_trans)
  then have "length ([] @ concat (map paxItem entries)) < 2 ^ 64" by (simp only: append_Nil)
  then show ?thesis
    using parse_items [of entries "[]" stod noOverrides] assms(1)
    by (simp add: buildPaxPayload_items parsePaxPayload_def)
qed

theorem pax_payload_roundtrip_witness:
  "\<exists>payload. buildPaxPayload [(''path'', ''a=b''), (''mtime'', ''1.5''), (''comment'', '' '')] = Some payload \<and>
     parsePaxPayload (\<lambda>_. Some 1) payload = Inr (noOverrides\<lparr>po_path := Some ''a=b'', po_mtime := Some 1\<rparr>)"
proof -
  let ?entries = "[(''path'', ''a=b''), (''mtime'', ''1.5''), (''comment'', '' '')]"
  have "applyEntries (\<lambda>_. Some 1) ?entries noOverrides
      = Inr (noOverrides\<lparr>po_path := Some ''a=b'', po_mtime := Some 1\<rparr>)"
    by (simp add: applyPaxRecord_def)
  moreover have "\<exists>payload. buildPaxPayload ?entries = Some payload \<and> parsePaxPayload (\<lambda>_. Some 1) payload =
    (case applyEntries (\<lambda>_. Some 1) ?entries noOverrides of Inl e \<Rightarrow> Inl (TarFailed e) | Inr overrides \<Rightarrow> Inr overrides)"
    by (rule pax_payload_roundtrip) auto
  ultimately show ?thesis by (simp only: sum.case)
qed

text \<open>C39: an item the parser takes lies inside the payload and moves the cursor on; and the parser reads outside the
  payload exactly when the length of an item is \<open>2 ^ 64\<close> minus the position of the item, which the check of the length
  lets through because the sum wraps to zero.\<close>

theorem pax_item_bounds:
  assumes "cursor < length payload" "length payload < 2 ^ 64"
  shows "(extractPaxRecord payload cursor = Inl OutOfBounds \<longleftrightarrow>
      (\<exists>digits rest. drop cursor payload = digits @ CHR '' '' # rest \<and> CHR '' '' \<notin> set digits \<and>
         from_chars 10 (2 ^ 64) digits = Some (2 ^ 64 - cursor))) \<and>
    (\<forall>item. extractPaxRecord payload cursor = Inr item \<longrightarrow>
       0 < recordLength item \<and> cursor + recordLength item \<le> length payload)"
  using extract_out_of_bounds [OF assms] extract_in_bounds [OF assms] by blast

theorem pax_item_bounds_witness:
  "extractPaxRecord (''10 path=a'' @ [CHR 0x0A] @ ''18446744073709551606 a=b'' @ [CHR 0x0A]) 10 = Inl OutOfBounds"
proof -
  let ?payload = "''10 path=a'' @ [CHR 0x0A] @ ''18446744073709551606 a=b'' @ [CHR 0x0A]"
  have "drop 10 ?payload = ''18446744073709551606'' @ CHR '' '' # ''a=b'' @ [CHR 0x0A]" by simp
  moreover have "from_chars 10 (2 ^ 64) ''18446744073709551606'' = Some (2 ^ 64 - 10)"
    by (simp add: from_chars_def isDigitOf_def digits_value_def digitValue_def)
  moreover have "CHR '' '' \<notin> set ''18446744073709551606''" by simp
  ultimately have "\<exists>digits rest. drop 10 ?payload = digits @ CHR '' '' # rest \<and> CHR '' '' \<notin> set digits \<and>
      from_chars 10 (2 ^ 64) digits = Some (2 ^ 64 - 10)" by blast
  then show ?thesis using pax_item_bounds [of 10 ?payload] by simp
qed

end
