(* ===== verification/Tar_Reader.thy ===== *)
theory Tar_Reader
  imports Tar_Header
begin

text \<open>
  \<open>tar_archive/reader.cpp\<close> and \<open>entry_reader.cpp\<close>: the streaming reader over a \<open>ByteSource\<close>. The virtual \<open>read\<close> of
  the source is the first argument of the operations: \<open>read source n\<close> is an error or the bytes that were put into a
  buffer of \<open>n\<close> bytes, and the source afterwards. The locale \<open>byte_source\<close> states what the reader relies on,
  and the file source of \<open>compression/raw_stream.cpp\<close> is its interpretation. A moved-from reader (\<open>impl_ == nullptr\<close>) is
  \<open>None\<close>. The loop of \<open>nextEntry\<close> ends only if the source does, so it is a partial function, with \<open>None\<close> for a call that
  never returns; \<open>next_entry_returns\<close> shows that on a finite source every call returns.
\<close>

subsection \<open>Reading bytes\<close>

type_synonym 's read_fn = "'s \<Rightarrow> nat \<Rightarrow> (TarError + string) \<times> 's"

function readFullFrom :: "'s read_fn \<Rightarrow> 's \<Rightarrow> nat \<Rightarrow> string \<Rightarrow> (TarError + string) \<times> 's" where
  "readFullFrom read source target got =
     (if length got < target
      then case read source (target - length got) of
          (Inl e, source') \<Rightarrow> (Inl e, source')
        | (Inr produced, source') \<Rightarrow>
            if produced = [] then (Inr got, source') else readFullFrom read source' target (got @ produced)
      else (Inr got, source))"
  by pat_completeness auto
termination by (relation "measure (\<lambda>(_, _, target, got). target - length got)") (auto simp: diff_less_mono2)

declare readFullFrom.simps [simp del]

definition readFull :: "'s read_fn \<Rightarrow> 's \<Rightarrow> nat \<Rightarrow> (TarError + string) \<times> 's" where
  "readFull read source target = readFullFrom read source target []"

definition readRecord :: "'s read_fn \<Rightarrow> 's \<Rightarrow> (TarError + RawRecord) \<times> 's" where
  "readRecord read source =
     (case readFull read source recordSize of
        (Inl e, source') \<Rightarrow> (Inl e, source')
      | (Inr got, source') \<Rightarrow>
          (if got = [] then Inl (makeError TruncatedArchive ''unexpected end-of-archive'')
           else if length got \<noteq> recordSize then Inl (makeError TruncatedArchive ''partial tar record at end of stream'')
           else Inr got, source'))"

function discardBytes :: "'s read_fn \<Rightarrow> 's \<Rightarrow> nat \<Rightarrow> (TarError + unit) \<times> 's" where
  "discardBytes read source remaining =
     (if remaining > 0
      then let chunk = min remaining 4096 in
        case readFull read source chunk of
          (Inl e, source') \<Rightarrow> (Inl e, source')
        | (Inr got, source') \<Rightarrow>
            if length got \<noteq> chunk then (Inl (makeError TruncatedArchive ''archive ended mid-padding''), source')
            else discardBytes read source' (remaining - chunk)
      else (Inr (), source))"
  by pat_completeness auto
termination by (relation "measure (\<lambda>(_, _, remaining). remaining)") auto

declare discardBytes.simps [simp del]

text \<open>The largest vector of bytes has \<open>PTRDIFF_MAX\<close> elements; memory that runs out before is not modelled.\<close>

definition readPayloadWithPadding :: "'s read_fn \<Rightarrow> 's \<Rightarrow> u64 \<Rightarrow> (TarFailure + string) \<times> 's" where
  "readPayloadWithPadding read source payloadSize =
     (if unat payloadSize > 2 ^ 63 - 1 then (Inl LengthError, source)
      else case (if payloadSize > 0 then readFull read source (unat payloadSize) else (Inr [], source)) of
          (Inl e, source') \<Rightarrow> (Inl (TarFailed e), source')
        | (Inr payload, source') \<Rightarrow>
            if length payload \<noteq> unat payloadSize
            then (Inl (TarFailed (makeError TruncatedArchive ''archive ended mid-entry payload'')), source')
            else let modulus = unat payloadSize mod recordSize in
              if modulus \<noteq> 0
              then (case discardBytes read source' (recordSize - modulus) of
                  (Inl e, source'') \<Rightarrow> (Inl (TarFailed e), source'')
                | (Inr _, source'') \<Rightarrow> (Inr payload, source''))
              else (Inr payload, source'))"

subsection \<open>The reader\<close>

record 's Reader =
  rd_source :: 's
  rd_hasActiveEntry :: bool
  rd_activeDeclaredSize :: u64
  rd_activeBytesRead :: u64
  rd_endOfArchive :: bool

definition Reader_makeFromSource :: "'s \<Rightarrow> 's Reader option" where
  "Reader_makeFromSource source = Some \<lparr>rd_source = source, rd_hasActiveEntry = False, rd_activeDeclaredSize = 0,
     rd_activeBytesRead = 0, rd_endOfArchive = False\<rparr>"

text \<open>A handle; \<open>er_owned\<close> is the pointer to its reader being set.\<close>

record EntryReader =
  er_owned :: bool
  er_header :: MemberHeader
  er_size :: u64
  er_bytesRead :: u64
  er_drained :: bool

text \<open>The loop of \<open>nextEntry\<close>: the record of the next member with the overrides of its PAX header, \<open>None\<close> at the end
  of the archive.\<close>

partial_function (option) nextRecord ::
  "'s read_fn \<Rightarrow> (string \<Rightarrow> u64 option) \<Rightarrow> 's \<Rightarrow> PaxOverrides \<Rightarrow>
     ((TarFailure + (ParsedUstar \<times> PaxOverrides) option) \<times> 's) option" where
  "nextRecord read stod source overrides =
     (case readRecord read source of
        (Inl e, source') \<Rightarrow> Some (Inl (TarFailed e), source')
      | (Inr record, source') \<Rightarrow>
        if isZeroRecord record
        then (case readRecord read source' of
            (Inl e, source'') \<Rightarrow> Some (Inl (TarFailed e), source'')
          | (Inr second, source'') \<Rightarrow>
            Some (if isZeroRecord second then Inr None
              else Inl (TarFailed (makeError InvalidHeader ''single zero record not followed by another zero record'')),
              source''))
        else case parseRecord record of
            Inl e \<Rightarrow> Some (Inl (TarFailed e), source')
          | Inr parsed \<Rightarrow>
            if pu_typeflag parsed = ExtendedHeader \<or> pu_typeflag parsed = GlobalExtendedHeader
            then (case readPayloadWithPadding read source' (pu_size parsed) of
                (Inl e, source'') \<Rightarrow> Some (Inl e, source'')
              | (Inr payload, source'') \<Rightarrow>
                (case parsePaxPayload stod payload of
                   Inl e \<Rightarrow> Some (Inl e, source'')
                 | Inr parsedOverrides \<Rightarrow>
                   nextRecord read stod source''
                     (if pu_typeflag parsed = ExtendedHeader then parsedOverrides else overrides)))
            else Some (Inr (Some (parsed, overrides)), source'))"

definition storedPayloadSize :: "TypeFlag \<Rightarrow> MemberHeader \<Rightarrow> u64" where
  "storedPayloadSize typeflag meta =
     (if typeflag \<in> {Directory_flag, SymbolicLink, HardLink, CharacterSpecial, BlockSpecial, FifoSpecial}
      then 0 else mh_size meta)"

definition nextEntry :: "'s read_fn \<Rightarrow> (string \<Rightarrow> u64 option) \<Rightarrow> 's Reader option \<Rightarrow>
    ((TarFailure + EntryReader option) \<times> 's Reader option) option" where
  "nextEntry read stod impl =
     (case impl of
        None \<Rightarrow> Some (Inl (TarFailed (makeError ReadAfterEnd ''reader is inert'')), None)
      | Some reader \<Rightarrow>
        if rd_hasActiveEntry reader
        then Some (Inl (TarFailed (makeError EntryStillOpen ''previous entry has not been drained or skipped'')), impl)
        else if rd_endOfArchive reader then Some (Inr None, impl)
        else case nextRecord read stod (rd_source reader) noOverrides of
            None \<Rightarrow> None
          | Some (Inl e, source) \<Rightarrow> Some (Inl e, Some (reader\<lparr>rd_source := source\<rparr>))
          | Some (Inr None, source) \<Rightarrow>
              Some (Inr None, Some (reader\<lparr>rd_source := source, rd_endOfArchive := True\<rparr>))
          | Some (Inr (Some (parsed, overrides)), source) \<Rightarrow>
              let meta = assembleMemberHeader parsed overrides;
                  payloadSize = storedPayloadSize (pu_typeflag parsed) meta
              in Some (Inr (Some \<lparr>er_owned = True, er_header = meta, er_size = payloadSize, er_bytesRead = 0,
                    er_drained = False\<rparr>),
                  Some (reader\<lparr>rd_source := source, rd_hasActiveEntry := True, rd_activeDeclaredSize := payloadSize,
                    rd_activeBytesRead := 0\<rparr>)))"

definition readEntryPayload :: "'s read_fn \<Rightarrow> 's Reader option \<Rightarrow> nat \<Rightarrow> (TarError + string) \<times> 's Reader option" where
  "readEntryPayload read impl n =
     (case impl of
        None \<Rightarrow> (Inl (makeError ReadAfterEnd ''reader is inert''), None)
      | Some reader \<Rightarrow>
        if \<not> rd_hasActiveEntry reader then (Inl (makeError NoActiveEntry ''no active entry to read from''), impl)
        else if n = 0 then (Inr [], impl)
        else case read (rd_source reader) n of
            (Inl e, source) \<Rightarrow> (Inl e, Some (reader\<lparr>rd_source := source\<rparr>))
          | (Inr produced, source) \<Rightarrow>
              (Inr produced, Some (reader\<lparr>rd_source := source,
                 rd_activeBytesRead := rd_activeBytesRead reader + of_nat (length produced)\<rparr>)))"

definition skipRemaining :: "'s read_fn \<Rightarrow> 's Reader option \<Rightarrow> (TarError + unit) \<times> 's Reader option" where
  "skipRemaining read impl =
     (case impl of
        None \<Rightarrow> (Inr (), None)
      | Some reader \<Rightarrow>
        if \<not> rd_hasActiveEntry reader then (Inr (), impl)
        else case discardBytes read (rd_source reader)
              (unat (rd_activeDeclaredSize reader - rd_activeBytesRead reader)) of
            (Inl e, source) \<Rightarrow> (Inl e, Some (reader\<lparr>rd_source := source, rd_hasActiveEntry := False\<rparr>))
          | (Inr _, source) \<Rightarrow>
            let modulus = unat (rd_activeDeclaredSize reader) mod recordSize in
            (case (if modulus \<noteq> 0 then discardBytes read source (recordSize - modulus) else (Inr (), source)) of
               (result, source') \<Rightarrow> (result, Some (reader\<lparr>rd_source := source', rd_hasActiveEntry := False\<rparr>))))"

definition detachActiveEntry :: "'s Reader option \<Rightarrow> 's Reader option" where
  "detachActiveEntry impl = map_option (\<lambda>reader. reader\<lparr>rd_hasActiveEntry := False\<rparr>) impl"

subsection \<open>The handle of an entry\<close>

definition EntryReader_read :: "'s read_fn \<Rightarrow> EntryReader \<Rightarrow> 's Reader option \<Rightarrow> nat \<Rightarrow>
    (TarError + string) \<times> EntryReader \<times> 's Reader option" where
  "EntryReader_read read entry impl n =
     (if er_drained entry then (Inr [], entry, impl)
      else if \<not> er_owned entry
      then (Inl (makeError ReadAfterEnd ''EntryReader is detached from its Reader''), entry, impl)
      else if er_bytesRead entry \<ge> er_size entry
      then (Inr [], entry\<lparr>er_drained := True, er_owned := False\<rparr>, detachActiveEntry impl)
      else
        let remaining = er_size entry - er_bytesRead entry; maxReadable = min n (unat remaining) in
        case readEntryPayload read impl maxReadable of
          (Inl e, impl') \<Rightarrow> (Inl e, entry, impl')
        | (Inr produced, impl') \<Rightarrow>
          let entry' = entry\<lparr>er_bytesRead := er_bytesRead entry + of_nat (length produced)\<rparr> in
          if er_bytesRead entry' = er_size entry
          then (case skipRemaining read impl' of
              (Inl e, impl'') \<Rightarrow> (Inl e, entry', impl'')
            | (Inr _, impl'') \<Rightarrow> (Inr produced, entry'\<lparr>er_drained := True, er_owned := False\<rparr>, impl''))
          else (Inr produced, entry', impl'))"

definition EntryReader_skip :: "'s read_fn \<Rightarrow> EntryReader \<Rightarrow> 's Reader option \<Rightarrow>
    (TarError + unit) \<times> EntryReader \<times> 's Reader option" where
  "EntryReader_skip read entry impl =
     (if er_drained entry \<or> \<not> er_owned entry then (Inr (), entry, impl)
      else case skipRemaining read impl of
          (skipped, impl') \<Rightarrow> (skipped, entry\<lparr>er_drained := True, er_owned := False\<rparr>, impl'))"

text \<open>The destructor of a handle.\<close>

definition EntryReader_destroy :: "'s read_fn \<Rightarrow> EntryReader \<Rightarrow> 's Reader option \<Rightarrow> 's Reader option" where
  "EntryReader_destroy read entry impl =
     (if \<not> er_drained entry \<and> er_owned entry then snd (skipRemaining read impl) else impl)"

subsection \<open>The file source\<close>

text \<open>\<open>RawSource\<close> with the part of the file that is still to be read; a failure of the device is not modelled.\<close>

record RawSource =
  rs_rest :: string
  rs_eof :: bool

definition RawSource_read :: "RawSource read_fn" where
  "RawSource_read source n =
     (if n = 0 then (Inr [], source)
      else let produced = take n (rs_rest source) in
        (Inr produced, \<lparr>rs_rest = drop n (rs_rest source), rs_eof = (rs_eof source \<or> produced = [])\<rparr>))"

subsection \<open>What the reader relies on\<close>

text \<open>A client that reads an entry to its end in buffers of \<open>n\<close> bytes, and one that does so with every entry.\<close>

inductive drains :: "'s read_fn \<Rightarrow> nat \<Rightarrow> EntryReader \<Rightarrow> 's Reader option \<Rightarrow> string \<Rightarrow> 's Reader option \<Rightarrow> bool" where
  at_end: "EntryReader_read read entry impl n = (Inr [], entry', impl') \<Longrightarrow> drains read n entry impl [] impl'"
| more: "EntryReader_read read entry impl n = (Inr produced, entry', impl') \<Longrightarrow> produced \<noteq> [] \<Longrightarrow>
    drains read n entry' impl' rest impl'' \<Longrightarrow> drains read n entry impl (produced @ rest) impl''"

inductive yields :: "'s read_fn \<Rightarrow> (string \<Rightarrow> u64 option) \<Rightarrow> nat \<Rightarrow> 's Reader option \<Rightarrow> (MemberHeader \<times> string) list \<Rightarrow> bool" where
  end_of_archive: "nextEntry read stod impl = Some (Inr None, impl') \<Longrightarrow> yields read stod n impl []"
| entry: "nextEntry read stod impl = Some (Inr (Some entry), impl') \<Longrightarrow> drains read n entry impl' payload impl'' \<Longrightarrow>
    yields read stod n impl'' entries \<Longrightarrow> yields read stod n impl ((er_header entry, payload) # entries)"

lemma concat_slices:
  "concat (map (\<lambda>i. take (min recordSize (length p - i * recordSize)) (drop (i * recordSize) p) @
      replicate (recordSize - min recordSize (length p - i * recordSize)) NUL) [0..<n])
   = take (n * recordSize) p @ replicate (n * recordSize - length p) NUL"
proof (induction n)
  case 0
  then show ?case by simp
next
  case (Suc n)
  have "take (Suc n * recordSize) p = take (n * recordSize) p @ take recordSize (drop (n * recordSize) p)"
    using take_add [of "n * recordSize" recordSize p] by (simp add: add.commute)
  then show ?case
    using Suc.IH by (cases "n * recordSize \<le> length p"; cases "Suc n * recordSize \<le> length p")
      (auto simp: min_def replicate_add [symmetric])
qed

lemma payloadRecords_concat: "concat (payloadRecords p) = p @ padding (length p)"
proof -
  let ?n = "(length p + recordSize - 1) div recordSize"
  have "?n * recordSize = length p + length (padding (length p))"
  proof -
    define k m where "k = length p div 512" and "m = length p mod 512"
    have l: "length p = 512 * k + m" "m < 512" by (simp_all add: k_def m_def)
    have "(511 + (512 * k + m)) div 512 = (if m = 0 then k else Suc k)"
      using l(2) by (cases "m = 0") (auto intro!: div_nat_eqI)
    then show ?thesis using l by (simp add: padding_def recordSize_def)
  qed
  then show ?thesis
    unfolding payloadRecords_def Let_def concat_slices by (auto simp: padding_def)
qed

text \<open>
  The two results of a call that are no value of \<open>std::expected\<close>, by what the bytes hold. A header of extended attributes
  is a record that parses as one; \<open>P\<close> is asked of the size it declares and the bytes behind it. Its payload has a wrapping
  item when the length of an item is \<open>2 ^ 64\<close> minus the position of the item.
\<close>

definition holds_extended :: "string \<Rightarrow> (u64 \<Rightarrow> string \<Rightarrow> bool) \<Rightarrow> bool" where
  "holds_extended bytes P \<longleftrightarrow>
     (\<exists>before header parsed behind. bytes = before @ header @ behind \<and> length header = recordSize \<and>
        parseRecord header = Inr parsed \<and> pu_typeflag parsed \<in> {ExtendedHeader, GlobalExtendedHeader} \<and>
        P (pu_size parsed) behind)"

definition wrapping_item :: "string \<Rightarrow> bool" where
  "wrapping_item payload \<longleftrightarrow>
     (\<exists>cursor digits rest. cursor < length payload \<and> drop cursor payload = digits @ CHR '' '' # rest \<and> CHR '' '' \<notin> set digits \<and>
        from_chars 10 (2 ^ 64) digits = Some (2 ^ 64 - cursor))"

abbreviation holds_wrapping :: "string \<Rightarrow> bool" where
  "holds_wrapping bytes \<equiv> holds_extended bytes (\<lambda>size behind. unat size \<le> length behind \<and> wrapping_item (take (unat size) behind))"

abbreviation holds_oversized :: "string \<Rightarrow> bool" where
  "holds_oversized bytes \<equiv> holds_extended bytes (\<lambda>size behind. 2 ^ 63 \<le> unat size)"

lemma holds_behind: "holds_extended (drop k bytes) P \<Longrightarrow> holds_extended bytes P"
proof -
  assume "holds_extended (drop k bytes) P"
  then obtain before header parsed behind where found: "drop k bytes = before @ header @ behind" "length header = recordSize"
    "parseRecord header = Inr parsed" "pu_typeflag parsed \<in> {ExtendedHeader, GlobalExtendedHeader}" "P (pu_size parsed) behind"
    by (auto simp: holds_extended_def)
  have "bytes = (take k bytes @ before) @ header @ behind" using append_take_drop_id [of k bytes] found(1) by simp
  with found(2-5) show ?thesis unfolding holds_extended_def by blast
qed

lemma parse_failures:
  "length payload < 2 ^ 64 \<Longrightarrow> parsePaxFrom stod payload cursor overrides \<noteq> Inl LengthError \<and>
    (parsePaxFrom stod payload cursor overrides = Inl OutOfBounds \<longrightarrow> wrapping_item payload)"
proof (induction stod payload cursor overrides rule: parsePaxFrom.induct)
  case (1 stod payload cursor overrides)
  note small = 1(2)
  have no_length: "extractPaxRecord payload cursor \<noteq> Inl LengthError"
    by (auto simp: extractPaxRecord_def Let_def split: sum.splits)
  show ?case
  proof (cases "cursor < length payload")
    case False
    then show ?thesis by (simp add: parsePaxFrom.simps)
  next
    case inside: True
    show ?thesis
    proof (cases "extractPaxRecord payload cursor")
      case (Inl e)
      have "wrapping_item payload" if "e = OutOfBounds"
      proof -
        have "\<exists>digits rest. drop cursor payload = digits @ CHR '' '' # rest \<and> CHR '' '' \<notin> set digits \<and>
            from_chars 10 (2 ^ 64) digits = Some (2 ^ 64 - cursor)"
          using extract_out_of_bounds [OF inside small] Inl that by blast
        with inside show ?thesis unfolding wrapping_item_def by blast
      qed
      moreover have "parsePaxFrom stod payload cursor overrides = Inl e" using Inl inside by (subst parsePaxFrom.simps) simp
      ultimately show ?thesis using Inl no_length by auto
    next
      case taken: (Inr item)
      show ?thesis
      proof (cases "applyPaxRecord stod item overrides")
        case (Inl e)
        with taken inside show ?thesis by (subst (1 2) parsePaxFrom.simps) simp
      next
        case (Inr overrides')
        have "parsePaxFrom stod payload cursor overrides = parsePaxFrom stod payload ((cursor + recordLength item) mod 2 ^ 64) overrides'"
          using inside taken Inr by (subst parsePaxFrom.simps) simp
        with 1(1) [OF inside taken Inr small] show ?thesis by presburger
      qed
    qed
  qed
qed

text \<open>A source without failures over the bytes \<open>content\<close>: a read into a buffer that is not empty takes the next bytes,
  as few as it likes, and none only at the end.\<close>

locale byte_source =
  fixes read :: "'s read_fn" and content :: "'s \<Rightarrow> string"
  assumes read_next: "0 < n \<Longrightarrow> \<exists>produced source'. read source n = (Inr produced, source') \<and>
    content source = produced @ content source' \<and> length produced \<le> n \<and> (produced = [] \<longrightarrow> content source = [])"
begin

lemma readFullFrom_content:
  "length got \<le> target \<Longrightarrow> \<exists>source'.
     readFullFrom read source target got = (Inr (got @ take (target - length got) (content source)), source') \<and>
     content source' = drop (target - length got) (content source)"
proof (induction "target - length got" arbitrary: got source rule: less_induct)
  case less
  show ?case
  proof (cases "length got < target")
    case False
    then show ?thesis by (subst readFullFrom.simps) simp
  next
    case True
    then obtain produced source' where r: "read source (target - length got) = (Inr produced, source')"
      "content source = produced @ content source'" "length produced \<le> target - length got"
      "produced = [] \<longrightarrow> content source = []"
      using read_next [of "target - length got" source] by auto
    show ?thesis
    proof (cases "produced = []")
      case True
      then show ?thesis using r \<open>length got < target\<close> by (subst readFullFrom.simps) simp
    next
      case False
      then have "target - length (got @ produced) < target - length got" "length (got @ produced) \<le> target"
        using True r(3) by (simp_all add: diff_less_mono2)
      from less.hyps [OF this, of source'] show ?thesis
        using True False r by (subst readFullFrom.simps) (simp add: take_Cons' drop_Cons')
    qed
  qed
qed

lemma readFull_content:
  "\<exists>source'. readFull read source n = (Inr (take n (content source)), source') \<and> content source' = drop n (content source)"
  using readFullFrom_content [of "[]" n source] by (simp add: readFull_def)

lemma readRecord_content:
  "\<exists>r source'. readRecord read source = (r, source') \<and> content source' = drop recordSize (content source) \<and>
     (recordSize \<le> length (content source) \<longrightarrow> r = Inr (take recordSize (content source))) \<and>
     (length (content source) < recordSize \<longrightarrow> (\<exists>e. r = Inl (makeError TruncatedArchive e)))"
  using readFull_content [of source recordSize] by (auto simp: readRecord_def recordSize_def)

lemma discardBytes_content:
  "\<exists>r source'. discardBytes read source n = (r, source') \<and> length (content source') \<le> length (content source) \<and>
     (n \<le> length (content source) \<longrightarrow> r = Inr () \<and> content source' = drop n (content source))"
proof (induction n arbitrary: source rule: less_induct)
  case (less n)
  show ?case
  proof (cases "n = 0")
    case True
    then show ?thesis by (subst discardBytes.simps) simp
  next
    case False
    let ?chunk = "min n 4096"
    obtain source' where r: "readFull read source ?chunk = (Inr (take ?chunk (content source)), source')"
      "content source' = drop ?chunk (content source)"
      using readFull_content [of source ?chunk] by auto
    have "n - ?chunk < n" using False by simp
    from less.IH [OF this, of source'] obtain r' source'' where
      "discardBytes read source' (n - ?chunk) = (r', source'')" "length (content source'') \<le> length (content source')"
      "n - ?chunk \<le> length (content source') \<longrightarrow> r' = Inr () \<and> content source'' = drop (n - ?chunk) (content source')"
      by blast
    then show ?thesis
      using False r by (subst discardBytes.simps) (auto simp: Let_def)
  qed
qed

lemma payload_content:
  "\<exists>r source'. readPayloadWithPadding read source z = (r, source') \<and> length (content source') \<le> length (content source)"
proof -
  obtain s1 where "readFull read source (unat z) = (Inr (take (unat z) (content source)), s1)"
    "content s1 = drop (unat z) (content source)"
    using readFull_content by blast
  then show ?thesis
    using discardBytes_content [of s1 "recordSize - unat z mod recordSize"]
      discardBytes_content [of source "recordSize - unat z mod recordSize"]
    by (auto simp: readPayloadWithPadding_def Let_def split: prod.splits sum.splits)
qed

text \<open>Every call returns, because every turn of the loop takes a record from the source.\<close>

lemma next_record_returns: "\<exists>r. nextRecord read stod source overrides = Some r"
proof (induction "length (content source)" arbitrary: source overrides rule: less_induct)
  case less
  obtain r s1 where r: "readRecord read source = (r, s1)" "content s1 = drop recordSize (content source)"
    "length (content source) < recordSize \<Longrightarrow> (\<exists>e. r = Inl (makeError TruncatedArchive e))"
    using readRecord_content [of source] by blast
  show ?case
  proof (cases r)
    case (Inl e)
    then show ?thesis using r(1) by (subst nextRecord.simps) simp
  next
    case (Inr first)
    then have "recordSize \<le> length (content source)" using r(3) by (cases "length (content source) < recordSize") auto
    then have shorter: "length (content s1) < length (content source)" using r(2) by (simp add: recordSize_def)
    have again: "\<exists>a b. nextRecord read stod s2 ov = Some (a, b)" if "readPayloadWithPadding read s1 z = (p, s2)" for z p s2 ov
      using payload_content [of s1 z] shorter that less.hyps [of s2 ov] by auto
    show ?thesis
      using Inr r(1) by (subst nextRecord.simps) (auto split: prod.splits sum.splits intro: again)
  qed
qed

text \<open>And the results that are no value come from what the bytes hold.\<close>

lemma discardBytes_behind: "discardBytes read source n = (r, source') \<Longrightarrow> \<exists>k. content source' = drop k (content source)"
proof (induction n arbitrary: source rule: less_induct)
  case (less n)
  show ?case
  proof (cases "n = 0")
    case True
    with less.prems show ?thesis by (auto simp: discardBytes.simps intro: exI [of _ 0])
  next
    case False
    let ?chunk = "min n 4096"
    obtain s1 where r: "readFull read source ?chunk = (Inr (take ?chunk (content source)), s1)"
      "content s1 = drop ?chunk (content source)"
      using readFull_content [of source ?chunk] by auto
    show ?thesis
    proof (cases "length (take ?chunk (content source)) = ?chunk")
      case True
      with less.prems False r(1) have "discardBytes read s1 (n - ?chunk) = (r, source')"
        by (subst (asm) discardBytes.simps) (auto simp: Let_def)
      moreover have "n - ?chunk < n" using False by simp
      ultimately obtain k where "content source' = drop k (content s1)" using less.IH by blast
      with r(2) show ?thesis by (intro exI [of _ "k + ?chunk"]) (simp add: add.commute)
    next
      case False
      with less.prems \<open>n \<noteq> 0\<close> r(1) have "source' = s1" by (subst (asm) discardBytes.simps) (auto simp: Let_def)
      with r(2) show ?thesis by (intro exI [of _ ?chunk]) simp
    qed
  qed
qed

lemma payload_behind:
  assumes "readPayloadWithPadding read source z = (r, source')"
  shows "r \<noteq> Inl OutOfBounds" and "r = Inl LengthError \<Longrightarrow> 2 ^ 63 \<le> unat z"
    and "r = Inr payload \<Longrightarrow> payload = take (unat z) (content source) \<and> length payload = unat z \<and>
      (\<exists>k. content source' = drop k (content source))"
proof -
  obtain s1 where full: "(if z > 0 then readFull read source (unat z) else (Inr [], source)) = (Inr (take (unat z) (content source)), s1)"
    "content s1 = drop (unat z) (content source)"
    using readFull_content [of source "unat z"] by (cases "z = 0") (auto simp: word_neq_0_conv)
  have behind: "\<exists>k. content s2 = drop k (content source)" if "discardBytes read s1 n = (x, s2)" for n x s2
    using discardBytes_behind [OF that] full(2) by (auto simp: drop_drop)
  show "r \<noteq> Inl OutOfBounds" "r = Inl LengthError \<Longrightarrow> 2 ^ 63 \<le> unat z"
    using assms full(1) by (auto simp: readPayloadWithPadding_def Let_def split: if_splits prod.splits sum.splits)
  show "r = Inr payload \<Longrightarrow> payload = take (unat z) (content source) \<and> length payload = unat z \<and>
      (\<exists>k. content source' = drop k (content source))"
    using assms full behind by (auto simp: readPayloadWithPadding_def Let_def split: if_splits prod.splits sum.splits)
qed

lemma next_record_failures:
  "nextRecord read stod source overrides = Some (r, source') \<Longrightarrow>
     (r = Inl OutOfBounds \<longrightarrow> holds_wrapping (content source)) \<and> (r = Inl LengthError \<longrightarrow> holds_oversized (content source))"
proof (induction "length (content source)" arbitrary: source overrides rule: less_induct)
  case less
  obtain first s1 where first: "readRecord read source = (first, s1)" "content s1 = drop recordSize (content source)"
    "recordSize \<le> length (content source) \<Longrightarrow> first = Inr (take recordSize (content source))"
    "length (content source) < recordSize \<Longrightarrow> (\<exists>e. first = Inl (makeError TruncatedArchive e))"
    using readRecord_content [of source] by blast
  obtain second s2 where second: "readRecord read s1 = (second, s2)" by force
  show ?case
  proof (cases "recordSize \<le> length (content source)")
    case False
    with first less.prems show ?thesis by (subst (asm) nextRecord.simps) auto
  next
    case True
    let ?first = "take recordSize (content source)"
    have split: "content source = [] @ ?first @ content s1" "length ?first = recordSize" using True first(2) by simp_all
    note prems = less.prems [unfolded nextRecord.simps [of read stod source] first(1) first(3) [OF True], simplified second]
    show ?thesis
    proof (cases "\<exists>parsed. \<not> isZeroRecord ?first \<and> parseRecord ?first = Inr parsed \<and>
        pu_typeflag parsed \<in> {ExtendedHeader, GlobalExtendedHeader}")
      case False
      with prems show ?thesis by (auto split: if_splits sum.splits prod.splits)
    next
      case header: True
      then obtain parsed where parsed: "\<not> isZeroRecord ?first" "parseRecord ?first = Inr parsed"
        "pu_typeflag parsed \<in> {ExtendedHeader, GlobalExtendedHeader}" by blast
      let ?z = "pu_size parsed"
      obtain p s3 where p: "readPayloadWithPadding read s1 ?z = (p, s3)" by force
      have holds: "holds_extended (content source) P" if "P ?z (content s1)" for P
        unfolding holds_extended_def using split parsed(2,3) that by blast
      show ?thesis
      proof (cases p)
        case (Inl e)
        then have "r = Inl e" using prems parsed p by (auto split: if_splits)
        with Inl payload_behind(1,2) [OF p] show ?thesis by (auto intro!: holds)
      next
        case (Inr payload)
        from payload_behind(3) [OF p this] obtain k where payload: "payload = take (unat ?z) (content s1)" "length payload = unat ?z"
          "content s3 = drop k (content s1)" by blast
        have small: "length payload < 2 ^ 64" using payload(2) unsigned_less [of ?z] by simp
        have inside: "unat ?z \<le> length (content s1)" using payload(1,2) by (metis length_take min.absorb_iff2)
        show ?thesis
        proof (cases "parsePaxPayload stod payload")
          case (Inl e)
          then have "r = Inl e" using prems parsed p Inr by (auto split: if_splits)
          moreover have "e \<noteq> LengthError \<and> (e = OutOfBounds \<longrightarrow> wrapping_item payload)"
            using Inl parse_failures [OF small, of stod 0 noOverrides] by (auto simp: parsePaxPayload_def)
          ultimately show ?thesis using inside payload(1) by (auto intro!: holds)
        next
          case (Inr found)
          then obtain ov where "nextRecord read stod s3 ov = Some (r, source')"
            using prems parsed p \<open>p = Inr payload\<close> by (auto split: if_splits)
          moreover have "length (content s3) < length (content source)"
            using True payload(3) first(2) by (simp add: recordSize_def)
          ultimately have later: "nextRecord read stod s3 ov = Some (r, source')" "length (content s3) < length (content source)" .
          have "content s3 = drop (k + recordSize) (content source)" using payload(3) first(2) by (simp add: add.commute)
          then have whole: "holds_extended (content s3) P \<Longrightarrow> holds_extended (content source) P" for P
            by (simp only:) (rule holds_behind)
          from less.hyps [OF later(2,1)] show ?thesis by (auto intro: whole)
        qed
      qed
    qed
  qed
qed

lemma next_entry_failures:
  assumes "nextEntry read stod impl = Some (r, impl')"
  shows "(r = Inl OutOfBounds \<longrightarrow> (\<exists>reader. impl = Some reader \<and> holds_wrapping (content (rd_source reader)))) \<and>
    (r = Inl LengthError \<longrightarrow> (\<exists>reader. impl = Some reader \<and> holds_oversized (content (rd_source reader))))"
proof (cases impl)
  case (Some reader)
  obtain res source where res: "nextRecord read stod (rd_source reader) noOverrides = Some (res, source)"
    using next_record_returns [of stod "rd_source reader" noOverrides] by auto
  with assms Some next_record_failures [OF res] show ?thesis
    by (auto simp: nextEntry_def Let_def split: if_splits sum.splits option.splits)
qed (use assms in \<open>auto simp: nextEntry_def\<close>)

lemma next_entry_returns: "\<exists>r. nextEntry read stod impl = Some r"
proof (cases impl)
  case (Some reader)
  obtain r where "nextRecord read stod (rd_source reader) noOverrides = Some r" using next_record_returns by blast
  then show ?thesis by (auto simp: Some nextEntry_def Let_def split: option.splits sum.splits prod.splits)
qed (simp add: nextEntry_def)

lemma payload_read:
  assumes "unat z < 2 ^ 63" "content source = p @ padding (unat z) @ rest" "length p = unat z"
  shows "\<exists>source'. readPayloadWithPadding read source z = (Inr p, source') \<and> content source' = rest"
proof -
  obtain s1 where full: "(if z > 0 then readFull read source (unat z) else (Inr [], source)) = (Inr p, s1)"
    "content s1 = padding (unat z) @ rest"
    using readFull_content [of source "unat z"] assms(2,3)
    by (cases "z = 0") (auto simp: word_neq_0_conv)
  have small: "\<not> unat z > 2 ^ 63 - 1" using assms(1) by simp
  show ?thesis
  proof (cases "unat z mod recordSize = 0")
    case True
    then show ?thesis
      using full small assms(3) by (simp add: readPayloadWithPadding_def Let_def padding_def)
  next
    case False
    obtain s2 where "discardBytes read s1 (recordSize - unat z mod recordSize) = (Inr (), s2)" "content s2 = rest"
      using discardBytes_content [of s1 "recordSize - unat z mod recordSize"] full(2) False by (auto simp: padding_def)
    then show ?thesis
      using full(1) small assms(3) False by (simp add: readPayloadWithPadding_def Let_def)
  qed
qed

lemma record_read:
  assumes "content source = r @ rest" "length r = recordSize"
  shows "\<exists>source'. readRecord read source = (Inr r, source') \<and> content source' = rest"
  using readRecord_content [of source] assms by auto

lemma next_member:
  assumes "content source = main @ rest" "length main = recordSize" "\<not> isZeroRecord main" "parseRecord main = Inr u"
    "pu_typeflag u \<noteq> ExtendedHeader" "pu_typeflag u \<noteq> GlobalExtendedHeader"
  shows "\<exists>source'. nextRecord read stod source o' = Some (Inr (Some (u, o')), source') \<and> content source' = rest"
  using record_read [OF assms(1,2)] assms(3-) by (subst nextRecord.simps) auto

lemma next_pax:
  assumes "content source = concat records @ rest" "pax_records stod records o'"
  shows "\<exists>source'. nextRecord read stod source ov = nextRecord read stod source' o' \<and> content source' = rest"
proof -
  obtain payload r h where r: "records = r # payloadRecords payload" "length r = recordSize" "\<not> isZeroRecord r"
    "parseRecord r = Inr h" "pu_typeflag h = ExtendedHeader" "pu_size h = of_nat (length payload)"
    "length payload < 2 ^ 63" "parsePaxPayload stod payload = Inr o'"
    using assms(2) by (auto simp: pax_records_def)
  have z: "unat (pu_size h) = length payload"
    using r(6,7) by (simp add: unsigned_of_nat take_bit_nat_eq_self)
  obtain s1 where s1: "readRecord read source = (Inr r, s1)"
    "content s1 = payload @ padding (unat (pu_size h)) @ rest"
    using record_read [of source r] assms(1) r(1,2) z by (auto simp: payloadRecords_concat)
  have "unat (pu_size h) < 2 ^ 63" unfolding z by (rule r(7))
  then obtain s2 where s2: "readPayloadWithPadding read s1 (pu_size h) = (Inr payload, s2)" "content s2 = rest"
    using payload_read [OF _ s1(2) z [symmetric]] by blast
  have "nextRecord read stod source ov = nextRecord read stod s2 o'"
    by (subst nextRecord.simps) (simp only: s1(1) s2(1) r(3-5,8) prod.case sum.case if_False if_True simp_thms)
  then show ?thesis using s2(2) by blast
qed

lemma next_end:
  assumes "content source = replicate (recordSize * 2) NUL @ rest"
  shows "\<exists>source'. nextRecord read stod source o' = Some (Inr None, source') \<and> content source' = rest"
proof -
  let ?zero = "replicate recordSize NUL"
  have twice: "content source = ?zero @ ?zero @ rest"
    unfolding assms mult_2_right replicate_add append_assoc by (rule refl)
  obtain s1 where s1: "readRecord read source = (Inr ?zero, s1)" "content s1 = ?zero @ rest"
    using record_read [OF twice] by auto
  obtain s2 where "readRecord read s1 = (Inr ?zero, s2)" "content s2 = rest"
    using record_read [OF s1(2)] by auto
  then show ?thesis using s1(1) by (subst nextRecord.simps) (simp add: isZeroRecord_def list_all_iff)
qed

text \<open>The records that \<open>buildRecords\<close> makes for a member are read back as the header of the member.\<close>

lemma next_built:
  assumes "buildRecords meta = Some (Inr built)" "recordable meta"
    "content source = concat (built_records built) @ rest"
  obtains flag u o' source' where
    "typeFlagFromFileType (mh_type meta) = Inr flag" "pu_typeflag u = flag"
    "built_payloadSize built = (if flag = Directory_flag then 0 else mh_size meta)"
    "assembleMemberHeader u o' = archivedHeader meta flag"
    "nextRecord read stod source noOverrides = Some (Inr (Some (u, o')), source')" "content source' = rest"
proof -
  obtain flag extra main u o' where b: "typeFlagFromFileType (mh_type meta) = Inr flag"
    "built_payloadSize built = (if flag = Directory_flag then 0 else mh_size meta)"
    "built_records built = extra @ [main]"
    "length main = recordSize" "\<not> isZeroRecord main" "parseRecord main = Inr u" "pu_typeflag u = flag"
    "assembleMemberHeader u o' = archivedHeader meta flag"
    "extra = [] \<and> o' = noOverrides \<or> pax_records stod extra o'"
    using assms(1,2) by (rule built_entry)
  have flag: "pu_typeflag u \<noteq> ExtendedHeader" "pu_typeflag u \<noteq> GlobalExtendedHeader"
    using flag_types [OF b(1)] b(7) by auto
  have "\<exists>s1. nextRecord read stod source noOverrides = nextRecord read stod s1 o' \<and> content s1 = main @ rest"
    using b(9) next_pax [of source extra "main @ rest" stod o' noOverrides] assms(3) by (auto simp: b(3))
  then show thesis
    using next_member [OF _ b(4-6) flag] that [OF b(1,7,2,8)] by metis
qed

lemma discard_exact:
  assumes "content source = dropped @ rest" "n = length dropped"
  shows "\<exists>source'. discardBytes read source n = (Inr (), source') \<and> content source' = rest"
  using discardBytes_content [of source n] assms by auto

text \<open>After the last byte of the payload the padding is skipped and the reader is free for the next entry.\<close>

lemma skip_padding:
  assumes "rd_hasActiveEntry rd" "content (rd_source rd) = p @ padding (unat (rd_activeDeclaredSize rd)) @ rest"
    "unat (rd_activeDeclaredSize rd - rd_activeBytesRead rd) = length p"
  shows "\<exists>source'. skipRemaining read (Some rd) = (Inr (), Some (rd\<lparr>rd_source := source', rd_hasActiveEntry := False\<rparr>)) \<and>
    content source' = rest"
proof -
  let ?pad = "padding (unat (rd_activeDeclaredSize rd))"
  obtain s1 where s1: "discardBytes read (rd_source rd) (length p) = (Inr (), s1)" "content s1 = ?pad @ rest"
    using discard_exact [OF assms(2)] by blast
  have "\<exists>s2. (if unat (rd_activeDeclaredSize rd) mod recordSize \<noteq> 0
        then discardBytes read s1 (recordSize - unat (rd_activeDeclaredSize rd) mod recordSize) else (Inr (), s1))
      = (Inr (), s2) \<and> content s2 = rest"
    using discard_exact [OF s1(2)] s1(2) by (auto simp: padding_def split: if_splits)
  then show ?thesis using assms(1,3) s1(1) by (auto simp: skipRemaining_def Let_def)
qed

lemma drain_done: "er_drained entry \<Longrightarrow> drains read n entry impl [] impl"
  by (rule drains.at_end) (simp add: EntryReader_read_def)

lemma drain_entry:
  assumes "0 < n" "er_owned entry" "\<not> er_drained entry" "rd_hasActiveEntry rd"
    "er_size entry = rd_activeDeclaredSize rd" "er_bytesRead entry = rd_activeBytesRead rd"
    "content (rd_source rd) = p @ padding (unat (er_size entry)) @ rest"
    "unat (er_size entry) = unat (er_bytesRead entry) + length p" "p = [] \<Longrightarrow> er_size entry = 0"
  shows "\<exists>source'. drains read n entry (Some rd) p
      (Some (rd\<lparr>rd_source := source', rd_hasActiveEntry := False, rd_activeBytesRead := er_size entry\<rparr>)) \<and>
    content source' = rest"
  using assms
proof (induction "length p" arbitrary: p entry rd rule: less_induct)
  case less
  let ?z = "er_size entry" and ?b = "er_bytesRead entry"
  show ?case
  proof (cases "p = []")
    case True
    then have z: "?z = 0" "?b = 0" using less.prems(8,9) by (auto simp: unat_eq_0)
    have "EntryReader_read read entry (Some rd) n =
        (Inr [], entry\<lparr>er_drained := True, er_owned := False\<rparr>, Some (rd\<lparr>rd_hasActiveEntry := False\<rparr>))"
      using less.prems z by (simp add: EntryReader_read_def detachActiveEntry_def)
    moreover have "content (rd_source rd) = rest" using less.prems(7) True z by (simp add: padding_def)
    moreover have "rd\<lparr>rd_hasActiveEntry := False\<rparr>
        = rd\<lparr>rd_source := rd_source rd, rd_hasActiveEntry := False, rd_activeBytesRead := ?z\<rparr>"
      using z less.prems(6) by (cases rd) simp
    ultimately have "drains read n entry (Some rd) []
        (Some (rd\<lparr>rd_source := rd_source rd, rd_hasActiveEntry := False, rd_activeBytesRead := ?z\<rparr>)) \<and>
      content (rd_source rd) = rest"
      using drains.at_end [of read entry "Some rd" n] by metis
    then show ?thesis unfolding True by (rule exI)
  next
    case False
    have le: "?b \<le> ?z" "?b \<noteq> ?z" using less.prems(8) False by (auto simp: word_le_nat_alt)
    then have left: "unat (?z - ?b) = length p" using less.prems(8) by (simp add: unat_sub)
    let ?n = "min n (length p)"
    have "0 < ?n" using False less.prems(1) by simp
    then obtain produced s1 where r: "read (rd_source rd) ?n = (Inr produced, s1)"
      "content (rd_source rd) = produced @ content s1" "length produced \<le> ?n" "produced \<noteq> []"
      using read_next [of ?n "rd_source rd"] less.prems(7) False by fastforce
    then obtain p' where p': "p = produced @ p'" "content s1 = p' @ padding (unat ?z) @ rest"
      using less.prems(7) by (auto simp: append_eq_append_conv2)
    define b' where "b' = ?b + of_nat (length produced)"
    have b': "unat b' = unat ?b + length produced"
      using less.prems(8) p' unat_below [of ?z] by (simp add: b'_def unat_word_ariths unsigned_of_nat take_bit_nat_eq_self)
    let ?rd = "rd\<lparr>rd_source := s1, rd_activeBytesRead := b'\<rparr>" and ?entry = "entry\<lparr>er_bytesRead := b'\<rparr>"
    have payload: "readEntryPayload read (Some rd) ?n = (Inr produced, Some ?rd)"
    proof -
      obtain m where m: "?n = Suc m" using \<open>0 < ?n\<close> gr0_implies_Suc by blast
      show ?thesis using r(1) less.prems(4,6) unfolding m by (simp add: readEntryPayload_def b'_def)
    qed
    have step: "EntryReader_read read entry (Some rd) n =
      (if b' = ?z then (case skipRemaining read (Some ?rd) of
          (Inl e, impl) \<Rightarrow> (Inl e, ?entry, impl)
        | (Inr _, impl) \<Rightarrow> (Inr produced, ?entry\<lparr>er_drained := True, er_owned := False\<rparr>, impl))
       else (Inr produced, ?entry, Some ?rd))"
    proof -
      have "\<not> ?z \<le> ?b" using le by auto
      then show ?thesis
        using less.prems(2,3) by (simp add: EntryReader_read_def Let_def left payload b'_def [symmetric])
    qed
    show ?thesis
    proof (cases "p' = []")
      case True
      then have complete: "b' = ?z" using b' p' less.prems(8) by (simp add: word_unat_eq_iff)
      let ?rest = "\<lambda>s2. rd\<lparr>rd_source := s2, rd_hasActiveEntry := False, rd_activeBytesRead := ?z\<rparr>"
      have same: "?rd\<lparr>rd_source := s2, rd_hasActiveEntry := False\<rparr> = ?rest s2" for s2
        using complete by (cases rd) simp
      obtain s2 where s2: "skipRemaining read (Some ?rd) = (Inr (), Some (?rest s2))" "content s2 = rest"
        using skip_padding [of ?rd "[]" rest] less.prems(4,5) p' True complete unfolding same by auto
      have "EntryReader_read read entry (Some rd) n
          = (Inr produced, ?entry\<lparr>er_drained := True, er_owned := False\<rparr>, Some (?rest s2))"
        unfolding step using complete s2(1) by simp
      then have "drains read n entry (Some rd) (produced @ []) (Some (?rest s2))"
        by (rule drains.more [OF _ r(4)]) (simp add: drain_done)
      then show ?thesis using s2(2) p'(1) True by (intro exI [of _ s2]) simp
    next
      case more: False
      then have "b' \<noteq> ?z" using b' p' less.prems(8) by auto
      moreover have "\<exists>source'. drains read n ?entry (Some ?rd) p'
          (Some (?rd\<lparr>rd_source := source', rd_hasActiveEntry := False, rd_activeBytesRead := er_size ?entry\<rparr>)) \<and>
        content source' = rest"
        using less.prems b' p' more r(4) by (intro less.hyps) auto
      ultimately show ?thesis
        using step r(4) drains.more [of read entry "Some rd" n produced ?entry "Some ?rd" p'] by (auto simp: p'(1))
    qed
  qed
qed

end

interpretation raw_source: byte_source RawSource_read rs_rest
  by unfold_locales (auto simp: RawSource_read_def Let_def)

end
