(* ===== verification/Tar_Writer.thy ===== *)
theory Tar_Writer
  imports Tar_Header
begin

text \<open>
  \<open>tar_archive/writer.cpp\<close> and \<open>entry_writer.cpp\<close>: the streaming writer over a \<open>ByteSink\<close>, whose virtual \<open>write\<close> and
  \<open>finish\<close> are the first arguments of the operations. The locale \<open>byte_sink\<close> states what a sink that does not fail
  does, and the file sink of \<open>compression/raw_stream.cpp\<close> is its interpretation. A moved-from or discarded writer is \<open>None\<close>.
\<close>

subsection \<open>Writing bytes\<close>

type_synonym 'k write_fn = "'k \<Rightarrow> string \<Rightarrow> (TarError + unit) \<times> 'k"
type_synonym 'k finish_fn = "'k \<Rightarrow> (TarError + unit) \<times> 'k"

function writeZeros :: "'k write_fn \<Rightarrow> 'k \<Rightarrow> nat \<Rightarrow> (TarError + unit) \<times> 'k" where
  "writeZeros write sink remaining =
     (if remaining > 0
      then let portion = min remaining 512 in
        case write sink (replicate portion NUL) of
          (Inl e, sink') \<Rightarrow> (Inl e, sink')
        | (Inr _, sink') \<Rightarrow> writeZeros write sink' (remaining - portion)
      else (Inr (), sink))"
  by pat_completeness auto
termination by (relation "measure (\<lambda>(_, _, remaining). remaining)") auto

declare writeZeros.simps [simp del]

definition padToBoundary :: "'k write_fn \<Rightarrow> 'k \<Rightarrow> u64 \<Rightarrow> (TarError + unit) \<times> 'k" where
  "padToBoundary write sink bytesEmitted =
     (let modulus = unat bytesEmitted mod recordSize in
      if modulus = 0 then (Inr (), sink) else writeZeros write sink (recordSize - modulus))"

fun writeRecords :: "'k write_fn \<Rightarrow> 'k \<Rightarrow> RawRecord list \<Rightarrow> (TarError + unit) \<times> 'k" where
  "writeRecords write sink [] = (Inr (), sink)"
| "writeRecords write sink (r # records) =
     (case write sink r of
        (Inl e, sink') \<Rightarrow> (Inl e, sink')
      | (Inr _, sink') \<Rightarrow> writeRecords write sink' records)"

subsection \<open>The writer\<close>

record 'k Writer =
  wr_sink :: 'k
  wr_hasActiveEntry :: bool
  wr_finalized :: bool

definition Writer_makeFromSink :: "'k \<Rightarrow> 'k Writer option" where
  "Writer_makeFromSink sink = Some \<lparr>wr_sink = sink, wr_hasActiveEntry = False, wr_finalized = False\<rparr>"

text \<open>A handle; \<open>ew_owned\<close> is the pointer to its writer being set.\<close>

record EntryWriter =
  ew_owned :: bool
  ew_declaredSize :: u64
  ew_bytesWritten :: u64
  ew_closed :: bool

definition isFinalized :: "'k Writer option \<Rightarrow> bool" where
  "isFinalized impl = (case impl of None \<Rightarrow> True | Some writer \<Rightarrow> wr_finalized writer)"

definition beginEntry :: "'k write_fn \<Rightarrow> 'k Writer option \<Rightarrow> MemberHeader \<Rightarrow>
    ((TarError + EntryWriter) \<times> 'k Writer option) option" where
  "beginEntry write impl meta =
     (case impl of
        None \<Rightarrow> Some (Inl (makeError WriteAfterFinalize ''writer has already been finalised''), None)
      | Some writer \<Rightarrow>
        if wr_finalized writer
        then Some (Inl (makeError WriteAfterFinalize ''writer has already been finalised''), impl)
        else if wr_hasActiveEntry writer
        then Some (Inl (makeError EntryStillOpen ''previous entry has not been closed''), impl)
        else case buildRecords meta of
            None \<Rightarrow> None
          | Some (Inl e) \<Rightarrow> Some (Inl e, impl)
          | Some (Inr built) \<Rightarrow>
            (case writeRecords write (wr_sink writer) (built_records built) of
               (Inl e, sink) \<Rightarrow> Some (Inl e, Some (writer\<lparr>wr_sink := sink\<rparr>))
             | (Inr _, sink) \<Rightarrow>
                 Some (Inr \<lparr>ew_owned = True, ew_declaredSize = built_payloadSize built, ew_bytesWritten = 0,
                     ew_closed = False\<rparr>,
                   Some (writer\<lparr>wr_sink := sink, wr_hasActiveEntry := True\<rparr>))))"

definition Writer_finalize :: "'k write_fn \<Rightarrow> 'k finish_fn \<Rightarrow> 'k Writer option \<Rightarrow>
    (TarError + unit) \<times> 'k Writer option" where
  "Writer_finalize write finish impl =
     (case impl of
        None \<Rightarrow> (Inl (makeError AlreadyFinalized ''writer is inert (moved-from or already finalised)''), None)
      | Some writer \<Rightarrow>
        if wr_finalized writer
        then (Inl (makeError AlreadyFinalized ''writer has already been finalised''), impl)
        else if wr_hasActiveEntry writer
        then (Inl (makeError EntryStillOpen ''active entry must be closed before finalising''), impl)
        else case writeZeros write (wr_sink writer) (recordSize * 2) of
            (Inl e, sink) \<Rightarrow> (Inl e, Some (writer\<lparr>wr_sink := sink\<rparr>))
          | (Inr _, sink) \<Rightarrow>
            (case finish sink of
               (Inl e, sink') \<Rightarrow> (Inl e, Some (writer\<lparr>wr_sink := sink'\<rparr>))
             | (Inr _, sink') \<Rightarrow> (Inr (), Some (writer\<lparr>wr_sink := sink', wr_finalized := True\<rparr>))))"

text \<open>The destructor finishes the archive, whatever comes of it. \<open>discard\<close> leaves the sink to its own \<open>discard\<close>.\<close>

definition Writer_destroy :: "'k write_fn \<Rightarrow> 'k finish_fn \<Rightarrow> 'k Writer option \<Rightarrow> 'k Writer option" where
  "Writer_destroy write finish impl =
     (case impl of
        None \<Rightarrow> None
      | Some writer \<Rightarrow> if \<not> wr_finalized writer then snd (Writer_finalize write finish impl) else impl)"

definition Writer_discard :: "('k \<Rightarrow> 'k) \<Rightarrow> 'k Writer option \<Rightarrow> 'k option \<times> 'k Writer option" where
  "Writer_discard discard impl =
     (case impl of None \<Rightarrow> (None, None) | Some writer \<Rightarrow> (Some (discard (wr_sink writer)), None))"

definition writeEntryPayload :: "'k write_fn \<Rightarrow> 'k Writer option \<Rightarrow> string \<Rightarrow> (TarError + unit) \<times> 'k Writer option" where
  "writeEntryPayload write impl bytes =
     (case impl of
        None \<Rightarrow> (Inl (makeError WriteAfterFinalize ''writer is inert''), None)
      | Some writer \<Rightarrow>
        (case write (wr_sink writer) bytes of (result, sink) \<Rightarrow> (result, Some (writer\<lparr>wr_sink := sink\<rparr>))))"

definition closeActiveEntry :: "'k write_fn \<Rightarrow> 'k Writer option \<Rightarrow> u64 \<Rightarrow> u64 \<Rightarrow> (TarError + unit) \<times> 'k Writer option" where
  "closeActiveEntry write impl declared written =
     (case impl of
        None \<Rightarrow> (Inl (makeError WriteAfterFinalize ''writer is inert''), None)
      | Some writer \<Rightarrow>
        if \<not> wr_hasActiveEntry writer then (Inl (makeError NoActiveEntry ''no active entry to close''), impl)
        else if written \<noteq> declared
        then
          let missing = declared - written in
          (case writeZeros write (wr_sink writer) (unat missing) of
             (filled, sink) \<Rightarrow>
               let sink' = (case filled of Inr _ \<Rightarrow> snd (padToBoundary write sink declared) | Inl _ \<Rightarrow> sink) in
               (Inl (makeError UnderrunOnClose ''entry closed with fewer bytes than declared''),
                Some (writer\<lparr>wr_sink := sink', wr_hasActiveEntry := False\<rparr>)))
        else
          (case padToBoundary write (wr_sink writer) declared of
             (padded, sink) \<Rightarrow> (padded, Some (writer\<lparr>wr_sink := sink, wr_hasActiveEntry := False\<rparr>))))"

definition abandonActiveEntry :: "'k write_fn \<Rightarrow> 'k Writer option \<Rightarrow> u64 \<Rightarrow> u64 \<Rightarrow> 'k Writer option" where
  "abandonActiveEntry write impl declared written =
     (case impl of
        None \<Rightarrow> None
      | Some writer \<Rightarrow>
        if \<not> wr_hasActiveEntry writer then impl
        else
          let sink = (if written < declared then snd (writeZeros write (wr_sink writer) (unat (declared - written)))
                else wr_sink writer);
              sink = snd (padToBoundary write sink declared)
          in Some (writer\<lparr>wr_sink := sink, wr_hasActiveEntry := False\<rparr>))"

subsection \<open>The handle of an entry\<close>

text \<open>The sum of sizes is one of \<open>uint64_t\<close>.\<close>

definition EntryWriter_write :: "'k write_fn \<Rightarrow> EntryWriter \<Rightarrow> 'k Writer option \<Rightarrow> string \<Rightarrow>
    (TarError + unit) \<times> EntryWriter \<times> 'k Writer option" where
  "EntryWriter_write write entry impl bytes =
     (if ew_closed entry \<or> \<not> ew_owned entry
      then (Inl (makeError AlreadyClosed ''EntryWriter has already been closed''), entry, impl)
      else if ew_bytesWritten entry + of_nat (length bytes) > ew_declaredSize entry
      then (Inl (makeError OverrunOnWrite ''write would exceed declared entry size''), entry, impl)
      else if bytes = [] then (Inr (), entry, impl)
      else case writeEntryPayload write impl bytes of
          (Inl e, impl') \<Rightarrow> (Inl e, entry, impl')
        | (Inr _, impl') \<Rightarrow>
            (Inr (), entry\<lparr>ew_bytesWritten := ew_bytesWritten entry + of_nat (length bytes)\<rparr>, impl'))"

definition EntryWriter_close :: "'k write_fn \<Rightarrow> EntryWriter \<Rightarrow> 'k Writer option \<Rightarrow>
    (TarError + unit) \<times> EntryWriter \<times> 'k Writer option" where
  "EntryWriter_close write entry impl =
     (if ew_closed entry \<or> \<not> ew_owned entry
      then (Inl (makeError AlreadyClosed ''EntryWriter has already been closed''), entry, impl)
      else case closeActiveEntry write impl (ew_declaredSize entry) (ew_bytesWritten entry) of
          (result, impl') \<Rightarrow> (result, entry\<lparr>ew_closed := True, ew_owned := False\<rparr>, impl'))"

text \<open>The destructor of a handle.\<close>

definition EntryWriter_destroy :: "'k write_fn \<Rightarrow> EntryWriter \<Rightarrow> 'k Writer option \<Rightarrow> 'k Writer option" where
  "EntryWriter_destroy write entry impl =
     (if \<not> ew_closed entry \<and> ew_owned entry
      then abandonActiveEntry write impl (ew_declaredSize entry) (ew_bytesWritten entry) else impl)"

subsection \<open>The file sink\<close>

text \<open>\<open>RawSink\<close> with the bytes written to its file; a stream is closed by \<open>finish\<close>, and writing to a closed stream fails with
  the value of \<open>errno\<close>. A failure of the device is not modelled.\<close>

record RawSink =
  ks_written :: string
  ks_open :: bool

definition RawSink_write :: "int \<Rightarrow> RawSink write_fn" where
  "RawSink_write errno sink bytes =
     (if bytes = [] then (Inr (), sink)
      else if ks_open sink then (Inr (), sink\<lparr>ks_written := ks_written sink @ bytes\<rparr>)
      else (Inl \<lparr>code = IoError, message = ''underlying ofstream write failed'', nativeCode = errno\<rparr>, sink))"

definition RawSink_finish :: "RawSink finish_fn" where
  "RawSink_finish sink = (Inr (), sink\<lparr>ks_open := False\<rparr>)"

subsection \<open>What the writer relies on\<close>

text \<open>A sink without failures: what is written to it while it is open is appended to what was.\<close>

locale byte_sink =
  fixes put :: "'k write_fn" and finish :: "'k finish_fn" and opened :: "'k \<Rightarrow> bool" and written :: "'k \<Rightarrow> string"
  assumes write_appends: "opened sink \<Longrightarrow> \<exists>sink'. put sink bytes = (Inr (), sink') \<and> opened sink' \<and>
      written sink' = written sink @ bytes"
    and finish_keeps: "opened sink \<Longrightarrow> \<exists>sink'. finish sink = (Inr (), sink') \<and> written sink' = written sink"
begin

lemma writeZeros_appends:
  "opened sink \<Longrightarrow> \<exists>sink'. writeZeros put sink n = (Inr (), sink') \<and> opened sink' \<and>
     written sink' = written sink @ replicate n NUL"
proof (induction n arbitrary: sink rule: less_induct)
  case (less n)
  show ?case
  proof (cases "n = 0")
    case True
    then show ?thesis using less.prems by (subst writeZeros.simps) simp
  next
    case False
    let ?m = "min n 512"
    obtain s1 where s1: "put sink (replicate ?m NUL) = (Inr (), s1)" "opened s1"
      "written s1 = written sink @ replicate ?m NUL"
      using write_appends [OF less.prems] by blast
    obtain s2 where s2: "writeZeros put s1 (n - ?m) = (Inr (), s2)" "opened s2"
      "written s2 = written s1 @ replicate (n - ?m) NUL"
      using less.IH [OF _ s1(2), of "n - ?m"] False by auto
    have "replicate ?m NUL @ replicate (n - ?m) NUL = replicate n NUL" by (simp flip: replicate_add)
    then show ?thesis using False s1 s2 by (subst writeZeros.simps) (simp add: Let_def)
  qed
qed

lemma pad_appends:
  "opened sink \<Longrightarrow> \<exists>sink'. padToBoundary put sink z = (Inr (), sink') \<and> opened sink' \<and>
     written sink' = written sink @ padding (unat z)"
  using writeZeros_appends [of sink] by (auto simp: padToBoundary_def padding_def Let_def)

lemma records_append:
  "opened sink \<Longrightarrow> \<exists>sink'. writeRecords put sink records = (Inr (), sink') \<and> opened sink' \<and>
     written sink' = written sink @ concat records"
proof (induction records arbitrary: sink)
  case (Cons r records)
  then obtain s1 where s1: "put sink r = (Inr (), s1)" "opened s1" "written s1 = written sink @ r"
    using write_appends by blast
  then show ?case using Cons.IH [OF s1(2)] by auto
qed simp

end

interpretation raw_sink: byte_sink "RawSink_write errno" RawSink_finish ks_open ks_written for errno
  by unfold_locales (auto simp: RawSink_write_def RawSink_finish_def)

subsection \<open>Sessions of a writer\<close>

text \<open>
  What a client can do with a writer: begin entries, write to the handle it holds, close or drop it, and ask for the end
  too early. The relation follows every such sequence, calls that are refused included, and records
  the members with the payload the archive must hold for them: a handle that is closed or dropped early leaves the
  rest of the declared size filled with zero bytes. The declared sizes are those of
  files and the bytes of a call those of a span, both below \<open>2 ^ 63\<close>.
\<close>

definition filled :: "EntryWriter \<Rightarrow> string \<Rightarrow> string" where
  "filled entry p = p @ replicate (unat (ew_declaredSize entry) - length p) NUL"

inductive session :: "'k write_fn \<Rightarrow> 'k finish_fn \<Rightarrow> 'k \<Rightarrow> 'k Writer option \<Rightarrow>
    (MemberHeader \<times> EntryWriter \<times> string) option \<Rightarrow> (MemberHeader \<times> string) list \<Rightarrow> bool"
  for put :: "'k write_fn" and finish :: "'k finish_fn" and sink :: 'k where
  start: "session put finish sink (Writer_makeFromSink sink) None []"
| begins: "session put finish sink impl None members \<Longrightarrow> unat (mh_size meta) < 2 ^ 63 \<Longrightarrow>
    beginEntry put impl meta = Some (Inr entry, impl') \<Longrightarrow>
    session put finish sink impl' (Some (meta, entry, [])) members"
| begin_refused: "session put finish sink impl held members \<Longrightarrow>
    beginEntry put impl meta = Some (Inl e, impl') \<Longrightarrow>
    session put finish sink impl' held members"
| writes: "session put finish sink impl (Some (meta, entry, p)) members \<Longrightarrow> length bytes < 2 ^ 63 \<Longrightarrow>
    EntryWriter_write put entry impl bytes = (Inr (), entry', impl') \<Longrightarrow>
    session put finish sink impl' (Some (meta, entry', p @ bytes)) members"
| write_refused: "session put finish sink impl (Some (meta, entry, p)) members \<Longrightarrow> length bytes < 2 ^ 63 \<Longrightarrow>
    EntryWriter_write put entry impl bytes = (Inl e, entry', impl') \<Longrightarrow>
    session put finish sink impl' (Some (meta, entry', p)) members"
| closes: "session put finish sink impl (Some (meta, entry, p)) members \<Longrightarrow>
    EntryWriter_close put entry impl = (result, entry', impl') \<Longrightarrow>
    session put finish sink impl' None (members @ [(meta, filled entry p)])"
| dropped: "session put finish sink impl (Some (meta, entry, p)) members \<Longrightarrow>
    session put finish sink (EntryWriter_destroy put entry impl) None (members @ [(meta, filled entry p)])"
| finalize_refused: "session put finish sink impl (Some held) members \<Longrightarrow>
    Writer_finalize put finish impl = (Inl e, impl') \<Longrightarrow>
    session put finish sink impl' (Some held) members"

text \<open>The bytes of a member: its records, its payload, and the padding of the payload.\<close>

definition member_bytes :: "MemberHeader \<Rightarrow> string \<Rightarrow> string" where
  "member_bytes meta p =
     (case buildRecords meta of
        Some (Inr built) \<Rightarrow> concat (built_records built) @ p @ padding (length p)
      | _ \<Rightarrow> [])"

definition archive_bytes :: "(MemberHeader \<times> string) list \<Rightarrow> string" where
  "archive_bytes members = concat (map (\<lambda>(meta, p). member_bytes meta p) members)"

text \<open>A member with the payload of the size it was declared with.\<close>

definition stored :: "MemberHeader \<times> string \<Rightarrow> bool" where
  "stored m \<longleftrightarrow> (\<exists>built. buildRecords (fst m) = Some (Inr built) \<and> length (snd m) = unat (built_payloadSize built))"

text \<open>What every session keeps: the sink holds the finished members, and while a handle is out, the records of its member
  and what was written of its payload.\<close>

definition follows :: "('k \<Rightarrow> bool) \<Rightarrow> ('k \<Rightarrow> string) \<Rightarrow> 'k Writer option \<Rightarrow>
    (MemberHeader \<times> EntryWriter \<times> string) option \<Rightarrow> (MemberHeader \<times> string) list \<Rightarrow> bool" where
  "follows opened written impl held members \<longleftrightarrow>
     (\<exists>writer. impl = Some writer \<and> opened (wr_sink writer) \<and> \<not> wr_finalized writer \<and> list_all stored members \<and>
       (case held of
          None \<Rightarrow> \<not> wr_hasActiveEntry writer \<and> written (wr_sink writer) = archive_bytes members
        | Some (meta, entry, p) \<Rightarrow> wr_hasActiveEntry writer \<and> ew_owned entry \<and> \<not> ew_closed entry \<and>
            (\<exists>built. buildRecords meta = Some (Inr built) \<and> ew_declaredSize entry = built_payloadSize built \<and>
               unat (ew_bytesWritten entry) = length p \<and> length p \<le> unat (ew_declaredSize entry) \<and>
               written (wr_sink writer) = archive_bytes members @ concat (built_records built) @ p)))"

lemma follows_open:
  "follows opened written impl (Some (meta, entry, p)) members \<longleftrightarrow>
     (\<exists>writer built. impl = Some writer \<and> opened (wr_sink writer) \<and> \<not> wr_finalized writer \<and> list_all stored members \<and>
       wr_hasActiveEntry writer \<and> ew_owned entry \<and> \<not> ew_closed entry \<and>
       buildRecords meta = Some (Inr built) \<and> ew_declaredSize entry = built_payloadSize built \<and>
       unat (ew_bytesWritten entry) = length p \<and> length p \<le> unat (ew_declaredSize entry) \<and>
       written (wr_sink writer) = archive_bytes members @ concat (built_records built) @ p)"
  by (auto simp: follows_def)

lemma follows_none:
  "follows opened written impl None members \<longleftrightarrow>
     (\<exists>writer. impl = Some writer \<and> opened (wr_sink writer) \<and> \<not> wr_finalized writer \<and> list_all stored members \<and>
       \<not> wr_hasActiveEntry writer \<and> written (wr_sink writer) = archive_bytes members)"
  by (auto simp: follows_def)

lemma built_size: "buildRecords meta = Some (Inr built) \<Longrightarrow> built_payloadSize built = 0 \<or> built_payloadSize built = mh_size meta"
proof -
  assume "buildRecords meta = Some (Inr built)"
  then obtain flag path link where "entryRecords meta flag path link = Some built"
    by (auto simp: buildRecords_def Let_def split: sum.splits if_splits)
  then show ?thesis using entryRecords_parts [of meta flag path link] by (auto split: if_splits)
qed

lemma archive_bytes_snoc: "archive_bytes (members @ [(meta, p)]) = archive_bytes members @ member_bytes meta p"
  by (simp add: archive_bytes_def)

context byte_sink
begin

lemma begin_follows:
  assumes "follows opened written impl None members" "beginEntry put impl meta = Some (Inr entry, impl')"
  shows "follows opened written impl' (Some (meta, entry, [])) members"
proof -
  obtain writer where w: "impl = Some writer" "opened (wr_sink writer)" "\<not> wr_finalized writer" "list_all stored members"
    "\<not> wr_hasActiveEntry writer" "written (wr_sink writer) = archive_bytes members"
    using assms(1) by (auto simp: follows_none)
  obtain built where built: "buildRecords meta = Some (Inr built)"
    using assms(2) w by (auto simp: beginEntry_def split: option.splits sum.splits)
  obtain s1 where "writeRecords put (wr_sink writer) (built_records built) = (Inr (), s1)" "opened s1"
    "written s1 = written (wr_sink writer) @ concat (built_records built)"
    using records_append [OF w(2)] by blast
  then show ?thesis
    using assms(2) w built by (auto simp: beginEntry_def follows_open)
qed

lemma begin_succeeds:
  assumes "follows opened written impl None members" "buildRecords meta = Some (Inr built)"
  shows "\<exists>impl'. beginEntry put impl meta = Some (Inr \<lparr>ew_owned = True, ew_declaredSize = built_payloadSize built,
      ew_bytesWritten = 0, ew_closed = False\<rparr>, impl')"
proof -
  obtain writer where w: "impl = Some writer" "opened (wr_sink writer)" "\<not> wr_finalized writer"
    "\<not> wr_hasActiveEntry writer"
    using assms(1) by (auto simp: follows_none)
  then show ?thesis
    using assms(2) records_append [OF w(2), of "built_records built"] by (auto simp: beginEntry_def)
qed

lemma begin_refused_same:
  assumes "follows opened written impl held members" "beginEntry put impl meta = Some (Inl e, impl')"
  shows "impl' = impl"
proof -
  obtain writer where w: "impl = Some writer" "opened (wr_sink writer)" using assms(1) by (auto simp: follows_def)
  have "\<exists>s1. writeRecords put (wr_sink writer) records = (Inr (), s1)" for records
    using records_append [OF w(2)] by blast
  moreover have "fst (writeRecords put (wr_sink writer) records) = Inr ()" for records
    using calculation [of records] by auto
  ultimately show ?thesis
    using assms(2) w(1)
    by (auto simp: beginEntry_def split: option.splits sum.splits prod.splits if_splits)
      (metis fst_conv sum.distinct(1))
qed

lemma write_follows:
  assumes "follows opened written impl (Some (meta, entry, p)) members" "unat (ew_declaredSize entry) < 2 ^ 63"
    "length bytes < 2 ^ 63" "EntryWriter_write put entry impl bytes = (result, entry', impl')"
  shows "follows opened written impl' (Some (meta, entry', case result of Inr _ \<Rightarrow> p @ bytes | Inl _ \<Rightarrow> p)) members"
proof -
  obtain writer built where w: "impl = Some writer" "opened (wr_sink writer)" "\<not> wr_finalized writer"
    "list_all stored members" "wr_hasActiveEntry writer" "ew_owned entry" "\<not> ew_closed entry"
    "buildRecords meta = Some (Inr built)" "ew_declaredSize entry = built_payloadSize built"
    "unat (ew_bytesWritten entry) = length p" "length p \<le> unat (ew_declaredSize entry)"
    "written (wr_sink writer) = archive_bytes members @ concat (built_records built) @ p"
    using assms(1) by (auto simp: follows_open)
  have total: "unat (ew_bytesWritten entry + of_nat (length bytes)) = length p + length bytes"
    using w(10,11) assms(2,3) by (simp add: unat_word_ariths unsigned_of_nat take_bit_nat_eq_self)
  show ?thesis
  proof (cases "ew_bytesWritten entry + of_nat (length bytes) > ew_declaredSize entry \<or> bytes = []")
    case True
    then have "impl' = impl \<and> entry' = entry \<and> (case result of Inr _ \<Rightarrow> p @ bytes | Inl _ \<Rightarrow> p) = p"
      using assms(4) w(6,7) by (auto simp: EntryWriter_write_def split: if_splits)
    then show ?thesis using assms(1) by simp
  next
    case False
    then have le: "length p + length bytes \<le> unat (ew_declaredSize entry)"
      using total by (simp add: word_less_nat_alt)
    obtain s1 where s1: "put (wr_sink writer) bytes = (Inr (), s1)" "opened s1"
      "written s1 = written (wr_sink writer) @ bytes"
      using write_appends [OF w(2)] by blast
    have "result = Inr ()" "impl' = Some (writer\<lparr>wr_sink := s1\<rparr>)"
      "entry' = entry\<lparr>ew_bytesWritten := ew_bytesWritten entry + of_nat (length bytes)\<rparr>"
      using assms(4) False w(1,6,7) s1(1) by (auto simp: EntryWriter_write_def writeEntryPayload_def)
    then show ?thesis using w s1 total le by (simp add: follows_open)
  qed
qed

lemma fill_and_pad:
  assumes "opened sink" "written sink = archive_bytes members @ concat (built_records built) @ p"
    "buildRecords meta = Some (Inr built)" "unat b = length p" "length p \<le> unat z" "z = built_payloadSize built"
  obtains s1 s2 where "writeZeros put sink (unat (z - b)) = (Inr (), s1)" "padToBoundary put s1 z = (Inr (), s2)"
    "opened s1" "opened s2"
    "written s2 = archive_bytes (members @ [(meta, p @ replicate (unat z - length p) NUL)])"
proof -
  have missing: "unat (z - b) = unat z - length p"
    using assms(4,5) by (simp add: unat_sub word_le_nat_alt)
  obtain s1 where s1: "writeZeros put sink (unat (z - b)) = (Inr (), s1)" "opened s1"
    "written s1 = written sink @ replicate (unat (z - b)) NUL"
    using writeZeros_appends [OF assms(1)] by blast
  obtain s2 where s2: "padToBoundary put s1 z = (Inr (), s2)" "opened s2" "written s2 = written s1 @ padding (unat z)"
    using pad_appends [OF s1(2)] by blast
  have "written s2 = archive_bytes (members @ [(meta, p @ replicate (unat z - length p) NUL)])"
    using assms(2,3,5) s1(3) s2(3) missing by (simp add: archive_bytes_snoc member_bytes_def)
  then show thesis using that s1 s2 by blast
qed

lemma closing_follows:
  assumes "follows opened written impl (Some (meta, entry, p)) members"
    "(\<exists>result entry'. EntryWriter_close put entry impl = (result, entry', impl')) \<or> impl' = EntryWriter_destroy put entry impl"
  shows "follows opened written impl' None (members @ [(meta, filled entry p)])"
proof -
  obtain writer built where w: "impl = Some writer" "opened (wr_sink writer)" "\<not> wr_finalized writer"
    "list_all stored members" "wr_hasActiveEntry writer" "ew_owned entry" "\<not> ew_closed entry"
    "buildRecords meta = Some (Inr built)" "ew_declaredSize entry = built_payloadSize built"
    "unat (ew_bytesWritten entry) = length p" "length p \<le> unat (ew_declaredSize entry)"
    "written (wr_sink writer) = archive_bytes members @ concat (built_records built) @ p"
    using assms(1) by (auto simp: follows_open)
  let ?z = "ew_declaredSize entry" and ?b = "ew_bytesWritten entry"
  obtain s1 s2 where s: "writeZeros put (wr_sink writer) (unat (?z - ?b)) = (Inr (), s1)"
    "padToBoundary put s1 ?z = (Inr (), s2)" "opened s1" "opened s2"
    "written s2 = archive_bytes (members @ [(meta, filled entry p)])"
    using fill_and_pad [OF w(2,12,8,10,11,9)] unfolding filled_def by blast
  have same: "s1 = wr_sink writer" if "?b = ?z"
    using s(1) that by (simp add: writeZeros.simps)
  have "?b \<noteq> ?z \<longleftrightarrow> ?b < ?z" using w(10,11) by (auto simp: word_less_nat_alt word_unat_eq_iff)
  then have "impl' = Some (writer\<lparr>wr_sink := s2, wr_hasActiveEntry := False\<rparr>)"
    using assms(2) w(1,5,6,7) s(1,2) same
    by (auto simp: EntryWriter_close_def closeActiveEntry_def EntryWriter_destroy_def abandonActiveEntry_def Let_def)
  moreover have "stored (meta, filled entry p)" using w(8,9,11) by (simp add: stored_def filled_def)
  ultimately show ?thesis using w(3,4) s(4,5) by (simp add: follows_none)
qed

lemma session_follows:
  assumes "session put finish sink impl held members" "opened sink" "written sink = []"
  shows "follows opened written impl held members \<and>
    (case held of None \<Rightarrow> True | Some (_, entry, _) \<Rightarrow> unat (ew_declaredSize entry) < 2 ^ 63)"
  using assms
proof (induction rule: session.induct)
  case start
  then show ?case by (simp add: follows_none Writer_makeFromSink_def archive_bytes_def)
next
  case (begins impl members meta entry impl')
  have f: "follows opened written impl' (Some (meta, entry, [])) members"
    using begins by (intro begin_follows [of impl members]) auto
  then obtain built where "buildRecords meta = Some (Inr built)" "ew_declaredSize entry = built_payloadSize built"
    by (auto simp: follows_open)
  then show ?case using f built_size [of meta built] begins(2) by auto
next
  case (begin_refused impl held members meta e impl')
  then show ?case using begin_refused_same [of impl held members meta e impl'] by simp
next
  case (writes impl meta entry p members bytes entry' impl')
  then have "ew_declaredSize entry' = ew_declaredSize entry"
    by (auto simp: EntryWriter_write_def split: if_splits sum.splits prod.splits)
  then show ?case using writes write_follows [of impl meta entry p members bytes "Inr ()" entry' impl'] by simp
next
  case (write_refused impl meta entry p members bytes e entry' impl')
  then have "ew_declaredSize entry' = ew_declaredSize entry"
    by (auto simp: EntryWriter_write_def split: if_splits sum.splits prod.splits)
  then show ?case using write_refused write_follows [of impl meta entry p members bytes "Inl e" entry' impl'] by simp
next
  case (closes impl meta entry p members result entry' impl')
  then show ?case using closing_follows [of impl meta entry p members impl'] by auto
next
  case (dropped impl meta entry p members)
  then show ?case using closing_follows [of impl meta entry p members] by auto
next
  case (finalize_refused impl held members e impl')
  then have "impl' = impl"
    by (cases held) (auto simp: follows_open Writer_finalize_def)
  then show ?case using finalize_refused by simp
qed

text \<open>With no handle out, the archive can be finished: two zero records follow the members.\<close>

lemma finalize_follows:
  assumes "follows opened written impl None members"
  shows "\<exists>writer. Writer_finalize put finish impl = (Inr (), Some writer) \<and> wr_finalized writer \<and>
    written (wr_sink writer) = archive_bytes members @ replicate (recordSize * 2) NUL"
proof -
  obtain writer where w: "impl = Some writer" "opened (wr_sink writer)" "\<not> wr_finalized writer"
    "\<not> wr_hasActiveEntry writer" "written (wr_sink writer) = archive_bytes members"
    using assms by (auto simp: follows_none)
  obtain s1 where s1: "writeZeros put (wr_sink writer) (recordSize * 2) = (Inr (), s1)" "opened s1"
    "written s1 = archive_bytes members @ replicate (recordSize * 2) NUL"
    using writeZeros_appends [OF w(2)] w(5) by metis
  obtain s2 where "finish s1 = (Inr (), s2)" "written s2 = written s1" using finish_keeps [OF s1(2)] by blast
  then show ?thesis using w s1 by (simp add: Writer_finalize_def)
qed

end

end
