(* ===== verification/Tar_Archive.thy ===== *)
theory Tar_Archive
  imports Tar_Reader Tar_Writer
begin

text \<open>
  The writer and the reader together: whatever a client does with a writer, the reader finds in the finished archive
  the members of the session with their headers and payloads, in order, and then the end of the archive. Sizes that
  only exceed the width of a field, long paths and link targets and texts that are not ASCII are covered; the
  conditions are those of \<open>recordable\<close> and that a member other than a regular file declares no size, because
  the reader takes the payload of a symlink or a device to be empty while the writer stores one of the declared size.
\<close>

subsection \<open>Reading what was written\<close>

definition readable :: "MemberHeader \<Rightarrow> bool" where
  "readable meta \<longleftrightarrow> recordable meta \<and>
     (mh_type meta = Regular \<or> mh_type meta = Directory \<or> mh_size meta = 0)"

definition read_back :: "MemberHeader \<times> string \<Rightarrow> MemberHeader \<times> string" where
  "read_back m = (case typeFlagFromFileType (mh_type (fst m)) of
     Inr flag \<Rightarrow> (archivedHeader (fst m) flag, snd m) | Inl _ \<Rightarrow> m)"

definition reader_at :: "'s \<Rightarrow> 's Reader \<Rightarrow> bool" where
  "reader_at source rd \<longleftrightarrow> rd_source rd = source \<and> \<not> rd_hasActiveEntry rd \<and> \<not> rd_endOfArchive rd"

context byte_source
begin

lemma entry_of_member:
  assumes "reader_at source rd" "content source = member_bytes (fst m) (snd m) @ rest" "stored m" "readable (fst m)" "0 < n"
  shows "\<exists>entry impl' rd' source'. nextEntry read stod (Some rd) = Some (Inr (Some entry), impl') \<and>
     drains read n entry impl' (snd m) (Some rd') \<and> (er_header entry, snd m) = read_back m \<and>
     reader_at source' rd' \<and> content source' = rest"
proof -
  obtain meta p where m: "m = (meta, p)" by (cases m)
  obtain built where built: "buildRecords meta = Some (Inr built)" "length p = unat (built_payloadSize built)"
    using assms(3) by (auto simp: stored_def m)
  have content: "content source = concat (built_records built) @ p @ padding (length p) @ rest"
    using assms(2) built by (simp add: m member_bytes_def)
  obtain flag u o' s1 where next': "typeFlagFromFileType (mh_type meta) = Inr flag" "pu_typeflag u = flag"
    "built_payloadSize built = (if flag = Directory_flag then 0 else mh_size meta)"
    "assembleMemberHeader u o' = archivedHeader meta flag"
    "nextRecord read stod source noOverrides = Some (Inr (Some (u, o')), s1)"
    "content s1 = p @ padding (length p) @ rest"
    by (rule next_built [OF built(1) _ content, of stod]) (use assms(4) in \<open>auto simp: readable_def m\<close>)
  let ?z = "built_payloadSize built"
  have size: "storedPayloadSize flag (archivedHeader meta flag) = ?z"
    using assms(4) next'(1,3)
    by (cases "mh_type meta") (auto simp: m readable_def storedPayloadSize_def archivedHeader_def)
  let ?entry = "\<lparr>er_owned = True, er_header = archivedHeader meta flag, er_size = ?z, er_bytesRead = 0, er_drained = False\<rparr>"
  let ?rd = "rd\<lparr>rd_source := s1, rd_hasActiveEntry := True, rd_activeDeclaredSize := ?z, rd_activeBytesRead := 0\<rparr>"
  have entry: "nextEntry read stod (Some rd) = Some (Inr (Some ?entry), Some ?rd)"
    using assms(1) next'(2,4,5) size by (simp add: nextEntry_def reader_at_def Let_def)
  have zero: "p = [] \<Longrightarrow> ?z = 0" using built(2) by (simp add: word_unat_eq_iff)
  obtain s2 where s2: "drains read n ?entry (Some ?rd) p
      (Some (?rd\<lparr>rd_source := s2, rd_hasActiveEntry := False, rd_activeBytesRead := er_size ?entry\<rparr>))" "content s2 = rest"
    using drain_entry [of n ?entry ?rd p rest] assms(5) next'(6) built(2) zero by auto
  show ?thesis
    using entry s2 assms(1) next'(1)
    by (intro exI [of _ ?entry] exI [of _ "Some ?rd"] exI [of _ s2]
        exI [of _ "?rd\<lparr>rd_source := s2, rd_hasActiveEntry := False, rd_activeBytesRead := er_size ?entry\<rparr>"])
      (simp add: m read_back_def reader_at_def)
qed

lemma archive_read:
  assumes "reader_at source rd" "content source = archive_bytes members @ replicate (recordSize * 2) NUL"
    "list_all stored members" "\<And>m. m \<in> set members \<Longrightarrow> readable (fst m)" "0 < n"
  shows "yields read stod n (Some rd) (map read_back members)"
  using assms
proof (induction members arbitrary: rd source)
  case Nil
  obtain s1 where "nextRecord read stod source noOverrides = Some (Inr None, s1)"
    using next_end [of source "[]" stod noOverrides] Nil.prems(2) by (auto simp: archive_bytes_def)
  then have "nextEntry read stod (Some rd) = Some (Inr None, Some (rd\<lparr>rd_source := s1, rd_endOfArchive := True\<rparr>))"
    using Nil.prems(1) by (simp add: nextEntry_def reader_at_def)
  then show ?case by (simp add: yields.end_of_archive)
next
  case (Cons m members)
  have "content source = member_bytes (fst m) (snd m) @ archive_bytes members @ replicate (recordSize * 2) NUL"
    using Cons.prems(2) by (simp add: archive_bytes_def split_beta)
  moreover have "stored m" "readable (fst m)" using Cons.prems(3,4) by simp_all
  ultimately obtain entry impl' rd' source' where e: "nextEntry read stod (Some rd) = Some (Inr (Some entry), impl')"
    "drains read n entry impl' (snd m) (Some rd')" "(er_header entry, snd m) = read_back m"
    "reader_at source' rd'" "content source' = archive_bytes members @ replicate (recordSize * 2) NUL"
    using entry_of_member [OF Cons.prems(1) _ _ _ Cons.prems(5), of m _ stod] by blast
  have "yields read stod n (Some rd') (map read_back members)"
    using Cons.prems(3,4,5) by (intro Cons.IH [OF e(4,5)]) auto
  from yields.entry [OF e(1,2) this] show ?case by (simp add: e(3))
qed

end

subsection \<open>Properties\<close>

text \<open>C9:
  A session of a writer on a file, in which members were begun, written in pieces, closed or dropped early, and calls were
  refused. When every member begun is readable, the archive can be finished, and a reader of the file with buffers of any
  size yields the members in order with their headers and payloads, and then the end of the archive. A member is readable
  when its path and link target hold no NUL and are shorter than \<open>2 ^ 40\<close> bytes, the path of a directory does not end in a
  slash, and only regular files and directories declare a size.
\<close>

theorem archive_roundtrip:
  assumes "session (RawSink_write errno) RawSink_finish \<lparr>ks_written = [], ks_open = True\<rparr> impl None members"
    "\<And>m. m \<in> set members \<Longrightarrow> readable (fst m)" "0 < n"
  shows "\<exists>writer. Writer_finalize (RawSink_write errno) RawSink_finish impl = (Inr (), Some writer) \<and>
    wr_finalized writer \<and>
    yields RawSource_read stod n (Reader_makeFromSource \<lparr>rs_rest = ks_written (wr_sink writer), rs_eof = False\<rparr>)
      (map read_back members)"
proof -
  have follows: "follows ks_open ks_written impl None members"
    using raw_sink.session_follows [OF assms(1)] by simp
  obtain writer where writer: "Writer_finalize (RawSink_write errno) RawSink_finish impl = (Inr (), Some writer)"
    "wr_finalized writer"
    "ks_written (wr_sink writer) = archive_bytes members @ replicate (recordSize * 2) NUL"
    using raw_sink.finalize_follows [OF follows] by blast
  let ?source = "\<lparr>rs_rest = ks_written (wr_sink writer), rs_eof = False\<rparr>"
  obtain rd where rd: "Reader_makeFromSource ?source = Some rd" "reader_at ?source rd"
    by (simp add: Reader_makeFromSource_def reader_at_def)
  have "list_all stored members" using follows by (auto simp: follows_none)
  then have "yields RawSource_read stod n (Some rd) (map read_back members)"
    using raw_source.archive_read [OF rd(2) _ _ assms(2,3)] writer(3) by simp
  then show ?thesis using writer(1,2) rd(1) by metis
qed

definition sample_member :: MemberHeader where
  "sample_member = defaultHeader\<lparr>mh_path := ''a.txt'', mh_size := 3\<rparr>"

lemma entry_built:
  "\<exists>built. entryRecords meta flag path link = Some built \<and>
     built_payloadSize built = (if flag = Directory_flag then 0 else mh_size meta)"
  using entryRecords_parts [of meta flag path link] by (elim exE) simp

lemma sample_builds: "\<exists>built. buildRecords sample_member = Some (Inr built) \<and> built_payloadSize built = 3"
proof -
  have sample: "normaliseArchivePath (mh_path sample_member) = ''a.txt''" "mh_type sample_member = Regular"
    "mh_size sample_member = 3" "linkTargetTextOf sample_member RegularFile = Inr []"
    by (simp_all add: sample_member_def defaultHeader_def normaliseArchivePath_def linkTargetTextOf_def)
  then show ?thesis
    using entry_built [of sample_member RegularFile "''a.txt''" "[]"] by (auto simp: buildRecords_def Let_def)
qed

lemma sample_session:
  "\<exists>impl. session (RawSink_write 9) RawSink_finish \<lparr>ks_written = [], ks_open = True\<rparr> impl None [(sample_member, ''abc'')]"
proof -
  let ?session = "session (RawSink_write 9) RawSink_finish \<lparr>ks_written = [], ks_open = True\<rparr>"
  let ?entry = "\<lambda>n. \<lparr>ew_owned = True, ew_declaredSize = 3, ew_bytesWritten = n, ew_closed = False\<rparr>"
  obtain built where built: "buildRecords sample_member = Some (Inr built)" "built_payloadSize built = 3"
    using sample_builds by blast
  have start: "?session (Writer_makeFromSink \<lparr>ks_written = [], ks_open = True\<rparr>) None []" by (rule session.start)
  have "follows ks_open ks_written (Writer_makeFromSink \<lparr>ks_written = [], ks_open = True\<rparr>) None []"
    using raw_sink.session_follows [OF start] by simp
  from raw_sink.begin_succeeds [OF this built(1), of 9]
  obtain impl1 where impl1: "beginEntry (RawSink_write 9) (Writer_makeFromSink \<lparr>ks_written = [], ks_open = True\<rparr>)
      sample_member = Some (Inr (?entry 0), impl1)"
    unfolding built(2) by blast
  have begun: "?session impl1 (Some (sample_member, ?entry 0, [])) []"
    by (rule session.begins [OF start _ impl1]) (simp add: sample_member_def)
  obtain w where w: "impl1 = Some w" "ks_open (wr_sink w)"
    using raw_sink.session_follows [OF begun] by (auto simp: follows_open)
  have "EntryWriter_write (RawSink_write 9) (?entry 0) impl1 ''abc'' = (Inr (), ?entry 3,
      Some (w\<lparr>wr_sink := (wr_sink w)\<lparr>ks_written := ks_written (wr_sink w) @ ''abc''\<rparr>\<rparr>))"
    by (simp add: EntryWriter_write_def writeEntryPayload_def RawSink_write_def w)
  from session.writes [OF begun _ this]
  obtain impl2 where "?session impl2 (Some (sample_member, ?entry 3, ''abc'')) []" by auto
  from session.closes [OF this, of "fst (EntryWriter_close (RawSink_write 9) (?entry 3) impl2)"
      "fst (snd (EntryWriter_close (RawSink_write 9) (?entry 3) impl2))"
      "snd (snd (EntryWriter_close (RawSink_write 9) (?entry 3) impl2))"]
  show ?thesis by (auto simp: filled_def)
qed

theorem archive_roundtrip_witness:
  "\<exists>impl writer. session (RawSink_write 9) RawSink_finish \<lparr>ks_written = [], ks_open = True\<rparr> impl None
      [(sample_member, ''abc'')] \<and>
    Writer_finalize (RawSink_write 9) RawSink_finish impl = (Inr (), Some writer) \<and>
    yields RawSource_read (\<lambda>_. None) 2 (Reader_makeFromSource \<lparr>rs_rest = ks_written (wr_sink writer), rs_eof = False\<rparr>)
      [(sample_member\<lparr>mh_permissions := 0x1A4\<rparr>, ''abc'')]"
proof -
  obtain impl where session: "session (RawSink_write 9) RawSink_finish \<lparr>ks_written = [], ks_open = True\<rparr> impl None
      [(sample_member, ''abc'')]"
    using sample_session by blast
  have "readable sample_member" by (simp add: sample_member_def readable_def recordable_def defaultHeader_def)
  moreover have "read_back (sample_member, ''abc'') = (sample_member\<lparr>mh_permissions := 0x1A4\<rparr>, ''abc'')"
    by (simp add: read_back_def sample_member_def defaultHeader_def archivedHeader_def normaliseArchivePath_def
        readTerminatedString_def modeOf_def perms_unknown_def)
  ultimately show ?thesis
    using archive_roundtrip [OF session, of 2 "\<lambda>_. None"] session by auto
qed

text \<open>C32:
  Every call of \<open>nextEntry\<close> on a file returns, whatever the file holds and the state of the reader: chains of extended headers
  of any length and malformed archives included. What it returns is an entry, the end or an error of the archive. There
  are two exceptions, which the model has as results of their own: the read outside the payload of an extended header
  happens only on a file that holds such a header with an item whose length wraps the position to zero, and the
  allocation fails with \<open>std::length_error\<close> only for such a header with a declared size of \<open>2 ^ 63\<close> or more.
\<close>

theorem reader_returns:
  "\<exists>result impl'. nextEntry RawSource_read stod impl = Some (result, impl') \<and>
    (case result of
       Inr _ \<Rightarrow> True
     | Inl (TarFailed _) \<Rightarrow> True
     | Inl OutOfBounds \<Rightarrow> (\<exists>reader. impl = Some reader \<and> holds_wrapping (rs_rest (rd_source reader)))
     | Inl LengthError \<Rightarrow> (\<exists>reader. impl = Some reader \<and> holds_oversized (rs_rest (rd_source reader))))"
proof -
  obtain result impl' where called: "nextEntry RawSource_read stod impl = Some (result, impl')"
    using raw_source.next_entry_returns [of stod impl] by auto
  with raw_source.next_entry_failures [OF called] show ?thesis
    by (intro exI [of _ result] exI [of _ impl']) (auto split: sum.split TarFailure.split)
qed

end
