(* ===== verification/Common_Parent.thy ===== *)
theory Common_Parent
  imports Nui_Prelude
begin

text \<open>
  \<open>paths/include/paths/common_parent.hpp\<close>: the closest directory holding every one of some paths. The template is
  generic in the path class; what it relies on is the locale \<open>rooted_paths\<close>, which the theories of the remote and the
  local path interpret. The loop climbs from a directory to its parent; not returning would be the value \<open>None\<close> of
  \<open>climb\<close>, and the locale shows that it always returns.
\<close>

subsection \<open>The template of the source\<close>

partial_function (option) climb ::
  "('p \<Rightarrow> 'p option) \<Rightarrow> ('p \<Rightarrow> bool) \<Rightarrow> 'p option \<Rightarrow> 'p option option" where
  "climb parent containsAll candidate =
     (case candidate of
        None \<Rightarrow> Some None
      | Some directory \<Rightarrow> if containsAll directory then Some (Some directory)
                          else climb parent containsAll (parent directory))"

definition containsAll :: "('p \<Rightarrow> 'p \<Rightarrow> bool) \<Rightarrow> 'p list \<Rightarrow> 'p \<Rightarrow> bool" where
  "containsAll isWithin paths directory \<longleftrightarrow> list_all (\<lambda>path. path \<noteq> directory \<and> isWithin path directory) paths"

definition commonParentOf ::
  "('p \<Rightarrow> 'p option) \<Rightarrow> ('p \<Rightarrow> 'p \<Rightarrow> bool) \<Rightarrow> 'p list \<Rightarrow> 'p option option" where
  "commonParentOf parent isWithin paths =
     (case paths of
        [] \<Rightarrow> Some None
      | front # _ \<Rightarrow> (case parent front of
            None \<Rightarrow> Some (Some front)
          | Some candidate \<Rightarrow> climb parent (containsAll isWithin paths) (Some candidate)))"

lemma climb_simps [code]:
  "climb parent ok None = Some None"
  "climb parent ok (Some d) = (if ok d then Some (Some d) else climb parent ok (parent d))"
  by (simp_all add: climb.simps [of parent ok])

subsection \<open>The interface of a path class\<close>

locale rooted_paths =
  fixes parent :: "'p \<Rightarrow> 'p option"
    and isWithin :: "'p \<Rightarrow> 'p \<Rightarrow> bool"
    and valid :: "'p \<Rightarrow> bool"
    and depth :: "'p \<Rightarrow> nat"
  assumes parent_valid: "valid p \<Longrightarrow> parent p = Some q \<Longrightarrow> valid q"
    and parent_depth: "valid p \<Longrightarrow> parent p = Some q \<Longrightarrow> depth q < depth p"
    and parent_within: "valid p \<Longrightarrow> parent p = Some q \<Longrightarrow> isWithin p q"
    and parent_least: "valid p \<Longrightarrow> valid d \<Longrightarrow> parent p = Some q \<Longrightarrow> isWithin p d \<Longrightarrow> p \<noteq> d \<Longrightarrow> isWithin q d"
    and root_alone: "valid p \<Longrightarrow> valid d \<Longrightarrow> parent p = None \<Longrightarrow> isWithin p d \<Longrightarrow> d = p"
    and within_refl: "valid p \<Longrightarrow> isWithin p p"
begin

lemma climb_result:
  assumes "valid d" and "\<And>e. valid e \<Longrightarrow> ok e \<Longrightarrow> isWithin d e"
  shows "\<exists>r. climb parent ok (Some d) = Some r \<and>
    (case r of
       None \<Rightarrow> \<forall>e. valid e \<longrightarrow> \<not> ok e
     | Some c \<Rightarrow> valid c \<and> ok c \<and> (\<forall>e. valid e \<and> ok e \<longrightarrow> isWithin c e))"
  using assms
proof (induction "depth d" arbitrary: d rule: less_induct)
  case less
  show ?case
  proof (cases "ok d")
    case True
    with less.prems show ?thesis by (simp add: climb_simps)
  next
    case no: False
    show ?thesis
    proof (cases "parent d")
      case None
      then have "\<not> ok e" if "valid e" for e
        using less.prems that no root_alone by blast
      with None no show ?thesis by (simp add: climb_simps)
    next
      case (Some q)
      have "isWithin q e" if "valid e" "ok e" for e
        using less.prems that no Some parent_least by blast
      then show ?thesis
        using less.hyps [OF parent_depth [OF less.prems(1) Some]] parent_valid [OF less.prems(1) Some] no Some
        by (simp add: climb_simps)
    qed
  qed
qed

lemma climb_searches:
  assumes "valid d"
  shows "\<exists>r. climb parent ok (Some d) = Some r \<and>
    (case r of None \<Rightarrow> \<forall>e. valid e \<and> isWithin d e \<longrightarrow> \<not> ok e | Some c \<Rightarrow> valid c \<and> ok c)"
  using assms
proof (induction "depth d" arbitrary: d rule: less_induct)
  case less
  show ?case
  proof (cases "ok d \<or> parent d = None")
    case True
    have "e = d" if "valid e" "isWithin d e" "parent d = None" for e
      using root_alone [OF less.prems that(1,3,2)] .
    with True less.prems show ?thesis by (cases "ok d") (auto simp: climb_simps)
  next
    case False
    then obtain q where q: "parent d = Some q" by blast
    have "isWithin q e \<or> e = d" if "valid e" "isWithin d e" for e
      using less.prems that q parent_least by blast
    moreover obtain r where "climb parent ok (Some q) = Some r"
      "case r of None \<Rightarrow> \<forall>e. valid e \<and> isWithin q e \<longrightarrow> \<not> ok e | Some c \<Rightarrow> valid c \<and> ok c"
      using less.hyps [OF parent_depth [OF less.prems q] parent_valid [OF less.prems q]] by blast
    ultimately show ?thesis using q False by (cases r) (auto simp: climb_simps)
  qed
qed

lemma commonParentOf_closest:
  assumes "paths \<noteq> []" and "\<forall>p \<in> set paths. valid p"
  shows "\<exists>r. commonParentOf parent isWithin paths = Some r \<and>
    (if parent (hd paths) = None then r = Some (hd paths)
     else case r of
       None \<Rightarrow> \<forall>e. valid e \<longrightarrow> \<not> containsAll isWithin paths e
     | Some c \<Rightarrow> valid c \<and> containsAll isWithin paths c \<and>
         (\<forall>e. valid e \<and> containsAll isWithin paths e \<longrightarrow> isWithin c e))"
proof -
  obtain p rest where paths: "paths = p # rest" using assms(1) by (cases paths) auto
  show ?thesis
  proof (cases "parent p")
    case None
    then show ?thesis by (simp add: commonParentOf_def paths)
  next
    case (Some q)
    have "isWithin q e" if "valid e" "containsAll isWithin paths e" for e
      using that Some assms(2) parent_least by (auto simp: containsAll_def paths)
    with climb_result [of q "containsAll isWithin paths"] show ?thesis
      using Some assms(2) parent_valid [of p q] by (simp add: commonParentOf_def paths)
  qed
qed

end

end
