(* ===== verification/Remote_Path.thy ===== *)
theory Remote_Path
  imports Path_Segments Common_Parent
begin

text \<open>
  \<open>paths/include/paths/remote_path.hpp\<close>: an absolute, normalized path on the server. The class keeps text; the
  abstraction is the list of its names, \<open>remote_of ps\<close> being the path with the names \<open>ps\<close>. The unset
  (default constructed) path is the empty text and no \<open>remote_of\<close>. The lemmas show that every operation on the text
  is the operation on the names, that \<open>make\<close> normalizes, and that symlink contents are resolved lexically.
\<close>

subsection \<open>The operations of the source\<close>

datatype RemotePath = RemotePath (remote_value: string)

definition remote_root :: RemotePath where
  "remote_root = RemotePath [slash]"

definition remote_empty :: "RemotePath \<Rightarrow> bool" where
  "remote_empty p \<longleftrightarrow> remote_value p = []"

definition remote_isRoot :: "RemotePath \<Rightarrow> bool" where
  "remote_isRoot p \<longleftrightarrow> remote_value p = [slash]"

fun remote_collect :: "string list \<Rightarrow> string \<Rightarrow> PathRejection + string" where
  "remote_collect [] value = Inr value"
| "remote_collect (name # names) value =
     (if name = [] \<or> name = ''.'' then remote_collect names value
      else case segmentRejectionOf name of
          Some rejection \<Rightarrow> Inl rejection
        | None \<Rightarrow> remote_collect names (value @ [slash] @ name))"

definition RemotePath_make :: "string \<Rightarrow> PathError + RemotePath" where
  "RemotePath_make utf8 =
     (if utf8 = [] then Inl \<lparr>reason = Empty, input = utf8\<rparr>
      else if hd utf8 \<noteq> slash then Inl \<lparr>reason = NotAbsolute, input = utf8\<rparr>
      else case remote_collect (splitAtSlashes utf8) [] of
          Inl rejection \<Rightarrow> Inl \<lparr>reason = rejection, input = utf8\<rparr>
        | Inr value \<Rightarrow> if value = [] then Inr remote_root else Inr (RemotePath value))"

definition remote_div_segment :: "RemotePath \<Rightarrow> PathSegment \<Rightarrow> RemotePath" where
  "remote_div_segment p segment =
     (if remote_empty p then RemotePath []
      else RemotePath (appendSegment (remote_value p) (segment_value segment)))"

definition remote_div :: "RemotePath \<Rightarrow> RelativePath \<Rightarrow> RemotePath" where
  "remote_div p relative =
     (if remote_empty p \<or> rel_empty relative then p
      else RemotePath (appendSegment (remote_value p) (rel_value relative)))"

definition remote_parent :: "RemotePath \<Rightarrow> RemotePath option" where
  "remote_parent p =
     (if remote_empty p \<or> remote_isRoot p then None
      else case rfind_char slash (remote_value p) of
          Some 0 \<Rightarrow> Some (RemotePath [slash])
        | Some i \<Rightarrow> Some (RemotePath (take i (remote_value p)))
        | None \<Rightarrow> Some (RemotePath (remote_value p)))"

definition remote_filename :: "RemotePath \<Rightarrow> PathSegment option" where
  "remote_filename p =
     (if remote_empty p \<or> remote_isRoot p then None else Some (PathSegment (lastSegment (remote_value p))))"

definition remote_withFilenameSuffix :: "RemotePath \<Rightarrow> string \<Rightarrow> PathError + RemotePath" where
  "remote_withFilenameSuffix p sfx =
     (case remote_filename p of
        None \<Rightarrow> Inl \<lparr>reason = Empty, input = remote_value p\<rparr>
      | Some name \<Rightarrow> (case PathSegment_make (segment_value name @ sfx) of
            Inl e \<Rightarrow> Inl e
          | Inr segment \<Rightarrow> Inr (remote_div_segment (the (remote_parent p)) segment)))"

text \<open>\<open>value.erase(min(value.rfind('/'), value.size()))\<close>: cut at the last separator, nothing when there is none.\<close>

definition eraseLast :: "string \<Rightarrow> string" where
  "eraseLast value = (case rfind_char slash value of None \<Rightarrow> value | Some i \<Rightarrow> take i value)"

fun remote_resolve :: "string list \<Rightarrow> string \<Rightarrow> PathRejection + string" where
  "remote_resolve [] value = Inr value"
| "remote_resolve (name # names) value =
     (if name = [] \<or> name = ''.'' then remote_resolve names value
      else if name = ''..'' then remote_resolve names (eraseLast value)
      else case segmentRejectionOf name of
          Some rejection \<Rightarrow> Inl rejection
        | None \<Rightarrow> remote_resolve names (value @ [slash] @ name))"

definition resolveLink :: "RemotePath \<Rightarrow> string \<Rightarrow> PathError + RemotePath" where
  "resolveLink p linkContent =
     (if linkContent = [] then Inl \<lparr>reason = Empty, input = linkContent\<rparr>
      else if remote_empty p then Inl \<lparr>reason = NotAbsolute, input = linkContent\<rparr>
      else let start = (if hd linkContent = slash then []
                        else remote_value (case remote_parent p of None \<Rightarrow> remote_root | Some q \<Rightarrow> q));
               value = (if start = [slash] then [] else start) in
        case remote_resolve (splitAtSlashes linkContent) value of
          Inl rejection \<Rightarrow> Inl \<lparr>reason = rejection, input = linkContent\<rparr>
        | Inr value \<Rightarrow> if value = [] then Inr remote_root else Inr (RemotePath value))"

definition remote_isWithin :: "RemotePath \<Rightarrow> RemotePath \<Rightarrow> bool" where
  "remote_isWithin p base =
     (if remote_empty p \<or> remote_empty base then False
      else if remote_isRoot base \<or> remote_value p = remote_value base then True
      else length (remote_value p) > length (remote_value base) \<and>
        starts_with (remote_value p) (remote_value base) \<and>
        remote_value p ! length (remote_value base) = slash)"

definition remote_relativeTo :: "RemotePath \<Rightarrow> RemotePath \<Rightarrow> PathError + RelativePath" where
  "remote_relativeTo p base =
     (if \<not> remote_isWithin p base then Inl \<lparr>reason = EscapesRoot, input = remote_value p\<rparr>
      else if remote_value p = remote_value base then Inr (RelativePath [])
      else let offset = (if remote_isRoot base then 1 else length (remote_value base) + 1) in
        RelativePath_make (drop offset (remote_value p)))"

subsection \<open>The path as a list of names\<close>

definition remote_of :: "string list \<Rightarrow> RemotePath" where
  "remote_of ps = RemotePath (slash # join_slash ps)"

definition remote_names :: "RemotePath \<Rightarrow> string list" where
  "remote_names p = splitAtSlashes (tl (remote_value p))"

definition valid_remote :: "RemotePath \<Rightarrow> bool" where
  "valid_remote p \<longleftrightarrow> remote_empty p \<or> valid_names (remote_names p) \<and> p = remote_of (remote_names p)"

lemma remote_of_basic [path_simps]:
  "valid_names ps \<Longrightarrow> remote_names (remote_of ps) = ps"
  "valid_names ps \<Longrightarrow> valid_remote (remote_of ps)"
  "\<not> remote_empty (remote_of ps)"
  "valid_names ps \<Longrightarrow> remote_isRoot (remote_of ps) \<longleftrightarrow> ps = []"
  "remote_of [] = remote_root"
  by (auto simp: remote_names_def remote_of_def valid_remote_def remote_empty_def remote_isRoot_def
      remote_root_def splitAtSlashes_join join_slash_empty)

lemma valid_remote_obtain:
  assumes "valid_remote p" and "\<not> remote_empty p"
  obtains ps where "p = remote_of ps" "valid_names ps" "remote_names p = ps"
  using assms by (auto simp: valid_remote_def)

definition absolute_text :: "string list \<Rightarrow> string" where
  "absolute_text ps = concat (map (\<lambda>p. slash # p) ps)"

lemma absolute_text_join: "ps \<noteq> [] \<Longrightarrow> absolute_text ps = slash # join_slash ps"
  by (induction ps rule: join_slash.induct) (simp_all add: absolute_text_def)

lemma absolute_text_simps [path_simps]:
  "absolute_text [] = []" "absolute_text (ps @ [p]) = absolute_text ps @ slash # p"
  "absolute_text ps = [] \<longleftrightarrow> ps = []"
  by (auto simp: absolute_text_def)

lemma absolute_text_remote:
  "(if absolute_text ps = [] then Inr remote_root else Inr (RemotePath (absolute_text ps))) = (Inr (remote_of ps) :: PathError + RemotePath)"
  by (simp add: path_simps absolute_text_join remote_of_def remote_root_def)

lemma eraseLast_absolute [path_simps]:
  "valid_names ps \<Longrightarrow> eraseLast (absolute_text ps) = absolute_text (butlast ps)"
proof (cases ps rule: rev_cases)
  case (snoc qs q)
  assume "valid_names ps"
  with snoc have "slash \<notin> set q" by (simp add: valid_segment_slash)
  with snoc show ?thesis by (simp add: eraseLast_def path_simps rfind_char_append)
qed (simp add: eraseLast_def path_simps)

abbreviation kept_names :: "string \<Rightarrow> string list" where
  "kept_names s \<equiv> filter (\<lambda>n. n \<noteq> [] \<and> n \<noteq> ''.'') (splitAtSlashes s)"

lemma remote_collect_Inr:
  "valid_names ps \<Longrightarrow> remote_collect names (absolute_text ps) = Inr v \<longleftrightarrow>
     valid_names (filter (\<lambda>n. n \<noteq> [] \<and> n \<noteq> ''.'') names) \<and>
     v = absolute_text (ps @ filter (\<lambda>n. n \<noteq> [] \<and> n \<noteq> ''.'') names)"
proof (induction names arbitrary: ps)
  case (Cons name names)
  have step: "absolute_text ps @ slash # name = absolute_text (ps @ [name])" by (simp add: path_simps)
  show ?case
  proof (cases "name = [] \<or> name = ''.''")
    case True
    then show ?thesis using Cons.IH [OF Cons.prems] by auto
  next
    case False
    show ?thesis
    proof (cases "segmentRejectionOf name")
      case None
      then have "valid_names (ps @ [name])" using Cons.prems by (simp add: valid_segment_def)
      from Cons.IH [OF this] None False show ?thesis by (simp add: step valid_segment_def)
    next
      case (Some r)
      with False show ?thesis by (auto simp: valid_segment_def)
    qed
  qed
qed auto

lemma RemotePath_make_iff:
  "RemotePath_make s = Inr p \<longleftrightarrow>
     s \<noteq> [] \<and> hd s = slash \<and> valid_names (kept_names s) \<and> p = remote_of (kept_names s)"
proof -
  have "remote_collect (splitAtSlashes s) [] = Inr v \<longleftrightarrow> valid_names (kept_names s) \<and> v = absolute_text (kept_names s)" for v
    using remote_collect_Inr [of "[]" "splitAtSlashes s" v] by (simp add: path_simps)
  note collect = this
  show ?thesis
  proof (cases "valid_names (kept_names s)")
    case True
    then have "remote_collect (splitAtSlashes s) [] = Inr (absolute_text (kept_names s))" using collect by blast
    then have "s \<noteq> [] \<Longrightarrow> hd s = slash \<Longrightarrow> RemotePath_make s = Inr (remote_of (kept_names s))"
      using absolute_text_remote [of "kept_names s"] by (simp add: RemotePath_make_def)
    moreover have "s = [] \<or> hd s \<noteq> slash \<Longrightarrow> \<exists>e. RemotePath_make s = Inl e" by (auto simp: RemotePath_make_def)
    ultimately show ?thesis using True by (cases "s = [] \<or> hd s \<noteq> slash") (fastforce, simp, blast)
  next
    case False
    then obtain r where "remote_collect (splitAtSlashes s) [] = Inl r" using collect by (meson sum.exhaust)
    with False show ?thesis by (auto simp: RemotePath_make_def)
  qed
qed

lemma remote_operations:
  assumes "valid_names ps" and "valid_names qs"
  shows "valid_segment s \<Longrightarrow> remote_div_segment (remote_of ps) (PathSegment s) = remote_of (ps @ [s])"
    and "remote_div (remote_of ps) (relative_of qs) = remote_of (ps @ qs)"
    and "remote_parent (remote_of ps) = (if ps = [] then None else Some (remote_of (butlast ps)))"
    and "remote_filename (remote_of ps) = (if ps = [] then None else Some (PathSegment (last ps)))"
    and "remote_isWithin (remote_of ps) (remote_of qs) \<longleftrightarrow> prefix qs ps"
proof -
  have app: "appendSegment (slash # join_slash ps) t = slash # join_slash (ps @ rs)"
    if "t = join_slash rs" "rs \<noteq> []" "valid_names rs" for t rs
    using that assms last_join [of ps]
    by (cases "ps = []") (auto simp: appendSegment_def join_slash_append)
  show "valid_segment s \<Longrightarrow> remote_div_segment (remote_of ps) (PathSegment s) = remote_of (ps @ [s])"
    using app [of s "[s]"] by (simp add: remote_div_segment_def path_simps) (simp add: remote_of_def)
  show "remote_div (remote_of ps) (relative_of qs) = remote_of (ps @ qs)"
    using assms app [OF refl, of qs] rel_empty_iff [of qs]
    by (cases "qs = []") (simp_all add: remote_div_def path_simps, simp add: remote_of_def relative_of_def)
  show "remote_parent (remote_of ps) = (if ps = [] then None else Some (remote_of (butlast ps)))"
  proof (cases "ps = []")
    case False
    with assms(1) have "slash \<notin> set (last ps)" by (simp add: valid_segment_slash)
    moreover have "slash # join_slash ps = absolute_text (butlast ps) @ slash # last ps"
      using False absolute_text_join [of ps] absolute_text_simps(2) [of "butlast ps" "last ps"] by simp
    ultimately have r: "rfind_char slash (remote_value (remote_of ps)) = Some (length (absolute_text (butlast ps)))"
      and t: "take (length (absolute_text (butlast ps))) (remote_value (remote_of ps)) = absolute_text (butlast ps)"
      by (simp_all add: remote_of_def rfind_char_append)
    have "absolute_text (butlast ps) = [] \<longleftrightarrow> butlast ps = []" by (simp only: absolute_text_simps)
    then show ?thesis
      using r t False remote_of_basic(3) [of ps] remote_of_basic(4) [OF assms(1)] absolute_text_join [of "butlast ps"]
      by (cases "butlast ps = []") (simp_all add: remote_parent_def remote_of_def split: nat.split)
  qed (simp add: remote_parent_def path_simps remote_isRoot_def remote_root_def)
  show "remote_filename (remote_of ps) = (if ps = [] then None else Some (PathSegment (last ps)))"
  proof (cases "ps = []")
    case False
    with assms(1) have "slash \<notin> set (last ps)" by (simp add: valid_segment_slash)
    moreover have "slash # join_slash ps = absolute_text (butlast ps) @ slash # last ps"
      using False absolute_text_join [of ps] absolute_text_simps(2) [of "butlast ps" "last ps"] by simp
    ultimately show ?thesis
      using False assms(1) by (simp add: remote_filename_def path_simps)
        (simp add: remote_of_def lastSegment_def rfind_char_append)
  qed (simp add: remote_filename_def path_simps remote_isRoot_def remote_root_def)
  show "remote_isWithin (remote_of ps) (remote_of qs) \<longleftrightarrow> prefix qs ps"
  proof (cases "qs = []")
    case False
    have sp: "split_slash (slash # join_slash rs) = [] # split_slash (join_slash rs)" for rs by simp
    have "remote_isWithin (remote_of ps) (remote_of qs) \<longleftrightarrow>
        prefix (split_slash (slash # join_slash qs)) (split_slash (slash # join_slash ps))"
      using False assms(2)
      by (simp add: remote_isWithin_def path_simps within_prefix [symmetric] within_text_iff [symmetric] del: split_slash.simps)
        (simp add: remote_of_def starts_with_iff)
    also have "\<dots> \<longleftrightarrow> prefix qs (split_slash (join_slash ps))"
      using False assms by (simp only: sp) (simp add: split_join valid_segment_slash)
    also have "\<dots> \<longleftrightarrow> prefix qs ps"
    proof (cases "ps = []")
      case True
      with False assms(2) show ?thesis by (auto simp: prefix_Cons)
    qed (use assms in \<open>simp add: split_join valid_segment_slash\<close>)
    finally show ?thesis .
  qed (use remote_of_basic(3) [of ps] in \<open>simp add: remote_isWithin_def path_simps remote_isRoot_def remote_empty_def remote_root_def\<close>)
qed

lemma remote_relativeTo_of:
  assumes "valid_names ps" and "valid_names qs"
  shows "remote_relativeTo (remote_of ps) (remote_of qs) =
    (if prefix qs ps then Inr (relative_of (drop (length qs) ps))
     else Inl \<lparr>reason = EscapesRoot, input = remote_value (remote_of ps)\<rparr>)"
proof (cases "prefix qs ps")
  case True
  then obtain rs where rs: "ps = qs @ rs" by (auto simp: prefix_def)
  then have v: "valid_names rs" using assms by simp
  have "rs \<noteq> [] \<Longrightarrow> remote_value (remote_of ps) \<noteq> remote_value (remote_of qs)"
    using rs v by (cases "qs = []") (auto simp: remote_of_def join_slash_append join_slash_empty)
  moreover have "rs \<noteq> [] \<Longrightarrow> drop (if qs = [] then 1 else length (remote_value (remote_of qs)) + 1)
      (remote_value (remote_of ps)) = join_slash rs"
    using rs by (auto simp: remote_of_def join_slash_append)
  moreover have "RelativePath_make (join_slash rs) = Inr (relative_of rs)"
    using v by (simp add: RelativePath_make_iff valid_relative_of relative_of_def [symmetric])
  ultimately show ?thesis
    using True rs v assms remote_operations(5) [OF assms]
    by (cases "rs = []") (simp_all add: remote_relativeTo_def path_simps Let_def relative_of_def)
qed (use assms remote_operations(5) [OF assms] in \<open>simp add: remote_relativeTo_def\<close>)


subsection \<open>Remote paths form a rooted tree\<close>

abbreviation set_remote :: "RemotePath \<Rightarrow> bool" where
  "set_remote p \<equiv> valid_remote p \<and> \<not> remote_empty p"

lemma remote_tree:
  assumes "set_remote p"
  shows "remote_parent p = Some q \<Longrightarrow> set_remote q \<and> length (remote_names q) < length (remote_names p) \<and> remote_isWithin p q"
    and "set_remote d \<Longrightarrow> remote_parent p = Some q \<Longrightarrow> remote_isWithin p d \<Longrightarrow> p \<noteq> d \<Longrightarrow> remote_isWithin q d"
    and "set_remote d \<Longrightarrow> remote_parent p = None \<Longrightarrow> remote_isWithin p d \<Longrightarrow> d = p"
    and "remote_isWithin p p"
proof -
  obtain ps where p: "p = remote_of ps" and ps: "valid_names ps" "remote_names p = ps"
    using assms by (meson valid_remote_obtain)
  have vb: "valid_names (butlast ps)" using ps(1) by (auto dest: in_set_butlastD)
  show "remote_parent p = Some q \<Longrightarrow> set_remote q \<and> length (remote_names q) < length (remote_names p) \<and> remote_isWithin p q"
    using ps vb remote_operations(3) [OF ps(1) vb] remote_operations(5) [OF ps(1) vb] prefixeq_butlast [of ps]
    by (auto simp: p path_simps split: if_splits)
  show "remote_isWithin p p" using remote_operations(5) [OF ps(1) ps(1)] by (simp add: p)
  assume "set_remote d"
  then obtain ds where d: "d = remote_of ds" and ds: "valid_names ds" by (meson valid_remote_obtain)
  note within = remote_operations(5) [OF ps(1) ds] remote_operations(5) [OF vb ds] remote_operations(3) [OF ps(1) ds]
  show "remote_parent p = Some q \<Longrightarrow> remote_isWithin p d \<Longrightarrow> p \<noteq> d \<Longrightarrow> remote_isWithin q d"
    using within by (cases ps rule: rev_cases) (auto simp: p d split: if_splits)
  show "remote_parent p = None \<Longrightarrow> remote_isWithin p d \<Longrightarrow> d = p"
    using within by (auto simp: p d split: if_splits)
qed

interpretation remote_tree: rooted_paths remote_parent remote_isWithin set_remote "\<lambda>p. length (remote_names p)"
proof unfold_locales
qed (use remote_tree in \<open>blast+\<close>)

subsection \<open>Resolving links\<close>

text \<open>What a link means: the names walked one by one from the directory of the link, \<open>..\<close> dropping the last one and
  staying at the root, and any name that is no segment refusing the link.\<close>

fun lexical_walk :: "string list \<Rightarrow> string list \<Rightarrow> PathRejection + string list" where
  "lexical_walk ps [] = Inr ps"
| "lexical_walk ps (name # names) =
     (if name = [] \<or> name = ''.'' then lexical_walk ps names
      else if name = ''..'' then lexical_walk (butlast ps) names
      else case segmentRejectionOf name of Some r \<Rightarrow> Inl r | None \<Rightarrow> lexical_walk (ps @ [name]) names)"

lemma lexical_walk_valid: "valid_names ps \<Longrightarrow> lexical_walk ps names = Inr qs \<Longrightarrow> valid_names qs"
proof (induction ps names rule: lexical_walk.induct)
  case (2 ps name names)
  then show ?case
    by (auto simp: valid_segment_def dest: in_set_butlastD split: if_splits option.splits)
qed auto

lemma remote_resolve_walk:
  "valid_names ps \<Longrightarrow> remote_resolve names (absolute_text ps) =
     (case lexical_walk ps names of Inl r \<Rightarrow> Inl r | Inr qs \<Rightarrow> Inr (absolute_text qs))"
proof (induction ps names rule: lexical_walk.induct)
  case (2 ps name names)
  have step: "absolute_text ps @ slash # name = absolute_text (ps @ [name])" by (simp add: path_simps)
  have "valid_names (butlast ps)" using 2(4) by (auto dest: in_set_butlastD)
  then show ?case
    using 2 by (auto simp: step eraseLast_absolute valid_segment_def split: option.split)
qed auto


lemma valid_not_dot: "valid_segment s \<Longrightarrow> s \<noteq> [] \<and> s \<noteq> ''.''"
  by (simp add: valid_segment_iff)

lemma remote_filename_suffix:
  assumes "valid_names (ps @ [name])"
  shows "remote_withFilenameSuffix (remote_of (ps @ [name])) sfx =
    (case segmentRejectionOf (name @ sfx) of
       Some r \<Rightarrow> Inl \<lparr>reason = r, input = name @ sfx\<rparr>
     | None \<Rightarrow> Inr (remote_of (ps @ [name @ sfx])))"
  using assms remote_operations(1) [of ps "[]" "name @ sfx"]
  by (auto simp: remote_withFilenameSuffix_def remote_operations(3,4) [OF assms, of "[]"] PathSegment_make_def
      valid_segment_def split: option.split)

subsection \<open>Properties\<close>

text \<open>C35: The absolute paths of the server are the lists of their names: parsing keeps the names of the text that are
  neither empty nor a dot and succeeds exactly when all of them are segments, parsing a printed path gives it back, and
  \<open>operator/\<close>, \<open>parent\<close>, \<open>filename\<close>, \<open>isWithin\<close> and \<open>withFilenameSuffix\<close> act on the names.\<close>
theorem remote_path_refines_names:
  assumes "valid_names ps" and "valid_names qs" and "valid_segment s"
  shows "(RemotePath_make t = Inr p \<longleftrightarrow>
            t \<noteq> [] \<and> hd t = slash \<and> valid_names (kept_names t) \<and> p = remote_of (kept_names t)) \<and>
    RemotePath_make (remote_value (remote_of ps)) = Inr (remote_of ps) \<and>
    remote_div_segment (remote_of ps) (PathSegment s) = remote_of (ps @ [s]) \<and>
    remote_div (remote_of ps) (relative_of qs) = remote_of (ps @ qs) \<and>
    remote_parent (remote_of ps) = (if ps = [] then None else Some (remote_of (butlast ps))) \<and>
    remote_filename (remote_of ps) = (if ps = [] then None else Some (PathSegment (last ps))) \<and>
    (remote_isWithin (remote_of ps) (remote_of qs) \<longleftrightarrow> prefix qs ps) \<and>
    remote_withFilenameSuffix (remote_of (ps @ [s])) sfx =
      (case segmentRejectionOf (s @ sfx) of
         Some r \<Rightarrow> Inl \<lparr>reason = r, input = s @ sfx\<rparr>
       | None \<Rightarrow> Inr (remote_of (ps @ [s @ sfx])))"
proof -
  have "kept_names (slash # join_slash ps) = filter (\<lambda>n. n \<noteq> [] \<and> n \<noteq> ''.'') ps"
    using assms(1) by (cases "ps = []") (simp_all add: splitAtSlashes_def split_join valid_segment_slash)
  also have "\<dots> = ps" using assms(1) valid_not_dot by (intro filter_True) blast
  finally have "kept_names (slash # join_slash ps) = ps" .
  then have "RemotePath_make (remote_value (remote_of ps)) = Inr (remote_of ps)"
    using assms(1) by (simp add: RemotePath_make_iff remote_of_def)
  then show ?thesis
    using assms RemotePath_make_iff [of t p] remote_operations [OF assms(1,2)] remote_filename_suffix [of ps s sfx]
    by (simp only: set_append ball_Un) simp
qed

lemma remote_path_refines_names_witness:
  "remote_div (remote_of [''srv'', ''a'']) (relative_of [''b'']) = remote_of [''srv'', ''a'', ''b''] \<and>
   remote_parent (remote_of [''srv'', ''a'']) = Some (remote_of [''srv''])"
proof -
  have "valid_names [''srv'', ''a'']" "valid_names [''b'']" "valid_segment ''c''"
    by (simp_all add: valid_segment_iff valid_ascii_Cons)
  from remote_path_refines_names [OF this] show ?thesis by simp
qed

text \<open>C36: Joining and \<open>relativeTo\<close> are inverse, and a join never leaves its base: for the path of a server and any
  relative path, the join lies within the base and is the relative path again when seen from it, and any path within a
  base is the base joined with what \<open>relativeTo\<close> returns; a path outside is refused.\<close>
theorem remote_relative_roundtrip:
  assumes "valid_remote base" and "\<not> remote_empty base" and "valid_relative r" and "valid_remote p"
  shows "remote_isWithin (remote_div base r) base \<and> remote_relativeTo (remote_div base r) base = Inr r \<and>
    (case remote_relativeTo p base of
       Inr q \<Rightarrow> remote_isWithin p base \<and> valid_relative q \<and> remote_div base q = p
     | Inl e \<Rightarrow> \<not> remote_isWithin p base \<and> e = \<lparr>reason = EscapesRoot, input = remote_value p\<rparr>)"
proof -
  obtain ps where ps: "base = remote_of ps" "valid_names ps" using assms(1,2) by (rule valid_remote_obtain)
  obtain rs where rs: "r = relative_of rs" "valid_names rs" using assms(3) by (rule valid_relative_obtain)
  have psrs: "valid_names (ps @ rs)" using ps rs by auto
  have join: "remote_isWithin (remote_div base r) base \<and> remote_relativeTo (remote_div base r) base = Inr r"
    using remote_operations(2) [OF ps(2) rs(2)] remote_operations(5) [OF psrs ps(2)] remote_relativeTo_of [OF psrs ps(2)]
    by (simp add: ps(1) rs(1))
  show ?thesis
  proof (cases "remote_isWithin p base")
    case True
    then have "\<not> remote_empty p" by (auto simp: remote_isWithin_def)
    with assms(4) obtain qs where qs: "p = remote_of qs" "valid_names qs" by (rule valid_remote_obtain)
    with True obtain zs where zs: "qs = ps @ zs"
      using remote_operations(5) [OF qs(2) ps(2)] ps(1) by (auto simp: prefix_def)
    then have "valid_names zs" using qs by simp
    then show ?thesis
      using True join remote_relativeTo_of [OF qs(2) ps(2)] remote_operations(2) [OF ps(2)] zs
      by (simp add: ps(1) qs(1) valid_relative_of)
  next
    case False
    then have "remote_relativeTo p base = Inl \<lparr>reason = EscapesRoot, input = remote_value p\<rparr>"
      by (simp add: remote_relativeTo_def)
    with False join show ?thesis by simp
  qed
qed

lemma remote_relative_roundtrip_witness:
  "remote_relativeTo (remote_div (remote_of [''srv'']) (relative_of [''a'', ''b''])) (remote_of [''srv'']) =
     Inr (relative_of [''a'', ''b''])"
proof -
  have "valid_names [''srv'']" "valid_names [''a'', ''b'']" by (simp_all add: valid_segment_iff valid_ascii_Cons)
  then have "valid_remote (remote_of [''srv''])" "\<not> remote_empty (remote_of [''srv''])" "valid_relative (relative_of [''a'', ''b''])"
    by (simp_all add: path_simps valid_relative_of)
  from remote_relative_roundtrip [OF this this(1)] show ?thesis by blast
qed

text \<open>A symlink is resolved lexically: from the root for absolute content, from the directory of the link
  otherwise, each \<open>..\<close> dropping one name and staying at the root, so the result is a normalized path.\<close>
theorem resolveLink_lexical:
  assumes "valid_names ps" and "link \<noteq> []"
  shows "resolveLink (remote_of ps) link =
      (case lexical_walk (if hd link = slash then [] else butlast ps) (splitAtSlashes link) of
         Inl r \<Rightarrow> Inl \<lparr>reason = r, input = link\<rparr>
       | Inr qs \<Rightarrow> Inr (remote_of qs)) \<and>
    (case resolveLink (remote_of ps) link of Inl e \<Rightarrow> True | Inr q \<Rightarrow> valid_remote q \<and> \<not> remote_empty q)"
proof -
  let ?start = "if hd link = slash then [] else butlast ps"
  have vb: "valid_names (butlast ps)" using assms(1) by (auto dest: in_set_butlastD)
  then have v: "valid_names ?start" by simp
  have "remote_value (case remote_parent (remote_of ps) of None \<Rightarrow> remote_root | Some q \<Rightarrow> q) = slash # join_slash (butlast ps)"
    using remote_operations(3) [OF assms(1,1)] by (simp add: remote_of_def remote_root_def)
  then have s: "(let start = (if hd link = slash then []
        else remote_value (case remote_parent (remote_of ps) of None \<Rightarrow> remote_root | Some q \<Rightarrow> q))
      in if start = [slash] then [] else start) = absolute_text ?start"
    using vb absolute_text_join [of "butlast ps"] join_slash_empty [of "butlast ps"]
    by (cases "butlast ps = []") (auto simp: path_simps valid_segment_nonempty)
  have main: "resolveLink (remote_of ps) link =
      (case lexical_walk ?start (splitAtSlashes link) of
         Inl r \<Rightarrow> Inl \<lparr>reason = r, input = link\<rparr>
       | Inr qs \<Rightarrow> Inr (remote_of qs))"
    using assms(2) s remote_resolve_walk [OF v, of "splitAtSlashes link"] absolute_text_remote remote_of_basic(3) [of ps]
    by (simp add: resolveLink_def Let_def split: sum.split)
  then show ?thesis
    using lexical_walk_valid [OF v] remote_of_basic(2,3) by (simp split: sum.split)
qed

lemma resolveLink_lexical_witness:
  "resolveLink (remote_of [''srv'', ''a'', ''link'']) ''../../../b'' = Inr (remote_of [''b''])"
proof -
  have v: "valid_names [''srv'', ''a'', ''link'']" "segmentRejectionOf ''b'' = None"
    using valid_segment_def [of "''b''"] by (simp_all add: valid_segment_iff valid_ascii_Cons)
  have "splitAtSlashes ''../../../b'' = [''..'', ''..'', ''..'', ''b'']" by (simp add: splitAtSlashes_def)
  with v(2) show ?thesis using resolveLink_lexical [OF v(1), of "''../../../b''"] by simp
qed

end
