(* ===== verification/Server_Order.thy ===== *)
theory Server_Order
  imports Remote_Path
begin

text \<open>
  \<open>backend/include/backend/file_tracking/tracking_state.hpp\<close>, \<open>ServerOperationOrder\<close>: the operations a tracker
  sends to the server, in the order it decided them. \<open>enter\<close> registers one and tells whether it may start,
  \<open>leave\<close> ends one and returns the tickets that may start now; an operation waits for every earlier one on the
  same path, a path above or a path below. A run is a sequence of the two calls in any order, with what they returned;
  \<open>running\<close> reads from these answers alone which tickets the caller has been told to start. The lemmas show that
  the flag kept for an operation is exactly the absence of an earlier conflicting one, over all runs.
\<close>

subsection \<open>The operations of the source\<close>

record Operation =
  op_ticket :: u64
  op_paths :: "RemotePath list"
  op_started :: bool

record ServerOperationOrder =
  operations :: "Operation list"
  nextTicket :: u64

definition freshOrder :: ServerOperationOrder where
  "freshOrder = \<lparr>operations = [], nextTicket = 0\<rparr>"

definition overlaps :: "RemotePath list \<Rightarrow> RemotePath list \<Rightarrow> bool" where
  "overlaps first second \<longleftrightarrow>
     list_ex (\<lambda>one. list_ex (\<lambda>other. remote_isWithin one other \<or> remote_isWithin other one) second) first"

definition blocked :: "Operation list \<Rightarrow> RemotePath list \<Rightarrow> bool" where
  "blocked earlier paths \<longleftrightarrow> list_ex (\<lambda>operation. overlaps (op_paths operation) paths) earlier"

definition order_enter :: "ServerOperationOrder \<Rightarrow> RemotePath list \<Rightarrow> ServerOperationOrder \<times> u64 \<times> bool" where
  "order_enter order paths =
     (let ticket = nextTicket order; startsNow = \<not> blocked (operations order) paths in
      (\<lparr>operations = operations order @ [\<lparr>op_ticket = ticket, op_paths = paths, op_started = startsNow\<rparr>],
        nextTicket = ticket + 1\<rparr>, ticket, startsNow))"

text \<open>The loop of \<open>leave\<close>: \<open>earlier\<close> are the operations ahead of the iterator, their flags already updated.\<close>

fun startWaiting :: "Operation list \<Rightarrow> Operation list \<Rightarrow> RemotePath list \<Rightarrow> u64 list \<times> Operation list" where
  "startWaiting earlier [] leftPaths = ([], earlier)"
| "startWaiting earlier (waiting # later) leftPaths =
     (if op_started waiting \<or> \<not> overlaps (op_paths waiting) leftPaths then startWaiting (earlier @ [waiting]) later leftPaths
      else if blocked earlier (op_paths waiting) then startWaiting (earlier @ [waiting]) later leftPaths
      else let (starting, all) = startWaiting (earlier @ [waiting\<lparr>op_started := True\<rparr>]) later leftPaths in
        (op_ticket waiting # starting, all))"

definition order_leave :: "ServerOperationOrder \<Rightarrow> u64 \<Rightarrow> ServerOperationOrder \<times> u64 list" where
  "order_leave order ticket =
     (case dropWhile (\<lambda>operation. op_ticket operation \<noteq> ticket) (operations order) of
        [] \<Rightarrow> (order, [])
      | left # after \<Rightarrow>
          (let (starting, all) = startWaiting []
                 (takeWhile (\<lambda>operation. op_ticket operation \<noteq> ticket) (operations order) @ after) (op_paths left)
           in (order\<lparr>operations := all\<rparr>, starting)))"

definition order_empty :: "ServerOperationOrder \<Rightarrow> bool" where
  "order_empty order \<longleftrightarrow> operations order = []"

subsection \<open>Runs, and what the caller was told\<close>

datatype OrderEvent = Entered u64 "RemotePath list" bool | Ended u64 "u64 list"

inductive order_run :: "OrderEvent list \<Rightarrow> ServerOperationOrder \<Rightarrow> bool" where
  run_fresh: "order_run [] freshOrder"
| run_enter: "order_run es order \<Longrightarrow> order_enter order paths = (order', ticket, startsNow) \<Longrightarrow>
     order_run (es @ [Entered ticket paths startsNow]) order'"
| run_leave: "order_run es order \<Longrightarrow> order_leave order ticket = (order', starting) \<Longrightarrow>
     order_run (es @ [Ended ticket starting]) order'"

inductive_cases order_run_snoc: "order_run (es @ [e]) order"

fun told :: "OrderEvent \<Rightarrow> u64 set \<Rightarrow> u64 set" where
  "told (Entered ticket paths startsNow) tickets = (if startsNow then insert ticket tickets else tickets)"
| "told (Ended ticket starting) tickets = (tickets - {ticket}) \<union> set starting"

definition running :: "OrderEvent list \<Rightarrow> u64 set" where
  "running es = fold told es {}"

lemma running_simps [simp]:
  "running [] = {}" "running (es @ [e]) = told e (running es)"
  by (simp_all add: running_def)

subsection \<open>The flag is the absence of an earlier conflict\<close>

fun reflag :: "Operation list \<Rightarrow> Operation list \<Rightarrow> Operation list" where
  "reflag earlier [] = []"
| "reflag earlier (waiting # later) =
     waiting\<lparr>op_started := \<not> blocked earlier (op_paths waiting)\<rparr> # reflag (earlier @ [waiting]) later"

lemma overlaps_sym: "overlaps ps qs \<longleftrightarrow> overlaps qs ps"
  by (auto simp: overlaps_def list_ex_iff)

lemma blocked_simps [simp]:
  "\<not> blocked [] ps"
  "blocked (os @ os') ps \<longleftrightarrow> blocked os ps \<or> blocked os' ps"
  "blocked (x # os) ps \<longleftrightarrow> overlaps (op_paths x) ps \<or> blocked os ps"
  by (auto simp: blocked_def)

lemma reflag_cong: "(\<And>ps. blocked os ps = blocked os' ps) \<Longrightarrow> reflag os ws = reflag os' ws"
proof (induction ws arbitrary: os os')
  case (Cons w ws)
  from Cons.IH [of "os @ [w]" "os' @ [w]"] Cons.prems show ?case by simp
qed simp

lemma reflag_append [simp]: "reflag os (ws @ vs) = reflag os ws @ reflag (os @ ws) vs"
  by (induction ws arbitrary: os) simp_all

lemma reflag_length [simp]: "length (reflag os ws) = length ws"
  by (induction ws arbitrary: os) simp_all

lemma reflag_maps [simp]: "map op_paths (reflag os ws) = map op_paths ws" "map op_ticket (reflag os ws) = map op_ticket ws"
  by (induction ws arbitrary: os) simp_all

lemma reflag_again [simp]: "reflag os (reflag os ws) = reflag os ws"
proof (induction ws arbitrary: os)
  case (Cons w ws)
  have "reflag (os @ [w\<lparr>op_started := b\<rparr>]) vs = reflag (os @ [w]) vs" for b vs
    by (rule reflag_cong) simp
  with Cons show ?case by simp
qed simp

text \<open>
  Between the erasure and the end of the loop of \<open>leave\<close>: a waiting operation has an earlier conflict left, or
  conflicts with the operation that left.
\<close>

fun almost :: "RemotePath list \<Rightarrow> Operation list \<Rightarrow> Operation list \<Rightarrow> bool" where
  "almost leftPaths earlier [] = True"
| "almost leftPaths earlier (w # ws) =
     ((if op_started w then \<not> blocked earlier (op_paths w)
       else blocked earlier (op_paths w) \<or> overlaps (op_paths w) leftPaths) \<and> almost leftPaths (earlier @ [w]) ws)"

definition newly :: "Operation list \<Rightarrow> Operation list \<Rightarrow> u64 list" where
  "newly before after = map (op_ticket \<circ> fst) (filter (\<lambda>(b, a). \<not> op_started b \<and> op_started a) (zip before after))"

lemma newly_Cons [simp]:
  "newly [] [] = []"
  "newly (b # bs) (a # as) = (if \<not> op_started b \<and> op_started a then [op_ticket b] else []) @ newly bs as"
  by (simp_all add: newly_def)

lemma almost_cong: "(\<And>ps. blocked os ps = blocked os' ps) \<Longrightarrow> almost l os ws = almost l os' ws"
proof (induction ws arbitrary: os os')
  case (Cons w ws)
  from Cons.IH [of "os @ [w]" "os' @ [w]"] Cons.prems show ?case by simp
qed simp

lemma startWaiting_reflags:
  "almost l os ws \<Longrightarrow> startWaiting os ws l = (newly ws (reflag os ws), os @ reflag os ws)"
proof (induction ws arbitrary: os)
  case (Cons w ws)
  have flag: "op_started w = (\<not> blocked os (op_paths w)) \<Longrightarrow> w\<lparr>op_started := \<not> blocked os (op_paths w)\<rparr> = w" by simp
  have same: "reflag (os @ [w\<lparr>op_started := b\<rparr>]) vs = reflag (os @ [w]) vs"
    "almost l (os @ [w\<lparr>op_started := b\<rparr>]) vs = almost l (os @ [w]) vs" for b vs
    by (rule reflag_cong almost_cong, simp)+
  have rest: "almost l (os @ [w]) ws" using Cons.prems by simp
  show ?case
  proof (cases "\<not> op_started w \<and> \<not> blocked os (op_paths w)")
    case True
    with Cons.prems have "overlaps (op_paths w) l" by simp
    with True Cons.IH [of "os @ [w\<lparr>op_started := True\<rparr>]"] rest show ?thesis by (simp add: same)
  next
    case False
    with Cons.prems have "op_started w = (\<not> blocked os (op_paths w))" by (auto split: if_splits)
    with False flag Cons.IH [OF rest] show ?thesis by auto
  qed
qed simp
lemma reflag_almost:
  assumes "reflag os (pre @ l # post) = pre @ l # post"
  shows "almost (op_paths l) os (pre @ post)"
proof -
  have after: "almost (op_paths l) (os @ pre) post" if "reflag (os @ pre @ [l]) post = post" for os pre
    using that
  proof (induction post arbitrary: pre)
    case (Cons w ws)
    then have w: "op_started w = (\<not> blocked (os @ pre @ [l]) (op_paths w))" by (cases w) auto
    have "reflag (os @ (pre @ [w]) @ [l]) ws = reflag ((os @ pre @ [l]) @ [w]) ws" by (rule reflag_cong) auto
    then have "reflag (os @ (pre @ [w]) @ [l]) ws = ws" using Cons.prems by simp
    from Cons.IH [OF this] w show ?case by (auto simp: overlaps_sym)
  qed simp
  show ?thesis using assms
  proof (induction pre arbitrary: os)
    case Nil
    then show ?case using after [of os "[]"] by simp
  next
    case (Cons w ws)
    from Cons.prems have "op_started w = (\<not> blocked os (op_paths w))" by (cases w) auto
    with Cons show ?case by auto
  qed
qed

definition well_flagged :: "ServerOperationOrder \<Rightarrow> bool" where
  "well_flagged order \<longleftrightarrow> reflag [] (operations order) = operations order"

lemma enter_well_flagged:
  assumes "well_flagged order" and "order_enter order paths = (order', ticket, startsNow)"
  shows "well_flagged order'"
    and "operations order' = operations order @ [\<lparr>op_ticket = ticket, op_paths = paths, op_started = startsNow\<rparr>]"
    and "ticket = nextTicket order" and "nextTicket order' = nextTicket order + 1"
  using assms by (auto simp: well_flagged_def order_enter_def Let_def)

lemma leave_well_flagged:
  assumes "well_flagged order" and "operations order = pre @ l # post"
    and "\<And>x. x \<in> set pre \<Longrightarrow> op_ticket x \<noteq> op_ticket l"
  shows "order_leave order (op_ticket l) =
     (order\<lparr>operations := reflag [] (pre @ post)\<rparr>, newly (pre @ post) (reflag [] (pre @ post)))"
proof -
  have "almost (op_paths l) [] (pre @ post)"
    using assms(1,2) by (intro reflag_almost) (simp add: well_flagged_def)
  from startWaiting_reflags [OF this] assms(2,3) show ?thesis
    by (simp add: order_leave_def dropWhile_append2 takeWhile_append2 split_def)
qed

lemma leave_cases:
  assumes "order_leave order ticket = (order', starting)" and "well_flagged order"
  obtains (unknown) "ticket \<notin> op_ticket ` set (operations order)" "order' = order" "starting = []"
  | (left) pre l post where "operations order = pre @ l # post" "op_ticket l = ticket"
      "ticket \<notin> op_ticket ` set pre" "order' = order\<lparr>operations := reflag [] (pre @ post)\<rparr>"
      "starting = newly (pre @ post) (reflag [] (pre @ post))"
proof (cases "ticket \<in> op_ticket ` set (operations order)")
  case True
  then obtain x where "x \<in> set (operations order)" "op_ticket x = ticket" by auto
  then obtain pre l post where parts: "operations order = pre @ l # post" "op_ticket l = ticket"
    "\<forall>y \<in> set pre. op_ticket y \<noteq> ticket"
    using split_list_first_prop [of "operations order" "\<lambda>x. op_ticket x = ticket"] by blast
  then have "order_leave order (op_ticket l) =
     (order\<lparr>operations := reflag [] (pre @ post)\<rparr>, newly (pre @ post) (reflag [] (pre @ post)))"
    using assms(2) by (intro leave_well_flagged) auto
  with parts assms(1) show ?thesis by (intro left [OF parts(1,2)]) auto
next
  case False
  then have "dropWhile (\<lambda>operation. op_ticket operation \<noteq> ticket) (operations order) = []" by auto
  with False assms(1) show ?thesis by (intro unknown) (auto simp: order_leave_def)
qed

lemma run_well_flagged: "order_run es order \<Longrightarrow> well_flagged order"
proof (induction rule: order_run.induct)
  case (run_leave es order ticket order' starting)
  from run_leave.hyps(2) run_leave.IH show ?case
    by (cases rule: leave_cases) (use run_leave.IH in \<open>simp_all add: well_flagged_def del: reflag_append\<close>)
qed (auto simp: well_flagged_def freshOrder_def intro: enter_well_flagged(1) [unfolded well_flagged_def])

lemma run_tickets:
  "order_run es order \<Longrightarrow> length es < 2 ^ 64 \<Longrightarrow>
     unat (nextTicket order) \<le> length es \<and> distinct (map op_ticket (operations order)) \<and>
     (\<forall>t \<in> set (map op_ticket (operations order)). unat t < unat (nextTicket order))"
proof (induction rule: order_run.induct)
  case (run_enter es order paths order' ticket startsNow)
  note run = run_well_flagged [OF run_enter.hyps(1)]
  have small: "unat (nextTicket order) \<le> length es" "length es + 1 < 2 ^ 64" using run_enter by auto
  then have "unat (nextTicket order + 1) = unat (nextTicket order) + 1"
    by (simp add: unat_word_ariths)
  with small run_enter enter_well_flagged [OF run run_enter.hyps(2)] show ?case by fastforce
next
  case (run_leave es order ticket order' starting)
  from run_leave.hyps(2) run_well_flagged [OF run_leave.hyps(1)] show ?case
  proof (cases rule: leave_cases)
    case (left pre l post)
    then have "map op_ticket (operations order') = map op_ticket (pre @ post)" "nextTicket order' = nextTicket order"
      by (simp_all del: reflag_append)
    moreover have "distinct (map op_ticket (pre @ post))" "set (map op_ticket (pre @ post)) \<subseteq> set (map op_ticket (operations order))"
      using run_leave.IH run_leave.prems left by auto
    ultimately show ?thesis using run_leave.IH run_leave.prems by (simp only: length_append) fastforce
  qed (use run_leave in auto)
qed (auto simp: freshOrder_def)

abbreviation started_tickets :: "Operation list \<Rightarrow> u64 set" where
  "started_tickets os \<equiv> op_ticket ` set (filter op_started os)"

lemma almost_started:
  "almost l os ws \<Longrightarrow> started_tickets (reflag os ws) = started_tickets ws \<union> set (newly ws (reflag os ws))"
  by (induction ws arbitrary: os) (auto split: if_splits)

lemma running_started:
  "order_run es order \<Longrightarrow> length es < 2 ^ 64 \<Longrightarrow> running es = started_tickets (operations order)"
proof (induction rule: order_run.induct)
  case (run_enter es order paths order' ticket startsNow)
  then show ?case
    using enter_well_flagged(2) [OF run_well_flagged [OF run_enter.hyps(1)] run_enter.hyps(2)] by auto
next
  case (run_leave es order ticket order' starting)
  note run = run_well_flagged [OF run_leave.hyps(1)]
  have known: "running es = started_tickets (operations order)" "distinct (map op_ticket (operations order))"
    using run_leave run_tickets [OF run_leave.hyps(1)] by auto
  from run_leave.hyps(2) run show ?case
  proof (cases rule: leave_cases)
    case (left pre l post)
    have "almost (op_paths l) [] (pre @ post)"
      using run left by (intro reflag_almost) (simp add: well_flagged_def)
    from almost_started [OF this] left have "started_tickets (operations order') = started_tickets (pre @ post) \<union> set starting"
      by (simp del: reflag_append)
    moreover have "running es - {ticket} = started_tickets (pre @ post)"
      using known left by (auto simp: image_iff)
    ultimately show ?thesis by simp
  next
    case unknown
    then show ?thesis using known by auto
  qed
qed (simp add: freshOrder_def)

lemma flag_nth:
  "reflag os ws = ws \<Longrightarrow> j < length ws \<Longrightarrow> op_started (ws ! j) \<longleftrightarrow> \<not> blocked (os @ take j ws) (op_paths (ws ! j))"
proof (induction ws arbitrary: os j)
  case (Cons w ws)
  then have w: "op_started w = (\<not> blocked os (op_paths w))" by (cases w) auto
  show ?case
  proof (cases j)
    case (Suc i)
    with Cons.IH [of "os @ [w]" i] Cons.prems show ?thesis by simp
  qed (use w in simp)
qed simp

lemma blocked_take:
  "j \<le> length ws \<Longrightarrow> blocked (take j ws) ps \<longleftrightarrow> (\<exists>i<j. overlaps (op_paths (ws ! i)) ps)"
  by (auto simp: blocked_def list_ex_iff simp flip: nth_image)

subsection \<open>What the order promises\<close>

text \<open>Only calls of \<open>leave\<close>, each for an operation the caller was told to start.\<close>

fun only_ends :: "OrderEvent list \<Rightarrow> OrderEvent list \<Rightarrow> bool" where
  "only_ends es [] = True"
| "only_ends es (Ended ticket starting # ls) \<longleftrightarrow> ticket \<in> running es \<and> only_ends (es @ [Ended ticket starting]) ls"
| "only_ends es (Entered ticket paths startsNow # ls) = False"

lemma runs_iff_free:
  assumes "order_run es order" and "length es < 2 ^ 64" and "j < length (operations order)"
  shows "op_ticket (operations order ! j) \<in> running es \<longleftrightarrow>
     \<not> (\<exists>i<j. overlaps (op_paths (operations order ! i)) (op_paths (operations order ! j)))"
proof -
  have "op_ticket (operations order ! j) \<in> running es \<longleftrightarrow> op_started (operations order ! j)"
    using running_started [OF assms(1,2)] run_tickets [OF assms(1,2)] assms(3)
    by (auto simp: in_set_conv_nth distinct_conv_nth)
  also have "\<dots> \<longleftrightarrow> \<not> blocked (take j (operations order)) (op_paths (operations order ! j))"
    using flag_nth [of "[]" "operations order" j] run_well_flagged [OF assms(1)] assms(3) by (simp add: well_flagged_def)
  finally show ?thesis using assms(3) by (simp add: blocked_take)
qed

lemma oldest_ends:
  assumes "order_run es order" and "length es < 2 ^ 64" and "operations order = l # post"
  obtains starting where "order_run (es @ [Ended (op_ticket l) starting]) (order\<lparr>operations := reflag [] post\<rparr>)"
    and "op_ticket l \<in> running es"
proof -
  note run = run_well_flagged [OF assms(1)]
  have "op_ticket l \<in> running es" using runs_iff_free [OF assms(1,2), of 0] assms(3) by simp
  moreover have "order_leave order (op_ticket l) = (order\<lparr>operations := reflag [] post\<rparr>, newly post (reflag [] post))"
    using leave_well_flagged [OF run, of "[]" l post] assms(3) by simp
  ultimately show thesis using run_leave [OF assms(1)] that by blast
qed

text \<open>C10: for every sequence of calls of \<open>enter\<close> and \<open>leave\<close> (fewer than \<open>2 ^ 64\<close>, so that tickets do not
  repeat), the caller has been told to start an operation if and only if no operation entered before it, and still
  there, overlaps it: two operations on related paths never run side by side, the later one waits for the earlier,
  and nothing waits without a reason.\<close>

theorem server_order_exclusive:
  assumes "order_run es order" and "length es < 2 ^ 64" and "j < length (operations order)"
  shows "op_ticket (operations order ! j) \<in> running es \<longleftrightarrow>
     \<not> (\<exists>i<j. overlaps (op_paths (operations order ! i)) (op_paths (operations order ! j)))"
  by (rule runs_iff_free [OF assms])

text \<open>C11: bounded waiting: whatever was entered at place \<open>i\<close>, at most \<open>i\<close> operations have to end, each of
  them running at that time, until the caller is told to start it.\<close>

theorem server_order_live:
  assumes "order_run es order" and "length es + i < 2 ^ 64" and "i < length (operations order)"
  shows "\<exists>ls order'. order_run (es @ ls) order' \<and> only_ends es ls \<and> length ls \<le> i \<and>
     op_ticket (operations order ! i) \<in> running (es @ ls)"
  using assms
proof (induction i arbitrary: es order)
  case 0
  then have "op_ticket (operations order ! 0) \<in> running es" by (intro runs_iff_free [THEN iffD2]) auto
  with 0 show ?case by (intro exI [of _ "[]"]) auto
next
  case (Suc i)
  then obtain l post where ops: "operations order = l # post" by (cases "operations order") auto
  obtain starting where ended: "order_run (es @ [Ended (op_ticket l) starting]) (order\<lparr>operations := reflag [] post\<rparr>)"
    "op_ticket l \<in> running es" using Suc.prems by (elim oldest_ends [OF _ _ ops]) auto
  have same: "op_ticket (reflag [] post ! i) = op_ticket (post ! i)"
    using Suc.prems ops reflag_maps(2) [of "[]" post] by (metis Suc_less_eq length_Cons nth_map reflag_length)
  from Suc.IH [OF ended(1)] Suc.prems ops obtain ls order' where
    "order_run ((es @ [Ended (op_ticket l) starting]) @ ls) order'" "only_ends (es @ [Ended (op_ticket l) starting]) ls"
    "length ls \<le> i" "op_ticket (post ! i) \<in> running ((es @ [Ended (op_ticket l) starting]) @ ls)"
    using same by auto
  with ended ops show ?case by (intro exI [of _ "Ended (op_ticket l) starting # ls"] exI [of _ order']) simp
qed

subsection \<open>Instances\<close>

abbreviation "sample_above \<equiv> [remote_of [''a'']]"
abbreviation "sample_below \<equiv> [remote_of [''a'', ''b'']]"

lemma sample_order:
  "order_run [Entered 0 sample_above True, Entered 1 sample_below False]
     \<lparr>operations = [\<lparr>op_ticket = 0, op_paths = sample_above, op_started = True\<rparr>,
        \<lparr>op_ticket = 1, op_paths = sample_below, op_started = False\<rparr>], nextTicket = 2\<rparr>"
proof -
  have "order_run ([] @ [Entered 0 sample_above True])
     \<lparr>operations = [\<lparr>op_ticket = 0, op_paths = sample_above, op_started = True\<rparr>], nextTicket = 1\<rparr>"
    by (rule run_enter [OF run_fresh, of sample_above]) (simp add: order_enter_def freshOrder_def)
  then have "order_run ([Entered 0 sample_above True] @ [Entered 1 sample_below False])
     \<lparr>operations = [\<lparr>op_ticket = 0, op_paths = sample_above, op_started = True\<rparr>,
        \<lparr>op_ticket = 1, op_paths = sample_below, op_started = False\<rparr>], nextTicket = 2\<rparr>"
    by (intro run_enter) (auto simp: order_enter_def overlaps_def remote_isWithin_def remote_of_def remote_empty_def
        remote_isRoot_def starts_with_def)
  then show ?thesis by simp
qed

lemma server_order_exclusive_witness: "1 \<notin> running [Entered 0 sample_above True, Entered 1 sample_below False]"
  using server_order_exclusive [OF sample_order, of 1]
  by (simp add: overlaps_def remote_isWithin_def remote_of_def remote_empty_def remote_isRoot_def starts_with_def)

lemma server_order_live_witness:
  "\<exists>ls order'. order_run ([Entered 0 sample_above True, Entered 1 sample_below False] @ ls) order' \<and>
     only_ends [Entered 0 sample_above True, Entered 1 sample_below False] ls \<and> length ls \<le> 1 \<and>
     1 \<in> running ([Entered 0 sample_above True, Entered 1 sample_below False] @ ls)"
  using server_order_live [OF sample_order, of 1] by simp

end
