(* ===== verification/Local_Path.thy ===== *)
theory Local_Path
  imports Path_Segments Common_Parent
begin

text \<open>
  \<open>paths/include/paths/local_path.hpp\<close>: an absolute, normalized path on the local disk, kept as text with \<open>/\<close> between
  the names on both platforms, with the length of its root and its platform. \<open>native\<close> and \<open>make(std::filesystem::path)\<close>
  only convert from and to the path type of the standard library and are not modelled. The abstraction is the root and
  the list of names, \<open>local_of root platform names\<close>.
\<close>

subsection \<open>The helpers of the source\<close>

definition fold_ascii :: "char \<Rightarrow> char" where
  "fold_ascii c = (if CHR ''A'' \<le> c \<and> c \<le> CHR ''Z'' then char_of (of_char c + (32 :: nat)) else c)"

definition isLetter :: "char \<Rightarrow> bool" where
  "isLetter c \<longleftrightarrow> CHR ''A'' \<le> c \<and> c \<le> CHR ''Z'' \<or> CHR ''a'' \<le> c \<and> c \<le> CHR ''z''"

definition startsWithIgnoringCase :: "string \<Rightarrow> string \<Rightarrow> bool" where
  "startsWithIgnoringCase s pre \<longleftrightarrow>
     length s \<ge> length pre \<and> map fold_ascii (take (length pre) s) = map fold_ascii pre"

definition find_char_from :: "char \<Rightarrow> string \<Rightarrow> nat \<Rightarrow> nat option" where
  "find_char_from c s i = map_option (\<lambda>k. i + k) (find_char c (drop i s))"

definition removeWin32Prefix :: "string \<Rightarrow> PathRejection + string" where
  "removeWin32Prefix generic =
     (case (if starts_with generic ''//?/'' then
              (let rest = drop 4 generic in
               if startsWithIgnoringCase rest ''unc/'' then Inr (take 2 generic @ drop 8 generic)
               else if length rest \<ge> 2 \<and> isLetter (rest ! 0) \<and> rest ! 1 = CHR '':'' then Inr (drop 4 generic)
               else Inl DevicePath)
            else Inr generic) of
        Inl rejection \<Rightarrow> Inl rejection
      | Inr generic \<Rightarrow>
          if \<not> starts_with generic ''//'' then Inr generic
          else (let server = (case find_char_from slash generic 2 of
                    None \<Rightarrow> drop 2 generic | Some i \<Rightarrow> take (i - 2) (drop 2 generic)) in
            if server = ''.'' \<or> server = ''?'' \<or> server = ''..'' then Inl DevicePath else Inr generic))"

definition rootLengthOf :: "string \<Rightarrow> LocalPlatform \<Rightarrow> nat" where
  "rootLengthOf generic platform =
     (if platform = Posix then (if starts_with generic [slash] then 1 else 0)
      else if length generic \<ge> 3 \<and> isLetter (generic ! 0) \<and> generic ! 1 = CHR '':'' \<and> generic ! 2 = slash then 3
      else if length generic = 2 \<and> isLetter (generic ! 0) \<and> generic ! 1 = CHR '':'' then 2
      else if starts_with generic ''//'' then
        (case find_char_from slash generic 2 of
           None \<Rightarrow> 0
         | Some serverEnd \<Rightarrow> if serverEnd = 2 then 0
             else let shareEnd = (case find_char_from slash generic (serverEnd + 1) of
                      None \<Rightarrow> length generic | Some i \<Rightarrow> min i (length generic)) in
               if shareEnd = serverEnd + 1 then 0 else shareEnd)
      else 0)"

definition isWithinText :: "string \<Rightarrow> string \<Rightarrow> (char \<Rightarrow> char \<Rightarrow> bool) \<Rightarrow> bool" where
  "isWithinText path base equal =
     (if length path < length base \<or> \<not> list_all2 equal (take (length base) path) base then False
      else length path = length base \<or> last base = slash \<or> path ! length base = slash)"

subsection \<open>The class\<close>

record LocalPath =
  local_value :: string
  local_rootLength :: nat
  local_platform :: LocalPlatform

definition unset_local :: LocalPath where
  "unset_local = \<lparr>local_value = [], local_rootLength = 0, local_platform = Posix\<rparr>"

definition local_empty :: "LocalPath \<Rightarrow> bool" where
  "local_empty p \<longleftrightarrow> local_value p = []"

definition local_isRoot :: "LocalPath \<Rightarrow> bool" where
  "local_isRoot p \<longleftrightarrow> \<not> local_empty p \<and> length (local_value p) = local_rootLength p"

fun collectNames :: "LocalPlatform \<Rightarrow> string list \<Rightarrow> string list \<Rightarrow> PathRejection + string list" where
  "collectNames platform [] names = Inr names"
| "collectNames platform (name # rest) names =
     (if name = [] \<or> name = ''.'' then collectNames platform rest names
      else if name = ''..'' then
        (if names = [] then Inl EscapesRoot else collectNames platform rest (butlast names))
      else case localRejectionOf name platform of
          Some rejection \<Rightarrow> Inl rejection
        | None \<Rightarrow> collectNames platform rest (names @ [name]))"

definition upper_drive :: "LocalPlatform \<Rightarrow> string \<Rightarrow> string" where
  "upper_drive platform value =
     (if platform = Windows \<and> CHR ''a'' \<le> value ! 0 \<and> value ! 0 \<le> CHR ''z''
      then value[0 := char_of (of_char (value ! 0) - (32 :: nat))] else value)"

definition LocalPath_fromUtf8 :: "string \<Rightarrow> LocalPlatform \<Rightarrow> PathError + LocalPath" where
  "LocalPath_fromUtf8 utf8 platform =
     (if utf8 = [] then Inl \<lparr>reason = Empty, input = utf8\<rparr>
      else if CHR 0x00 \<in> set utf8 then Inl \<lparr>reason = ContainsNul, input = utf8\<rparr>
      else if \<not> isValidUtf8 utf8 then Inl \<lparr>reason = InvalidUtf8, input = utf8\<rparr>
      else case (if platform = Windows
                 then removeWin32Prefix (map (\<lambda>c. if c = CHR 0x5C then slash else c) utf8)
                 else Inr utf8) of
          Inl rejection \<Rightarrow> Inl \<lparr>reason = rejection, input = utf8\<rparr>
        | Inr generic \<Rightarrow>
            (let rootLength = rootLengthOf generic platform in
             if rootLength = 0 then Inl \<lparr>reason = NotAbsolute, input = utf8\<rparr>
             else case collectNames platform (splitAtSlashes (drop rootLength generic)) [] of
                 Inl rejection \<Rightarrow> Inl \<lparr>reason = rejection, input = utf8\<rparr>
               | Inr names \<Rightarrow>
                   (let root = take rootLength generic;
                        root = (if last root \<noteq> slash then root @ [slash] else root);
                        root = upper_drive platform root in
                    Inr \<lparr>local_value = foldl appendSegment root names,
                         local_rootLength = length root, local_platform = platform\<rparr>)))"

definition local_div :: "LocalPath \<Rightarrow> LocalPathSegment \<Rightarrow> LocalPath" where
  "local_div p segment =
     (if local_empty p then unset_local
      else p\<lparr>local_value := appendSegment (local_value p) (segment_value (local_segment segment))\<rparr>)"

fun firstLocalRejection :: "LocalPlatform \<Rightarrow> string list \<Rightarrow> (PathRejection \<times> string) option" where
  "firstLocalRejection platform [] = None"
| "firstLocalRejection platform (name # names) =
     (case localRejectionOf name platform of
        Some rejection \<Rightarrow> Some (rejection, name)
      | None \<Rightarrow> firstLocalRejection platform names)"

definition local_join :: "LocalPath \<Rightarrow> RelativePath \<Rightarrow> PathError + LocalPath" where
  "local_join p relative =
     (if local_empty p then Inl \<lparr>reason = Empty, input = rel_value relative\<rparr>
      else case firstLocalRejection (local_platform p) (rel_segmentViews relative) of
          Some (rejection, name) \<Rightarrow> Inl \<lparr>reason = rejection, input = name\<rparr>
        | None \<Rightarrow> Inr (if \<not> rel_empty relative
                      then p\<lparr>local_value := appendSegment (local_value p) (rel_value relative)\<rparr> else p))"

text \<open>\<open>slash\<close> is \<open>npos\<close> when there is no separator, so that \<open>slash + 1\<close> wraps to 0 and the root is returned.\<close>

definition local_parent :: "LocalPath \<Rightarrow> LocalPath option" where
  "local_parent p =
     (if local_empty p \<or> local_isRoot p then None
      else Some (p\<lparr>local_value :=
        (case rfind_char slash (local_value p) of
           None \<Rightarrow> take (local_rootLength p) (local_value p)
         | Some i \<Rightarrow> if i + 1 \<le> local_rootLength p then take (local_rootLength p) (local_value p)
                     else take i (local_value p))\<rparr>))"

definition local_filename :: "LocalPath \<Rightarrow> PathSegment option" where
  "local_filename p =
     (if local_empty p \<or> local_isRoot p then None else Some (PathSegment (lastSegment (local_value p))))"

definition local_isWithin :: "LocalPath \<Rightarrow> LocalPath \<Rightarrow> bool" where
  "local_isWithin p base =
     (if local_empty p \<or> local_empty base \<or> local_platform p \<noteq> local_platform base then False
      else isWithinText (local_value p) (local_value base) (=))"

definition local_isWithinIgnoringCase :: "LocalPath \<Rightarrow> LocalPath \<Rightarrow> bool" where
  "local_isWithinIgnoringCase p base =
     (if local_empty p \<or> local_empty base \<or> local_platform p \<noteq> local_platform base then False
      else isWithinText (local_value p) (local_value base) (\<lambda>l r. fold_ascii l = fold_ascii r))"

definition local_relativeTo :: "LocalPath \<Rightarrow> LocalPath \<Rightarrow> PathError + RelativePath" where
  "local_relativeTo p base =
     (if \<not> local_isWithin p base then Inl \<lparr>reason = EscapesRoot, input = local_value p\<rparr>
      else if local_value p = local_value base then Inr (RelativePath [])
      else let rest = drop (length (local_value base)) (local_value p);
               rest = (if rest \<noteq> [] \<and> hd rest = slash then tl rest else rest) in
        RelativePath_make rest)"

subsection \<open>The path as a root and a list of names\<close>

text \<open>The root without its final separator: empty on POSIX, a drive like \<open>C:\<close> or \<open>//server/share\<close> on Windows.\<close>

definition local_stem :: "LocalPlatform \<Rightarrow> string \<Rightarrow> bool" where
  "local_stem platform u \<longleftrightarrow>
     (if platform = Posix then u = []
      else case split_slash u of
          [drive] \<Rightarrow> length drive = 2 \<and> CHR ''A'' \<le> drive ! 0 \<and> drive ! 0 \<le> CHR ''Z'' \<and> drive ! 1 = CHR '':''
        | [a, b, server, share] \<Rightarrow> a = [] \<and> b = [] \<and> server \<notin> {[], ''.'', ''?'', ''..''} \<and> share \<noteq> []
        | _ \<Rightarrow> False) \<and>
     isValidUtf8 u \<and> CHR 0x00 \<notin> set u \<and> (platform = Windows \<longrightarrow> CHR 0x5C \<notin> set u)"

abbreviation local_name :: "LocalPlatform \<Rightarrow> string \<Rightarrow> bool" where
  "local_name platform name \<equiv> localRejectionOf name platform = None"

abbreviation local_names :: "LocalPlatform \<Rightarrow> string list \<Rightarrow> bool" where
  "local_names platform ps \<equiv> \<forall>p \<in> set ps. local_name platform p"

definition local_of :: "LocalPlatform \<Rightarrow> string \<Rightarrow> string list \<Rightarrow> LocalPath" where
  "local_of platform u ps =
     \<lparr>local_value = u @ slash # join_slash ps, local_rootLength = length u + 1, local_platform = platform\<rparr>"

definition names_of :: "LocalPath \<Rightarrow> string list" where
  "names_of p = splitAtSlashes (drop (local_rootLength p) (local_value p))"

definition stem_of :: "LocalPath \<Rightarrow> string" where
  "stem_of p = take (local_rootLength p - 1) (local_value p)"

definition valid_local :: "LocalPath \<Rightarrow> bool" where
  "valid_local p \<longleftrightarrow> local_stem (local_platform p) (stem_of p) \<and> local_names (local_platform p) (names_of p) \<and>
     p = local_of (local_platform p) (stem_of p) (names_of p)"

lemma local_name_valid: "local_name platform name \<Longrightarrow> valid_segment name"
  by (simp add: localRejectionOf_def valid_segment_def split: option.splits)

lemma local_names_valid: "local_names platform ps \<Longrightarrow> valid_names ps"
  using local_name_valid by blast

lemma local_of_basic [path_simps]:
  "local_platform (local_of platform u ps) = platform"
  "\<not> local_empty (local_of platform u ps)"
  "stem_of (local_of platform u ps) = u"
  "valid_names ps \<Longrightarrow> names_of (local_of platform u ps) = ps"
  "valid_names ps \<Longrightarrow> local_isRoot (local_of platform u ps) \<longleftrightarrow> ps = []"
  by (auto simp: local_of_def local_empty_def stem_of_def names_of_def local_isRoot_def splitAtSlashes_join join_slash_empty)

lemma valid_local_of: "local_stem platform u \<Longrightarrow> local_names platform ps \<Longrightarrow> valid_local (local_of platform u ps)"
  using local_names_valid [of ps platform] by (simp add: valid_local_def path_simps)

lemma valid_local_obtain:
  assumes "valid_local p"
  obtains platform u ps where "p = local_of platform u ps" "local_stem platform u" "local_names platform ps" "valid_names ps"
    "names_of p = ps" "stem_of p = u" "local_platform p = platform"
  using assms local_names_valid unfolding valid_local_def by blast

lemma append_under_root:
  assumes "valid_names ps" and "qs \<noteq> []"
  shows "appendSegment (u @ slash # join_slash ps) (join_slash qs) = u @ slash # join_slash (ps @ qs)"
  using assms last_join [OF assms(1)] by (cases "ps = []") (simp_all add: appendSegment_def join_slash_append)

lemma fold_appendSegment:
  "valid_names ps \<Longrightarrow> valid_names qs \<Longrightarrow>
     foldl appendSegment (u @ slash # join_slash ps) qs = u @ slash # join_slash (ps @ qs)"
proof (induction qs arbitrary: ps)
  case (Cons q qs)
  from append_under_root [OF Cons.prems(1), of "[q]" u] Cons.IH [of "ps @ [q]"] Cons.prems
  show ?case by simp
qed simp

lemma split_local: "split_slash (u @ slash # join_slash ps) = split_slash u @ split_slash (join_slash ps)"
  by (rule split_slash_append)

lemma stem_unique:
  assumes "local_stem platform u" and "local_stem platform w" and "prefix (split_slash w) (split_slash u @ zs)"
  shows "u = w"
proof -
  have "length (split_slash u) = length (split_slash w)"
    using assms by (auto simp: local_stem_def split: if_splits list.splits)
  then have "split_slash u = split_slash w" using assms(3) by (auto simp: prefix_def append_eq_append_conv)
  then show ?thesis by (metis join_split)
qed

lemma isWithinText_exact:
  "base \<noteq> [] \<Longrightarrow> isWithinText path base (=) \<longleftrightarrow>
     (if last base = slash then starts_with path base
      else prefix (split_slash base) (split_slash path))"
  unfolding within_prefix [symmetric]
  by (simp add: within_text_iff [of path base slash, symmetric] isWithinText_def list.rel_eq starts_with_def)
    (metis append_eq_conv_conj le_neq_implies_less length_take min.absorb2 not_le take_all linorder_le_cases)

lemma local_operations:
  assumes "local_names platform ps"
  shows "local_name platform s \<Longrightarrow>
      local_div (local_of platform u ps) (LocalPathSegment (PathSegment s)) = local_of platform u (ps @ [s])"
    and "local_parent (local_of platform u ps) = (if ps = [] then None else Some (local_of platform u (butlast ps)))"
    and "local_filename (local_of platform u ps) = (if ps = [] then None else Some (PathSegment (last ps)))"
proof -
  have ps: "valid_names ps" using assms by (rule local_names_valid)
  show "local_name platform s \<Longrightarrow>
      local_div (local_of platform u ps) (LocalPathSegment (PathSegment s)) = local_of platform u (ps @ [s])"
    using append_under_root [OF ps, of "[s]" u] by (simp add: local_div_def path_simps) (simp add: local_of_def)
  have last: "rfind_char slash (u @ slash # join_slash ps) =
      Some (if butlast ps = [] then length u else length u + 1 + length (join_slash (butlast ps)))" if "ps \<noteq> []"
  proof -
    have nl: "slash \<notin> set (last ps)" using ps that by (simp add: valid_segment_slash)
    show ?thesis
    proof (cases "butlast ps = []")
      case True
      then have "join_slash ps = last ps" using that by (simp add: join_single)
      with True nl show ?thesis by (simp add: rfind_char_append)
    next
      case False
      then have "u @ slash # join_slash ps = (u @ slash # join_slash (butlast ps)) @ slash # last ps"
        using that by (simp add: join_butlast)
      with False show ?thesis by (simp only: rfind_char_append [OF nl]) simp
    qed
  qed
  show "local_parent (local_of platform u ps) = (if ps = [] then None else Some (local_of platform u (butlast ps)))"
  proof (cases "ps = []")
    case False
    have "butlast ps \<noteq> [] \<Longrightarrow> join_slash (butlast ps) \<noteq> []"
      using ps in_set_butlastD [of _ ps] not_valid_Nil by (fastforce simp: join_slash_empty)
    then show ?thesis
      using False last [OF False] ps join_butlast [of ps]
      by (cases "butlast ps = []") (simp_all add: local_parent_def path_simps, simp_all add: local_of_def)
  qed (simp add: local_parent_def path_simps)
  show "local_filename (local_of platform u ps) = (if ps = [] then None else Some (PathSegment (last ps)))"
  proof (cases "ps = []")
    case False
    have "lastSegment (u @ slash # join_slash ps) = last ps"
      using last [OF False] False join_butlast [of ps] join_single [of ps] by (auto simp: lastSegment_def)
    then show ?thesis
      using False ps by (simp add: local_filename_def path_simps) (simp add: local_of_def)
  qed (simp add: local_filename_def path_simps)
qed

lemma local_isWithin_of:
  assumes "local_stem platform u" and "local_stem platform' w" and "local_names platform ps" and "local_names platform' qs"
  shows "local_isWithin (local_of platform u ps) (local_of platform' w qs) \<longleftrightarrow> platform = platform' \<and> u = w \<and> prefix qs ps"
proof -
  have ps: "valid_names ps" and qs: "valid_names qs" using assms(3,4) local_names_valid by blast+
  have sj: "split_slash (join_slash ps) = (if ps = [] then [[]] else ps)"
    using ps by (simp add: split_join valid_segment_slash)
  have sq: "qs \<noteq> [] \<Longrightarrow> split_slash (w @ slash # join_slash qs) = split_slash w @ qs"
    using qs by (simp add: split_local split_join valid_segment_slash)
  have within_iff: "isWithinText (u @ slash # join_slash ps) (w @ slash # join_slash qs) (=) \<longleftrightarrow> u = w \<and> prefix qs ps"
    if "local_stem platform w"
  proof (cases "qs = []")
    case True
    have "starts_with (u @ slash # join_slash ps) (w @ [slash]) \<Longrightarrow> u = w"
    proof -
      assume "starts_with (u @ slash # join_slash ps) (w @ [slash])"
      then obtain r where "u @ slash # join_slash ps = w @ slash # r" by (auto simp: starts_with_iff)
      then have "prefix (split_slash w) (split_slash u @ split_slash (join_slash ps))"
        unfolding split_local [symmetric] by (simp add: split_slash_append)
      then show "u = w" using stem_unique [OF assms(1) that] by blast
    qed
    then show ?thesis using True by (auto simp: isWithinText_exact starts_with_iff)
  next
    case False
    then have base: "last (w @ slash # join_slash qs) \<noteq> slash" using last_join [OF qs] by simp
    have "isWithinText (u @ slash # join_slash ps) (w @ slash # join_slash qs) (=) \<longleftrightarrow>
        prefix (split_slash w @ qs) (split_slash u @ split_slash (join_slash ps))"
      using base False sq by (simp add: isWithinText_exact split_local)
    also have "\<dots> \<longleftrightarrow> u = w \<and> prefix qs (split_slash (join_slash ps))"
    proof
      assume pre: "prefix (split_slash w @ qs) (split_slash u @ split_slash (join_slash ps))"
      then have "u = w" using stem_unique [OF assms(1) that] append_prefixD by blast
      with pre show "u = w \<and> prefix qs (split_slash (join_slash ps))" by simp
    qed simp
    also have "\<dots> \<longleftrightarrow> u = w \<and> prefix qs ps"
      using False qs by (auto simp: sj prefix_Cons)
    finally show ?thesis .
  qed
  then show ?thesis
    using assms(2) by (cases "platform = platform'") (simp_all add: local_isWithin_def path_simps, simp_all add: local_of_def)
qed

lemma local_relativeTo_of:
  assumes "local_stem platform u" and "local_names platform ps" and "local_names platform qs"
  shows "local_relativeTo (local_of platform u ps) (local_of platform u qs) =
    (if prefix qs ps then Inr (relative_of (drop (length qs) ps))
     else Inl \<lparr>reason = EscapesRoot, input = local_value (local_of platform u ps)\<rparr>)"
proof (cases "prefix qs ps")
  case True
  then obtain rs where rs: "ps = qs @ rs" by (auto simp: prefix_def)
  have v: "valid_names rs" "valid_names qs" using assms rs local_names_valid by auto
  have w: "local_isWithin (local_of platform u ps) (local_of platform u qs)"
    using True local_isWithin_of [OF assms(1,1,2,3)] by simp
  show ?thesis
  proof (cases "rs = []")
    case False
    have j: "join_slash rs \<noteq> []" "hd (join_slash rs) \<noteq> slash"
    proof -
      show "join_slash rs \<noteq> []" using last_join [OF v(1) False] by blast
      from False v(1) obtain a as where a: "rs = a # as" "a \<noteq> []" "slash \<notin> set a"
        by (cases rs) (auto simp: valid_segment_slash valid_segment_nonempty)
      then have "hd a \<noteq> slash" by (metis list.set_sel(1))
      with a show "hd (join_slash rs) \<noteq> slash" by (cases as) simp_all
    qed
    have "local_value (local_of platform u ps) =
        local_value (local_of platform u qs) @ (if qs = [] then join_slash rs else slash # join_slash rs)"
      using rs False by (simp add: local_of_def join_slash_append)
    moreover have "RelativePath_make (join_slash rs) = Inr (relative_of rs)"
      using v by (simp add: RelativePath_make_iff valid_relative_of relative_of_def [symmetric])
    ultimately show ?thesis
      using True rs w j by (simp add: local_relativeTo_def Let_def)
  qed (use rs w True in \<open>simp add: local_relativeTo_def relative_of_def\<close>)
qed (use local_isWithin_of [OF assms(1,1,2,3)] in \<open>simp add: local_relativeTo_def\<close>)

subsection \<open>UTF-8 text cut at and changed in its ASCII characters\<close>

lemma scalar_bytes_cases:
  assumes "isScalarValue c"
  shows "c < 128 \<and> utf8_bytes c = [char_of c] \<or> (\<forall>x \<in> set (utf8_bytes c). (of_char x :: nat) \<ge> 128)"
proof -
  have b: "(of_char (char_of n :: char) :: nat) \<ge> 128" if "128 \<le> n" "n < 256" for n :: nat
    using that by simp
  have "c < 1114112" using assms by (simp add: isScalarValue_def)
  then have d: "c < 2048 \<Longrightarrow> c div 64 < 32" "c < 65536 \<Longrightarrow> c div 4096 < 16" "c div 262144 < 8"
    by (simp_all add: less_mult_imp_div_less)
  have m: "128 + n mod 64 < 256" for n :: nat using mod_less_divisor [of 64 n] by linarith
  consider "c < 128" | "128 \<le> c" "c < 2048" | "2048 \<le> c" "c < 65536" | "65536 \<le> c" by linarith
  then show ?thesis
  proof cases
    case 2
    then have "utf8_bytes c = [char_of (192 + c div 64), char_of (128 + c mod 64)]" by (simp add: utf8_bytes_arith [OF assms])
    moreover have "(of_char (char_of (192 + c div 64) :: char) :: nat) \<ge> 128" using d 2 by (intro b) auto
    moreover have "(of_char (char_of (128 + c mod 64) :: char) :: nat) \<ge> 128" using m by (intro b) auto
    ultimately show ?thesis by simp
  next
    case 3
    then have "utf8_bytes c = [char_of (224 + c div 4096), char_of (128 + c div 64 mod 64), char_of (128 + c mod 64)]"
      by (simp add: utf8_bytes_arith [OF assms])
    moreover have "(of_char (char_of (224 + c div 4096) :: char) :: nat) \<ge> 128" using d 3 by (intro b) auto
    moreover have "(of_char (char_of (128 + c div 64 mod 64) :: char) :: nat) \<ge> 128" using m by (intro b) auto
    moreover have "(of_char (char_of (128 + c mod 64) :: char) :: nat) \<ge> 128" using m by (intro b) auto
    ultimately show ?thesis by simp
  next
    case 4
    then have "utf8_bytes c = [char_of (240 + c div 262144), char_of (128 + c div 4096 mod 64),
        char_of (128 + c div 64 mod 64), char_of (128 + c mod 64)]"
      by (simp add: utf8_bytes_arith [OF assms])
    moreover have "(of_char (char_of (240 + c div 262144) :: char) :: nat) \<ge> 128" using d by (intro b) auto
    moreover have "(of_char (char_of (128 + c div 4096 mod 64) :: char) :: nat) \<ge> 128" using m by (intro b) auto
    moreover have "(of_char (char_of (128 + c div 64 mod 64) :: char) :: nat) \<ge> 128" using m by (intro b) auto
    moreover have "(of_char (char_of (128 + c mod 64) :: char) :: nat) \<ge> 128" using m by (intro b) auto
    ultimately show ?thesis by simp
  qed (simp add: utf8_bytes_arith [OF assms])
qed

lemma valid_cut:
  assumes "isValidUtf8 (a @ c # b)" and "(of_char c :: nat) < 128"
  shows "isValidUtf8 a \<and> isValidUtf8 b"
proof -
  have "isValidUtf8 s \<Longrightarrow> s = a @ c # b \<Longrightarrow> isValidUtf8 a \<and> isValidUtf8 b" for s
  proof (induction s arbitrary: a rule: utf8_text_induct)
    case (scalar x r)
    from scalar_bytes_cases [OF scalar.hyps] show ?case
    proof
      assume x: "x < 128 \<and> utf8_bytes x = [char_of x]"
      then have "(of_char (char_of x :: char) :: nat) < 128" by simp
      then show ?case using x scalar by (cases a) (auto simp: valid_ascii_Cons)
    next
      assume "\<forall>y \<in> set (utf8_bytes x). (of_char y :: nat) \<ge> 128"
      then have "c \<notin> set (utf8_bytes x)" using assms(2) by auto
      moreover from scalar.prems(2) obtain us where
        "utf8_bytes x = a @ us \<and> us @ r = c # b \<or> a = utf8_bytes x @ us \<and> r = us @ c # b"
        by (auto simp: append_eq_append_conv2)
      ultimately obtain us where us: "a = utf8_bytes x @ us" "r = us @ c # b" by (cases us) auto
      have "isValidUtf8 r" using scalar.prems(1) by simp
      with scalar.IH [OF this us(2)] show ?case by (simp add: us(1))
    qed
  next
    case (bad x r)
    then show ?case using loops_at_bad(2) by blast
  qed simp
  with assms(1) show ?thesis by blast
qed

lemma valid_replace:
  assumes "\<And>c. (of_char c :: nat) \<ge> 128 \<Longrightarrow> f c = c" and "\<And>c. (of_char c :: nat) < 128 \<Longrightarrow> (of_char (f c) :: nat) < 128"
  shows "isValidUtf8 s \<Longrightarrow> isValidUtf8 (map f s)"
proof (induction s rule: utf8_text_induct)
  case (scalar x r)
  from scalar_bytes_cases [OF scalar.hyps] show ?case
  proof
    assume x: "x < 128 \<and> utf8_bytes x = [char_of x]"
    then have "(of_char (f (char_of x)) :: nat) < 128" by (intro assms) simp
    then show ?case using x scalar by (simp add: valid_ascii_Cons)
  next
    assume "\<forall>y \<in> set (utf8_bytes x). (of_char y :: nat) \<ge> 128"
    then have "map f (utf8_bytes x) = utf8_bytes x" using assms(1) by (simp add: map_idI)
    then show ?case using scalar by simp
  qed
qed (auto simp: loops_at_bad)

lemma valid_join: "(\<And>p. p \<in> set ps \<Longrightarrow> isValidUtf8 p) \<Longrightarrow> isValidUtf8 (join_slash ps)"
  by (induction ps rule: join_slash.induct) (auto simp: valid_append valid_ascii_Cons)

lemma fold_ascii_high: "(of_char (fold_ascii c) :: nat) < 128 \<Longrightarrow> (of_char c :: nat) < 128"
  by (simp add: fold_ascii_def less_eq_char_def split: if_splits)

definition server_of :: "string \<Rightarrow> string" where
  "server_of g = (case find_char_from slash g 2 of None \<Rightarrow> drop 2 g | Some i \<Rightarrow> take (i - 2) (drop 2 g))"

lemma removeWin32Prefix_result:
  assumes "removeWin32Prefix g = Inr h" and "isValidUtf8 g"
  shows "isValidUtf8 h" and "set h \<subseteq> set g" and "starts_with h ''//'' \<Longrightarrow> server_of h \<notin> {''.'', ''?'', ''..''}"
proof -
  have ascii: "isValidUtf8 r" if "isValidUtf8 (cs @ r)" "\<And>c. c \<in> set cs \<Longrightarrow> (of_char c :: nat) < 128" for cs r
    using that by (induction cs) (simp_all add: valid_ascii_Cons)
  consider (plain) "\<not> starts_with g ''//?/''" "h = g"
    | (unc) "starts_with g ''//?/''" "startsWithIgnoringCase (drop 4 g) ''unc/''" "h = take 2 g @ drop 8 g"
    | (drive) "starts_with g ''//?/''" "h = drop 4 g"
    using assms(1) by (auto simp: removeWin32Prefix_def Let_def split: if_splits sum.splits)
  then have "isValidUtf8 h \<and> set h \<subseteq> set g"
  proof cases
    case unc
    then obtain r where r: "g = ''//?/'' @ r" by (auto simp: starts_with_iff)
    have "\<And>c. c \<in> set (take 4 r) \<Longrightarrow> (of_char c :: nat) < 128"
    proof -
      fix c assume "c \<in> set (take 4 r)"
      then have c: "fold_ascii c \<in> set (map fold_ascii (take 4 r))" by simp
      have "map fold_ascii (take 4 r) = map fold_ascii ''unc/''"
        using unc(2) unfolding startsWithIgnoringCase_def r by (simp add: numeral_eq_Suc)
      with c have "fold_ascii c \<in> fold_ascii ` set ''unc/''" by (simp only: list.set_map)
      moreover have "fold_ascii ` set ''unc/'' = set ''unc/''" by code_simp
      ultimately have "fold_ascii c \<in> set ''unc/''" by (simp only:)
      then have "(of_char (fold_ascii c) :: nat) < 128" by auto
      then show "(of_char c :: nat) < 128" by (rule fold_ascii_high)
    qed
    moreover have "isValidUtf8 r" using assms(2) by (simp add: r valid_ascii_Cons)
    ultimately have "isValidUtf8 (drop 4 r)" using ascii [of "take 4 r" "drop 4 r"] by simp
    moreover have "drop 8 g = drop 4 r" by (simp add: r)
    ultimately show ?thesis using set_drop_subset [of 4 r] by (auto simp: unc(3) r valid_ascii_Cons)
  next
    case drive
    then obtain r where r: "g = ''//?/'' @ r" by (auto simp: starts_with_iff)
    then show ?thesis using assms(2) by (auto simp: drive(2) valid_ascii_Cons)
  qed (use assms(2) in simp)
  then show "isValidUtf8 h" "set h \<subseteq> set g" by blast+
  show "starts_with h ''//'' \<Longrightarrow> server_of h \<notin> {''.'', ''?'', ''..''}"
    using assms(1) by (auto simp: removeWin32Prefix_def server_of_def Let_def split: if_splits sum.splits)
qed

lemma server_found:
  assumes "slash \<notin> set server"
  shows "find_char_from slash (slash # slash # server @ slash # r) 2 = Some (2 + length server)"
    and "server_of (slash # slash # server @ slash # r) = server"
  using assms by (simp_all add: find_char_from_def server_of_def find_char_append)

lemma unc_root:
  assumes "starts_with g ''//''" and "rootLengthOf g Windows = n" and "n \<noteq> 0"
  shows "\<exists>server share r. g = slash # slash # server @ slash # share @ r \<and> n = 3 + length server + length share \<and>
    slash \<notin> set server \<and> slash \<notin> set share \<and> server \<noteq> [] \<and> share \<noteq> [] \<and> (r = [] \<or> hd r = slash)"
proof -
  obtain g' where g: "g = slash # slash # g'" using assms(1) by (auto simp: starts_with_iff)
  have nl: "\<not> isLetter slash" by (simp add: isLetter_def)
  obtain i where i: "find_char slash g' = Some i" "i \<noteq> 0"
    using assms by (auto simp: rootLengthOf_def g nl find_char_from_def split: option.splits if_splits)
  define server where "server = take i g'"
  from find_char_Some [OF i(1)] obtain r where r: "g' = server @ slash # r" "slash \<notin> set server" "i = length server"
    by (metis length_take min.absorb4 server_def)
  have found: "find_char_from slash g 2 = Some (2 + i)"
    "find_char_from slash g (2 + i + 1) = map_option (\<lambda>k. 2 + i + 1 + k) (find_char slash r)"
    using server_found(1) [OF r(2), of r] by (simp_all add: g r(1,3)) (simp add: find_char_from_def)
  have g0: "g ! 0 = slash" by (simp add: g)
  have n: "n = (let shareEnd = (case map_option (\<lambda>k. 2 + i + 1 + k) (find_char slash r) of
      None \<Rightarrow> length g | Some k \<Rightarrow> min k (length g)) in if shareEnd = 2 + i + 1 then 0 else shareEnd)"
    using assms(1,2) i(2) found by (simp add: rootLengthOf_def g0 nl)
  show ?thesis
  proof (cases "find_char slash r")
    case None
    then have "slash \<notin> set r" by (simp add: find_char_None)
    moreover have "r \<noteq> []" using n assms(3) None r i by (auto simp: g Let_def split: if_splits)
    ultimately show ?thesis using n assms(3) None r i by (intro exI [of _ server] exI [of _ r] exI [of _ "[]"]) (auto simp: g Let_def split: if_splits)
  next
    case (Some k)
    from find_char_Some [OF Some] have k: "r = take k r @ slash # drop (Suc k) r" "slash \<notin> set (take k r)" "k < length r" by auto
    then have "k \<noteq> 0 \<and> n = i + 3 + k" using n assms(3) Some r by (auto simp: g Let_def split: if_splits)
    then show ?thesis using k r i by (intro exI [of _ server] exI [of _ "take k r"] exI [of _ "slash # drop (Suc k) r"]) (auto simp: g)
  qed
qed

lemma upper_letter:
  assumes "isLetter c"
  shows "CHR ''A'' \<le> upper_drive Windows (c # s) ! 0 \<and> upper_drive Windows (c # s) ! 0 \<le> CHR ''Z''"
    and "upper_drive Windows (c # s) = upper_drive Windows (c # s) ! 0 # s"
  using assms by (auto simp: upper_drive_def isLetter_def less_eq_char_def)

lemma drive_stem:
  assumes "CHR ''A'' \<le> d" and "d \<le> CHR ''Z''"
  shows "local_stem Windows [d, CHR '':'']"
proof -
  have "d \<noteq> slash" "d \<noteq> CHR 0x5C" "d \<noteq> CHR 0x00" "(of_char d :: nat) < 128"
    using assms by (auto simp: less_eq_char_def)
  then show ?thesis using assms by (simp add: local_stem_def valid_ascii_Cons)
qed

lemma parsed_root:
  assumes root: "rootLengthOf g platform = n" "n \<noteq> 0"
    and utf: "isValidUtf8 g" "CHR 0x00 \<notin> set g"
    and win: "platform = Windows \<Longrightarrow> CHR 0x5C \<notin> set g"
      "platform = Windows \<Longrightarrow> starts_with g ''//'' \<Longrightarrow> server_of g \<notin> {''.'', ''?'', ''..''}"
  shows "\<exists>u. local_stem platform u \<and>
    upper_drive platform (if last (take n g) \<noteq> slash then take n g @ [slash] else take n g) = u @ [slash]"
proof (cases platform)
  case Posix
  with root have "starts_with g [slash]" "n = 1" by (auto simp: rootLengthOf_def split: if_splits)
  then show ?thesis using Posix by (auto simp: starts_with_iff local_stem_def upper_drive_def)
next
  case Windows
  consider (drive) c s where "isLetter c" "g = c # CHR '':'' # s" "n = 3 \<and> s \<noteq> [] \<and> hd s = slash \<or> n = 2 \<and> s = []"
    | (unc) "starts_with g ''//''"
  proof -
    assume unc: "starts_with g ''//'' \<Longrightarrow> thesis"
      and drive: "\<And>c s. isLetter c \<Longrightarrow> g = c # CHR '':'' # s \<Longrightarrow>
        n = 3 \<and> s \<noteq> [] \<and> hd s = slash \<or> n = 2 \<and> s = [] \<Longrightarrow> thesis"
    show thesis
    proof (cases "starts_with g ''//''")
      case False
      with root Windows have d: "isLetter (g ! 0)" "g ! 1 = CHR '':''"
        "n = 3 \<and> length g \<ge> 3 \<and> g ! 2 = slash \<or> n = 2 \<and> length g = 2"
        by (auto simp: rootLengthOf_def split: if_splits)
      then obtain c k s where "g = c # k # s" by (cases g; cases "tl g") auto
      with d show thesis by (intro drive [of c s]; cases s) (auto simp: numeral_2_eq_2 numeral_3_eq_3)
    qed (rule unc)
  qed
  then show ?thesis
  proof cases
    case drive
    have "(if last (take n g) \<noteq> slash then take n g @ [slash] else take n g) = [c, CHR '':'', slash]"
      using drive(3) by (cases s) (auto simp: drive(2))
    then show ?thesis
      using upper_letter [OF drive(1), of "[CHR '':'', slash]"] drive_stem Windows
      by (intro exI [of _ "[upper_drive Windows [c, CHR '':'', slash] ! 0, CHR '':'']"]) simp
  next
    case unc
    from unc_root [OF unc root(1) [unfolded Windows] root(2)] obtain server share r where
      g: "g = slash # slash # server @ slash # share @ r" and n: "n = 3 + length server + length share" and
      nl: "slash \<notin> set server" "slash \<notin> set share" "server \<noteq> []" "share \<noteq> []"
      and r: "r = [] \<or> hd r = slash"
      by blast
    define u where "u = slash # slash # server @ slash # share"
    have take: "take n g = u" using n by (simp add: g u_def numeral_3_eq_3)
    have "isValidUtf8 u"
    proof (cases r)
      case Nil
      then show ?thesis using utf(1) by (simp add: g u_def)
    next
      case (Cons c cs)
      with r have "g = u @ slash # cs" by (simp add: g u_def)
      then show ?thesis using utf(1) valid_cut [of u slash cs] by simp
    qed
    moreover have "server \<notin> {''.'', ''?'', ''..''}"
      using win(2) Windows unc server_found(2) [OF nl(1)] by (simp add: g)
    moreover have "CHR 0x00 \<notin> set u" "CHR 0x5C \<notin> set u" using utf(2) win(1) Windows by (auto simp: g u_def)
    moreover have "split_slash u = [[], [], server, share]"
      using nl by (simp add: u_def split_slash_append split_slash_single)
    ultimately have "local_stem Windows u" using nl by (simp add: local_stem_def)
    moreover have "last u \<noteq> slash" using nl by (simp add: u_def) (metis last_in_set)
    moreover have "upper_drive Windows (u @ [slash]) = u @ [slash]" by (simp add: upper_drive_def u_def less_eq_char_def)
    ultimately show ?thesis unfolding take Windows by auto
  qed
qed

lemma collectNames_valid:
  "local_names platform names \<Longrightarrow> collectNames platform xs names = Inr ns \<Longrightarrow> local_names platform ns"
proof (induction platform xs names rule: collectNames.induct)
  case (2 platform name rest names)
  then show ?case by (auto dest: in_set_butlastD split: if_splits option.splits)
qed auto

lemma collectNames_names:
  "local_names platform ps \<Longrightarrow> collectNames platform ps acc = Inr (acc @ ps)"
proof (induction ps arbitrary: acc)
  case (Cons p ps)
  then have "valid_segment p" using local_name_valid [of p platform] by simp
  then have "p \<noteq> [] \<and> p \<noteq> ''.'' \<and> p \<noteq> ''..''" by (simp add: valid_segment_iff)
  with Cons show ?case by simp
qed simp

lemma parsed_value:
  assumes "LocalPath_fromUtf8 s platform = Inr p"
  shows "valid_local p" and "local_platform p = platform"
proof -
  let ?replaced = "map (\<lambda>c. if c = CHR 0x5C then slash else c) s"
  from assms have s: "CHR 0x00 \<notin> set s" "isValidUtf8 s"
    by (auto simp: LocalPath_fromUtf8_def split: if_splits)
  from assms obtain g where g: "(if platform = Windows then removeWin32Prefix ?replaced else Inr s) = Inr g"
    by (auto simp: LocalPath_fromUtf8_def split: if_splits sum.splits)
  define n where "n = rootLengthOf g platform"
  from assms g obtain names where n: "n \<noteq> 0" and
    names: "collectNames platform (splitAtSlashes (drop n g)) [] = Inr names" and
    p: "p = (let root = upper_drive platform (if last (take n g) \<noteq> slash then take n g @ [slash] else take n g) in
      \<lparr>local_value = foldl appendSegment root names, local_rootLength = length root, local_platform = platform\<rparr>)"
    by (auto simp: LocalPath_fromUtf8_def Let_def n_def split: if_splits sum.splits)
  have replaced: "isValidUtf8 ?replaced" by (rule valid_replace [OF _ _ s(2)]) auto
  have nul: "CHR 0x00 \<notin> set ?replaced" "CHR 0x5C \<notin> set ?replaced" using s(1) by auto
  have utf: "isValidUtf8 g" "CHR 0x00 \<notin> set g"
    using g s removeWin32Prefix_result(1,2) [OF _ replaced] nul by (auto split: if_splits)
  have win: "platform = Windows \<Longrightarrow> CHR 0x5C \<notin> set g"
    "platform = Windows \<Longrightarrow> starts_with g ''//'' \<Longrightarrow> server_of g \<notin> {''.'', ''?'', ''..''}"
    using g removeWin32Prefix_result(2,3) [OF _ replaced] nul by (auto split: if_splits)
  obtain u where u: "local_stem platform u" and
    root: "upper_drive platform (if last (take n g) \<noteq> slash then take n g @ [slash] else take n g) = u @ [slash]"
    using parsed_root [OF n_def [symmetric] n utf win] by blast
  have ns: "local_names platform names" using collectNames_valid [OF _ names] by simp
  then have "p = local_of platform u names"
    using fold_appendSegment [of "[]" names u] local_names_valid [OF ns] unfolding p root by (simp add: local_of_def)
  then show "valid_local p" "local_platform p = platform" using valid_local_of [OF u ns] by (simp_all add: path_simps)
qed

lemma reparse_windows:
  assumes "local_stem Windows u" and "local_names Windows ps"
  shows "removeWin32Prefix (u @ slash # join_slash ps) = Inr (u @ slash # join_slash ps)" (is "?a")
    and "\<exists>n. rootLengthOf (u @ slash # join_slash ps) Windows = n \<and> n \<noteq> 0 \<and>
      (n = length u \<or> n = length u + 1) \<and>
      upper_drive Windows (u @ [slash]) = u @ [slash] \<and> last u \<noteq> slash \<and> u \<noteq> []" (is "?b")
proof -
  consider (drive) d where "u = [d, CHR '':'']" "CHR ''A'' \<le> d" "d \<le> CHR ''Z''"
    | (unc) server share where "split_slash u = [[], [], server, share]"
      "server \<notin> {[], ''.'', ''?'', ''..''}" "share \<noteq> []" "slash \<notin> set server" "slash \<notin> set share"
  proof -
    assume drive: "\<And>d. u = [d, CHR '':''] \<Longrightarrow> CHR ''A'' \<le> d \<Longrightarrow> d \<le> CHR ''Z'' \<Longrightarrow> thesis"
      and unc: "\<And>server share. split_slash u = [[], [], server, share] \<Longrightarrow> server \<notin> {[], ''.'', ''?'', ''..''} \<Longrightarrow>
        share \<noteq> [] \<Longrightarrow> slash \<notin> set server \<Longrightarrow> slash \<notin> set share \<Longrightarrow> thesis"
    from assms(1) consider (d) x where "split_slash u = [x]" "length x = 2" "CHR ''A'' \<le> x ! 0" "x ! 0 \<le> CHR ''Z''" "x ! 1 = CHR '':''"
      | (u) server share where "split_slash u = [[], [], server, share]" "server \<notin> {[], ''.'', ''?'', ''..''}" "share \<noteq> []"
      by (auto simp: local_stem_def split: list.splits)
    then show thesis
    proof cases
      case d
      then have "u = x" using join_split [of u] by simp
      with d show thesis by (intro drive [of "x ! 0"]) (auto simp: numeral_2_eq_2 length_Suc_conv)
    next
      case u
      then show thesis using split_slash_parts [of _ u] by (intro unc [of server share]) auto
    qed
  qed
  then have "?a \<and> ?b"
  proof cases
    case drive
    have d: "d \<noteq> slash" "\<not> (CHR ''a'' \<le> d \<and> d \<le> CHR ''z'')" "isLetter d"
      using drive(2,3) by (auto simp: isLetter_def less_eq_char_def)
    have "starts_with (u @ slash # join_slash ps) ''//'' = False" "starts_with (u @ slash # join_slash ps) ''//?/'' = False"
      using d(1) by (simp_all add: drive(1) starts_with_def)
    then show ?thesis using d by (auto simp: drive(1) removeWin32Prefix_def rootLengthOf_def upper_drive_def numeral_2_eq_2 numeral_3_eq_3)
  next
    case unc
    have u: "u = slash # slash # server @ slash # share" using join_split [of u] unc(1) by simp
    let ?r = "share @ slash # join_slash ps"
    have g: "u @ slash # join_slash ps = slash # slash # server @ slash # ?r" by (simp add: u)
    have "\<not> starts_with (slash # slash # server @ slash # ?r) ''//?/''"
    proof
      assume "starts_with (slash # slash # server @ slash # ?r) ''//?/''"
      then obtain z where z: "server @ slash # ?r = CHR ''?'' # slash # z" by (auto simp: starts_with_iff)
      then show False using unc by (cases server; cases "tl server") auto
    qed
    then have a: ?a
      using server_found(2) [OF unc(4), of ?r] unc(2) unfolding g by (simp add: removeWin32Prefix_def server_of_def Let_def starts_with_def)
    have f2: "find_char_from slash (slash # slash # server @ slash # ?r) (Suc (Suc (Suc (length server)))) =
        Some (3 + length server + length share)"
      by (simp add: find_char_from_def find_char_append unc(5))
    have sw: "starts_with (slash # slash # server @ slash # ?r) ''//''" by (simp add: starts_with_def)
    have "rootLengthOf (u @ slash # join_slash ps) Windows = 3 + length server + length share"
      using server_found(1) [OF unc(4), of ?r] f2 sw unc(2,3) unfolding g by (simp add: rootLengthOf_def isLetter_def less_eq_char_def Let_def)
    moreover have "last u \<noteq> slash" using unc(3,5) by (simp add: u) (metis last_in_set)
    ultimately have ?b by (simp add: u upper_drive_def less_eq_char_def)
    with a show ?thesis by blast
  qed
  then show ?a ?b by blast+
qed

lemma set_join_slash: "set (join_slash ps) \<subseteq> insert slash (\<Union>p \<in> set ps. set p)"
  by (induction ps rule: join_slash.induct) auto

lemma windows_name: "local_name Windows p \<Longrightarrow> CHR 0x5C \<notin> set p"
proof
  assume "local_name Windows p" "CHR 0x5C \<in> set p"
  then have "list_ex reservedOnWindows p" by (auto simp: list_ex_iff reservedOnWindows_def)
  with \<open>local_name Windows p\<close> show False
    by (simp add: localRejectionOf_def windowsRejection_def split: option.splits)
qed

lemma reparse:
  assumes "local_stem platform u" and "local_names platform ps"
  shows "LocalPath_fromUtf8 (local_value (local_of platform u ps)) platform = Inr (local_of platform u ps)"
proof -
  let ?g = "u @ slash # join_slash ps"
  have ps: "valid_names ps" using assms(2) by (rule local_names_valid)
  have plain: "CHR 0x00 \<notin> set p \<and> isValidUtf8 p \<and> slash \<notin> set p" if "p \<in> set ps" for p
    using ps that by (simp add: valid_segment_iff)
  then have "CHR 0x00 \<notin> set (join_slash ps)" "isValidUtf8 (join_slash ps)"
    using set_join_slash [of ps] by (auto intro: valid_join)
  then have s: "?g \<noteq> []" "CHR 0x00 \<notin> set ?g" "isValidUtf8 ?g"
    using assms(1) by (auto simp: local_stem_def valid_append valid_ascii_Cons split: if_splits)
  have collect: "collectNames platform (splitAtSlashes (join_slash ps)) [] = Inr ps"
    "collectNames platform (splitAtSlashes (slash # join_slash ps)) [] = Inr ps"
    using collectNames_names [OF assms(2), of "[]"] ps
    by (simp_all add: splitAtSlashes_join) (cases "ps = []"; simp add: splitAtSlashes_def split_join valid_segment_slash)
  have joined: "foldl appendSegment (u @ [slash]) ps = ?g" using fold_appendSegment [OF _ ps, of "[]" u] by simp
  show ?thesis
  proof (cases platform)
    case Posix
    then have "u = []" using assms(1) by (simp add: local_stem_def)
    then show ?thesis
      using Posix s collect joined
      by (simp add: LocalPath_fromUtf8_def rootLengthOf_def starts_with_def local_of_def upper_drive_def Let_def)
  next
    case Windows
    have "CHR 0x5C \<notin> set p" if "p \<in> set ps" for p
      using assms(2) that Windows windows_name by blast
    then have "CHR 0x5C \<notin> set ?g" using assms(1) Windows set_join_slash [of ps] by (auto simp: local_stem_def)
    then have g: "map (\<lambda>c. if c = CHR 0x5C then slash else c) ?g = ?g" by (intro map_idI) auto
    obtain n where n: "rootLengthOf ?g Windows = n" "n \<noteq> 0" "n = length u \<or> n = length u + 1"
      "upper_drive Windows (u @ [slash]) = u @ [slash]" "last u \<noteq> slash" "u \<noteq> []"
      using reparse_windows(2) assms Windows by blast
    have "(if last (take n ?g) \<noteq> slash then take n ?g @ [slash] else take n ?g) = u @ [slash]"
      "collectNames Windows (splitAtSlashes (drop n ?g)) [] = Inr ps"
      using n(3,5) collect Windows by auto
    note cut = this
    have "LocalPath_fromUtf8 h Windows = Inr \<lparr>local_value = h, local_rootLength = length u + 1, local_platform = Windows\<rparr>"
      if h: "h = ?g" for h
    proof -
      have "rootLengthOf h Windows = n" "removeWin32Prefix h = Inr h" "map (\<lambda>c. if c = CHR 0x5C then slash else c) h = h"
        "h \<noteq> []" "CHR 0x00 \<notin> set h" "isValidUtf8 h" "foldl appendSegment (u @ [slash]) ps = h"
        "(if last (take n h) \<noteq> slash then take n h @ [slash] else take n h) = u @ [slash]"
        "collectNames Windows (splitAtSlashes (drop n h)) [] = Inr ps"
        unfolding h using n(1) reparse_windows(1) [of u ps] assms Windows g s joined cut by blast+
      with n(2,4) show ?thesis by (simp add: LocalPath_fromUtf8_def Let_def)
    qed
    then show ?thesis by (simp add: local_of_def Windows)
  qed
qed

subsection \<open>Local paths form a rooted tree\<close>

lemma local_tree:
  assumes "valid_local p"
  shows "local_parent p = Some q \<Longrightarrow> valid_local q \<and> length (names_of q) < length (names_of p) \<and> local_isWithin p q"
    and "valid_local d \<Longrightarrow> local_parent p = Some q \<Longrightarrow> local_isWithin p d \<Longrightarrow> p \<noteq> d \<Longrightarrow> local_isWithin q d"
    and "valid_local d \<Longrightarrow> local_parent p = None \<Longrightarrow> local_isWithin p d \<Longrightarrow> d = p"
    and "local_isWithin p p"
proof -
  obtain platform u ps where p: "p = local_of platform u ps" and u: "local_stem platform u" and
    ps: "local_names platform ps" "valid_names ps" "names_of p = ps"
    using assms by (metis valid_local_obtain)
  have b: "local_names platform (butlast ps)" using ps(1) by (auto dest: in_set_butlastD)
  then have vb: "valid_names (butlast ps)" by (rule local_names_valid)
  show "local_parent p = Some q \<Longrightarrow> valid_local q \<and> length (names_of q) < length (names_of p) \<and> local_isWithin p q"
    using ps(2) vb local_operations(2) [OF ps(1), of u] local_isWithin_of [OF u u ps(1) b] prefixeq_butlast [of ps]
      valid_local_of [OF u b]
    by (auto simp: p path_simps split: if_splits)
  show "local_isWithin p p" using local_isWithin_of [OF u u ps(1) ps(1)] by (simp add: p)
  assume "valid_local d"
  then obtain platform' w ds where d: "d = local_of platform' w ds" and w: "local_stem platform' w" and
    ds: "local_names platform' ds" by (metis valid_local_obtain)
  note within = local_isWithin_of [OF u w ps(1) ds] local_isWithin_of [OF u w b ds] local_operations(2) [OF ps(1), of u]
  show "local_parent p = Some q \<Longrightarrow> local_isWithin p d \<Longrightarrow> p \<noteq> d \<Longrightarrow> local_isWithin q d"
    using within by (cases ps rule: rev_cases) (auto simp: p d split: if_splits)
  show "local_parent p = None \<Longrightarrow> local_isWithin p d \<Longrightarrow> d = p"
    using within by (auto simp: p d split: if_splits)
qed

interpretation local_tree: rooted_paths local_parent local_isWithin valid_local "\<lambda>p. length (names_of p)"
proof unfold_locales
qed (use local_tree in \<open>blast+\<close>)

subsection \<open>Joining a relative path\<close>

lemma firstLocalRejection_None: "firstLocalRejection platform names = None \<longleftrightarrow> local_names platform names"
  by (induction names) (auto split: option.splits)

lemma firstLocalRejection_Some:
  "firstLocalRejection platform names = Some (r, name) \<Longrightarrow> localRejectionOf name platform = Some r \<and>
     (\<exists>before after. names = before @ name # after \<and> local_names platform before)"
proof (induction names)
  case (Cons other names)
  show ?case
  proof (cases "localRejectionOf other platform")
    case (Some x)
    with Cons.prems show ?thesis by (auto intro: exI [of _ "[]"])
  next
    case None
    with Cons obtain before after where "names = before @ name # after" "local_names platform before"
      "localRejectionOf name platform = Some r" by auto
    with None show ?thesis by (intro conjI exI [of _ "other # before"] exI [of _ after]) auto
  qed
qed simp

lemma local_join_of:
  assumes "local_names platform ps" and "local_names platform qs"
  shows "local_join (local_of platform u ps) (relative_of qs) = Inr (local_of platform u (ps @ qs))"
proof -
  have v: "valid_names ps" "valid_names qs" using assms local_names_valid by blast+
  have "firstLocalRejection platform (rel_segmentViews (relative_of qs)) = None"
    using assms(2) v by (simp add: firstLocalRejection_None views_relative_of)
  then show ?thesis
    using append_under_root [OF v(1), of qs u] rel_empty_iff [OF v(2)]
    by (cases "qs = []") (simp_all add: local_join_def path_simps, simp add: local_of_def relative_of_def)
qed

subsection \<open>Comparing without case\<close>

definition fold_path :: "LocalPath \<Rightarrow> LocalPath" where
  "fold_path p = p\<lparr>local_value := map fold_ascii (local_value p)\<rparr>"

lemma fold_slash: "fold_ascii c = slash \<longleftrightarrow> c = slash"
proof -
  have "fold_ascii c \<noteq> slash" if "CHR ''A'' \<le> c" "c \<le> CHR ''Z''"
  proof
    assume "fold_ascii c = slash"
    then have "(of_char (fold_ascii c) :: nat) = of_char slash" by simp
    with that show False by (simp add: fold_ascii_def less_eq_char_def)
  qed
  then show ?thesis by (auto simp: fold_ascii_def less_eq_char_def)
qed

lemma list_all2_map_eq: "list_all2 (\<lambda>l r. f l = f r) xs ys \<longleftrightarrow> map f xs = map f ys"
  unfolding list.rel_eq [symmetric] list.rel_map ..

lemma within_folded: "local_isWithinIgnoringCase p base \<longleftrightarrow> local_isWithin (fold_path p) (fold_path base)"
proof -
  have "isWithinText v b (\<lambda>l r. fold_ascii l = fold_ascii r) \<longleftrightarrow> isWithinText (map fold_ascii v) (map fold_ascii b) (=)"
    if "b \<noteq> []" for v b
  proof (cases "length v \<le> length b")
    case True
    then show ?thesis
      using that by (simp add: isWithinText_def list.rel_eq list_all2_map_eq last_map fold_slash)
  next
    case False
    then show ?thesis
      using that by (simp add: isWithinText_def list.rel_eq list_all2_map_eq last_map fold_slash take_map)
  qed
  then show ?thesis
    by (simp add: local_isWithinIgnoringCase_def local_isWithin_def fold_path_def local_empty_def)
qed

subsection \<open>Properties\<close>

text \<open>C37: What \<open>fromUtf8\<close> accepts is normalized: the result is a root of its platform and a list of names the
  platform allows, without empty, dot or dot-dot names, and parsing its text again gives the same path.\<close>
theorem local_parse_canonical:
  assumes "LocalPath_fromUtf8 s platform = Inr p"
  shows "valid_local p \<and> local_platform p = platform \<and> LocalPath_fromUtf8 (local_value p) platform = Inr p"
proof -
  have v: "valid_local p" "local_platform p = platform" using parsed_value [OF assms] by blast+
  from v obtain u ps where "p = local_of platform u ps" "local_stem platform u" "local_names platform ps"
    by (metis valid_local_obtain)
  with v reparse [of platform u ps] show ?thesis by simp
qed

lemma local_parse_canonical_witness:
  "LocalPath_fromUtf8 ''C:/b'' Windows = LocalPath_fromUtf8 (CHR ''c'' # '':'' @ [CHR 0x5C] @ ''a/..//./b'') Windows"
proof -
  have "LocalPath_fromUtf8 (CHR ''c'' # '':'' @ [CHR 0x5C] @ ''a/..//./b'') Windows =
      Inr \<lparr>local_value = ''C:/b'', local_rootLength = 3, local_platform = Windows\<rparr>" by code_simp
  from local_parse_canonical [OF this] this show ?thesis by simp
qed

text \<open>C34: A local path is its root and its list of names: \<open>operator/\<close>, \<open>parent\<close>, \<open>filename\<close>, \<open>isWithin\<close> and
  \<open>relativeTo\<close> act on the names, and two paths are comparable only under the same root of the same platform.\<close>
theorem local_path_refines_names:
  assumes "local_stem platform u" and "local_stem platform' w" and "local_names platform ps" and "local_names platform' qs"
    and "local_name platform s"
  shows "local_div (local_of platform u ps) (LocalPathSegment (PathSegment s)) = local_of platform u (ps @ [s]) \<and>
    local_parent (local_of platform u ps) = (if ps = [] then None else Some (local_of platform u (butlast ps))) \<and>
    local_filename (local_of platform u ps) = (if ps = [] then None else Some (PathSegment (last ps))) \<and>
    (local_isWithin (local_of platform u ps) (local_of platform' w qs) \<longleftrightarrow>
       platform = platform' \<and> u = w \<and> prefix qs ps) \<and>
    local_relativeTo (local_of platform u ps) (local_of platform' w qs) =
      (if platform = platform' \<and> u = w \<and> prefix qs ps then Inr (relative_of (drop (length qs) ps))
       else Inl \<lparr>reason = EscapesRoot, input = local_value (local_of platform u ps)\<rparr>)"
proof (cases "platform = platform' \<and> u = w")
  case True
  with assms local_operations [OF assms(3)] local_isWithin_of [OF assms(1-4)] local_relativeTo_of [of platform u ps qs]
  show ?thesis by simp
next
  case False
  have "\<not> local_isWithin (local_of platform u ps) (local_of platform' w qs)"
    using False local_isWithin_of [OF assms(1-4)] by blast
  then have "local_relativeTo (local_of platform u ps) (local_of platform' w qs) =
      Inl \<lparr>reason = EscapesRoot, input = local_value (local_of platform u ps)\<rparr>"
    by (simp add: local_relativeTo_def)
  with False assms(5) local_operations [OF assms(3)] local_isWithin_of [OF assms(1-4)] show ?thesis by auto
qed

lemma local_path_refines_names_witness:
  "\<not> local_isWithin (local_of Posix [] [''srv'', ''ab'']) (local_of Posix [] [''srv'', ''a'']) \<and>
   local_isWithin (local_of Posix [] [''srv'', ''ab'']) (local_of Posix [] [''srv''])"
proof -
  have u: "local_stem Posix []" by code_simp
  have n: "local_names Posix [''srv'', ''ab'']" "local_names Posix [''srv'', ''a'']" "local_names Posix [''srv'']"
    "local_name Posix ''c''" by code_simp+
  show ?thesis
    using local_path_refines_names [OF u u n(1,2,4)] local_path_refines_names [OF u u n(1,3,4)] by simp
qed

text \<open>C33:
  Joining a relative path onto a local path either refuses the first name the platform does not allow, with the reason that
  name is refused for, every name before it being allowed; or gives a valid path below the base that \<open>relativeTo\<close> takes
  apart again. No relative path leads out of its base.
\<close>
theorem local_join_contained:
  assumes "valid_local p" and "valid_relative r"
  shows "case local_join p r of
      Inl e \<Rightarrow> localRejectionOf (input e) (local_platform p) = Some (reason e) \<and>
        (\<exists>before after. rel_segmentViews r = before @ input e # after \<and>
           (\<forall>name \<in> set before. localRejectionOf name (local_platform p) = None))
    | Inr q \<Rightarrow> valid_local q \<and> local_isWithin q p \<and> local_relativeTo q p = Inr r \<and>
        names_of q = names_of p @ rel_segmentViews r"
proof -
  obtain platform u ps where p: "p = local_of platform u ps" "local_stem platform u" "local_names platform ps"
    "names_of p = ps" using assms(1) by (metis valid_local_obtain)
  obtain rs where r: "r = relative_of rs" "valid_names rs" "rel_segmentViews r = rs"
    using assms(2) by (rule valid_relative_obtain)
  show ?thesis
  proof (cases "local_names platform rs")
    case True
    then have all: "local_names platform (ps @ rs)" using p(3) by auto
    then have names: "names_of (local_of platform u (ps @ rs)) = ps @ rs" by (intro local_of_basic local_names_valid)
    show ?thesis
      using local_join_of [OF p(3) True, of u] local_isWithin_of [OF p(2,2) all p(3)] local_relativeTo_of [OF p(2) all p(3)]
        valid_local_of [OF p(2) all] names p(4) r(3)
      by (simp add: p(1) r(1))
  next
    case False
    then obtain x name where f: "firstLocalRejection platform rs = Some (x, name)"
      using firstLocalRejection_None [of platform rs] by (cases "firstLocalRejection platform rs") auto
    have "localRejectionOf name platform = Some x \<and>
        (\<exists>before after. rs = before @ name # after \<and> (\<forall>n \<in> set before. localRejectionOf n platform = None))"
      using firstLocalRejection_Some [OF f] by auto
    then show ?thesis by (simp add: local_join_def p(1) r(3) path_simps f)
  qed
qed

lemma local_join_contained_witness:
  "local_isWithin (local_of Posix [] [''srv'', ''a'']) (local_of Posix [] [''srv''])"
proof -
  have p: "valid_local (local_of Posix [] [''srv''])" by (rule valid_local_of) code_simp+
  have r: "valid_relative (relative_of [''a''])" by code_simp
  have "local_join (local_of Posix [] [''srv'']) (relative_of [''a'']) = Inr (local_of Posix [] [''srv'', ''a''])"
    by code_simp
  with local_join_contained [OF p r] show ?thesis by simp
qed

text \<open>
  The guard that compares without case is the exact test on the lower-cased texts and never misses a path that
  the exact test finds.\<close>
theorem local_case_guard:
  "(local_isWithinIgnoringCase p base \<longleftrightarrow> local_isWithin (fold_path p) (fold_path base)) \<and>
   (local_isWithin p base \<longrightarrow> local_isWithinIgnoringCase p base)"
proof -
  have "isWithinText v b (=) \<Longrightarrow> isWithinText v b (\<lambda>l r. fold_ascii l = fold_ascii r)" for v b
    by (auto simp: isWithinText_def list_all2_map_eq list.rel_eq split: if_splits)
  then show ?thesis
    using within_folded [of p base] by (auto simp: local_isWithin_def local_isWithinIgnoringCase_def)
qed

lemma local_case_guard_witness:
  "local_isWithinIgnoringCase (local_of Posix [] [''Srv'', ''a'']) (local_of Posix [] [''Srv''])"
proof -
  have "local_isWithin (local_of Posix [] [''Srv'', ''a'']) (local_of Posix [] [''Srv''])" by code_simp
  with local_case_guard show ?thesis by blast
qed

end
