(* ===== verification/Pending_Uploads.thy ===== *)
theory Pending_Uploads
  imports Remote_Path Local_Path
begin

text \<open>
  \<open>backend/include/backend/file_tracking/tracking_state.hpp\<close>, \<open>PendingUploads\<close>: the uploads of one tracked item that are
  on their way, by the path each started with, and what arrives for them meanwhile. The \<open>std::map\<close> is the list of its
  entries in key order, so that the searches of the source find the entry they find there. The lemmas show when an
  upload starts, that a change that does not start one is reported when the upload it waits for ends, and how moves
  carry the paths along; the last one shows what happens when a path is started again after its upload moved away.
\<close>

subsection \<open>Paths that move\<close>

definition movedPath :: "LocalPath \<Rightarrow> LocalPath \<Rightarrow> LocalPath \<Rightarrow> LocalPath option" where
  "movedPath path from_path to_path =
     (case local_relativeTo path from_path of
        Inl e \<Rightarrow> None
      | Inr relative \<Rightarrow>
          (if rel_empty relative then Some to_path
           else case local_join to_path relative of Inl e \<Rightarrow> None | Inr moved \<Rightarrow> Some moved))"

lemma movedPath_of:
  assumes "local_stem platform u" and "local_stem platform w"
    and "local_names platform ps" and "local_names platform qs" and "local_names platform rs"
  shows "movedPath (local_of platform u ps) (local_of platform u qs) (local_of platform w rs) =
    (if prefix qs ps then Some (local_of platform w (rs @ drop (length qs) ps)) else None)"
proof (cases "prefix qs ps")
  case True
  then obtain ts where ts: "ps = qs @ ts" by (auto simp: prefix_def)
  then have names: "local_names platform ts" "valid_names ts" using assms(3) local_names_valid by auto
  then have "rel_empty (relative_of ts) \<longleftrightarrow> ts = []" by (simp add: rel_empty_iff)
  with True ts names assms show ?thesis
    by (simp add: movedPath_def local_relativeTo_of local_join_of)
qed (use assms in \<open>simp add: movedPath_def local_relativeTo_of\<close>)

text \<open>\<open>operator<=>\<close> of the class, defaulted: the text, then the length of the root, then the platform.\<close>

definition local_less :: "LocalPath \<Rightarrow> LocalPath \<Rightarrow> bool" where
  "local_less p q \<longleftrightarrow>
     local_value p < local_value q \<or> local_value p = local_value q \<and>
       (local_rootLength p < local_rootLength q \<or> local_rootLength p = local_rootLength q \<and>
          local_platform p = Posix \<and> local_platform q = Windows)"

subsection \<open>The operations of the source\<close>

record LocalChange =
  change_path :: LocalPath
  change_isDirectory :: bool

record Finished =
  fin_changedAgain :: bool
  fin_removeRemote :: bool
  fin_isDirectory :: bool
  fin_changedBelow :: "LocalChange list"
  fin_movedTo :: "LocalPath option"
  fin_serverCopyAt :: "LocalPath option"
  fin_counted :: nat
  fin_sentTo :: "RemotePath option"
  fin_partialKept :: bool

record Pending =
  isDirectory :: bool
  changedAgain :: bool
  removeRemote :: bool
  changedBelow :: "LocalChange list"
  movedTo :: "LocalPath option"
  serverCopyAt :: "LocalPath option"
  carried :: nat
  sentTo :: "RemotePath option"
  sentAsDirectory :: bool
  partialKept :: bool

type_synonym PendingUploads = "(LocalPath \<times> Pending) list"

definition newPending :: "bool \<Rightarrow> Pending" where
  "newPending directory = \<lparr>isDirectory = directory, changedAgain = False, removeRemote = False, changedBelow = [],
     movedTo = None, serverCopyAt = None, carried = 1, sentTo = None, sentAsDirectory = False, partialKept = False\<rparr>"

definition countedOf :: "Pending \<Rightarrow> nat" where
  "countedOf pending = max (carried pending) (1 + length (changedBelow pending))"

definition currentPathOf :: "LocalPath \<Rightarrow> Pending \<Rightarrow> LocalPath" where
  "currentPathOf path pending = (case movedTo pending of Some moved \<Rightarrow> moved | None \<Rightarrow> path)"

definition isAt :: "LocalPath \<Rightarrow> LocalPath \<times> Pending \<Rightarrow> bool" where
  "isAt path entry \<longleftrightarrow> currentPathOf (fst entry) (snd entry) = path"

text \<open>\<open>std::ranges::find_if\<close> on the map and a change of the entry found; \<open>find\<close> is the same with the key.\<close>

fun change_first :: "(LocalPath \<times> Pending \<Rightarrow> bool) \<Rightarrow> (Pending \<Rightarrow> Pending) \<Rightarrow> PendingUploads \<Rightarrow> PendingUploads" where
  "change_first found f [] = []"
| "change_first found f (entry # entries) =
     (if found entry then (fst entry, f (snd entry)) # entries else entry # change_first found f entries)"

abbreviation has_key :: "LocalPath \<Rightarrow> LocalPath \<times> Pending \<Rightarrow> bool" where
  "has_key path entry \<equiv> fst entry = path"

text \<open>\<open>std::map::emplace\<close>: inserts before the first greater key, and does nothing when the key is there.\<close>

fun emplace :: "LocalPath \<Rightarrow> Pending \<Rightarrow> PendingUploads \<Rightarrow> PendingUploads" where
  "emplace path pending [] = [(path, pending)]"
| "emplace path pending (entry # entries) =
     (if fst entry = path then entry # entries
      else if local_less path (fst entry) then (path, pending) # entry # entries
      else entry # emplace path pending entries)"

definition directoryAbove :: "LocalPath \<Rightarrow> LocalPath \<times> Pending \<Rightarrow> bool" where
  "directoryAbove path entry \<longleftrightarrow>
     isDirectory (snd entry) \<and> local_isWithin path (currentPathOf (fst entry) (snd entry))"

definition pending_start :: "PendingUploads \<Rightarrow> LocalChange \<Rightarrow> PendingUploads \<times> bool" where
  "pending_start pendings change =
     (if list_ex (isAt (change_path change)) pendings then
        (change_first (isAt (change_path change)) (\<lambda>pending. pending
           \<lparr>changedAgain := True, removeRemote := False, isDirectory := change_isDirectory change\<rparr>) pendings, False)
      else if list_ex (directoryAbove (change_path change)) pendings then
        (change_first (directoryAbove (change_path change)) (\<lambda>pending.
           if change \<notin> set (changedBelow pending)
           then pending\<lparr>changedBelow := changedBelow pending @ [change]\<rparr> else pending) pendings, False)
      else (emplace (change_path change) (newPending (change_isDirectory change)) pendings, True))"

definition changesHandled :: "PendingUploads \<Rightarrow> LocalPath \<Rightarrow> PendingUploads" where
  "changesHandled pendings path =
     change_first (has_key path) (\<lambda>pending. pending
       \<lparr>carried := countedOf pending, changedAgain := False, changedBelow := []\<rparr>) pendings"

definition carries :: "PendingUploads \<Rightarrow> LocalPath \<Rightarrow> nat \<Rightarrow> PendingUploads" where
  "carries pendings path entries =
     change_first (has_key path) (\<lambda>pending. pending\<lparr>carried := max (carried pending) entries\<rparr>) pendings"

definition isPending :: "PendingUploads \<Rightarrow> LocalPath \<Rightarrow> bool" where
  "isPending pendings path \<longleftrightarrow> list_ex (isAt path) pendings"

definition covers :: "PendingUploads \<Rightarrow> LocalPath \<Rightarrow> bool" where
  "covers pendings path \<longleftrightarrow> list_ex (\<lambda>entry. isAt path entry \<or> directoryAbove path entry) pendings"

definition removeRemoteWhenDone :: "PendingUploads \<Rightarrow> LocalPath \<Rightarrow> PendingUploads \<times> bool" where
  "removeRemoteWhenDone pendings path =
     (change_first (isAt path) (\<lambda>pending. pending\<lparr>removeRemote := True, changedAgain := False\<rparr>) pendings,
      list_ex (isAt path) pendings)"

definition moveWhenDone :: "PendingUploads \<Rightarrow> LocalPath \<Rightarrow> LocalPath \<Rightarrow> PendingUploads \<times> bool" where
  "moveWhenDone pendings from_path to_path =
     (change_first (isAt from_path) (\<lambda>pending. pending
        \<lparr>movedTo := Some to_path,
         changedBelow := map (\<lambda>change. change\<lparr>change_path :=
           (case movedPath (change_path change) from_path to_path of Some moved \<Rightarrow> moved | None \<Rightarrow> change_path change)\<rparr>)
             (changedBelow pending)\<rparr>) pendings,
      list_ex (isAt from_path) pendings)"

definition movedBelow :: "LocalPath \<Rightarrow> LocalPath \<Rightarrow> LocalPath \<Rightarrow> LocalPath option" where
  "movedBelow from_path to_path path = (if path = from_path then None else movedPath path from_path to_path)"

definition moveBelow :: "PendingUploads \<Rightarrow> LocalPath \<Rightarrow> LocalPath \<Rightarrow> bool \<Rightarrow> PendingUploads" where
  "moveBelow pendings from_path to_path serverCopiesFollow =
     map (\<lambda>(path, pending).
       (path, pending
         \<lparr>movedTo := (case movedBelow from_path to_path (currentPathOf path pending) of
             Some moved \<Rightarrow> Some moved | None \<Rightarrow> movedTo pending),
          serverCopyAt := (case movedBelow from_path to_path
                (case serverCopyAt pending of Some server \<Rightarrow> server | None \<Rightarrow> path) of
             Some server \<Rightarrow> if serverCopiesFollow then Some server else serverCopyAt pending
           | None \<Rightarrow> serverCopyAt pending),
          changedBelow := map (\<lambda>change. change\<lparr>change_path :=
             (case movedBelow from_path to_path (change_path change) of
                Some moved \<Rightarrow> moved | None \<Rightarrow> change_path change)\<rparr>) (changedBelow pending)\<rparr>)) pendings"

definition pending_sent :: "PendingUploads \<Rightarrow> LocalPath \<Rightarrow> RemotePath \<Rightarrow> bool \<Rightarrow> PendingUploads" where
  "pending_sent pendings path destination directory =
     change_first (has_key path) (\<lambda>pending. pending\<lparr>sentTo := Some destination, sentAsDirectory := directory\<rparr>) pendings"

definition sentFileTo :: "PendingUploads \<Rightarrow> LocalPath \<Rightarrow> RemotePath option" where
  "sentFileTo pendings path =
     (case find (isAt path) pendings of
        None \<Rightarrow> None
      | Some entry \<Rightarrow> if sentAsDirectory (snd entry) then None else sentTo (snd entry))"

definition keepsPartial :: "PendingUploads \<Rightarrow> LocalPath \<Rightarrow> PendingUploads" where
  "keepsPartial pendings path = change_first (isAt path) (\<lambda>pending. pending\<lparr>partialKept := True\<rparr>) pendings"

definition movedAway :: "PendingUploads \<Rightarrow> LocalPath \<Rightarrow> bool" where
  "movedAway pendings path \<longleftrightarrow>
     (case find (has_key path) pendings of None \<Rightarrow> False | Some entry \<Rightarrow> movedTo (snd entry) \<noteq> None)"

definition unknownFinished :: Finished where
  "unknownFinished = \<lparr>fin_changedAgain = False, fin_removeRemote = False, fin_isDirectory = False,
     fin_changedBelow = [], fin_movedTo = None, fin_serverCopyAt = None, fin_counted = 1, fin_sentTo = None,
     fin_partialKept = False\<rparr>"

fun erase_first :: "(LocalPath \<times> Pending \<Rightarrow> bool) \<Rightarrow> PendingUploads \<Rightarrow> PendingUploads" where
  "erase_first found [] = []"
| "erase_first found (entry # entries) = (if found entry then entries else entry # erase_first found entries)"

definition pending_finish :: "PendingUploads \<Rightarrow> LocalPath \<Rightarrow> PendingUploads \<times> Finished" where
  "pending_finish pendings path =
     (case find (has_key path) pendings of
        None \<Rightarrow> (pendings, unknownFinished)
      | Some (key, pending) \<Rightarrow>
          (erase_first (has_key path) pendings,
           \<lparr>fin_changedAgain = changedAgain pending, fin_removeRemote = removeRemote pending,
            fin_isDirectory = isDirectory pending, fin_changedBelow = changedBelow pending,
            fin_movedTo = movedTo pending, fin_serverCopyAt = serverCopyAt pending,
            fin_counted = countedOf pending, fin_sentTo = sentTo pending, fin_partialKept = partialKept pending\<rparr>))"

definition pending_empty :: "PendingUploads \<Rightarrow> bool" where
  "pending_empty pendings \<longleftrightarrow> pendings = []"

definition changeCount :: "PendingUploads \<Rightarrow> nat" where
  "changeCount pendings =
     sum_list (map (\<lambda>(path, pending). countedOf pending + (if changedAgain pending \<and> \<not> isDirectory pending then 1 else 0))
       pendings)"
subsection \<open>Changes wait for the upload they came during\<close>

lemma change_first_keys [simp]: "map fst (change_first found f entries) = map fst entries"
  by (induction entries) simp_all

lemma change_first_member:
  "list_ex found entries \<Longrightarrow> \<exists>key pending. find found entries = Some (key, pending) \<and>
     (key, f pending) \<in> set (change_first found f entries)"
  by (induction entries) (auto split: if_splits)

lemma found_key: "find found entries = Some (key, pending) \<Longrightarrow> found (key, pending) \<and> key \<in> set (map fst entries)"
  by (induction entries) (auto split: if_splits)

lemma emplace_keys: "set (map fst (emplace path pending entries)) = insert path (set (map fst entries))"
  by (induction entries) auto

lemma emplace_taken: "sorted_wrt local_less (map fst entries) \<Longrightarrow> path \<in> set (map fst entries) \<Longrightarrow> emplace path pending entries = entries"
  by (induction entries) (auto simp: local_less_def)

lemma emplace_fresh: "path \<notin> set (map fst entries) \<Longrightarrow> set (emplace path pending entries) = insert (path, pending) (set entries)"
  by (induction entries) auto

lemma local_less_trans: "local_less p q \<Longrightarrow> local_less q r \<Longrightarrow> local_less p r"
  by (auto simp: local_less_def)

lemma local_less_irrefl [simp]: "\<not> local_less p p"
  by (simp add: local_less_def)

lemma local_less_linear: "local_less p q \<or> p = q \<or> local_less q p"
proof -
  have "p = q" if "local_value p = local_value q" "local_rootLength p = local_rootLength q" "local_platform p = local_platform q"
    using that by (cases p; cases q) simp
  moreover have "local_platform r = Posix \<or> local_platform r = Windows" for r :: LocalPath
    by (cases "local_platform r") simp_all
  ultimately show ?thesis unfolding local_less_def by (metis linorder_neqE linorder_neqE_nat)
qed

lemma emplace_sorted:
  "sorted_wrt local_less (map fst entries) \<Longrightarrow> sorted_wrt local_less (map fst (emplace path pending entries))"
proof (induction entries)
  case (Cons entry entries)
  have keys: "set (map fst (emplace path pending entries)) = insert path (set (map fst entries))"
    by (rule emplace_keys)
  consider "fst entry = path" | "local_less path (fst entry)" | "local_less (fst entry) path" "\<not> local_less path (fst entry)" "fst entry \<noteq> path"
    using local_less_linear by blast
  then show ?case
  proof cases
    case 2
    then have "fst entry \<noteq> path" by auto
    with 2 Cons.prems show ?thesis by (auto intro: local_less_trans)
  next
    case 3
    have "\<forall>key \<in> set (map fst (emplace path pending entries)). local_less (fst entry) key"
      using 3 Cons.prems unfolding keys by auto
    with 3 Cons show ?thesis by auto
  qed (use Cons.prems in simp)
qed simp

lemma erase_first_keys: "set (erase_first found entries) \<subseteq> set entries"
  by (induction entries) auto

lemma erase_first_sorted: "sorted_wrt R (map fst entries) \<Longrightarrow> sorted_wrt R (map fst (erase_first found entries))"
proof (induction entries)
  case (Cons entry entries)
  then show ?case using erase_first_keys [of found entries] by auto
qed simp

lemma find_key:
  "sorted_wrt local_less (map fst entries) \<Longrightarrow> (path, pending) \<in> set entries \<Longrightarrow>
     find (has_key path) entries = Some (path, pending)"
proof (induction entries)
  case (Cons entry entries)
  show ?case
  proof (cases "(path, pending) \<in> set entries")
    case True
    then have "path \<in> set (map fst entries)" by force
    with Cons.prems(1) have "fst entry \<noteq> path" by auto
    with Cons True show ?thesis by simp
  qed (use Cons.prems(2) in auto)
qed simp

text \<open>A change at a path that is pending, or below a pending directory, waits there: ending that upload returns it.\<close>

definition waits :: "PendingUploads \<Rightarrow> LocalChange \<Rightarrow> LocalPath \<Rightarrow> bool" where
  "waits pendings change key \<longleftrightarrow>
     (let fin = snd (pending_finish pendings key) in
      fin_changedAgain fin \<and> \<not> fin_removeRemote fin \<and> fin_isDirectory fin = change_isDirectory change \<and>
        (case fin_movedTo fin of Some moved \<Rightarrow> moved | None \<Rightarrow> key) = change_path change \<or>
      change \<in> set (fin_changedBelow fin) \<and> fin_isDirectory fin \<and>
        local_isWithin (change_path change) (case fin_movedTo fin of Some moved \<Rightarrow> moved | None \<Rightarrow> key))"

inductive uploads_reachable :: "PendingUploads \<Rightarrow> bool" where
  "uploads_reachable []"
| "uploads_reachable pendings \<Longrightarrow> uploads_reachable (fst (pending_start pendings change))"
| "uploads_reachable pendings \<Longrightarrow> uploads_reachable (changesHandled pendings path)"
| "uploads_reachable pendings \<Longrightarrow> uploads_reachable (carries pendings path entries)"
| "uploads_reachable pendings \<Longrightarrow> uploads_reachable (fst (removeRemoteWhenDone pendings path))"
| "uploads_reachable pendings \<Longrightarrow> uploads_reachable (fst (moveWhenDone pendings path to_path))"
| "uploads_reachable pendings \<Longrightarrow> uploads_reachable (moveBelow pendings path to_path follow)"
| "uploads_reachable pendings \<Longrightarrow> uploads_reachable (pending_sent pendings path destination directory)"
| "uploads_reachable pendings \<Longrightarrow> uploads_reachable (keepsPartial pendings path)"
| "uploads_reachable pendings \<Longrightarrow> uploads_reachable (fst (pending_finish pendings path))"

lemma moveBelow_keys [simp]: "map fst (moveBelow pendings from_path to_path follow) = map fst pendings"
  by (simp add: moveBelow_def split_def comp_def)

lemma reachable_sorted: "uploads_reachable pendings \<Longrightarrow> sorted_wrt local_less (map fst pendings)"
  by (induction rule: uploads_reachable.induct)
    (auto simp: pending_start_def changesHandled_def carries_def removeRemoteWhenDone_def moveWhenDone_def pending_sent_def
      keepsPartial_def pending_finish_def emplace_sorted erase_first_sorted split: option.split)

lemma waits_entry:
  assumes "sorted_wrt local_less (map fst pendings)" and "(key, pending) \<in> set pendings"
    and "changedAgain pending \<and> \<not> removeRemote pending \<and> isDirectory pending = change_isDirectory change \<and>
        currentPathOf key pending = change_path change \<or>
      change \<in> set (changedBelow pending) \<and> isDirectory pending \<and>
        local_isWithin (change_path change) (currentPathOf key pending)"
  shows "waits pendings change key"
  using assms(3) find_key [OF assms(1,2)]
  by (simp add: waits_def pending_finish_def currentPathOf_def Let_def)

lemma start_waits:
  assumes "sorted_wrt local_less (map fst pendings)" and "covers pendings (change_path change)"
  shows "\<exists>key \<in> set (map fst pendings). waits (fst (pending_start pendings change)) change key"
proof (cases "list_ex (isAt (change_path change)) pendings")
  case True
  let ?f = "\<lambda>pending. pending\<lparr>changedAgain := True, removeRemote := False, isDirectory := change_isDirectory change\<rparr>"
  from change_first_member [OF True, of ?f] obtain key pending where found: "find (isAt (change_path change)) pendings = Some (key, pending)"
    "(key, ?f pending) \<in> set (change_first (isAt (change_path change)) ?f pendings)" by blast
  then have "isAt (change_path change) (key, pending)" by (simp only: found_key)
  then have "waits (change_first (isAt (change_path change)) ?f pendings) change key"
    using assms(1) found(2) by (intro waits_entry) (auto simp: isAt_def currentPathOf_def)
  moreover have "key \<in> set (map fst pendings)" using found(1) by (simp only: found_key)
  ultimately show ?thesis using True by (auto simp: pending_start_def)
next
  case False
  with assms(2) have above: "list_ex (directoryAbove (change_path change)) pendings"
    by (auto simp: covers_def list_ex_iff)
  let ?f = "\<lambda>pending. if change \<notin> set (changedBelow pending)
      then pending\<lparr>changedBelow := changedBelow pending @ [change]\<rparr> else pending"
  from change_first_member [OF above, of ?f] obtain key pending where found: "find (directoryAbove (change_path change)) pendings = Some (key, pending)"
    "(key, ?f pending) \<in> set (change_first (directoryAbove (change_path change)) ?f pendings)" by blast
  then have "directoryAbove (change_path change) (key, pending)" by (simp only: found_key)
  then have "change \<in> set (changedBelow (?f pending)) \<and> isDirectory (?f pending) \<and>
      local_isWithin (change_path change) (currentPathOf key (?f pending))"
    by (cases "change \<in> set (changedBelow pending)") (simp_all add: directoryAbove_def currentPathOf_def)
  with assms(1) found(2) have "waits (change_first (directoryAbove (change_path change)) ?f pendings) change key"
    by (intro waits_entry [of _ key "?f pending"] disjI2) (simp_all only: change_first_keys)
  moreover have "key \<in> set (map fst pendings)" using found(1) by (simp only: found_key)
  ultimately show ?thesis using above False by (auto simp: pending_start_def)
qed

text \<open>C26: After any calls, \<open>start\<close> starts an upload if and only if no upload of the path or of a directory above it is on its
  way; a change that starts nothing waits for one that is, and ending that upload returns it, as a change of its own
  path or among the changes below it; a change that starts one and whose path is no other upload's key is pending then,
  with nothing counted against it.\<close>

theorem no_change_is_lost:
  assumes "uploads_reachable pendings"
  shows "(snd (pending_start pendings change) \<longleftrightarrow> \<not> covers pendings (change_path change)) \<and>
    (\<not> snd (pending_start pendings change) \<longrightarrow>
       (\<exists>key \<in> set (map fst pendings). waits (fst (pending_start pendings change)) change key)) \<and>
    (snd (pending_start pendings change) \<and> change_path change \<notin> set (map fst pendings) \<longrightarrow>
       set (fst (pending_start pendings change)) =
         insert (change_path change, newPending (change_isDirectory change)) (set pendings))"
proof -
  have "snd (pending_start pendings change) \<longleftrightarrow> \<not> covers pendings (change_path change)"
    by (auto simp: pending_start_def covers_def list_ex_iff)
  then show ?thesis
    using start_waits [OF reachable_sorted [OF assms]] emplace_fresh
    by (auto simp: pending_start_def covers_def list_ex_iff)
qed

text \<open>C40: When the upload of a path moved away (\<open>moveWhenDone\<close>) and the path is created and started again, \<open>start\<close>
  answers that the upload starts, yet nothing is recorded: the map keeps only the moved upload under that key. So
  \<open>movedAway\<close> holds of the new upload, which reads a path that is there, and ending it ends the moved one's entry.\<close>

theorem restart_at_left_path:
  assumes "uploads_reachable pendings" and "(path, pending) \<in> set pendings"
    and "movedTo pending = Some moved" and "change_path change = path" and "\<not> covers pendings path"
  shows "pending_start pendings change = (pendings, True) \<and> movedAway (fst (pending_start pendings change)) path \<and>
    fin_movedTo (snd (pending_finish (fst (pending_start pendings change)) path)) = Some moved"
proof -
  note sorted = reachable_sorted [OF assms(1)]
  have "path \<in> set (map fst pendings)" using assms(2) by force
  then have "emplace path (newPending (change_isDirectory change)) pendings = pendings"
    by (rule emplace_taken [OF sorted])
  moreover have "\<not> list_ex (isAt path) pendings" "\<not> list_ex (directoryAbove path) pendings"
    using assms(5) by (auto simp: covers_def list_ex_iff)
  ultimately have "pending_start pendings change = (pendings, True)" using assms(4) by (simp add: pending_start_def)
  then show ?thesis using find_key [OF sorted assms(2)] assms(3) by (simp add: movedAway_def pending_finish_def)
qed

subsection \<open>Instances\<close>

abbreviation "sample_file \<equiv> local_of Posix [] [''t'', ''f'']"
abbreviation "sample_dir \<equiv> local_of Posix [] [''t'']"

lemma no_change_is_lost_witness:
  "\<exists>key \<in> {sample_dir}. waits (fst (pending_start [(sample_dir, newPending True)] \<lparr>change_path = sample_file, change_isDirectory = False\<rparr>))
     \<lparr>change_path = sample_file, change_isDirectory = False\<rparr> key"
proof -
  have "uploads_reachable (fst (pending_start [] \<lparr>change_path = sample_dir, change_isDirectory = True\<rparr>))"
    by (intro uploads_reachable.intros)
  then have "uploads_reachable [(sample_dir, newPending True)]" by (simp add: pending_start_def)
  moreover have "covers [(sample_dir, newPending True)] sample_file" by code_simp
  ultimately show ?thesis
    using no_change_is_lost [of "[(sample_dir, newPending True)]" "\<lparr>change_path = sample_file, change_isDirectory = False\<rparr>"] by simp
qed

lemma restart_at_left_path_witness:
  "pending_start (fst (moveWhenDone [(sample_file, newPending False)] sample_file (local_of Posix [] [''t'', ''g''])))
     \<lparr>change_path = sample_file, change_isDirectory = False\<rparr>
   = (fst (moveWhenDone [(sample_file, newPending False)] sample_file (local_of Posix [] [''t'', ''g''])), True)"
proof -
  let ?moved = "fst (moveWhenDone [(sample_file, newPending False)] sample_file (local_of Posix [] [''t'', ''g'']))"
  have "uploads_reachable (fst (pending_start [] \<lparr>change_path = sample_file, change_isDirectory = False\<rparr>))"
    by (intro uploads_reachable.intros)
  then have "uploads_reachable ?moved" by (intro uploads_reachable.intros) (simp add: pending_start_def)
  moreover have "?moved = [(sample_file, (newPending False)\<lparr>movedTo := Some (local_of Posix [] [''t'', ''g''])\<rparr>)]"
    by (simp add: moveWhenDone_def isAt_def currentPathOf_def newPending_def)
  moreover have "\<not> covers [(sample_file, (newPending False)\<lparr>movedTo := Some (local_of Posix [] [''t'', ''g''])\<rparr>)] sample_file"
    by code_simp
  ultimately show ?thesis
    using restart_at_left_path [of ?moved sample_file _ "local_of Posix [] [''t'', ''g'']"
        "\<lparr>change_path = sample_file, change_isDirectory = False\<rparr>"] by simp
qed

end
