(* ===== verification/Operation_Base.thy ===== *)
theory Operation_Base
  imports Remote_Path Local_Path Scan_Tree
begin

text \<open>
  What every operation of a queue shares: \<open>backend/sftp/operation.hpp\<close> (states, work results, errors, \<open>enterErrorState\<close>),
  the error types of \<open>shared_data/file_operations\<close>, \<open>ssh/sftp_error.hpp\<close> and the slot budget of
  \<open>backend/sftp/parallel_budget.hpp\<close>. The abstract class \<open>Operation\<close> is a record of its virtual methods over a type of
  operations and a type of the world they act on (the server, the disk), so the queues are modelled for every operation
  there is. The lemmas bound what the budget hands out.
\<close>

subsection \<open>Errors and states\<close>

datatype OperationErrorType =
  ImplementationError | UnknownError | NotImplemented | FileExists | FileNotFound | FileSeekFailure | OpenFailure
| FileStreamExpired | FileStatFailed | SftpError | InvalidPath | RenameFailure | CannotSetFilePermissions
| FutureTimeout | OperationNotPrepared | CannotFinalizeDuringRead | InvalidOptionsKey | TargetFileNotGood
| SourceFileNotGood | CannotWorkCompletedOperation | CannotWorkFailedOperation | CannotWorkCanceledOperation
| CannotCreateDirectory | UnknownWorkState | InvalidOperationState | OperationNotPossibleOnFileType | FilesystemError
| DeleteFailed | CannotCreateSymlink | SymlinkPointsToDirectory | NotAFile | SizeMismatch | ScanIncomplete
| DirectoryUnreadable | InvalidName | LinkInLocalPath | ChannelClosed | ChangedSinceCompare | CopyIntoItself
| CopyFailed

datatype WrapperErrors =
  NoWrapperError | OwnerNull | SharedPtrDestroyed | ShortWrite | FileNull | TaskPushFailed | BufferUnavailable
| UnexpectedEndOfFile | LocalIoFailure | InvalidWrapperPath

record SftpFailure =
  sftp_message :: string
  sftp_sshError :: int
  sftp_sftpError :: int
  sftp_wrapperError :: WrapperErrors

datatype LocalFileProblem = Locked | PermissionDenied | NotFound | NoSpace | OtherProblem

record OperationError =
  error_type :: OperationErrorType
  error_sftp :: "SftpFailure option"
  error_extraInfo :: "string option"
  error_localProblem :: "LocalFileProblem option"

definition plain_error :: "OperationErrorType \<Rightarrow> OperationError" where
  "plain_error t = \<lparr>error_type = t, error_sftp = None, error_extraInfo = None, error_localProblem = None\<rparr>"

text \<open>\<open>SSH_FX_NO_SUCH_FILE\<close>, \<open>SSH_FX_PERMISSION_DENIED\<close> and \<open>SSH_FX_FILE_ALREADY_EXISTS\<close> of the SFTP protocol.\<close>

abbreviation "SSH_FX_NO_SUCH_FILE \<equiv> 2 :: int"
abbreviation "SSH_FX_PERMISSION_DENIED \<equiv> 3 :: int"
abbreviation "SSH_FX_FILE_ALREADY_EXISTS \<equiv> 11 :: int"

definition remoteMoveError :: "SftpFailure \<Rightarrow> OperationError" where
  "remoteMoveError error =
     (if sftp_sftpError error = SSH_FX_FILE_ALREADY_EXISTS then plain_error FileExists
      else (plain_error SftpError)\<lparr>error_sftp := Some error\<rparr>)"

datatype LogLevel = LogWarning | LogError

definition failureLevelOf :: "OperationError \<Rightarrow> LogLevel" where
  "failureLevelOf error = (if error_type error = ChangedSinceCompare then LogWarning else LogError)"

definition channelClosedError :: OperationError where
  "channelClosedError = (plain_error ChannelClosed)\<lparr>error_extraInfo := Some ''The SFTP channel was closed''\<rparr>"

datatype OperationState =
  NotStarted | Preparing | Prepared | Running | Finalizing | Completed | Canceled | Failed | PartialSuccess

fun state_rank :: "OperationState \<Rightarrow> nat" where
  "state_rank NotStarted = 0" | "state_rank Preparing = 1" | "state_rank Prepared = 2" | "state_rank Running = 3"
| "state_rank Finalizing = 4" | "state_rank Completed = 5" | "state_rank Canceled = 6" | "state_rank Failed = 7"
| "state_rank PartialSuccess = 8"

definition hasEnded :: "OperationState \<Rightarrow> bool" where
  "hasEnded state \<longleftrightarrow> state_rank state \<ge> state_rank Completed"

datatype WorkStatus = MoreWork | Complete | Waiting

datatype OperationType =
  Scan | LocalScan | Download | BulkDownload | Upload | BulkUpload | Rename | Delete | BulkDelete | LocalDelete
| LocalCopy | LocalMove | ArchiveDownload | ArchiveUpload | CustomAction

datatype OperationMode = Queued | PriorityQueued

datatype OperationCompletionReason = ReasonCompleted | ReasonCanceled | ReasonFailed

definition isLocalTransfer :: "OperationType \<Rightarrow> bool" where
  "isLocalTransfer t \<longleftrightarrow> t = LocalCopy \<or> t = LocalMove"

definition isArchiveTransfer :: "OperationType \<Rightarrow> bool" where
  "isArchiveTransfer t \<longleftrightarrow> t = ArchiveDownload \<or> t = ArchiveUpload"

definition isLocalOperation :: "OperationType \<Rightarrow> bool" where
  "isLocalOperation t \<longleftrightarrow> t = LocalDelete \<or> isLocalTransfer t"

subsection \<open>The virtual methods\<close>

type_synonym WorkResult = "OperationError + WorkStatus"

record KeptPartialFiles =
  kept_local :: "string list"
  kept_remote :: "RemotePath list"

record KeptSingleTransfer =
  kept_type :: OperationType
  kept_localPath :: LocalPath
  kept_remotePath :: RemotePath
  kept_allowOverwrite :: bool
  kept_createMissingDirectories :: bool

datatype PartialFile = Kept | Discarded

text \<open>
  \<open>has_strand\<close> is whether \<open>strand()\<close> has a processing strand and \<open>strand_runs\<close> whether that still runs tasks;
  \<open>work_in_strand\<close> and \<open>work\<close> return the result, the operation afterwards and the world afterwards. \<open>left_backup\<close> is what
  \<open>leaveOutFinished\<close> leaves of a resume backup, \<open>single_transfer\<close> is \<open>singleTransferOf\<close>; \<open>failed_entries\<close> and
  \<open>completed_paths\<close> are what \<open>makeCompletedOperation\<close> reads.
\<close>

record ('op, 'w, 'backup) OperationClass =
  class_type :: "'op \<Rightarrow> OperationType"
  class_state :: "'op \<Rightarrow> OperationState"
  isBarrier :: "'op \<Rightarrow> bool"
  parallelWorkDoable :: "'op \<Rightarrow> int \<Rightarrow> int"
  setParallelBudget :: "int \<Rightarrow> 'op \<Rightarrow> 'op"
  usesStrand :: "'op \<Rightarrow> bool"
  has_strand :: "'op \<Rightarrow> 'w \<Rightarrow> bool"
  strand_runs :: "'op \<Rightarrow> 'w \<Rightarrow> bool"
  class_work :: "'op \<Rightarrow> 'w \<Rightarrow> WorkResult \<times> 'op \<times> 'w"
  class_workInStrand :: "'op \<Rightarrow> 'w \<Rightarrow> WorkResult \<times> 'op \<times> 'w"
  class_cancel :: "bool \<Rightarrow> 'op \<Rightarrow> 'op"
  class_pause :: "bool \<Rightarrow> 'op \<Rightarrow> 'op"
  keepPartialFiles :: "'op \<Rightarrow> 'op"
  keptPartialFiles :: "'op \<Rightarrow> KeptPartialFiles option"
  partialFileOnCancel :: "PartialFile \<Rightarrow> 'op \<Rightarrow> 'op"
  failed_entries :: "'op \<Rightarrow> (string \<times> OperationError) list"
  completed_paths :: "'op \<Rightarrow> LocalPath option \<times> RemotePath option"
  left_backup :: "'op \<Rightarrow> 'backup \<Rightarrow> 'backup"
  single_transfer :: "'op \<Rightarrow> KeptSingleTransfer option"

subsection \<open>The slot budget\<close>

record EligibleOperation =
  eligible_index :: nat
  eligible_slots :: int

definition clamp :: "int \<Rightarrow> int \<Rightarrow> int \<Rightarrow> int" where
  "clamp v low high = (if v < low then low else if high < v then high else v)"

fun collectFrom :: "('op, 'w, 'backup) OperationClass \<Rightarrow> (string \<times> 'op) list \<Rightarrow> nat \<Rightarrow> int \<Rightarrow> EligibleOperation list" where
  "collectFrom cls [] index remaining = []"
| "collectFrom cls (queued # queue) index remaining =
     (if \<not> remaining > 0 then []
      else let slots = clamp (parallelWorkDoable cls (snd queued) remaining) 1 remaining in
        \<lparr>eligible_index = index, eligible_slots = slots\<rparr> #
          (if isBarrier cls (snd queued) then [] else collectFrom cls queue (index + 1) (remaining - slots)))"

definition collectEligibleOperations ::
  "('op, 'w, 'backup) OperationClass \<Rightarrow> (string \<times> 'op) list \<Rightarrow> int \<Rightarrow> EligibleOperation list" where
  "collectEligibleOperations cls queue budget = collectFrom cls queue 0 (max 1 budget)"

lemma collectFrom_indices:
  "map eligible_index (collectFrom cls queue index remaining) = [index..<index + length (collectFrom cls queue index remaining)]"
  by (induction queue arbitrary: index remaining) (auto simp: Let_def upt_conv_Cons simp del: upt_Suc)

lemma collectFrom_length: "length (collectFrom cls queue index remaining) \<le> length queue"
  by (induction queue arbitrary: index remaining) (auto simp: Let_def)

lemma clamp_range: "0 < high \<Longrightarrow> 1 \<le> clamp v 1 high \<and> clamp v 1 high \<le> high"
  by (simp add: clamp_def)

lemma collectFrom_slots:
  "remaining > 0 \<Longrightarrow> (\<forall>e \<in> set (collectFrom cls queue index remaining). eligible_slots e \<ge> 1) \<and>
     sum_list (map eligible_slots (collectFrom cls queue index remaining)) \<le> remaining"
proof (induction queue arbitrary: index remaining)
  case (Cons queued queue)
  let ?slots = "clamp (parallelWorkDoable cls (snd queued) remaining) 1 remaining"
  have slots: "1 \<le> ?slots" "?slots \<le> remaining" using clamp_range [OF Cons.prems] by blast+
  show ?case
  proof (cases "isBarrier cls (snd queued) \<or> remaining - ?slots = 0")
    case True
    then have "isBarrier cls (snd queued) \<or> collectFrom cls queue (index + 1) (remaining - ?slots) = []"
      by (cases queue) auto
    then show ?thesis using Cons.prems slots by (auto simp: Let_def)
  next
    case False
    then have "remaining - ?slots > 0" using slots by simp
    from Cons.IH [OF this, of "index + 1"] slots Cons.prems show ?thesis by (auto simp: Let_def)
  qed
qed simp

lemma collectFrom_barriers:
  "Suc k < length (collectFrom cls queue index remaining) \<Longrightarrow> \<not> isBarrier cls (snd (queue ! k))"
proof (induction queue arbitrary: index remaining k)
  case (Cons queued queue)
  then show ?case by (cases k) (auto simp: Let_def split: if_splits)
qed simp

lemma collectFrom_maximal:
  "remaining > 0 \<Longrightarrow> length (collectFrom cls queue index remaining) = k \<Longrightarrow> k < length queue \<Longrightarrow>
     sum_list (map eligible_slots (collectFrom cls queue index remaining)) = remaining \<or>
     k > 0 \<and> isBarrier cls (snd (queue ! (k - 1)))"
proof (induction queue arbitrary: index remaining k)
  case (Cons queued queue)
  let ?slots = "clamp (parallelWorkDoable cls (snd queued) remaining) 1 remaining"
  let ?rest = "collectFrom cls queue (index + 1) (remaining - ?slots)"
  have slots: "?slots \<le> remaining" using clamp_range [OF Cons.prems(1)] by blast
  show ?case
  proof (cases "isBarrier cls (snd queued)")
    case False
    then have k: "k = Suc (length ?rest)" using Cons.prems by (auto simp: Let_def)
    show ?thesis
    proof (cases "remaining - ?slots > 0")
      case True
      from Cons.IH [OF True refl, of "index + 1"] k Cons.prems False show ?thesis
        by (auto simp: Let_def nth_Cons')
    next
      case no: False
      then have "?rest = []" by (cases queue) auto
      with no slots False Cons.prems show ?thesis by (auto simp: Let_def)
    qed
  qed (use Cons.prems in \<open>auto simp: Let_def\<close>)
qed simp
end
