(* ===== verification/Deep_Walker.thy ===== *)
theory Deep_Walker
  imports Scan_Tree
begin

text \<open>
  \<open>utility/directory_traversal.hpp\<close>: the breadth first walk of a flat scan. It keeps one list of entries, each with the
  index of its parent, and visits the directories in list order. The scanner is a parameter with a state of its own,
  since the scanners of the program talk to a server and keep what they saw. \<open>walkedRelativePath\<close> follows parent indices
  that nothing bounds, so it is a partial function. The lemmas show that the list is a tree whose parents come first,
  that it holds exactly what is reachable through the listings, and that each entry's path names it.
\<close>

subsection \<open>The operations of the source\<close>

record DeepWalker =
  deep_entries :: "DirectoryEntry list"
  deep_paths :: "RelativePath list"
  deep_rejected :: "DirectoryEntry list"
  deep_index :: nat
  deep_bytes :: u64

definition root_entry :: DirectoryEntry where
  "root_entry = \<lparr>entry_name = [], entry_nameIsValidUtf8 = True, entry_type = Directory, entry_size = 0, entry_uid = 0,
     entry_gid = 0, entry_permissions = 0xFFFF, entry_mtime = 0, entry_mtimeNsec = 0, entry_linkTarget = None,
     entry_parent = None\<rparr>"

definition deep_new :: DeepWalker where
  "deep_new = \<lparr>deep_entries = [root_entry], deep_paths = [RelativePath []], deep_rejected = [], deep_index = 0,
     deep_bytes = 0\<rparr>"

definition deep_reset :: "DeepWalker \<Rightarrow> DeepWalker" where
  "deep_reset w = deep_new"

definition deep_completed :: "DeepWalker \<Rightarrow> bool" where
  "deep_completed w \<longleftrightarrow> deep_index w \<ge> length (deep_entries w)"

fun moveEntries :: "DirectoryEntry list \<Rightarrow> nat \<Rightarrow> DeepWalker \<Rightarrow> DeepWalker" where
  "moveEntries [] parent w = w"
| "moveEntries (listed # newEntries) parent w =
     (let entry = listed\<lparr>entry_parent := Some parent\<rparr> in
      if entry_name entry = ''.'' \<or> entry_name entry = ''..'' then moveEntries newEntries parent w
      else case entry_nameSegment entry of
          Inl _ \<Rightarrow> moveEntries newEntries parent (w\<lparr>deep_rejected := deep_rejected w @ [entry]\<rparr>)
        | Inr segment \<Rightarrow> moveEntries newEntries parent
            (w\<lparr>deep_paths := deep_paths w @ [if entry_type entry = Directory
                 then rel_div_segment (deep_paths w ! parent) segment else RelativePath []],
               deep_entries := deep_entries w @ [entry]\<rparr>))"

text \<open>The loop over the entries that are no directories.\<close>

fun skipFiles :: "DirectoryEntry list \<Rightarrow> nat \<Rightarrow> u64 \<Rightarrow> nat \<times> u64" where
  "skipFiles [] index bytes = (index, bytes)"
| "skipFiles (current # entries) index bytes =
     (let bytes = (if entry_type current = Regular then bytes + entry_size current else bytes) in
      if entry_type current = Directory then (index, bytes) else skipFiles entries (index + 1) bytes)"

type_synonym ('s, 'e) Scanner = "'s \<Rightarrow> RelativePath \<Rightarrow> ('e + DirectoryEntry list) \<times> 's"

definition deep_skip :: "DeepWalker \<Rightarrow> DeepWalker" where
  "deep_skip w =
     (let (index, bytes) = skipFiles (drop (deep_index w) (deep_entries w)) (deep_index w) (deep_bytes w) in
      w\<lparr>deep_index := index, deep_bytes := bytes\<rparr>)"

definition deep_walk :: "('s, 'e) Scanner \<Rightarrow> 's \<Rightarrow> DeepWalker \<Rightarrow> ('e + bool) \<times> 's \<times> DeepWalker" where
  "deep_walk scan s w =
     (if deep_completed w then (Inr True, s, w)
      else if entry_type (deep_entries w ! deep_index w) = Directory then
        (case scan s (deep_paths w ! deep_index w) of
           (Inl e, s) \<Rightarrow> (Inl e, s, w)
         | (Inr listing, s) \<Rightarrow>
             (let w = moveEntries listing (deep_index w) w;
                  w = deep_skip (w\<lparr>deep_index := deep_index w + 1\<rparr>) in
              (Inr (deep_completed w), s, w)))
      else let w = deep_skip w in (Inr (deep_completed w), s, w))"

partial_function (option) deep_walkAll ::
  "('s, 'e) Scanner \<Rightarrow> 's \<Rightarrow> DeepWalker \<Rightarrow> (('e + unit) \<times> 's \<times> DeepWalker) option" where
  "deep_walkAll scan s w =
     (case deep_walk scan s w of
        (Inl e, s', w') \<Rightarrow> Some (Inl e, s', w')
      | (Inr finished, s', w') \<Rightarrow> if finished then Some (Inr (), s', w') else deep_walkAll scan s' w')"

declare deep_walkAll.simps [code]

definition deep_relativePath :: "DeepWalker \<Rightarrow> DirectoryEntry \<Rightarrow> PathError + RelativePath" where
  "deep_relativePath w entry =
     (case entry_parent entry of
        None \<Rightarrow> Inr (RelativePath [])
      | Some parent \<Rightarrow>
          (if parent \<ge> length (deep_entries w) then Inl \<lparr>reason = UnknownParent, input = entry_name entry\<rparr>
           else case entry_nameSegment entry of
               Inl e \<Rightarrow> Inl e
             | Inr segment \<Rightarrow> Inr (rel_div_segment (deep_paths w ! parent) segment)))"

text \<open>The entries on the way up from \<open>current\<close>, the root left out: the first loop of \<open>walkedRelativePath\<close>.\<close>

partial_function (option) ancestry ::
  "DirectoryEntry list \<Rightarrow> DirectoryEntry \<Rightarrow> DirectoryEntry list \<Rightarrow> (PathError + DirectoryEntry list) option" where
  "ancestry entries current upward =
     (case entry_parent current of
        None \<Rightarrow> Some (Inr upward)
      | Some parent \<Rightarrow>
          (if parent \<ge> length entries then Some (Inl \<lparr>reason = UnknownParent, input = entry_name current\<rparr>)
           else ancestry entries (entries ! parent) (upward @ [current])))"

declare ancestry.simps [code]

fun descend :: "DirectoryEntry list \<Rightarrow> RelativePath \<Rightarrow> PathError + RelativePath" where
  "descend [] relative = Inr relative"
| "descend (ancestor # ancestors) relative =
     (case entry_nameSegment ancestor of
        Inl e \<Rightarrow> Inl e
      | Inr segment \<Rightarrow> descend ancestors (rel_div_segment relative segment))"

definition walkedRelativePath :: "DirectoryEntry list \<Rightarrow> DirectoryEntry \<Rightarrow> (PathError + RelativePath) option" where
  "walkedRelativePath entries entry =
     (case ancestry entries entry [] of
        None \<Rightarrow> None
      | Some (Inl e) \<Rightarrow> Some (Inl e)
      | Some (Inr upward) \<Rightarrow> Some (descend (rev upward) (RelativePath [])))"

subsection \<open>The list as a tree\<close>

definition kept_entry :: "DirectoryEntry \<Rightarrow> bool" where
  "kept_entry e \<longleftrightarrow> entry_nameIsValidUtf8 e \<and> valid_segment (entry_name e)"

lemma entry_nameSegment_iff:
  "entry_nameSegment e = Inr s \<longleftrightarrow> kept_entry e \<and> s = PathSegment (entry_name e)"
  by (auto simp: entry_nameSegment_def kept_entry_def PathSegment_make_def valid_segment_def split: option.splits)

definition walked_list :: "DirectoryEntry list \<Rightarrow> bool" where
  "walked_list es \<longleftrightarrow> es \<noteq> [] \<and> entry_parent (es ! 0) = None \<and>
     (\<forall>i. 0 < i \<and> i < length es \<longrightarrow> (\<exists>p<i. entry_parent (es ! i) = Some p) \<and> kept_entry (es ! i))"

inductive entry_path :: "DirectoryEntry list \<Rightarrow> nat \<Rightarrow> string list \<Rightarrow> bool" for es where
  at_root: "es \<noteq> [] \<Longrightarrow> entry_parent (es ! 0) = None \<Longrightarrow> entry_path es 0 []"
| at_child: "i < length es \<Longrightarrow> entry_parent (es ! i) = Some p \<Longrightarrow> entry_path es p ns \<Longrightarrow>
     entry_path es i (ns @ [entry_name (es ! i)])"

lemma entry_path_bound: "entry_path es i ns \<Longrightarrow> i < length es"
  by (cases rule: entry_path.cases) auto

lemma entry_path_unique: "entry_path es i ns \<Longrightarrow> entry_path es i ms \<Longrightarrow> ns = ms"
proof (induction arbitrary: ms rule: entry_path.induct)
  case at_root
  from at_root.prems show ?case by (rule entry_path.cases) (use at_root.hyps in auto)
next
  case (at_child i p ns)
  note IH = at_child.IH and parent = at_child.hyps(2)
  from at_child.prems show ?case
  proof (cases rule: entry_path.cases)
    case (at_child q qs)
    then have "q = p" using parent by simp
    with at_child IH [of qs] show ?thesis by simp
  qed (use parent in simp)
qed

lemma entry_path_exists:
  assumes "walked_list es" and "i < length es"
  shows "\<exists>ns. entry_path es i ns \<and> valid_names ns"
  using assms(2)
proof (induction i rule: less_induct)
  case (less i)
  show ?case
  proof (cases "i = 0")
    case True
    then show ?thesis using assms(1) by (auto simp: walked_list_def intro: at_root)
  next
    case False
    then obtain p where p: "p < i" "entry_parent (es ! i) = Some p" "kept_entry (es ! i)"
      using assms(1) less.prems by (auto simp: walked_list_def)
    with less obtain ns where "entry_path es p ns" "valid_names ns" by (meson less_trans)
    then show ?thesis using p less.prems by (intro exI [of _ "ns @ [entry_name (es ! i)]"]) (auto intro: at_child simp: kept_entry_def)
  qed
qed

lemma entry_path_append: "entry_path es i ns \<Longrightarrow> entry_path (es @ fs) i ns"
proof (induction rule: entry_path.induct)
  case (at_child i p ns)
  then show ?case using entry_path.at_child [of i "es @ fs" p ns] by (simp add: nth_append)
qed (auto intro: entry_path.at_root simp: nth_append)

lemma walkedRelativePath_of:
  assumes "walked_list es" and "i < length es" and "entry_path es i ns"
  shows "walkedRelativePath es (es ! i) = Some (Inr (relative_of ns))"
proof -
  have up: "\<exists>chain. ancestry es (es ! i) upward = Some (Inr (upward @ chain)) \<and>
      (\<forall>rest. descend (rev chain @ rest) (relative_of []) = descend rest (relative_of ns)) \<and> valid_names ns" for upward
    using assms(3)
  proof (induction arbitrary: upward rule: entry_path.induct)
    case at_root
    then show ?case by (subst ancestry.simps) simp
  next
    case (at_child i p ns)
    have i: "0 < i" using at_child.hyps(2) assms(1) by (cases i) (auto simp: walked_list_def)
    then have p: "p < length es" "kept_entry (es ! i)"
      using at_child.hyps(1,2) assms(1) by (fastforce simp: walked_list_def)+
    obtain chain where chain: "ancestry es (es ! p) (upward @ [es ! i]) = Some (Inr ((upward @ [es ! i]) @ chain))"
      "\<forall>rest. descend (rev chain @ rest) (relative_of []) = descend rest (relative_of ns)" "valid_names ns"
      using at_child.IH by blast
    have seg: "entry_nameSegment (es ! i) = Inr (PathSegment (entry_name (es ! i)))"
      using p(2) by (simp add: entry_nameSegment_iff)
    have "ancestry es (es ! i) upward = Some (Inr (upward @ es ! i # chain))"
      using chain(1) at_child.hyps(2) p(1) by (subst ancestry.simps) simp
    moreover have "descend (rev (es ! i # chain) @ rest) (relative_of []) = descend rest (relative_of (ns @ [entry_name (es ! i)]))" for rest
      using chain(2,3) seg p(2) rel_operations(1) [of ns ns "entry_name (es ! i)"] by (simp add: kept_entry_def)
    ultimately show ?case using chain(3) p(2) by (intro exI [of _ "es ! i # chain"]) (simp add: kept_entry_def)
  qed
  then obtain chain where "ancestry es (es ! i) [] = Some (Inr chain)"
    "\<forall>rest. descend (rev chain @ rest) (relative_of []) = descend rest (relative_of ns)" by fastforce
  moreover have "RelativePath [] = relative_of []" by (simp add: relative_of_def)
  ultimately show ?thesis
    using spec [of "\<lambda>rest. descend (rev chain @ rest) (relative_of []) = descend rest (relative_of ns)" "[]"]
    by (simp add: walkedRelativePath_def)
qed
subsection \<open>A walk lists what is reachable\<close>

text \<open>What lies below the root when \<open>disk\<close> tells the content of each directory: names and the entry as listed.\<close>

inductive reachable_entry :: "(RelativePath \<Rightarrow> DirectoryEntry list) \<Rightarrow> string list \<Rightarrow> DirectoryEntry \<Rightarrow> bool" for disk where
  reach_root: "reachable_entry disk [] root_entry"
| reach_child: "reachable_entry disk ns d \<Longrightarrow> entry_type d = Directory \<Longrightarrow> e \<in> set (disk (relative_of ns)) \<Longrightarrow>
     kept_entry e \<Longrightarrow> reachable_entry disk (ns @ [entry_name e]) e"

definition answers_disk :: "(RelativePath \<Rightarrow> DirectoryEntry list) \<Rightarrow> ('s, 'e) Scanner \<Rightarrow> bool" where
  "answers_disk disk scan \<longleftrightarrow> (\<forall>s path listing s'. scan s path = (Inr listing, s') \<longrightarrow> listing = disk path)"

definition adopted :: "DirectoryEntry list \<Rightarrow> nat \<Rightarrow> DirectoryEntry list" where
  "adopted listing p = map (\<lambda>e. e\<lparr>entry_parent := Some p\<rparr>) (filter kept_entry listing)"

lemma kept_not_dots: "kept_entry e \<Longrightarrow> entry_name e \<noteq> ''.'' \<and> entry_name e \<noteq> ''..''"
  by (auto simp: kept_entry_def valid_segment_iff)

lemma kept_parent [simp]: "kept_entry (e\<lparr>entry_parent := p\<rparr>) = kept_entry e"
  by (simp add: kept_entry_def)

lemma moveEntries_adopts:
  assumes "p < length (deep_paths w)"
  shows "\<exists>paths. moveEntries listing p w = w\<lparr>deep_entries := deep_entries w @ adopted listing p,
     deep_paths := deep_paths w @ paths, deep_rejected := deep_rejected (moveEntries listing p w)\<rparr> \<and>
     length paths = length (adopted listing p) \<and>
     (\<forall>i < length paths. entry_type (adopted listing p ! i) = Directory \<longrightarrow>
        paths ! i = rel_div_segment (deep_paths w ! p) (PathSegment (entry_name (adopted listing p ! i))))"
  using assms
proof (induction listing arbitrary: w)
  case (Cons e listing)
  let ?e = "e\<lparr>entry_parent := Some p\<rparr>"
  show ?case
  proof (cases "kept_entry e")
    case True
    let ?path = "if entry_type e = Directory then rel_div_segment (deep_paths w ! p) (PathSegment (entry_name e)) else RelativePath []"
    let ?w = "w\<lparr>deep_paths := deep_paths w @ [?path], deep_entries := deep_entries w @ [?e]\<rparr>"
    have seg: "entry_nameSegment ?e = Inr (PathSegment (entry_name e))" using True by (simp add: entry_nameSegment_iff)
    have step: "moveEntries (e # listing) p w = moveEntries listing p ?w"
      using kept_not_dots [OF True] seg by (simp add: Let_def)
    have nth: "deep_paths ?w ! p = deep_paths w ! p" using Cons.prems by (simp add: nth_append)
    obtain paths where paths: "moveEntries listing p ?w = ?w\<lparr>deep_entries := deep_entries ?w @ adopted listing p,
        deep_paths := deep_paths ?w @ paths, deep_rejected := deep_rejected (moveEntries listing p ?w)\<rparr>"
      "length paths = length (adopted listing p)"
      "\<forall>i < length paths. entry_type (adopted listing p ! i) = Directory \<longrightarrow>
        paths ! i = rel_div_segment (deep_paths w ! p) (PathSegment (entry_name (adopted listing p ! i)))"
      using Cons.IH [of ?w] Cons.prems unfolding nth by auto
    have list: "adopted (e # listing) p = ?e # adopted listing p" using True by (simp add: adopted_def)
    show ?thesis unfolding step list
      by (rule exI [of _ "?path # paths"]) (use paths in \<open>auto simp: nth_Cons split: nat.splits\<close>)
  next
    case False
    then have list: "adopted (e # listing) p = adopted listing p" by (simp add: adopted_def)
    have "\<exists>r. moveEntries (e # listing) p w = moveEntries listing p (w\<lparr>deep_rejected := r\<rparr>)"
    proof (cases "entry_name e = ''.'' \<or> entry_name e = ''..''")
      case True
      then show ?thesis by (intro exI [of _ "deep_rejected w"]) (simp add: Let_def)
    next
      case False
      with \<open>\<not> kept_entry e\<close> obtain err where "entry_nameSegment ?e = Inl err"
        using entry_nameSegment_iff [of ?e] by (cases "entry_nameSegment ?e") auto
      with False show ?thesis by (intro exI [of _ "deep_rejected w @ [?e]"]) (simp add: Let_def)
    qed
    then obtain r where step: "moveEntries (e # listing) p w = moveEntries listing p (w\<lparr>deep_rejected := r\<rparr>)" by blast
    show ?thesis unfolding step list using Cons.IH [of "w\<lparr>deep_rejected := r\<rparr>"] Cons.prems by simp
  qed
qed (simp add: adopted_def)

lemma skipFiles_bounds:
  "skipFiles es i b = (j, c) \<Longrightarrow> i \<le> j \<and> j \<le> i + length es \<and> (\<forall>k. i \<le> k \<and> k < j \<longrightarrow> entry_type (es ! (k - i)) \<noteq> Directory)"
proof (induction es arbitrary: i b)
  case (Cons e es)
  show ?case
  proof (cases "entry_type e = Directory")
    case False
    let ?b = "if entry_type e = Regular then b + entry_size e else b"
    have "skipFiles es (i + 1) ?b = (j, c)" using Cons.prems False by (simp add: Let_def)
    from Cons.IH [OF this] False show ?thesis by (auto simp: nth_Cons' Suc_diff_le)
  qed (use Cons.prems in \<open>auto simp: Let_def\<close>)
qed auto

text \<open>The state between two calls of \<open>walk\<close>: every directory before \<open>currentIndex\<close> has been listed.\<close>

definition walk_state :: "(RelativePath \<Rightarrow> DirectoryEntry list) \<Rightarrow> DirectoryEntry list \<Rightarrow> RelativePath list \<Rightarrow> nat \<Rightarrow> bool" where
  "walk_state disk es paths n \<longleftrightarrow>
     walked_list es \<and> es ! 0 = root_entry \<and> length paths = length es \<and> n \<le> length es \<and>
     (\<forall>i ns. entry_path es i ns \<and> entry_type (es ! i) = Directory \<longrightarrow> paths ! i = relative_of ns) \<and>
     (\<forall>i p ns. i < length es \<and> entry_parent (es ! i) = Some p \<and> entry_path es p ns \<longrightarrow>
        entry_type (es ! p) = Directory \<and> (\<exists>e \<in> set (disk (relative_of ns)). es ! i = e\<lparr>entry_parent := Some p\<rparr>)) \<and>
     (\<forall>p ns e. p < n \<and> entry_type (es ! p) = Directory \<and> entry_path es p ns \<and> e \<in> set (disk (relative_of ns)) \<and> kept_entry e \<longrightarrow>
        e\<lparr>entry_parent := Some p\<rparr> \<in> set es) \<and>
     (\<forall>i p. i < length es \<and> entry_parent (es ! i) = Some p \<longrightarrow> p < n) \<and>
     (\<forall>i j ns ms. i \<le> j \<and> entry_path es i ns \<and> entry_path es j ms \<longrightarrow> length ns \<le> length ms)"

lemma walk_stateD:
  assumes "walk_state disk es paths n"
  shows "walked_list es" "es ! 0 = root_entry" "length paths = length es" "n \<le> length es"
    and "entry_path es i ns \<Longrightarrow> entry_type (es ! i) = Directory \<Longrightarrow> paths ! i = relative_of ns"
    and "i < length es \<Longrightarrow> entry_parent (es ! i) = Some p \<Longrightarrow> entry_path es p ns \<Longrightarrow>
       entry_type (es ! p) = Directory \<and> (\<exists>e \<in> set (disk (relative_of ns)). es ! i = e\<lparr>entry_parent := Some p\<rparr>)"
    and "p < n \<Longrightarrow> entry_type (es ! p) = Directory \<Longrightarrow> entry_path es p ns \<Longrightarrow> e \<in> set (disk (relative_of ns)) \<Longrightarrow>
       kept_entry e \<Longrightarrow> e\<lparr>entry_parent := Some p\<rparr> \<in> set es"
    and "i < length es \<Longrightarrow> entry_parent (es ! i) = Some p \<Longrightarrow> p < n"
    and "i \<le> j \<Longrightarrow> entry_path es i ns \<Longrightarrow> entry_path es j ms \<Longrightarrow> length ns \<le> length ms"
  using assms unfolding walk_state_def by blast+

lemma root_entry_simps [simp]: "entry_parent root_entry = None" "entry_type root_entry = Directory"
  by (simp_all add: root_entry_def)

lemma walk_state_new: "walk_state disk (deep_entries deep_new) (deep_paths deep_new) (deep_index deep_new)"
proof -
  have "i = 0 \<and> ns = []" if "entry_path [root_entry] i ns" for i ns
    using that by (cases rule: entry_path.cases) auto
  note single = this
  show ?thesis
    unfolding walk_state_def deep_new_def DeepWalker.simps
    by (intro conjI allI impI; (elim conjE)?) (auto simp: walked_list_def relative_of_def dest!: single)
qed

lemma walk_state_skip:
  assumes "walk_state disk es paths n" and "n \<le> m" and "m \<le> length es"
    and "\<And>k. n \<le> k \<Longrightarrow> k < m \<Longrightarrow> entry_type (es ! k) \<noteq> Directory"
  shows "walk_state disk es paths m"
proof -
  have listed: "p < m \<Longrightarrow> entry_type (es ! p) = Directory \<Longrightarrow> p < n" for p using assms(4) not_le by blast
  have "\<forall>p ns e. p < m \<and> entry_type (es ! p) = Directory \<and> entry_path es p ns \<and> e \<in> set (disk (relative_of ns)) \<and>
      kept_entry e \<longrightarrow> e\<lparr>entry_parent := Some p\<rparr> \<in> set es"
    using walk_stateD(7) [OF assms(1) listed] by blast
  moreover have "\<forall>i p. i < length es \<and> entry_parent (es ! i) = Some p \<longrightarrow> p < m"
    using walk_stateD(8) [OF assms(1)] assms(2) by (meson less_le_trans)
  ultimately show ?thesis
    using assms(1,3) unfolding walk_state_def by (elim conjE) (intro conjI)
qed

lemma entry_path_old:
  assumes "walked_list es" and "entry_path (es @ fs) i ns" and "i < length es"
  shows "entry_path es i ns"
proof -
  obtain ms where ms: "entry_path es i ms" using entry_path_exists [OF assms(1,3)] by blast
  from entry_path_unique [OF entry_path_append [OF ms] assms(2)] ms show ?thesis by simp
qed

lemma walk_state_adopt:
  assumes st: "walk_state disk es paths n" and n: "n < length es" "entry_type (es ! n) = Directory"
    and listing: "listing = disk (paths ! n)"
    and new: "length new = length (adopted listing n)"
      "\<And>i. i < length new \<Longrightarrow> entry_type (adopted listing n ! i) = Directory \<Longrightarrow>
         new ! i = rel_div_segment (paths ! n) (PathSegment (entry_name (adopted listing n ! i)))"
  shows "walk_state disk (es @ adopted listing n) (paths @ new) (Suc n)"
proof -
  let ?a = "adopted listing n" and ?es = "es @ adopted listing n"
  note old = walk_stateD [OF st]
  obtain ns where ns: "entry_path es n ns" "valid_names ns" using entry_path_exists [OF old(1) n(1)] by blast
  have path_n: "paths ! n = relative_of ns" by (rule old(5) [OF ns(1) n(2)])
  have added: "\<exists>e \<in> set (disk (relative_of ns)). kept_entry e \<and> ?es ! i = e\<lparr>entry_parent := Some n\<rparr>"
    if "length es \<le> i" "i < length ?es" for i
  proof -
    have "?es ! i \<in> set ?a" using that by (auto simp: nth_append)
    then show ?thesis unfolding listing path_n [symmetric] by (auto simp: adopted_def)
  qed
  then have added_parent: "length es \<le> i \<Longrightarrow> i < length ?es \<Longrightarrow> entry_parent (?es ! i) = Some n \<and> kept_entry (?es ! i)" for i
    by fastforce
  have added_path: "ms = ns @ [entry_name (?es ! i)] \<and> kept_entry (?es ! i)"
    if path: "entry_path ?es i ms" and i: "length es \<le> i" "i < length ?es" for i ms
  proof -
    note e = added_parent [OF i]
    then have "entry_path ?es i (ns @ [entry_name (?es ! i)])"
      using i by (intro at_child [OF _ _ entry_path_append [OF ns(1)]]) auto
    from entry_path_unique [OF path this] e show ?thesis by simp
  qed
  have walked: "walked_list ?es"
    unfolding walked_list_def
  proof (intro conjI allI impI)
    show "?es \<noteq> []" "entry_parent (?es ! 0) = None" using old(1) by (auto simp: walked_list_def nth_append)
  next
    fix i assume i: "0 < i \<and> i < length ?es"
    show "\<exists>p<i. entry_parent (?es ! i) = Some p"
      using i old(1) n(1) added_parent [of i] by (cases "i < length es") (auto simp: walked_list_def nth_append)
    show "kept_entry (?es ! i)"
      using i old(1) added_parent [of i] by (cases "i < length es") (auto simp: walked_list_def nth_append)
  qed
  have paths: "(paths @ new) ! i = relative_of ms" if "entry_path ?es i ms" "entry_type (?es ! i) = Directory" for i ms
  proof (cases "i < length es")
    case True
    then have "entry_path es i ms" by (rule entry_path_old [OF old(1) that(1)])
    with True that(2) old(3,5) show ?thesis by (simp add: nth_append)
  next
    case False
    have bound: "i < length ?es" by (rule entry_path_bound [OF that(1)])
    with False new(1) that(2) new(2) [of "i - length es"] old(3) have
      "(paths @ new) ! i = rel_div_segment (relative_of ns) (PathSegment (entry_name (?es ! i)))"
      by (simp add: nth_append path_n)
    moreover have "ms = ns @ [entry_name (?es ! i)] \<and> kept_entry (?es ! i)"
      using added_path [OF that(1)] False bound by simp
    ultimately show ?thesis using rel_operations(1) [OF ns(2) ns(2)] by (simp add: kept_entry_def)
  qed
  have parents: "entry_type (?es ! p) = Directory \<and> (\<exists>e \<in> set (disk (relative_of ms)). ?es ! i = e\<lparr>entry_parent := Some p\<rparr>)"
    if i: "i < length ?es" and p: "entry_parent (?es ! i) = Some p" and path: "entry_path ?es p ms" for i p ms
  proof (cases "i < length es")
    case True
    then have pi: "p < i" using old(1) p by (cases "i = 0") (auto simp: walked_list_def nth_append)
    have "entry_path es p ms" by (rule entry_path_old [OF old(1) path]) (use True pi in simp)
    with True pi p old(6) [of i p ms] show ?thesis by (simp add: nth_append)
  next
    case False
    then obtain e where e: "e \<in> set (disk (relative_of ns))" "?es ! i = e\<lparr>entry_parent := Some n\<rparr>"
      using added [of i] i by auto
    with p have "p = n" by simp
    moreover have "ms = ns" using entry_path_unique [OF path] entry_path_append [OF ns(1)] calculation by simp
    ultimately show ?thesis using e n by (auto simp: nth_append)
  qed
  have listed: "e\<lparr>entry_parent := Some p\<rparr> \<in> set ?es"
    if p: "p < Suc n" "entry_type (?es ! p) = Directory" and path: "entry_path ?es p ms"
      and e: "e \<in> set (disk (relative_of ms))" "kept_entry e" for p ms e
  proof -
    have "entry_path es p ms" by (rule entry_path_old [OF old(1) path]) (use p n in simp)
    then show ?thesis
    proof (cases "p = n")
      case True
      then have "ms = ns" using entry_path_unique [OF _ ns(1)] \<open>entry_path es p ms\<close> by simp
      with True e show ?thesis by (auto simp: adopted_def listing path_n)
    next
      case False
      with p n old(7) [of p ms e] e \<open>entry_path es p ms\<close> show ?thesis by (auto simp: nth_append)
    qed
  qed
  have before: "p < Suc n" if i: "i < length ?es" and p: "entry_parent (?es ! i) = Some p" for i p
    using old(8) [of i p] added_parent [of i] i p by (cases "i < length es") (auto simp: nth_append)
  have near: "length ms \<le> length ns + 1" if path: "entry_path es j ms" for j ms
    using path
  proof (cases rule: entry_path.cases)
    case (at_child p ls)
    then have "p < n" using old(8) by blast
    then have "length ls \<le> length ns" using old(9) [of p n] at_child(4) ns(1) by simp
    with at_child show ?thesis by simp
  qed simp
  have levels: "length ls \<le> length ms" if ij: "i \<le> j" and i: "entry_path ?es i ls" and j: "entry_path ?es j ms" for i j ls ms
  proof -
    have bounds: "i < length ?es" "j < length ?es" using entry_path_bound i j by blast+
    consider "j < length es" | "i < length es" "length es \<le> j" | "length es \<le> i" "length es \<le> j" using ij by linarith
    then show ?thesis
    proof cases
      case 1
      then show ?thesis using old(9) [OF ij] entry_path_old [OF old(1)] i j ij by (meson le_less_trans)
    next
      case 2
      have "ms = ns @ [entry_name (?es ! j)]" using added_path [OF j 2(2) bounds(2)] by blast
      then show ?thesis using near [OF entry_path_old [OF old(1) i 2(1)]] by simp
    next
      case 3
      then show ?thesis using added_path [OF i _ bounds(1)] added_path [OF j _ bounds(2)] by auto
    qed
  qed
  have shape: "?es ! 0 = root_entry" "length (paths @ new) = length ?es" "Suc n \<le> length ?es"
    using old(2,3) n(1) new(1) by (auto simp: nth_append)
  show ?thesis
    unfolding walk_state_def using walked shape paths parents listed before levels by blast
qed

abbreviation walking :: "(RelativePath \<Rightarrow> DirectoryEntry list) \<Rightarrow> DeepWalker \<Rightarrow> bool" where
  "walking disk w \<equiv> walk_state disk (deep_entries w) (deep_paths w) (deep_index w)"

lemma deep_skip_walking:
  assumes "walking disk w"
  shows "walking disk (deep_skip w)" and "deep_entries (deep_skip w) = deep_entries w"
proof -
  obtain j b where skip: "skipFiles (drop (deep_index w) (deep_entries w)) (deep_index w) (deep_bytes w) = (j, b)" by force
  note bounds = skipFiles_bounds [OF skip] and n = walk_stateD(4) [OF assms]
  have "walk_state disk (deep_entries w) (deep_paths w) j"
    using bounds n by (intro walk_state_skip [OF assms]) auto
  then show "walking disk (deep_skip w)" by (simp add: deep_skip_def skip)
  show "deep_entries (deep_skip w) = deep_entries w" by (simp add: deep_skip_def split_def Let_def)
qed

lemma deep_walk_step:
  assumes "answers_disk disk scan" and "walking disk w" and "deep_walk scan s w = (result, s', w')"
  shows "walking disk w' \<and> (\<forall>b. result = Inr b \<longrightarrow> b = deep_completed w')"
proof (cases "deep_completed w")
  case False
  then have n: "deep_index w < length (deep_entries w)" by (simp add: deep_completed_def)
  note st = assms(2)
  show ?thesis
  proof (cases "entry_type (deep_entries w ! deep_index w) = Directory")
    case directory: True
    obtain listed s1 where scanned: "scan s (deep_paths w ! deep_index w) = (listed, s1)" by force
    show ?thesis
    proof (cases listed)
      case (Inl e)
      with assms directory False scanned show ?thesis by (auto simp: deep_walk_def)
    next
      case (Inr listing)
      with assms(1) scanned have disk: "listing = disk (deep_paths w ! deep_index w)" by (auto simp: answers_disk_def)
      have len: "deep_index w < length (deep_paths w)" using n walk_stateD(3) [OF st] by simp
      obtain new where new: "moveEntries listing (deep_index w) w = w\<lparr>deep_entries := deep_entries w @ adopted listing (deep_index w),
          deep_paths := deep_paths w @ new, deep_rejected := deep_rejected (moveEntries listing (deep_index w) w)\<rparr>"
        "length new = length (adopted listing (deep_index w))"
        "\<forall>i < length new. entry_type (adopted listing (deep_index w) ! i) = Directory \<longrightarrow>
           new ! i = rel_div_segment (deep_paths w ! deep_index w) (PathSegment (entry_name (adopted listing (deep_index w) ! i)))"
        using moveEntries_adopts [OF len, of listing] by blast
      let ?w = "moveEntries listing (deep_index w) w"
      have "walk_state disk (deep_entries ?w) (deep_paths ?w) (Suc (deep_index w))"
        by (subst new(1), subst new(1)) (use walk_state_adopt [OF st n directory disk new(2)] new(3) in simp)
      moreover have "deep_index ?w = deep_index w" by (subst new(1)) simp
      ultimately have "walking disk (?w\<lparr>deep_index := deep_index ?w + 1\<rparr>)" by simp
      from deep_skip_walking(1) [OF this] assms(3) directory False scanned Inr show ?thesis
        by (auto simp: deep_walk_def Let_def)
    qed
  next
    case other: False
    with assms(3) False deep_skip_walking(1) [OF st] show ?thesis by (auto simp: deep_walk_def Let_def)
  qed
qed (use assms in \<open>auto simp: deep_walk_def\<close>)

lemma walkAll_result:
  "deep_walkAll scan s w = Some (result, s', w') \<Longrightarrow> answers_disk disk scan \<Longrightarrow> walking disk w \<Longrightarrow>
     walking disk w' \<and> (\<forall>u. result = Inr u \<longrightarrow> deep_completed w')"
proof (induction scan s w "(result, s', w')" arbitrary: result s' w' rule: deep_walkAll.raw_induct [rotated 1, consumes 1])
  case (1 walkAll scan s w)
  obtain r s1 w1 where step: "deep_walk scan s w = (r, s1, w1)" by (cases "deep_walk scan s w") auto
  note one = deep_walk_step [OF 1(3,4) step]
  then show ?case using 1(2) 1(1) [of scan s1 w1] 1(3) step by (auto split: sum.splits if_splits)
qed

abbreviation bare :: "DirectoryEntry \<Rightarrow> DirectoryEntry" where
  "bare e \<equiv> e\<lparr>entry_parent := None\<rparr>"

lemma bare_parent: "bare (e\<lparr>entry_parent := p\<rparr>) = bare e"
  by simp

lemma walked_reachable:
  assumes "walking disk w" and "entry_path (deep_entries w) i ns"
  shows "\<exists>e. reachable_entry disk ns e \<and> bare e = bare (deep_entries w ! i)"
  using assms(2)
proof (induction rule: entry_path.induct)
  case at_root
  then show ?case using walk_stateD(2) [OF assms(1)] by (intro exI [of _ root_entry]) (simp add: reach_root)
next
  case (at_child i p ns)
  note child = walk_stateD(6) [OF assms(1) at_child.hyps(1,2,3)]
  obtain e where e: "e \<in> set (disk (relative_of ns))" "deep_entries w ! i = e\<lparr>entry_parent := Some p\<rparr>" using child by blast
  obtain d where d: "reachable_entry disk ns d" "bare d = bare (deep_entries w ! p)" using at_child.IH by blast
  from d(2) child have "entry_type d = Directory" by (metis DirectoryEntry.ext_inject DirectoryEntry.surjective DirectoryEntry.update_convs(11))
  moreover have "kept_entry e"
  proof -
    have "i \<noteq> 0" using at_child.hyps(2) walk_stateD(1) [OF assms(1)] by (auto simp: walked_list_def)
    then have "kept_entry (deep_entries w ! i)" using at_child.hyps(1) walk_stateD(1) [OF assms(1)] by (auto simp: walked_list_def)
    then show ?thesis using e(2) by simp
  qed
  ultimately have "reachable_entry disk (ns @ [entry_name e]) e" by (intro reach_child [OF d(1) _ e(1)])
  then show ?case using e(2) by (intro exI [of _ e]) simp
qed

lemma reachable_walked:
  assumes "walking disk w" and "deep_completed w" and "reachable_entry disk ns e"
  shows "\<exists>i. entry_path (deep_entries w) i ns \<and> bare (deep_entries w ! i) = bare e"
  using assms(3)
proof (induction rule: reachable_entry.induct)
  case reach_root
  have "deep_entries w \<noteq> []" using walk_stateD(1) [OF assms(1)] by (simp add: walked_list_def)
  then show ?case using walk_stateD(2) [OF assms(1)] by (intro exI [of _ 0]) (simp add: at_root)
next
  case (reach_child ns d e)
  then obtain p where p: "entry_path (deep_entries w) p ns" "bare (deep_entries w ! p) = bare d" by blast
  then have dir: "entry_type (deep_entries w ! p) = Directory"
    using reach_child.hyps(2) by (metis DirectoryEntry.ext_inject DirectoryEntry.surjective DirectoryEntry.update_convs(11))
  have "p < deep_index w" using entry_path_bound [OF p(1)] assms(2) by (simp add: deep_completed_def)
  from walk_stateD(7) [OF assms(1) this dir p(1) reach_child.hyps(3,4)]
  obtain i where i: "i < length (deep_entries w)" "deep_entries w ! i = e\<lparr>entry_parent := Some p\<rparr>"
    by (auto simp: in_set_conv_nth)
  then have "entry_path (deep_entries w) i (ns @ [entry_name (deep_entries w ! i)])"
    by (intro at_child [OF _ _ p(1)]) simp_all
  with i show ?case by (intro exI [of _ i]) simp
qed

subsection \<open>A walk of a finite tree ends\<close>

text \<open>How many entries a walk lists at and below an entry, directories deeper than the bound counted as leaves.\<close>

fun listed_weight :: "(RelativePath \<Rightarrow> DirectoryEntry list) \<Rightarrow> nat \<Rightarrow> string list \<Rightarrow> FileType \<Rightarrow> nat" where
  "listed_weight disk 0 ns kind = 1"
| "listed_weight disk (Suc depth) ns kind =
     (if kind = Directory
      then 1 + sum_list (map (\<lambda>e. listed_weight disk depth (ns @ [entry_name e]) (entry_type e))
                 (filter kept_entry (disk (relative_of ns))))
      else 1)"

definition path_of :: "DirectoryEntry list \<Rightarrow> nat \<Rightarrow> string list" where
  "path_of es i = (SOME ns. entry_path es i ns)"

lemma path_of_eq: "entry_path es i ns \<Longrightarrow> path_of es i = ns"
  unfolding path_of_def by (rule some_equality) (auto intro: entry_path_unique)

definition left_over :: "(RelativePath \<Rightarrow> DirectoryEntry list) \<Rightarrow> nat \<Rightarrow> DirectoryEntry list \<Rightarrow> nat \<Rightarrow> nat" where
  "left_over disk depth es n =
     (\<Sum>i\<leftarrow>[n..<length es]. listed_weight disk (depth - length (path_of es i)) (path_of es i) (entry_type (es ! i)))"

lemma listed_weight_pos: "listed_weight disk depth ns kind > 0"
  by (cases depth) auto

lemma left_over_mono: "n \<le> m \<Longrightarrow> m \<le> length es \<Longrightarrow> left_over disk depth es m \<le> left_over disk depth es n"
proof -
  assume "n \<le> m" "m \<le> length es"
  then have "[n..<length es] = [n..<m] @ [m..<length es]" by (metis le_add_diff_inverse upt_add_eq_append)
  then show ?thesis by (simp add: left_over_def)
qed

lemma left_over_adopt:
  assumes st: "walk_state disk es paths n" and n: "n < length es" "entry_type (es ! n) = Directory"
    and depth: "entry_path es n ns" "length ns < depth" and listing: "listing = disk (relative_of ns)"
    and st': "walk_state disk (es @ adopted listing n) paths' (Suc n)"
  shows "left_over disk depth (es @ adopted listing n) (Suc n) < left_over disk depth es n"
proof -
  let ?a = "adopted listing n" and ?es = "es @ adopted listing n"
  let ?weight = "\<lambda>es i. listed_weight disk (depth - length (path_of es i)) (path_of es i) (entry_type (es ! i))"
  note walked = walk_stateD(1) [OF st]
  have same: "?weight ?es i = ?weight es i" if old: "i < length es" for i
  proof -
    obtain ms where "entry_path es i ms" using entry_path_exists [OF walked old] by blast
    then have "path_of ?es i = path_of es i" by (metis entry_path_append path_of_eq)
    with old show ?thesis by (simp add: nth_append)
  qed
  obtain d where d: "depth - length ns = Suc d" using depth(2) by (metis Suc_diff_Suc)
  have child: "?weight ?es (length es + k) = listed_weight disk d (ns @ [entry_name (?a ! k)]) (entry_type (?a ! k))"
    if k: "k < length ?a" for k
  proof -
    have kk: "?es ! (length es + k) = ?a ! k" by (simp add: nth_append)
    have "entry_parent (?a ! k) = Some n" using k nth_mem [OF k] by (auto simp: adopted_def)
    then have "entry_path ?es (length es + k) (ns @ [entry_name (?a ! k)])"
      using at_child [of "length es + k" ?es n ns] k kk entry_path_append [OF depth(1)] by simp
    moreover have "depth - Suc (length ns) = d" using d by simp
    ultimately show ?thesis using path_of_eq kk by simp
  qed
  have "[length es..<length ?es] = map (\<lambda>k. k + length es) [0..<length ?a]"
    using map_add_upt [of "length es" "length ?a"] by (simp add: add.commute)
  moreover have "[Suc n..<length ?es] = [Suc n..<length es] @ [length es..<length ?es]"
    using upt_add_eq_append [of "Suc n" "length es" "length ?a"] n(1) by simp
  ultimately have "left_over disk depth ?es (Suc n) = (\<Sum>i\<leftarrow>[Suc n..<length es]. ?weight ?es i) + (\<Sum>k\<leftarrow>[0..<length ?a]. ?weight ?es (length es + k))"
    by (simp add: left_over_def comp_def add.commute)
  also have "(\<Sum>i\<leftarrow>[Suc n..<length es]. ?weight ?es i) = (\<Sum>i\<leftarrow>[Suc n..<length es]. ?weight es i)"
    by (intro arg_cong [where f = sum_list] map_cong refl) (use same in auto)
  also have "(\<Sum>k\<leftarrow>[0..<length ?a]. ?weight ?es (length es + k)) =
      (\<Sum>k\<leftarrow>[0..<length ?a]. listed_weight disk d (ns @ [entry_name (?a ! k)]) (entry_type (?a ! k)))"
    by (intro arg_cong [where f = sum_list] map_cong refl) (use child in auto)
  also have "\<dots> = sum_list (map (\<lambda>e. listed_weight disk d (ns @ [entry_name e]) (entry_type e)) ?a)"
    by (intro arg_cong [where f = sum_list] nth_equalityI) simp_all
  also have "\<dots> = sum_list (map (\<lambda>e. listed_weight disk d (ns @ [entry_name e]) (entry_type e)) (filter kept_entry (disk (relative_of ns))))"
    by (simp add: adopted_def listing comp_def)
  also have "(\<Sum>i\<leftarrow>[Suc n..<length es]. ?weight es i) + \<dots> < left_over disk depth es n"
  proof -
    have "left_over disk depth es n = ?weight es n + (\<Sum>i\<leftarrow>[Suc n..<length es]. ?weight es i)"
      using n(1) by (simp add: left_over_def upt_conv_Cons)
    then show ?thesis using n(2) path_of_eq [OF depth(1)] d by simp
  qed
  finally show ?thesis .
qed

definition shallow :: "(RelativePath \<Rightarrow> DirectoryEntry list) \<Rightarrow> nat \<Rightarrow> bool" where
  "shallow disk depth \<longleftrightarrow> (\<forall>ns e. reachable_entry disk ns e \<and> entry_type e = Directory \<longrightarrow> length ns < depth)"

lemma bare_type: "bare e = bare d \<Longrightarrow> entry_type e = entry_type d"
  by (metis DirectoryEntry.ext_inject DirectoryEntry.surjective DirectoryEntry.update_convs(11))

lemma deep_skip_index: "deep_index (deep_skip w) \<ge> deep_index w"
  and deep_skip_moves: "\<not> deep_completed w \<Longrightarrow> entry_type (deep_entries w ! deep_index w) \<noteq> Directory \<Longrightarrow>
    deep_index (deep_skip w) > deep_index w"
proof -
  obtain j b where skip: "skipFiles (drop (deep_index w) (deep_entries w)) (deep_index w) (deep_bytes w) = (j, b)" by force
  then have j: "deep_index (deep_skip w) = j" by (simp add: deep_skip_def)
  show "deep_index (deep_skip w) \<ge> deep_index w" using skipFiles_bounds [OF skip] j by simp
  assume "\<not> deep_completed w" "entry_type (deep_entries w ! deep_index w) \<noteq> Directory"
  moreover from this have "drop (deep_index w) (deep_entries w) =
      deep_entries w ! deep_index w # drop (Suc (deep_index w)) (deep_entries w)"
    by (simp add: deep_completed_def Cons_nth_drop_Suc)
  ultimately have "\<exists>b'. skipFiles (drop (Suc (deep_index w)) (deep_entries w)) (Suc (deep_index w)) b' = (j, b)"
    using skip by (auto simp: Let_def split: if_splits)
  then show "deep_index (deep_skip w) > deep_index w" using skipFiles_bounds j by fastforce
qed

lemma left_over_step:
  assumes disk: "answers_disk disk scan" and depth: "shallow disk depth" and st: "walking disk w"
    and more: "\<not> deep_completed w" and step: "deep_walk scan s w = (Inr b, s', w')"
  shows "left_over disk depth (deep_entries w') (deep_index w') < left_over disk depth (deep_entries w) (deep_index w)"
proof -
  let ?es = "deep_entries w" and ?n = "deep_index w"
  have n: "?n < length ?es" using more by (simp add: deep_completed_def)
  show ?thesis
  proof (cases "entry_type (?es ! ?n) = Directory")
    case directory: True
    then obtain listing s1 where scanned: "scan s (deep_paths w ! ?n) = (Inr listing, s1)"
      using step more by (auto simp: deep_walk_def split: prod.splits sum.splits)
    then have listing: "listing = disk (deep_paths w ! ?n)" using disk by (auto simp: answers_disk_def)
    obtain ns where ns: "entry_path ?es ?n ns" using entry_path_exists [OF walk_stateD(1) [OF st] n] by blast
    have path: "deep_paths w ! ?n = relative_of ns" by (rule walk_stateD(5) [OF st ns directory])
    obtain e where "reachable_entry disk ns e" "bare e = bare (?es ! ?n)" using walked_reachable [OF st ns] by blast
    moreover from bare_type [OF this(2)] have "entry_type e = Directory" using directory by simp
    ultimately have short: "length ns < depth" using depth unfolding shallow_def by blast
    have len: "?n < length (deep_paths w)" using n walk_stateD(3) [OF st] by simp
    obtain new where new: "moveEntries listing ?n w = w\<lparr>deep_entries := ?es @ adopted listing ?n,
        deep_paths := deep_paths w @ new, deep_rejected := deep_rejected (moveEntries listing ?n w)\<rparr>"
      "length new = length (adopted listing ?n)"
      "\<forall>i < length new. entry_type (adopted listing ?n ! i) = Directory \<longrightarrow>
         new ! i = rel_div_segment (deep_paths w ! ?n) (PathSegment (entry_name (adopted listing ?n ! i)))"
      using moveEntries_adopts [OF len, of listing] by blast
    have st': "walk_state disk (?es @ adopted listing ?n) (deep_paths w @ new) (Suc ?n)"
      using walk_state_adopt [OF st n directory listing new(2)] new(3) by blast
    let ?w = "(moveEntries listing ?n w)\<lparr>deep_index := Suc ?n\<rparr>"
    have moved: "deep_entries ?w = ?es @ adopted listing ?n" "deep_paths ?w = deep_paths w @ new" "deep_index ?w = Suc ?n"
      by (subst new(1), simp)+
    have index: "deep_index (moveEntries listing ?n w) = ?n" by (subst new(1)) simp
    have w': "w' = deep_skip ?w" using step more directory scanned index by (auto simp: deep_walk_def Let_def)
    have st_w: "walking disk ?w" using st' unfolding moved .
    have "left_over disk depth (deep_entries w') (deep_index w') \<le> left_over disk depth (deep_entries ?w) (deep_index ?w)"
      unfolding w' using deep_skip_walking [OF st_w] deep_skip_index [of ?w] walk_stateD(4) [of disk]
      by (metis left_over_mono)
    also have "\<dots> < left_over disk depth ?es ?n"
      unfolding moved using left_over_adopt [OF st n directory ns short _ st'] listing path by simp
    finally show ?thesis .
  next
    case other: False
    then have w': "w' = deep_skip w" using step more by (auto simp: deep_walk_def Let_def)
    have moves: "Suc ?n \<le> deep_index (deep_skip w)" using deep_skip_moves [OF more other] by simp
    have "left_over disk depth ?es (deep_index (deep_skip w)) \<le> left_over disk depth ?es (Suc ?n)"
      by (rule left_over_mono [OF moves]) (use walk_stateD(4) [OF deep_skip_walking(1) [OF st]] deep_skip_walking(2) [OF st] in simp)
    also have "\<dots> < left_over disk depth ?es ?n"
      using n listed_weight_pos by (simp add: left_over_def upt_conv_Cons)
    finally show ?thesis unfolding w' deep_skip_walking(2) [OF st] .
  qed
qed

lemma walkAll_returns:
  assumes "answers_disk disk scan" and "shallow disk depth" and "walking disk w"
  shows "\<exists>y. deep_walkAll scan s w = Some y"
  using assms(3)
proof (induction "left_over disk depth (deep_entries w) (deep_index w)" arbitrary: s w rule: less_induct)
  case less
  obtain r s1 w1 where step: "deep_walk scan s w = (r, s1, w1)" by (cases "deep_walk scan s w") auto
  show ?case
  proof (cases r)
    case (Inl e)
    then show ?thesis using step by (subst deep_walkAll.simps) simp
  next
    case (Inr b)
    show ?thesis
    proof (cases "deep_completed w \<or> b")
      case True
      then have b using step Inr by (auto simp: deep_walk_def)
      with step Inr show ?thesis by (subst deep_walkAll.simps) simp
    next
      case False
      have "walking disk w1" using deep_walk_step [OF assms(1) less.prems step] by blast
      with less.hyps [OF left_over_step [OF assms(1,2) less.prems _ step [unfolded Inr]]] False
      obtain y where "deep_walkAll scan s1 w1 = Some y" by blast
      with False step Inr show ?thesis by (subst deep_walkAll.simps) (cases y, simp)
    qed
  qed
qed

subsection \<open>What a flat scan returns\<close>

text \<open>C22: A scan of a tree that is not endless returns, whatever its scanner keeps between the calls and whichever
  listing fails. When none fails, the entries, each at the path its parents give it, are exactly what can be reached
  through the listings over names that are path segments; every parent comes before its children, and
  \<open>walkedRelativePath\<close> returns each entry's path.\<close>

theorem deep_walk_exact:
  assumes "answers_disk disk scan" and "shallow disk depth"
  shows "\<exists>result s' w. deep_walkAll scan s deep_new = Some (result, s', w) \<and> walked_list (deep_entries w) \<and>
    (\<forall>i < length (deep_entries w). \<exists>ns. entry_path (deep_entries w) i ns \<and>
       walkedRelativePath (deep_entries w) (deep_entries w ! i) = Some (Inr (relative_of ns))) \<and>
    (result = Inr () \<longrightarrow>
       {(ns, bare (deep_entries w ! i)) |ns i. entry_path (deep_entries w) i ns} =
       {(ns, bare e) |ns e. reachable_entry disk ns e})"
proof -
  obtain result s' w where run: "deep_walkAll scan s deep_new = Some (result, s', w)"
    using walkAll_returns [OF assms walk_state_new] by (metis prod_cases3)
  note done_walk = walkAll_result [OF run assms(1) walk_state_new]
  then have st: "walking disk w" by blast
  note walked = walk_stateD(1) [OF st]
  have "\<exists>ns. entry_path (deep_entries w) i ns \<and>
      walkedRelativePath (deep_entries w) (deep_entries w ! i) = Some (Inr (relative_of ns))"
    if "i < length (deep_entries w)" for i
    using entry_path_exists [OF walked that] walkedRelativePath_of [OF walked that] by blast
  moreover have "{(ns, bare (deep_entries w ! i)) |ns i. entry_path (deep_entries w) i ns} =
      {(ns, bare e) |ns e. reachable_entry disk ns e}" if "result = Inr ()"
  proof -
    have fin: "deep_completed w" using done_walk that by blast
    show ?thesis
    proof (intro set_eqI iffI)
      fix x assume "x \<in> {(ns, bare (deep_entries w ! i)) |ns i. entry_path (deep_entries w) i ns}"
      then obtain ns i where x: "x = (ns, bare (deep_entries w ! i))" and path: "entry_path (deep_entries w) i ns" by blast
      obtain e where e: "reachable_entry disk ns e" "bare e = bare (deep_entries w ! i)"
        using walked_reachable [OF st path] by blast
      then show "x \<in> {(ns, bare e) |ns e. reachable_entry disk ns e}" unfolding x e(2) [symmetric] by blast
    next
      fix x assume "x \<in> {(ns, bare e) |ns e. reachable_entry disk ns e}"
      then obtain ns e where x: "x = (ns, bare e)" and reach: "reachable_entry disk ns e" by blast
      obtain i where i: "entry_path (deep_entries w) i ns" "bare (deep_entries w ! i) = bare e"
        using reachable_walked [OF st fin reach] by blast
      then show "x \<in> {(ns, bare (deep_entries w ! i)) |ns i. entry_path (deep_entries w) i ns}"
        unfolding x i(2) [symmetric] by blast
    qed
  qed
  ultimately show ?thesis using run walked by blast
qed

abbreviation "sample_listing \<equiv> \<lambda>p. if p = RelativePath []
  then [root_entry\<lparr>entry_name := ''d''\<rparr>, root_entry\<lparr>entry_name := ''..''\<rparr>] else []"

lemma deep_walk_exact_witness:
  "\<exists>result s' w. deep_walkAll (\<lambda>u p. (Inr (sample_listing p) :: string + DirectoryEntry list, u)) () deep_new = Some (result, s', w) \<and>
     walked_list (deep_entries w)"
proof -
  have answers: "answers_disk sample_listing (\<lambda>u p. (Inr (sample_listing p) :: string + DirectoryEntry list, u))"
    by (simp add: answers_disk_def)
  have "ns = [] \<or> ns = [''d'']" if "reachable_entry sample_listing ns e" for ns e
    using that
    by (induction rule: reachable_entry.induct)
      (auto simp: relative_of_def kept_entry_def valid_segment_iff split: if_splits)
  then have small: "length ns < 2" if "reachable_entry sample_listing ns e" for ns e
    using that by fastforce
  have "shallow sample_listing 2" unfolding shallow_def by (intro allI impI, elim conjE, rule small)
  from deep_walk_exact [OF answers this, of "()"] show ?thesis by (elim exE conjE) (intro exI conjI)
qed

end
