(* ===== verification/Remote_Operations.thy ===== *)
theory Remote_Operations
  imports Operation_Base Deep_Walker Ignore_Rules
begin

text \<open>
  Operations on the server that wait for its answers: \<open>backend/sftp/rename_operation.cpp\<close>, \<open>scan_operation.cpp\<close> (the flat
  scan), \<open>scan_phase.hpp\<close>, \<open>compared_state_check.cpp\<close> (the remote side) and \<open>delete_operation.cpp\<close>. The calls of
  \<open>SftpSession\<close> are a record of functions on the state of the server: \<open>session_open\<close> is \<open>openSession\<close>, \<open>in_time\<close> whether
  the answer came before the timeout. A task whose answer came late has run nonetheless. Progress callbacks and logging
  are not modelled. The locale says what a queue relies on, and every operation here is an instance of it.
\<close>

subsection \<open>The server\<close>

record 'srv SftpAnswers =
  session_open :: "'srv \<Rightarrow> bool"
  in_time :: "'srv \<Rightarrow> bool"
  listDirectory :: "RemotePath \<Rightarrow> 'srv \<Rightarrow> (SftpFailure + DirectoryEntry list) \<times> 'srv"
  lstatInStrand :: "RemotePath \<Rightarrow> 'srv \<Rightarrow> (SftpFailure + DirectoryEntry) \<times> 'srv"
  readLinkInStrand :: "RemotePath \<Rightarrow> 'srv \<Rightarrow> (SftpFailure + string) \<times> 'srv"
  removeFileInStrand :: "RemotePath \<Rightarrow> 'srv \<Rightarrow> (SftpFailure + unit) \<times> 'srv"
  removeDirectoryInStrand :: "RemotePath \<Rightarrow> 'srv \<Rightarrow> (SftpFailure + unit) \<times> 'srv"
  renameNoReplaceInStrand :: "RemotePath \<Rightarrow> RemotePath \<Rightarrow> 'srv \<Rightarrow> (SftpFailure + unit) \<times> 'srv"
  readRemoteFile :: "RemotePath \<Rightarrow> 'srv \<Rightarrow> string option \<times> 'srv"

text \<open>\<open>unlessEmpty\<close> of \<open>operation_queue.cpp\<close>, for remote paths.\<close>

definition unlessEmpty :: "RemotePath \<Rightarrow> RemotePath option" where
  "unlessEmpty path = (if remote_empty path then None else Some path)"

subsection \<open>Rename\<close>

record RenameOperation =
  rename_state :: OperationState
  rename_error :: "OperationError option"
  rename_source :: RemotePath
  rename_destination :: RemotePath

definition rename_new :: "RemotePath \<Rightarrow> RemotePath \<Rightarrow> RenameOperation" where
  "rename_new source destination = \<lparr>rename_state = NotStarted, rename_error = None, rename_source = source,
     rename_destination = destination\<rparr>"

definition rename_fail :: "OperationError \<Rightarrow> RenameOperation \<Rightarrow> 'srv \<Rightarrow> WorkResult \<times> RenameOperation \<times> 'srv" where
  "rename_fail error operation srv = (Inl error, operation\<lparr>rename_state := Failed, rename_error := Some error\<rparr>, srv)"

definition rename_run :: "'srv SftpAnswers \<Rightarrow> RenameOperation \<Rightarrow> 'srv \<Rightarrow> WorkResult \<times> RenameOperation \<times> 'srv" where
  "rename_run answers operation srv =
     (if \<not> session_open answers srv then rename_fail channelClosedError operation srv
      else case renameNoReplaceInStrand answers (rename_source operation) (rename_destination operation) srv of
        (result, srv') \<Rightarrow>
          (if \<not> in_time answers srv then rename_fail (plain_error FutureTimeout) operation srv'
           else case result of
               Inl e \<Rightarrow> rename_fail ((plain_error RenameFailure)\<lparr>error_sftp := Some e,
                 error_extraInfo := Some (remote_value (rename_source operation))\<rparr>) operation srv'
             | Inr _ \<Rightarrow> (Inr Complete, operation\<lparr>rename_state := Completed\<rparr>, srv')))"

definition rename_work :: "'srv SftpAnswers \<Rightarrow> RenameOperation \<Rightarrow> 'srv \<Rightarrow> WorkResult \<times> RenameOperation \<times> 'srv" where
  "rename_work answers operation srv =
     (case rename_state operation of
        Finalizing \<Rightarrow> (Inr Complete, operation\<lparr>rename_state := Completed\<rparr>, srv)
      | Completed \<Rightarrow> (Inl (plain_error CannotWorkCompletedOperation), operation, srv)
      | Failed \<Rightarrow> (Inl (plain_error CannotWorkFailedOperation), operation, srv)
      | Canceled \<Rightarrow> (Inl (plain_error CannotWorkCanceledOperation), operation, srv)
      | PartialSuccess \<Rightarrow> (Inl (plain_error CannotWorkCompletedOperation), operation, srv)
      | _ \<Rightarrow> rename_run answers (operation\<lparr>rename_state := Running\<rparr>) srv)"

definition rename_cancel :: "bool \<Rightarrow> RenameOperation \<Rightarrow> RenameOperation" where
  "rename_cancel adoptCancelState operation =
     (if adoptCancelState then operation\<lparr>rename_state := Canceled\<rparr> else operation)"

definition rename_class :: "'srv SftpAnswers \<Rightarrow> (RenameOperation, 'srv, 'backup) OperationClass" where
  "rename_class answers = \<lparr>class_type = (\<lambda>_. Rename), class_state = rename_state, isBarrier = (\<lambda>_. False),
     parallelWorkDoable = (\<lambda>_ _. 1), setParallelBudget = (\<lambda>_ operation. operation), usesStrand = (\<lambda>_. False),
     has_strand = (\<lambda>_. session_open answers), strand_runs = (\<lambda>_. session_open answers), class_work = rename_work answers,
     class_workInStrand = rename_work answers, class_cancel = rename_cancel, class_pause = (\<lambda>_ operation. operation),
     keepPartialFiles = (\<lambda>operation. operation), keptPartialFiles = (\<lambda>_. None),
     partialFileOnCancel = (\<lambda>_ operation. operation), failed_entries = (\<lambda>_. []), completed_paths = (\<lambda>operation. (None, unlessEmpty (rename_destination operation))),
     left_backup = (\<lambda>_ backup. backup), single_transfer = (\<lambda>_. None)\<rparr>"

subsection \<open>Scan\<close>

record ScanOperation =
  scan_state :: OperationState
  scan_error :: "OperationError option"
  scan_remotePath :: RemotePath
  respectIgnoreFiles :: bool
  scan_recursive :: bool
  ignoreHidden :: bool
  buildTree :: bool
  rootScanned :: bool
  ignoreMatcher :: IgnoreMatcher
  scan_walker :: DeepWalker

definition scan_new :: "RemotePath \<Rightarrow> bool \<Rightarrow> bool \<Rightarrow> bool \<Rightarrow> ScanOperation" where
  "scan_new remotePath respectIgnore recursive hidden = \<lparr>scan_state = NotStarted, scan_error = None,
     scan_remotePath = remotePath, respectIgnoreFiles = respectIgnore, scan_recursive = recursive,
     ignoreHidden = hidden, buildTree = False, rootScanned = False, ignoreMatcher = [], scan_walker = deep_new\<rparr>"

definition scan_fail :: "OperationError \<Rightarrow> ScanOperation \<Rightarrow> ScanOperation" where
  "scan_fail error operation = operation\<lparr>scan_state := Failed, scan_error := Some error\<rparr>"

text \<open>The ignore files of one listing are read one after the other.\<close>

fun readIgnoreFiles :: "'srv SftpAnswers \<Rightarrow> RelativePath \<Rightarrow> RemotePath \<Rightarrow> DirectoryEntry list \<Rightarrow> IgnoreMatcher \<Rightarrow> 'srv \<Rightarrow>
    IgnoreMatcher \<times> 'srv" where
  "readIgnoreFiles answers relative path [] matcher srv = (matcher, srv)"
| "readIgnoreFiles answers relative path (entry # entries) matcher srv =
     (if (entry_name entry \<noteq> ''.gitignore'' \<and> entry_name entry \<noteq> ''.ignore'') \<or> entry_type entry \<noteq> Regular
      then readIgnoreFiles answers relative path entries matcher srv
      else case readRemoteFile answers (remote_div_segment path (projr (entry_nameSegment entry))) srv of
          (None, srv) \<Rightarrow> readIgnoreFiles answers relative path entries matcher srv
        | (Some content, srv) \<Rightarrow>
            readIgnoreFiles answers relative path entries (addFile matcher relative content) srv)"

definition notIgnored :: "IgnoreMatcher \<Rightarrow> RelativePath \<Rightarrow> DirectoryEntry \<Rightarrow> bool" where
  "notIgnored matcher relative entry \<longleftrightarrow>
     (case entry_nameSegment entry of
        Inl _ \<Rightarrow> True
      | Inr segment \<Rightarrow> \<not> isIgnored matcher (rel_div_segment relative segment) (entry_type entry = Directory))"

definition scan_scanner :: "'srv SftpAnswers \<Rightarrow> (ScanOperation \<times> 'srv, OperationError) Scanner" where
  "scan_scanner answers state relative =
     (case state of (operation, srv) \<Rightarrow>
      if \<not> scan_recursive operation \<and> rootScanned operation then (Inr [], operation, srv)
      else let operation = operation\<lparr>rootScanned := True\<rparr>; path = remote_div (scan_remotePath operation) relative in
        if \<not> session_open answers srv then (Inl channelClosedError, scan_fail channelClosedError operation, srv)
        else case listDirectory answers path srv of (result, srv') \<Rightarrow>
          if \<not> in_time answers srv
          then (Inl (plain_error FutureTimeout), scan_fail (plain_error FutureTimeout) operation, srv')
          else case result of
            Inl e \<Rightarrow>
              (if buildTree operation \<and> \<not> rel_empty relative \<and>
                  (sftp_sftpError e = SSH_FX_PERMISSION_DENIED \<or> sftp_sftpError e = SSH_FX_NO_SUCH_FILE)
               then (Inl ((plain_error DirectoryUnreadable)\<lparr>error_sftp := Some e,
                       error_extraInfo := Some (remote_value path)\<rparr>), operation, srv')
               else let error = (plain_error SftpError)\<lparr>error_sftp := Some e\<rparr> in
                 (Inl error, scan_fail error operation, srv'))
          | Inr listing \<Rightarrow>
              (let entries = (if ignoreHidden operation
                   then filter (\<lambda>entry. \<not> (entry_name entry \<noteq> [] \<and> hd (entry_name entry) = CHR ''.'')) listing
                   else listing) in
               if \<not> respectIgnoreFiles operation then (Inr entries, operation, srv')
               else case readIgnoreFiles answers relative path entries (ignoreMatcher operation) srv' of
                 (matcher, srv'') \<Rightarrow>
                   (let operation = operation\<lparr>ignoreMatcher := matcher\<rparr> in
                    if matcher = [] then (Inr entries, operation, srv'')
                    else (Inr (filter (notIgnored matcher relative) entries), operation, srv''))))"

definition scan_work :: "'srv SftpAnswers \<Rightarrow> ScanOperation \<Rightarrow> 'srv \<Rightarrow> WorkResult \<times> ScanOperation \<times> 'srv" where
  "scan_work answers operation srv =
     (case scan_state operation of
        NotStarted \<Rightarrow>
          (if remote_empty (scan_remotePath operation)
           then let error = (plain_error ImplementationError)\<lparr>error_extraInfo := Some ''The scan has no root.''\<rparr> in
             (Inl error, scan_fail error operation, srv)
           else (Inr MoreWork, operation\<lparr>scan_state := Running\<rparr>, srv))
      | Running \<Rightarrow>
          (if deep_completed (scan_walker operation)
           then (Inr Complete, operation\<lparr>scan_state := Completed\<rparr>, srv)
           else case deep_walk (scan_scanner answers) (operation, srv) (scan_walker operation) of
               (Inl error, (operation, srv), walker) \<Rightarrow>
                 (Inl error, scan_fail error (operation\<lparr>scan_walker := walker\<rparr>), srv)
             | (Inr _, (operation, srv), walker) \<Rightarrow> (Inr MoreWork, operation\<lparr>scan_walker := walker\<rparr>, srv))
      | Completed \<Rightarrow> (Inl (plain_error CannotWorkCompletedOperation), operation, srv)
      | Failed \<Rightarrow> (Inl (plain_error CannotWorkFailedOperation), operation, srv)
      | Canceled \<Rightarrow> (Inl (plain_error CannotWorkCanceledOperation), operation, srv)
      | PartialSuccess \<Rightarrow> (Inl (plain_error CannotWorkCompletedOperation), operation, srv)
      | _ \<Rightarrow> (Inl (plain_error InvalidOperationState), scan_fail (plain_error InvalidOperationState) operation, srv))"

definition scan_cancel :: "bool \<Rightarrow> ScanOperation \<Rightarrow> ScanOperation" where
  "scan_cancel adoptCancelState operation =
     (if adoptCancelState then operation\<lparr>scan_state := Canceled\<rparr> else operation)"

definition scan_class :: "'srv SftpAnswers \<Rightarrow> (ScanOperation, 'srv, 'backup) OperationClass" where
  "scan_class answers = \<lparr>class_type = (\<lambda>_. Scan), class_state = scan_state, isBarrier = (\<lambda>_. True),
     parallelWorkDoable = (\<lambda>_ _. 1), setParallelBudget = (\<lambda>_ operation. operation), usesStrand = (\<lambda>_. False),
     has_strand = (\<lambda>_. session_open answers), strand_runs = (\<lambda>_. session_open answers), class_work = scan_work answers,
     class_workInStrand = scan_work answers, class_cancel = scan_cancel, class_pause = (\<lambda>_ operation. operation),
     keepPartialFiles = (\<lambda>operation. operation), keptPartialFiles = (\<lambda>_. None),
     partialFileOnCancel = (\<lambda>_ operation. operation), failed_entries = (\<lambda>_. []), completed_paths = (\<lambda>operation. (None, unlessEmpty (scan_remotePath operation))),
     left_backup = (\<lambda>_ backup. backup), single_transfer = (\<lambda>_. None)\<rparr>"
subsection \<open>A scan that belongs to its consumer\<close>

text \<open>
  \<open>ScanPhase::step\<close> on the queue of scans; the two callbacks change the consumer. \<open>onFailed\<close> unset ends the phase.
\<close>

definition scanPhase_step :: "'srv SftpAnswers \<Rightarrow> (ScanOperation \<Rightarrow> 'c \<Rightarrow> 'c) \<Rightarrow> (ScanOperation \<Rightarrow> OperationError \<Rightarrow> 'c \<Rightarrow> 'c) option \<Rightarrow>
    ScanOperation list \<Rightarrow> 'c \<Rightarrow> 'srv \<Rightarrow> WorkResult \<times> ScanOperation list \<times> 'c \<times> 'srv" where
  "scanPhase_step answers deliver onFailed scans consumer srv =
     (case scans of
        [] \<Rightarrow> (Inr Complete, scans, consumer, srv)
      | current # waiting \<Rightarrow>
          (case scan_work answers current srv of
             (Inl error, current, srv) \<Rightarrow>
               (case onFailed of
                  None \<Rightarrow> (Inl error, current # waiting, consumer, srv)
                | Some failed \<Rightarrow> (Inr (if waiting = [] then Complete else MoreWork), waiting, failed current error consumer, srv))
           | (Inr status, current, srv) \<Rightarrow>
               (if status \<noteq> Complete then (Inr MoreWork, current # waiting, consumer, srv)
                else (Inr (if waiting = [] then Complete else MoreWork), waiting, deliver current consumer, srv))))"

definition scanPhase_cancel :: "bool \<Rightarrow> ScanOperation list \<Rightarrow> ScanOperation list" where
  "scanPhase_cancel adoptCancelState scans = map (scan_cancel adoptCancelState) scans"

subsection \<open>What a compare saw, checked again\<close>

definition changedError :: "string \<Rightarrow> OperationError" where
  "changedError path = (plain_error ChangedSinceCompare)
     \<lparr>error_extraInfo := Some ([CHR 0x27] @ path @ [CHR 0x27] @ '' changed after the compare'')\<rparr>"

definition remoteStateOfInStrand :: "'srv SftpAnswers \<Rightarrow> RemotePath \<Rightarrow> 'srv \<Rightarrow> (SftpFailure + ComparedState) \<times> 'srv" where
  "remoteStateOfInStrand answers path srv =
     (case lstatInStrand answers path srv of
        (Inl e, srv) \<Rightarrow> (if sftp_sftpError e = SSH_FX_NO_SUCH_FILE then (Inr absent_state, srv) else (Inl e, srv))
      | (Inr information, srv) \<Rightarrow>
          (let state = comparedStateOf information in
           if cs_type state \<noteq> Symlink then (Inr state, srv)
           else case readLinkInStrand answers path srv of
               (Inl e, srv) \<Rightarrow> (Inl e, srv)
             | (Inr literal, srv) \<Rightarrow> (Inr (state\<lparr>cs_linkTarget := Some literal\<rparr>), srv)))"

definition requireUnchangedRemoteInStrand ::
  "'srv SftpAnswers \<Rightarrow> RemotePath \<Rightarrow> ComparedState option \<Rightarrow> 'srv \<Rightarrow> (OperationError + unit) \<times> 'srv" where
  "requireUnchangedRemoteInStrand answers path compared srv =
     (case compared of
        None \<Rightarrow> (Inr (), srv)
      | Some seen \<Rightarrow>
          (case remoteStateOfInStrand answers path srv of
             (Inl e, srv) \<Rightarrow> (Inl ((plain_error SftpError)\<lparr>error_sftp := Some e\<rparr>), srv)
           | (Inr current, srv) \<Rightarrow>
               (if \<not> unchangedSinceCompare seen current then (Inl (changedError (remote_value path)), srv)
                else (Inr (), srv))))"

subsection \<open>Delete\<close>

record DeleteTarget =
  target_path :: RemotePath
  target_compared :: "ComparedState option"

record DeleteOperation =
  delete_state :: OperationState
  delete_error :: "OperationError option"
  delete_remotePath :: RemotePath
  delete_recursive :: bool
  deletedThusFar :: nat
  totalToDelete :: nat
  removalFailures :: nat
  delete_targets :: "DeleteTarget list"
  invalidScanEntry :: "string option"
  failedEntries :: "(string \<times> OperationError) list"
  delete_scanPhase :: "ScanOperation list option"
  scanDelivered :: bool

definition delete_new :: "RemotePath \<Rightarrow> bool \<Rightarrow> DeleteOperation" where
  "delete_new remotePath recursive = \<lparr>delete_state = NotStarted, delete_error = None, delete_remotePath = remotePath,
     delete_recursive = recursive, deletedThusFar = 0, totalToDelete = 0, removalFailures = 0, delete_targets = [],
     invalidScanEntry = None, failedEntries = [], delete_scanPhase = None, scanDelivered = False\<rparr>"

definition delete_fail :: "OperationError \<Rightarrow> DeleteOperation \<Rightarrow> DeleteOperation" where
  "delete_fail error operation = operation\<lparr>delete_state := Failed, delete_error := Some error\<rparr>"

text \<open>\<open>PathError::toString\<close> is used for the text kept of a refused entry; a walked path that never ends does not return.\<close>

fun appendTargets :: "RemotePath \<Rightarrow> DirectoryEntry list \<Rightarrow> nat \<Rightarrow> DirectoryEntry list \<Rightarrow> DeleteOperation \<Rightarrow> DeleteOperation option" where
  "appendTargets root entries index [] operation = Some operation"
| "appendTargets root entries index (entry # others) operation =
     (if index > 0 \<and> entry_parent entry = None
      then Some (operation\<lparr>invalidScanEntry := Some (remote_value root @ '' has a second root'')\<rparr>)
      else case walkedRelativePath entries entry of
          None \<Rightarrow> None
        | Some (Inl e) \<Rightarrow> Some (operation\<lparr>invalidScanEntry := Some (PathError_toString e)\<rparr>)
        | Some (Inr relative) \<Rightarrow>
            (if remote_empty root then Some (operation\<lparr>invalidScanEntry := Some ''no scan root''\<rparr>)
             else let target = remote_div root relative in
               if remote_isRoot target then Some (operation\<lparr>invalidScanEntry := Some (remote_value target)\<rparr>)
               else appendTargets root entries (index + 1) others
                 (operation\<lparr>delete_targets := delete_targets operation @ [\<lparr>target_path = target, target_compared = None\<rparr>]\<rparr>)))"

definition countTargets :: "DeleteOperation \<Rightarrow> DeleteOperation" where
  "countTargets operation =
     (let operation = (if invalidScanEntry operation \<noteq> None then operation\<lparr>delete_targets := []\<rparr> else operation) in
      operation\<lparr>totalToDelete := length (delete_targets operation)\<rparr>)"

definition appendScanResult :: "RemotePath \<Rightarrow> DirectoryEntry list \<Rightarrow> DeleteOperation \<Rightarrow> DeleteOperation option" where
  "appendScanResult root entries operation =
     map_option countTargets (appendTargets root entries 0 entries (operation\<lparr>scanDelivered := True\<rparr>))"

definition setScanResult :: "DirectoryEntry list \<Rightarrow> DeleteOperation \<Rightarrow> DeleteOperation option" where
  "setScanResult entries operation = appendScanResult (delete_remotePath operation) entries operation"

fun pushTargets :: "DeleteTarget list \<Rightarrow> DeleteOperation \<Rightarrow> DeleteOperation" where
  "pushTargets [] operation = operation"
| "pushTargets (target # targets) operation =
     (if remote_empty (target_path target) \<or> remote_isRoot (target_path target)
      then operation\<lparr>invalidScanEntry := Some (remote_value (target_path target))\<rparr>
      else pushTargets targets (operation\<lparr>delete_targets := delete_targets operation @ [target]\<rparr>))"

definition setTargets :: "DeleteTarget list \<Rightarrow> DeleteOperation \<Rightarrow> DeleteOperation" where
  "setTargets targets operation = countTargets (pushTargets targets (operation\<lparr>scanDelivered := True\<rparr>))"

definition addFailedTarget :: "RemotePath \<Rightarrow> OperationError \<Rightarrow> DeleteOperation \<Rightarrow> DeleteOperation" where
  "addFailedTarget target error operation =
     operation\<lparr>failedEntries := failedEntries operation @ [(remote_value target,
       if error_extraInfo error = None then error\<lparr>error_extraInfo := Some (remote_value target)\<rparr> else error)]\<rparr>"

definition addScanRoot :: "ScanOperation \<Rightarrow> DeleteOperation \<Rightarrow> DeleteOperation" where
  "addScanRoot scan operation =
     operation\<lparr>delete_scanPhase := Some ((case delete_scanPhase operation of None \<Rightarrow> [] | Some scans \<Rightarrow> scans) @ [scan])\<rparr>"

definition removeOneInStrand :: "'srv SftpAnswers \<Rightarrow> RemotePath \<Rightarrow> FileType option \<Rightarrow> 'srv \<Rightarrow> (SftpFailure + unit) \<times> 'srv" where
  "removeOneInStrand answers path type srv =
     (case (case type of Some t \<Rightarrow> (Inr t, srv)
          | None \<Rightarrow> (case lstatInStrand answers path srv of
                (Inl e, srv) \<Rightarrow> (Inl e, srv) | (Inr information, srv) \<Rightarrow> (Inr (entry_type information), srv))) of
        (Inl e, srv) \<Rightarrow> (Inl e, srv)
      | (Inr t, srv) \<Rightarrow> if t = Directory then removeDirectoryInStrand answers path srv else removeFileInStrand answers path srv)"

text \<open>The task \<open>removeOnce\<close> gives to the processing thread.\<close>

definition removeTarget :: "'srv SftpAnswers \<Rightarrow> DeleteTarget \<Rightarrow> 'srv \<Rightarrow> (OperationError + unit) \<times> 'srv" where
  "removeTarget answers target srv =
     (case requireUnchangedRemoteInStrand answers (target_path target) (target_compared target) srv of
        (Inl e, srv) \<Rightarrow> (Inl e, srv)
      | (Inr _, srv) \<Rightarrow>
          (case removeOneInStrand answers (target_path target) (map_option cs_type (target_compared target)) srv of
             (Inl e, srv) \<Rightarrow>
               (if sftp_sftpError e \<noteq> SSH_FX_NO_SUCH_FILE
                then (Inl ((plain_error DeleteFailed)\<lparr>error_sftp := Some e,
                        error_extraInfo := Some (remote_value (target_path target))\<rparr>), srv)
                else (Inr (), srv))
           | (Inr _, srv) \<Rightarrow> (Inr (), srv)))"

definition removeOnce :: "'srv SftpAnswers \<Rightarrow> DeleteTarget \<Rightarrow> DeleteOperation \<Rightarrow> 'srv \<Rightarrow>
    (OperationError + unit) \<times> DeleteOperation \<times> 'srv" where
  "removeOnce answers target operation srv =
     (if \<not> session_open answers srv then (Inl channelClosedError, delete_fail channelClosedError operation, srv)
      else case removeTarget answers target srv of (result, srv') \<Rightarrow>
        if \<not> in_time answers srv
        then (Inl (plain_error FutureTimeout), delete_fail (plain_error FutureTimeout) operation, srv')
        else let operation = (case result of
                 Inl e \<Rightarrow> operation\<lparr>removalFailures := removalFailures operation + 1,
                   failedEntries := failedEntries operation @ [(remote_value (target_path target), e)]\<rparr>
               | Inr _ \<Rightarrow> operation) in
          (Inr (), operation\<lparr>deletedThusFar := deletedThusFar operation + 1\<rparr>, srv'))"

text \<open>The case \<open>Running\<close> and the case \<open>Preparing\<close> of \<open>work\<close>, which fall through in the source.\<close>

definition delete_run :: "'srv SftpAnswers \<Rightarrow> DeleteOperation \<Rightarrow> 'srv \<Rightarrow> WorkResult \<times> DeleteOperation \<times> 'srv" where
  "delete_run answers operation srv =
     (let finished = (\<lambda>operation srv.
        if failedEntries operation \<noteq> [] \<and> removalFailures operation = totalToDelete operation
        then (Inl (snd (last (failedEntries operation))), delete_fail (snd (last (failedEntries operation))) operation, srv)
        else (Inr Complete, operation\<lparr>delete_state := Completed\<rparr>, srv)) in
      if deletedThusFar operation < totalToDelete operation then
        (case removeOnce answers (delete_targets operation ! (totalToDelete operation - deletedThusFar operation - 1)) operation srv of
           (Inl e, operation, srv) \<Rightarrow> (Inl e, operation, srv)
         | (Inr _, operation, srv) \<Rightarrow>
             if deletedThusFar operation < totalToDelete operation then (Inr MoreWork, operation, srv)
             else finished operation srv)
      else finished operation srv)"

definition delete_prepare :: "'srv SftpAnswers \<Rightarrow> DeleteOperation \<Rightarrow> 'srv \<Rightarrow> WorkResult \<times> DeleteOperation \<times> 'srv" where
  "delete_prepare answers operation srv =
     (let refuse = (\<lambda>error. (Inl error, delete_fail error operation, srv)) in
      if \<not> delete_recursive operation then
        (if remote_empty (delete_remotePath operation) \<or> remote_isRoot (delete_remotePath operation)
         then refuse ((plain_error InvalidPath)\<lparr>error_extraInfo := Some (remote_value (delete_remotePath operation))\<rparr>)
         else delete_run answers (operation\<lparr>delete_state := Running,
             delete_targets := [\<lparr>target_path = delete_remotePath operation, target_compared = None\<rparr>],
             totalToDelete := 1\<rparr>) srv)
      else if \<not> scanDelivered operation then refuse (plain_error ScanIncomplete)
      else case invalidScanEntry operation of
          Some invalid \<Rightarrow> refuse ((plain_error InvalidPath)\<lparr>error_extraInfo := Some invalid\<rparr>)
        | None \<Rightarrow> delete_run answers (operation\<lparr>delete_state := Running\<rparr>) srv)"

text \<open>The callbacks \<open>addScanRoot\<close> gives to its phase.\<close>

definition delete_deliver :: "ScanOperation \<Rightarrow> DeleteOperation \<Rightarrow> DeleteOperation" where
  "delete_deliver scan operation =
     (case appendScanResult (scan_remotePath scan) (deep_entries (scan_walker scan)) operation of
        Some operation' \<Rightarrow> operation' | None \<Rightarrow> operation)"

definition delete_scanFailed :: "ScanOperation \<Rightarrow> OperationError \<Rightarrow> DeleteOperation \<Rightarrow> DeleteOperation" where
  "delete_scanFailed scan error operation =
     addFailedTarget (scan_remotePath scan) error (operation\<lparr>scanDelivered := True\<rparr>)"

definition delete_work :: "'srv SftpAnswers \<Rightarrow> DeleteOperation \<Rightarrow> 'srv \<Rightarrow> WorkResult \<times> DeleteOperation \<times> 'srv" where
  "delete_work answers operation srv =
     (case delete_scanPhase operation of
        Some scans \<Rightarrow>
          (case scanPhase_step answers delete_deliver (Some delete_scanFailed) scans operation srv of
             (Inl error, scans, operation, srv) \<Rightarrow>
               (Inl error, delete_fail error (operation\<lparr>delete_scanPhase := Some scans\<rparr>), srv)
           | (Inr status, scans, operation, srv) \<Rightarrow>
               (Inr MoreWork, operation\<lparr>delete_scanPhase := (if status = Complete then None else Some scans)\<rparr>, srv))
      | None \<Rightarrow>
          (case delete_state operation of
             NotStarted \<Rightarrow> delete_prepare answers (operation\<lparr>delete_state := Preparing\<rparr>) srv
           | Preparing \<Rightarrow> delete_prepare answers operation srv
           | Prepared \<Rightarrow> delete_run answers (operation\<lparr>delete_state := Running\<rparr>) srv
           | Running \<Rightarrow> delete_run answers operation srv
           | Finalizing \<Rightarrow> (Inr Complete, operation\<lparr>delete_state := Completed\<rparr>, srv)
           | Completed \<Rightarrow> (Inl (plain_error CannotWorkCompletedOperation), operation, srv)
           | Failed \<Rightarrow> (Inl (plain_error CannotWorkFailedOperation), operation, srv)
           | Canceled \<Rightarrow> (Inl (plain_error CannotWorkCanceledOperation), operation, srv)
           | PartialSuccess \<Rightarrow> (Inl (plain_error CannotWorkCompletedOperation), operation, srv)))"

definition delete_cancel :: "bool \<Rightarrow> DeleteOperation \<Rightarrow> DeleteOperation" where
  "delete_cancel adoptCancelState operation =
     (let operation = operation\<lparr>delete_scanPhase := map_option (scanPhase_cancel adoptCancelState) (delete_scanPhase operation)\<rparr> in
      if adoptCancelState then operation\<lparr>delete_state := Canceled\<rparr> else operation)"

definition delete_class :: "'srv SftpAnswers \<Rightarrow> (DeleteOperation, 'srv, 'backup) OperationClass" where
  "delete_class answers = \<lparr>class_type = (\<lambda>_. Delete), class_state = delete_state,
     isBarrier = (\<lambda>operation. delete_scanPhase operation \<noteq> None),
     parallelWorkDoable = (\<lambda>_ _. 1), setParallelBudget = (\<lambda>_ operation. operation), usesStrand = (\<lambda>_. False),
     has_strand = (\<lambda>_. session_open answers), strand_runs = (\<lambda>_. session_open answers), class_work = delete_work answers,
     class_workInStrand = delete_work answers, class_cancel = delete_cancel, class_pause = (\<lambda>_ operation. operation),
     keepPartialFiles = (\<lambda>operation. operation), keptPartialFiles = (\<lambda>_. None),
     partialFileOnCancel = (\<lambda>_ operation. operation), failed_entries = failedEntries, completed_paths = (\<lambda>operation. (None, unlessEmpty (delete_remotePath operation))),
     left_backup = (\<lambda>_ backup. backup), single_transfer = (\<lambda>_. None)\<rparr>"

subsection \<open>What a queue relies on\<close>

locale queue_operation =
  fixes cls :: "('op, 'w, 'backup) OperationClass"
  assumes failed_ends: "class_work cls operation world = (Inl e, operation', world') \<Longrightarrow> hasEnded (class_state cls operation')"
    and complete_ends: "class_work cls operation world = (Inr Complete, operation', world') \<Longrightarrow>
       class_state cls operation' = Completed"
    and cancel_ends: "class_state cls (class_cancel cls True operation) = Canceled"
begin

lemma finished_ends:
  "class_work cls operation world = (result, operation', world') \<Longrightarrow> result = Inr Complete \<or> (\<exists>e. result = Inl e) \<Longrightarrow>
     hasEnded (class_state cls operation')"
  using failed_ends complete_ends by (auto simp: hasEnded_def)

lemma cancelled_ended: "hasEnded (class_state cls (class_cancel cls True operation))"
  by (simp add: cancel_ends hasEnded_def)

end

interpretation rename_operation: queue_operation "rename_class answers"
  by unfold_locales
    (auto simp: rename_class_def rename_work_def rename_run_def rename_fail_def rename_cancel_def hasEnded_def
      split: OperationState.splits if_splits sum.splits prod.splits)

lemma scan_work_ends:
  "scan_work answers operation srv = (Inl e, operation', srv') \<Longrightarrow> hasEnded (scan_state operation')"
  "scan_work answers operation srv = (Inr Complete, operation', srv') \<Longrightarrow> scan_state operation' = Completed"
  by (auto simp: scan_work_def scan_fail_def hasEnded_def Let_def split: OperationState.splits if_splits sum.splits prod.splits)

interpretation scan_operation: queue_operation "scan_class answers"
  by unfold_locales (use scan_work_ends in \<open>auto simp: scan_class_def scan_cancel_def\<close>)

lemma removeOnce_fails: "removeOnce answers target operation srv = (Inl e, operation', srv') \<Longrightarrow> delete_state operation' = Failed"
  by (auto simp: removeOnce_def delete_fail_def Let_def split: if_splits prod.splits)

lemma delete_run_ends:
  "delete_run answers operation srv = (Inl e, operation', srv') \<Longrightarrow> delete_state operation' = Failed"
  "delete_run answers operation srv = (Inr Complete, operation', srv') \<Longrightarrow> delete_state operation' = Completed"
  by (auto simp: delete_run_def delete_fail_def Let_def dest: removeOnce_fails split: if_splits prod.splits sum.splits)

lemma delete_prepare_ends:
  "delete_prepare answers operation srv = (Inl e, operation', srv') \<Longrightarrow> delete_state operation' = Failed"
  "delete_prepare answers operation srv = (Inr Complete, operation', srv') \<Longrightarrow> delete_state operation' = Completed"
  by (auto simp: delete_prepare_def delete_fail_def Let_def dest: delete_run_ends split: if_splits option.splits)

lemma delete_work_ends:
  "delete_work answers operation srv = (Inl e, operation', srv') \<Longrightarrow> hasEnded (delete_state operation')"
  "delete_work answers operation srv = (Inr Complete, operation', srv') \<Longrightarrow> delete_state operation' = Completed"
  by (auto simp: delete_work_def delete_fail_def hasEnded_def dest!: delete_run_ends delete_prepare_ends
      split: option.splits OperationState.splits prod.splits sum.splits)

interpretation delete_operation: queue_operation "delete_class answers"
  by unfold_locales (use delete_work_ends in \<open>auto simp: delete_class_def delete_cancel_def Let_def\<close>)


text \<open>A server for the witnesses: one directory with one file, nothing refused.\<close>

definition sample_server :: "unit SftpAnswers" where
  "sample_server = \<lparr>session_open = (\<lambda>_. True), in_time = (\<lambda>_. True),
     listDirectory = (\<lambda>path srv. (Inr (if path = remote_of [''r''] then [root_entry\<lparr>entry_name := ''a'', entry_type := Regular\<rparr>] else []), srv)),
     lstatInStrand = (\<lambda>path srv. (Inr (root_entry\<lparr>entry_type := if path = remote_of [''r''] then Directory else Regular\<rparr>), srv)),
     readLinkInStrand = (\<lambda>_ srv. (Inr [], srv)), removeFileInStrand = (\<lambda>_ srv. (Inr (), srv)),
     removeDirectoryInStrand = (\<lambda>_ srv. (Inr (), srv)), renameNoReplaceInStrand = (\<lambda>_ _ srv. (Inr (), srv)),
     readRemoteFile = (\<lambda>_ srv. (None, srv))\<rparr>"

text \<open>C25:
  The slot budget of a tick: the operations that may run are the head of the queue in its order, each gets at least one
  slot, together they get no more than the budget, nothing runs behind a barrier, and the head is as long as it can be:
  it ends at the end of the queue, when the slots are spent or at a barrier.
\<close>

theorem slot_budget:
  "let eligible = collectEligibleOperations cls queue budget; n = length eligible; spent = sum_list (map eligible_slots eligible) in
     map eligible_index eligible = [0..<n] \<and> n \<le> length queue \<and> (\<forall>e \<in> set eligible. 1 \<le> eligible_slots e) \<and>
     spent \<le> max 1 budget \<and> (\<forall>k. Suc k < n \<longrightarrow> \<not> isBarrier cls (snd (queue ! k))) \<and>
     (n < length queue \<longrightarrow> spent = max 1 budget \<or> n > 0 \<and> isBarrier cls (snd (queue ! (n - 1))))"
proof -
  have positive: "max 1 budget > 0" by simp
  let ?eligible = "collectFrom cls queue 0 (max 1 budget)"
  have "map eligible_index ?eligible = [0..<length ?eligible]" using collectFrom_indices [of cls queue 0] by simp
  moreover have "length ?eligible \<le> length queue" by (rule collectFrom_length)
  moreover note collectFrom_slots [OF positive, of cls queue 0] collectFrom_barriers [of _ cls queue 0 "max 1 budget"]
    collectFrom_maximal [OF positive refl, of cls queue 0]
  ultimately show ?thesis unfolding collectEligibleOperations_def Let_def by blast
qed

lemma slot_budget_witness:
  "let queue = [(''a'', scan_new (remote_of [''r'']) False True False), (''b'', scan_new (remote_of [''s'']) False True False)];
       eligible = collectEligibleOperations (scan_class sample_server :: (ScanOperation, unit, unit) OperationClass) queue 4 in
     length eligible = 1 \<and> isBarrier (scan_class sample_server :: (ScanOperation, unit, unit) OperationClass) (snd (queue ! 0))"
proof -
  let ?cls = "scan_class sample_server :: (ScanOperation, unit, unit) OperationClass"
  let ?queue = "[(''a'', scan_new (remote_of [''r'']) False True False), (''b'', scan_new (remote_of [''s'']) False True False)]"
  have one: "length (collectEligibleOperations ?cls ?queue 4) = 1"
    "sum_list (map eligible_slots (collectEligibleOperations ?cls ?queue 4)) = 1"
    by (simp_all add: collectEligibleOperations_def clamp_def scan_class_def Let_def)
  from slot_budget [of ?cls ?queue 4] one show ?thesis by (simp add: Let_def)
qed

end
