(* ===== verification/Recursive_Delete.thy ===== *)
theory Recursive_Delete
  imports Remote_Operations
begin

text \<open>
  What a recursive delete does to the server: the scan of its root (\<open>scan_operation.cpp\<close>), delivered through the scan
  phase (\<open>scan_phase.hpp\<close>), and the removals (\<open>delete_operation.cpp\<close>), as one run of work steps. The server's answers
  are recorded in a log: the removals it carried out, the removals it refused and the items it said are gone. \<open>disk\<close> is the content of the
  directories below the root that every listing shows. The lemmas show that nothing outside is touched, that no item is
  removed before what lies below it, and what a run without failures has removed.
\<close>

subsection \<open>A server that is watched\<close>

text \<open>
  The log: a removal that the server reported as done, a removal that it answered with an error, and an item of which
  it said (to a removal or to a look at its attributes) that there is no such file.
\<close>

datatype ServerCall = Removed RemotePath | NotRemoved RemotePath | Gone RemotePath

definition goneBy :: "RemotePath \<Rightarrow> SftpFailure + 'a \<Rightarrow> ServerCall list" where
  "goneBy path result = (case result of
     Inl e \<Rightarrow> if sftp_sftpError e = SSH_FX_NO_SUCH_FILE then [Gone path] else []
   | Inr _ \<Rightarrow> [])"

definition removedBy :: "RemotePath \<Rightarrow> SftpFailure + 'a \<Rightarrow> ServerCall list" where
  "removedBy path result = (case result of Inl _ \<Rightarrow> [NotRemoved path] | Inr _ \<Rightarrow> [Removed path]) @ goneBy path result"

definition watch :: "('srv \<Rightarrow> (SftpFailure + 'a) \<times> 'srv) \<Rightarrow> (SftpFailure + 'a \<Rightarrow> ServerCall list) \<Rightarrow>
    'srv \<times> ServerCall list \<Rightarrow> (SftpFailure + 'a) \<times> 'srv \<times> ServerCall list" where
  "watch ask calls state = (case ask (fst state) of (result, srv) \<Rightarrow> (result, srv, snd state @ calls result))"

definition watched :: "'srv SftpAnswers \<Rightarrow> ('srv \<times> ServerCall list) SftpAnswers" where
  "watched answers = \<lparr>session_open = session_open answers \<circ> fst, in_time = in_time answers \<circ> fst,
     listDirectory = (\<lambda>path. watch (listDirectory answers path) (\<lambda>_. [])),
     lstatInStrand = (\<lambda>path. watch (lstatInStrand answers path) (goneBy path)),
     readLinkInStrand = (\<lambda>path. watch (readLinkInStrand answers path) (\<lambda>_. [])),
     removeFileInStrand = (\<lambda>path. watch (removeFileInStrand answers path) (removedBy path)),
     removeDirectoryInStrand = (\<lambda>path. watch (removeDirectoryInStrand answers path) (removedBy path)),
     renameNoReplaceInStrand = (\<lambda>source destination. watch (renameNoReplaceInStrand answers source destination) (\<lambda>_. [])),
     readRemoteFile = (\<lambda>path state. case readRemoteFile answers path (fst state) of (result, srv) \<Rightarrow> (result, srv, snd state))\<rparr>"

text \<open>Every removal the server was asked for, in order.\<close>

fun removals :: "ServerCall list \<Rightarrow> RemotePath list" where
  "removals [] = []"
| "removals (Removed path # calls) = path # removals calls"
| "removals (NotRemoved path # calls) = path # removals calls"
| "removals (Gone path # calls) = removals calls"

lemma removals_append [simp]: "removals (xs @ ys) = removals xs @ removals ys"
  by (induction xs rule: removals.induct) auto

lemma removeTarget_calls:
  assumes "removeTarget (watched answers) target (srv, calls) = (result, srv', calls')" and "target_compared target = None"
  shows "\<exists>new. calls' = calls @ new \<and> subseq (removals new) [target_path target] \<and>
    (result = Inr () \<longrightarrow> Removed (target_path target) \<in> set new \<or> Gone (target_path target) \<in> set new)"
proof -
  obtain info srv1 where info: "lstatInStrand answers (target_path target) srv = (info, srv1)" by force
  show ?thesis
  proof (cases info)
    case (Inl e)
    with info assms show ?thesis
      by (cases "sftp_sftpError e = SSH_FX_NO_SUCH_FILE")
        (auto simp: removeTarget_def requireUnchangedRemoteInStrand_def removeOneInStrand_def watched_def watch_def goneBy_def)
  next
    case (Inr entry)
    obtain r srv2 where "(if entry_type entry = Directory then removeDirectoryInStrand answers (target_path target) srv1
        else removeFileInStrand answers (target_path target) srv1) = (r, srv2)" by force
    with info Inr assms have "calls' = calls @ removedBy (target_path target) r \<and>
        (result = Inr () \<longrightarrow> r = Inr () \<or> (\<exists>e. r = Inl e \<and> sftp_sftpError e = SSH_FX_NO_SUCH_FILE))"
      by (cases r) (auto simp: removeTarget_def requireUnchangedRemoteInStrand_def removeOneInStrand_def watched_def watch_def
          goneBy_def split: if_splits)
    then show ?thesis
      by (intro exI [of _ "removedBy (target_path target) r"]) (cases r; auto simp: removedBy_def goneBy_def)
  qed
qed

subsection \<open>The run of a recursive delete\<close>

text \<open>The steps a queue makes until the operation is out of it.\<close>

inductive delete_run_to :: "'srv SftpAnswers \<Rightarrow> DeleteOperation \<times> 'srv \<Rightarrow> WorkResult option \<Rightarrow> DeleteOperation \<times> 'srv \<Rightarrow> bool"
  for answers start where
  run_start: "delete_run_to answers start None start"
| run_more: "delete_run_to answers start last_result (operation, srv) \<Longrightarrow> last_result \<in> {None, Some (Inr MoreWork)} \<Longrightarrow>
     delete_work answers operation srv = (result, operation', srv') \<Longrightarrow>
     delete_run_to answers start (Some result) (operation', srv')"

definition recursive_delete :: "RemotePath \<Rightarrow> DeleteOperation" where
  "recursive_delete root = addScanRoot (scan_new root False True False) (delete_new root True)"

text \<open>Every listing below the root shows what \<open>disk\<close> has there.\<close>

definition serves :: "'srv SftpAnswers \<Rightarrow> RemotePath \<Rightarrow> (RelativePath \<Rightarrow> DirectoryEntry list) \<Rightarrow> bool" where
  "serves answers root disk \<longleftrightarrow>
     (\<forall>relative srv listing srv'. listDirectory answers (remote_div root relative) srv = (Inr listing, srv') \<longrightarrow>
        listing = disk relative)"

definition plain_scan :: "RemotePath \<Rightarrow> ScanOperation \<Rightarrow> bool" where
  "plain_scan root scan \<longleftrightarrow> scan_remotePath scan = root \<and> scan_recursive scan \<and> \<not> respectIgnoreFiles scan \<and>
     \<not> ignoreHidden scan \<and> \<not> buildTree scan"

lemma scan_scanner_eq:
  assumes "plain_scan root scan" and "listDirectory answers (remote_div root relative) srv = (r, srv1)"
  shows "scan_scanner answers (scan, srv) relative =
    (let operation = scan\<lparr>rootScanned := True\<rparr> in
     if \<not> session_open answers srv then (Inl channelClosedError, scan_fail channelClosedError operation, srv)
     else if \<not> in_time answers srv then (Inl (plain_error FutureTimeout), scan_fail (plain_error FutureTimeout) operation, srv1)
     else case r of
         Inl e \<Rightarrow> (Inl ((plain_error SftpError)\<lparr>error_sftp := Some e\<rparr>),
           scan_fail ((plain_error SftpError)\<lparr>error_sftp := Some e\<rparr>) operation, srv1)
       | Inr listing \<Rightarrow> (Inr listing, operation, srv1))"
proof -
  have root: "scan_remotePath scan = root" "scan_recursive scan" "\<not> respectIgnoreFiles scan" "\<not> ignoreHidden scan" "\<not> buildTree scan"
    using assms(1) by (simp_all add: plain_scan_def)
  then show ?thesis using assms(2) by (cases r) (simp_all add: scan_scanner_def Let_def)
qed

lemma scan_scanner_plain:
  assumes "plain_scan root scan" and "scan_scanner answers (scan, srv) relative = (result, scan', srv')"
  shows "plain_scan root scan'" and "scan_walker scan' = scan_walker scan" and "scan_state scan' \<in> {scan_state scan, Failed}"
    and "result = Inr listing \<Longrightarrow> scan_state scan' = scan_state scan \<and> (\<exists>srv1. listDirectory answers (remote_div root relative) srv = (Inr listing, srv1))"
proof -
  obtain r srv1 where list: "listDirectory answers (remote_div root relative) srv = (r, srv1)" by force
  note scanned = assms(2) [unfolded scan_scanner_eq [OF assms(1) list] Let_def]
  have "plain_scan root scan' \<and> scan_walker scan' = scan_walker scan \<and> scan_state scan' \<in> {scan_state scan, Failed} \<and>
      (\<forall>listing. result = Inr listing \<longrightarrow> scan_state scan' = scan_state scan \<and> r = Inr listing)"
    using scanned assms(1)
    by (cases r; cases "session_open answers srv"; cases "in_time answers srv") (auto simp: plain_scan_def scan_fail_def)
  with list show "plain_scan root scan'" "scan_walker scan' = scan_walker scan" "scan_state scan' \<in> {scan_state scan, Failed}"
    "result = Inr listing \<Longrightarrow> scan_state scan' = scan_state scan \<and> (\<exists>srv1. listDirectory answers (remote_div root relative) srv = (Inr listing, srv1))"
    by auto
qed

lemma deep_walk_cong:
  "scan s (deep_paths w ! deep_index w) = scan' s (deep_paths w ! deep_index w) \<Longrightarrow> deep_walk scan s w = deep_walk scan' s w"
  by (simp add: deep_walk_def)

lemma deep_walk_states:
  "deep_walk scan s w = (r, s', w') \<Longrightarrow> s' = s \<or> (\<exists>x. scan s (deep_paths w ! deep_index w) = (x, s'))"
  by (auto simp: deep_walk_def Let_def split: if_splits sum.splits prod.splits)

lemma scan_work_plain:
  assumes "serves answers root disk" and "plain_scan root scan" and "walking disk (scan_walker scan)"
    and "scan_work answers scan srv = (result, scan', srv')"
  shows "plain_scan root scan' \<and> walking disk (scan_walker scan') \<and> (result = Inr Complete \<longrightarrow> deep_completed (scan_walker scan'))"
proof (cases "scan_state scan = Running \<and> \<not> deep_completed (scan_walker scan)")
  case True
  let ?w = "scan_walker scan"
  let ?s = "scan_scanner answers" and ?d = "\<lambda>(s :: ScanOperation \<times> 'a) p. if s = (scan, srv) then scan_scanner answers s p else (Inr (disk p), s)"
  have same: "deep_walk ?s (scan, srv) ?w = deep_walk ?d (scan, srv) ?w"
    by (rule deep_walk_cong) simp
  have answers: "answers_disk disk ?d"
    unfolding answers_disk_def
  proof (intro allI impI)
    fix s :: "ScanOperation \<times> 'a" and p listing s'
    assume answer: "?d s p = (Inr listing, s')"
    show "listing = disk p"
    proof (cases "s = (scan, srv)")
      case True
      obtain scan2 srv2 where s': "s' = (scan2, srv2)" by force
      with True answer have "scan_scanner answers (scan, srv) p = (Inr listing, scan2, srv2)" by simp
      from scan_scanner_plain(4) [OF assms(2) this refl] assms(1) show ?thesis by (auto simp: serves_def)
    qed (use answer in simp)
  qed
  obtain r scan1 srv1 w1 where walk: "deep_walk ?s (scan, srv) ?w = (r, (scan1, srv1), w1)" by (metis prod_cases3 prod.collapse)
  from deep_walk_step [OF answers assms(3) walk [unfolded same]] have w1: "walking disk w1" by blast
  have "plain_scan root scan1"
  proof -
    consider "scan1 = scan" | x where "scan_scanner answers (scan, srv) (deep_paths ?w ! deep_index ?w) = (x, scan1, srv1)"
      using deep_walk_states [OF walk] by auto
    then show ?thesis using assms(2) scan_scanner_plain(1) [OF assms(2)] by cases blast+
  qed
  with True walk w1 assms(4) show ?thesis
    by (auto simp: scan_work_def scan_fail_def plain_scan_def split: sum.splits)
qed (use assms in \<open>auto simp: scan_work_def scan_fail_def plain_scan_def Let_def split: OperationState.splits if_splits\<close>)
subsection \<open>The targets of a finished scan\<close>

definition delete_paths :: "string list \<Rightarrow> DirectoryEntry list \<Rightarrow> RemotePath list" where
  "delete_paths rs es = map (\<lambda>i. remote_of (rs @ path_of es i)) [0..<length es]"

abbreviation plain_target :: "RemotePath \<Rightarrow> DeleteTarget" where
  "plain_target path \<equiv> \<lparr>target_path = path, target_compared = None\<rparr>"

lemma path_of_walked:
  assumes "walked_list es" and "i < length es"
  shows "entry_path es i (path_of es i)" and "valid_names (path_of es i)"
  using entry_path_exists [OF assms] path_of_eq by blast+

lemma appendTargets_walked:
  assumes walked: "walked_list es" and rs: "valid_names rs" "rs \<noteq> []"
  shows "xs = drop index es \<Longrightarrow> index \<le> length es \<Longrightarrow>
    appendTargets (remote_of rs) es index xs operation =
      Some (operation\<lparr>delete_targets := delete_targets operation @
        map (\<lambda>i. plain_target (remote_of (rs @ path_of es i))) [index..<length es]\<rparr>)"
proof (induction xs arbitrary: index operation)
  case (Cons x xs)
  then have index: "index < length es" by (metis drop_eq_Nil2 leI list.distinct(1))
  then have x: "x = es ! index" "xs = drop (Suc index) es" using Cons.prems(1) by (simp_all add: Cons_nth_drop_Suc [symmetric])
  have parent: "\<not> (index > 0 \<and> entry_parent x = None)" using walked index by (auto simp: walked_list_def x)
  note path = path_of_walked [OF walked index]
  have walk: "walkedRelativePath es x = Some (Inr (relative_of (path_of es index)))"
    using walkedRelativePath_of [OF walked index path(1)] by (simp add: x)
  have div: "remote_div (remote_of rs) (relative_of (path_of es index)) = remote_of (rs @ path_of es index)"
    by (rule remote_operations(2) [OF rs(1) path(2)])
  have notroot: "\<not> remote_isRoot (remote_of (rs @ path_of es index))" using remote_of_basic(4) [of "rs @ path_of es index"] rs path(2) by auto
  from parent walk div notroot have "appendTargets (remote_of rs) es index (x # xs) operation =
      appendTargets (remote_of rs) es (index + 1) xs (operation\<lparr>delete_targets := delete_targets operation @
        [plain_target (remote_of (rs @ path_of es index))]\<rparr>)"
    by (auto simp: remote_of_basic(3) Let_def)
  also have "\<dots> = Some (operation\<lparr>delete_targets := delete_targets operation @
        map (\<lambda>i. plain_target (remote_of (rs @ path_of es i))) [index..<length es]\<rparr>)"
    using Cons.IH [of "index + 1"] x(2) index by (simp add: upt_conv_Cons)
  finally show ?case .
qed simp

lemma appendScanResult_walked:
  assumes "walked_list es" and "valid_names rs" "rs \<noteq> []" and "invalidScanEntry operation = None"
  shows "appendScanResult (remote_of rs) es operation = Some (operation\<lparr>scanDelivered := True,
    delete_targets := delete_targets operation @ map plain_target (delete_paths rs es),
    totalToDelete := length (delete_targets operation) + length (delete_paths rs es)\<rparr>)"
  using appendTargets_walked [OF assms(1-3), of es 0] assms(4)
  by (simp add: appendScanResult_def countTargets_def delete_paths_def comp_def)

text \<open>\<open>b\<close> lies strictly below \<open>a\<close>.\<close>

definition strictly_below :: "RemotePath \<Rightarrow> RemotePath \<Rightarrow> bool" where
  "strictly_below a b \<longleftrightarrow> remote_isWithin b a \<and> b \<noteq> a"

lemma delete_paths_order:
  assumes "walk_state disk es paths n" and "valid_names rs"
  shows "sorted_wrt (\<lambda>a b. \<not> strictly_below a b) (rev (delete_paths rs es))"
proof -
  have "\<not> strictly_below (remote_of (rs @ path_of es j)) (remote_of (rs @ path_of es i))" if ij: "i < j" "j < length es" for i j
  proof
    note walked = walk_stateD(1) [OF assms(1)]
    have pi: "entry_path es i (path_of es i)" "valid_names (path_of es i)"
      and pj: "entry_path es j (path_of es j)" "valid_names (path_of es j)"
      using path_of_walked [OF walked less_trans [OF ij]] path_of_walked [OF walked ij(2)] by blast+
    assume "strictly_below (remote_of (rs @ path_of es j)) (remote_of (rs @ path_of es i))"
    moreover have "remote_isWithin (remote_of (rs @ path_of es i)) (remote_of (rs @ path_of es j)) \<longleftrightarrow>
        prefix (rs @ path_of es j) (rs @ path_of es i)"
      by (rule remote_operations(5)) (use pi(2) pj(2) assms(2) in auto)
    ultimately have "strict_prefix (path_of es j) (path_of es i)"
      by (auto simp: strictly_below_def strict_prefix_def)
    then have "length (path_of es j) < length (path_of es i)" by (rule prefix_length_less)
    moreover have "length (path_of es i) \<le> length (path_of es j)"
      using walk_stateD(9) [OF assms(1) _ pi(1) pj(1)] ij by simp
    ultimately show False by simp
  qed
  then show ?thesis
    unfolding delete_paths_def sorted_wrt_rev sorted_wrt_map by (auto simp: sorted_wrt_iff_nth_less)
qed

lemma delete_paths_reachable:
  assumes "walking disk w" and "deep_completed w"
  shows "set (delete_paths rs (deep_entries w)) = {remote_of (rs @ ns) |ns. \<exists>e. reachable_entry disk ns e}"
proof -
  note walked = walk_stateD(1) [OF assms(1)]
  show ?thesis
  proof (intro set_eqI iffI)
    fix p assume "p \<in> set (delete_paths rs (deep_entries w))"
    then obtain i where "i < length (deep_entries w)" "p = remote_of (rs @ path_of (deep_entries w) i)"
      by (auto simp: delete_paths_def)
    with walked_reachable [OF assms(1) path_of_walked(1) [OF walked]] show "p \<in> {remote_of (rs @ ns) |ns. \<exists>e. reachable_entry disk ns e}"
      by blast
  next
    fix p assume "p \<in> {remote_of (rs @ ns) |ns. \<exists>e. reachable_entry disk ns e}"
    then obtain ns e where p: "p = remote_of (rs @ ns)" "reachable_entry disk ns e" by blast
    from reachable_walked [OF assms p(2)] obtain i where i: "entry_path (deep_entries w) i ns" by blast
    then have "i < length (deep_entries w)" "path_of (deep_entries w) i = ns" by (simp_all add: entry_path_bound path_of_eq)
    then show "p \<in> set (delete_paths rs (deep_entries w))" by (auto simp: delete_paths_def p(1))
  qed
qed

subsection \<open>The run, phase by phase\<close>

definition scan_phase :: "(RelativePath \<Rightarrow> DirectoryEntry list) \<Rightarrow> string list \<Rightarrow> DeleteOperation \<Rightarrow> ServerCall list \<Rightarrow> bool" where
  "scan_phase disk rs operation calls \<longleftrightarrow>
     (\<exists>scan. operation = (delete_new (remote_of rs) True)\<lparr>delete_scanPhase := Some [scan]\<rparr> \<and>
        plain_scan (remote_of rs) scan \<and> walking disk (scan_walker scan)) \<and> removals calls = []"

text \<open>\<open>paths\<close> are the targets; \<open>attempted\<close> of them, from the back, have been given to the server.\<close>

definition handled :: "ServerCall list \<Rightarrow> (string \<times> OperationError) list \<Rightarrow> RemotePath \<Rightarrow> bool" where
  "handled calls failed path \<longleftrightarrow>
     Removed path \<in> set calls \<or> Gone path \<in> set calls \<or> remote_value path \<in> fst ` set failed"

definition delete_phase :: "RemotePath list \<Rightarrow> nat \<Rightarrow> DeleteOperation \<Rightarrow> ServerCall list \<Rightarrow> bool" where
  "delete_phase paths attempted operation calls \<longleftrightarrow>
     delete_scanPhase operation = None \<and> delete_recursive operation \<and> scanDelivered operation \<and>
     invalidScanEntry operation = None \<and> delete_targets operation = map plain_target paths \<and>
     totalToDelete operation = length paths \<and> deletedThusFar operation \<le> length paths \<and>
     removalFailures operation \<le> deletedThusFar operation \<and>
     subseq (removals calls) (take attempted (rev paths)) \<and>
     (\<forall>path \<in> set (take (deletedThusFar operation) (rev paths)). handled calls (failedEntries operation) path)"

lemma handled_mono:
  "handled calls failed path \<Longrightarrow> handled (calls @ more_calls) (failed @ more_failed) path"
  by (auto simp: handled_def)

lemma removeOnce_phase:
  assumes "delete_phase paths (deletedThusFar operation) operation calls" and "deletedThusFar operation < length paths"
    and "removeOnce (watched answers) (delete_targets operation ! (totalToDelete operation - deletedThusFar operation - 1)) operation (srv, calls)
      = (result, operation', srv', calls')"
  shows "delete_phase paths (Suc (deletedThusFar operation)) operation' calls' \<and>
    (result = Inr () \<longrightarrow> deletedThusFar operation' = Suc (deletedThusFar operation) \<and> delete_state operation' = delete_state operation)"
proof -
  let ?k = "deletedThusFar operation" and ?path = "rev paths ! deletedThusFar operation"
  note ph = assms(1) [unfolded delete_phase_def]
  have target: "delete_targets operation ! (totalToDelete operation - ?k - 1) = plain_target ?path"
    using ph assms(2) by (simp add: rev_nth)
  have take: "take (Suc ?k) (rev paths) = take ?k (rev paths) @ [?path]"
    using assms(2) by (simp add: take_Suc_conv_app_nth)
  have sub: "subseq (removals calls) (take ?k (rev paths))" using ph by blast
  have old: "handled calls (failedEntries operation) path" if "path \<in> set (take ?k (rev paths))" for path
    using ph that by blast
  show ?thesis
  proof (cases "session_open answers srv")
    case False
    have "subseq (removals calls) (take ?k (rev paths) @ [?path])"
      using list_emb_append_mono [OF sub, of "[]" "[?path]"] by simp
    with False assms(3) ph show ?thesis unfolding delete_phase_def
      by (auto simp: removeOnce_def watched_def delete_fail_def take)
  next
    case True
    obtain r srv1 calls1 where remove: "removeTarget (watched answers) (plain_target ?path) (srv, calls) = (r, srv1, calls1)"
      by (metis prod_cases3)
    obtain new where new: "calls1 = calls @ new" "subseq (removals new) [?path]"
      "r = Inr () \<longrightarrow> Removed ?path \<in> set new \<or> Gone ?path \<in> set new"
      using removeTarget_calls [OF remove] by auto
    have sub': "subseq (removals (calls @ new)) (take ?k (rev paths) @ [?path])"
      using list_emb_append_mono [OF sub new(2)] by simp
    have mono: "handled (calls @ new) (failedEntries operation @ failed) path" if "path \<in> set (take ?k (rev paths))" for path failed
      by (rule handled_mono [OF old [OF that]])
    show ?thesis
    proof (cases "in_time answers srv")
      case False
      with True assms(3) ph sub' new(1) remove mono [of _ "[]"] show ?thesis unfolding delete_phase_def target take
        by (auto simp: removeOnce_def watched_def delete_fail_def)
    next
      case in_time: True
      have "handled (calls @ new) (failedEntries operation @ (case r of Inl e \<Rightarrow> [(remote_value ?path, e)] | Inr _ \<Rightarrow> [])) ?path"
        using new(3) by (cases r) (auto simp: handled_def)
      with True in_time assms(3) ph sub' new(1) remove mono [of _ "case r of Inl e \<Rightarrow> [(remote_value ?path, e)] | Inr _ \<Rightarrow> []"] assms(2)
      show ?thesis unfolding delete_phase_def target
        by (cases r) (auto simp: removeOnce_def watched_def take)
    qed
  qed
qed

definition scanned_paths :: "(RelativePath \<Rightarrow> DirectoryEntry list) \<Rightarrow> string list \<Rightarrow> (string \<times> OperationError) list \<Rightarrow> RemotePath list \<Rightarrow> bool" where
  "scanned_paths disk rs failed paths \<longleftrightarrow>
     (\<exists>w. walking disk w \<and> deep_completed w \<and> paths = delete_paths rs (deep_entries w)) \<or> paths = [] \<and> failed \<noteq> []"

lemma removeOnce_failed_mono:
  "removeOnce answers target operation state = (result, operation', state') \<Longrightarrow>
     \<exists>failed. failedEntries operation' = failedEntries operation @ failed"
  by (auto simp: removeOnce_def delete_fail_def Let_def split: if_splits prod.splits sum.splits)

lemma delete_run_phase:
  assumes "delete_phase paths (deletedThusFar operation) operation calls" and "scanned_paths disk rs (failedEntries operation) paths"
    and "delete_run (watched answers) operation (srv, calls) = (result, operation', srv', calls')"
  shows "\<exists>attempted. delete_phase paths attempted operation' calls' \<and> scanned_paths disk rs (failedEntries operation') paths \<and>
    (result = Inr MoreWork \<longrightarrow> attempted = deletedThusFar operation' \<and> delete_state operation' = delete_state operation) \<and>
    (result = Inr Complete \<longrightarrow> deletedThusFar operation' = length paths \<and> (paths = [] \<longrightarrow> failedEntries operation' = []))"
proof (cases "deletedThusFar operation < totalToDelete operation")
  case False
  with assms have "delete_phase paths (deletedThusFar operation) operation' calls'"
    "failedEntries operation' = failedEntries operation" "result \<noteq> Inr MoreWork" "deletedThusFar operation' = length paths"
    "result = Inr Complete \<and> paths = [] \<longrightarrow> failedEntries operation' = []"
    by (auto simp: delete_run_def delete_fail_def delete_phase_def Let_def split: if_splits)
  with assms(2) show ?thesis by auto
next
  case True
  let ?target = "delete_targets operation ! (totalToDelete operation - deletedThusFar operation - 1)"
  have k: "deletedThusFar operation < length paths" using True assms(1) by (simp add: delete_phase_def)
  obtain r operation1 srv1 calls1 where once: "removeOnce (watched answers) ?target operation (srv, calls) = (r, operation1, srv1, calls1)"
    by (metis prod_cases4)
  note step = removeOnce_phase [OF assms(1) k once]
  obtain failed where failed: "failedEntries operation1 = failedEntries operation @ failed" using removeOnce_failed_mono [OF once] by blast
  then have sp: "scanned_paths disk rs (failedEntries operation1) paths" using assms(2) by (auto simp: scanned_paths_def)
  show ?thesis
  proof (cases r)
    case (Inl e)
    with True once assms(3) step sp show ?thesis by (auto simp: delete_run_def)
  next
    case (Inr u)
    have total: "totalToDelete operation1 = length paths" using step by (simp add: delete_phase_def)
    have state: "deletedThusFar operation1 = Suc (deletedThusFar operation)" "delete_state operation1 = delete_state operation"
      using step Inr by auto
    show ?thesis
    proof (cases "deletedThusFar operation1 < totalToDelete operation1")
      case True
      with \<open>deletedThusFar operation < totalToDelete operation\<close> once Inr assms(3) step sp state show ?thesis
        by (intro exI [of _ "Suc (deletedThusFar operation)"]) (auto simp: delete_run_def Let_def)
    next
      case False
      then have "deletedThusFar operation1 = length paths" using state(1) total k by simp
      moreover have "operation' = operation1\<lparr>delete_state := Completed\<rparr> \<or> (\<exists>e. operation' = delete_fail e operation1)"
        "calls' = calls1" "result \<noteq> Inr MoreWork"
        using \<open>deletedThusFar operation < totalToDelete operation\<close> False once Inr assms(3)
        by (auto simp: delete_run_def Let_def split: if_splits)
      moreover have "paths \<noteq> []" using k by auto
      ultimately show ?thesis using step sp
        by (intro exI [of _ "Suc (deletedThusFar operation)"]) (auto simp: delete_phase_def delete_fail_def)
    qed
  qed
qed

definition run_phase :: "(RelativePath \<Rightarrow> DirectoryEntry list) \<Rightarrow> string list \<Rightarrow> DeleteOperation \<Rightarrow> ServerCall list \<Rightarrow> bool" where
  "run_phase disk rs operation calls \<longleftrightarrow>
     scan_phase disk rs operation calls \<or>
     (\<exists>paths. delete_phase paths (deletedThusFar operation) operation calls \<and>
        scanned_paths disk rs (failedEntries operation) paths \<and> delete_state operation \<in> {NotStarted, Running})"

definition end_phase :: "(RelativePath \<Rightarrow> DirectoryEntry list) \<Rightarrow> string list \<Rightarrow> WorkResult \<Rightarrow> DeleteOperation \<Rightarrow> ServerCall list \<Rightarrow> bool" where
  "end_phase disk rs result operation calls \<longleftrightarrow>
     (\<exists>paths attempted. delete_phase paths attempted operation calls \<and> scanned_paths disk rs (failedEntries operation) paths \<and>
        (result = Inr Complete \<longrightarrow> deletedThusFar operation = length paths \<and> (paths = [] \<longrightarrow> failedEntries operation = [])))"

lemma serves_watched: "serves answers root disk \<Longrightarrow> serves (watched answers) root disk"
  by (auto simp: serves_def watched_def watch_def split: prod.splits)

lemma scan_keeps_calls:
  "scan_work (watched answers) scan (srv, calls) = (result, scan', srv', calls') \<Longrightarrow> plain_scan root scan \<Longrightarrow> calls' = calls"
proof -
  assume plain: "plain_scan root scan" and work: "scan_work (watched answers) scan (srv, calls) = (result, scan', srv', calls')"
  have listing: "snd (snd (snd (scan_scanner (watched answers) (scan, srv, calls) p))) = calls" for p
  proof -
    obtain r srv1 where list: "listDirectory answers (remote_div root p) srv = (r, srv1)" by force
    then have "listDirectory (watched answers) (remote_div root p) (srv, calls) = (r, srv1, calls)"
      by (simp add: watched_def watch_def)
    from scan_scanner_eq [OF plain this] show ?thesis by (cases r) (simp_all add: Let_def)
  qed
  show ?thesis
  proof (cases "scan_state scan = Running \<and> \<not> deep_completed (scan_walker scan)")
    case True
    obtain r scan1 srv1 calls1 w1 where
      walk: "deep_walk (scan_scanner (watched answers)) (scan, srv, calls) (scan_walker scan) = (r, (scan1, srv1, calls1), w1)"
      by (metis prod_cases5 prod.collapse)
    have "calls1 = calls" using deep_walk_states [OF walk]
    proof (elim disjE exE)
      fix x
      assume "scan_scanner (watched answers) (scan, srv, calls)
        (deep_paths (scan_walker scan) ! deep_index (scan_walker scan)) = (x, scan1, srv1, calls1)"
      from listing [of "deep_paths (scan_walker scan) ! deep_index (scan_walker scan)", unfolded this] show ?thesis by simp
    qed simp
    with True walk work show ?thesis by (auto simp: scan_work_def split: sum.splits)
  qed (use work in \<open>auto simp: scan_work_def Let_def split: OperationState.splits if_splits\<close>)
qed

lemma scan_step_phase:
  assumes "serves answers (remote_of rs) disk" and rs: "valid_names rs" "rs \<noteq> []"
    and "scan_phase disk rs operation calls"
    and "delete_work (watched answers) operation (srv, calls) = (result, operation', srv', calls')"
  shows "result = Inr MoreWork \<and> run_phase disk rs operation' calls'"
proof -
  let ?new = "delete_new (remote_of rs) True"
  obtain scan where scan: "operation = ?new\<lparr>delete_scanPhase := Some [scan]\<rparr>" "plain_scan (remote_of rs) scan"
    "walking disk (scan_walker scan)" "removals calls = []" using assms(4) by (auto simp: scan_phase_def)
  obtain r scan1 srv1 calls1 where work: "scan_work (watched answers) scan (srv, calls) = (r, scan1, srv1, calls1)"
    by (metis prod_cases4)
  note plain = scan_work_plain [OF serves_watched [OF assms(1)] scan(2,3) work]
  have calls1: "calls1 = calls" by (rule scan_keeps_calls [OF work scan(2)])
  show ?thesis
  proof (cases r)
    case (Inl e)
    then have "result = Inr MoreWork" "calls' = calls"
      "operation' = (delete_scanFailed scan1 e operation)\<lparr>delete_scanPhase := None\<rparr>"
      using assms(5) scan(1) work calls1
      by (auto simp: delete_work_def scanPhase_step_def delete_scanFailed_def addFailedTarget_def delete_new_def)
    moreover have "delete_phase [] 0 ((delete_scanFailed scan1 e operation)\<lparr>delete_scanPhase := None\<rparr>) calls"
      using scan(1,4) by (simp add: delete_phase_def delete_scanFailed_def addFailedTarget_def delete_new_def)
    ultimately show ?thesis
      using scan(1) by (auto simp: run_phase_def scanned_paths_def delete_scanFailed_def addFailedTarget_def delete_new_def)
  next
    case (Inr status)
    show ?thesis
    proof (cases "status = Complete")
      case False
      then have "result = Inr MoreWork" "calls' = calls" "operation' = ?new\<lparr>delete_scanPhase := Some [scan1]\<rparr>"
        using assms(5) scan(1) work calls1 Inr
        by (auto simp: delete_work_def scanPhase_step_def delete_new_def)
      with plain scan(4) show ?thesis by (auto simp: run_phase_def scan_phase_def)
    next
      case True
      let ?es = "deep_entries (scan_walker scan1)" and ?paths = "delete_paths rs (deep_entries (scan_walker scan1))"
      have fin: "walking disk (scan_walker scan1)" "deep_completed (scan_walker scan1)" using plain True Inr by auto
      have root: "scan_remotePath scan1 = remote_of rs" using plain by (simp add: plain_scan_def)
      have deliver: "delete_deliver scan1 operation = operation\<lparr>scanDelivered := True,
          delete_targets := map plain_target ?paths, totalToDelete := length ?paths\<rparr>"
        using appendScanResult_walked [OF walk_stateD(1) [OF fin(1)] rs, of operation] scan(1)
        by (simp add: delete_deliver_def root delete_new_def)
      let ?left = "?new\<lparr>delete_scanPhase := None, scanDelivered := True, delete_targets := map plain_target ?paths, totalToDelete := length ?paths\<rparr>"
      have left: "(delete_deliver scan1 operation)\<lparr>delete_scanPhase := None\<rparr> = ?left"
        unfolding deliver unfolding scan(1) by simp
      have "result = Inr MoreWork" "calls' = calls" "operation' = ?left"
        using assms(5) scan(1) work calls1 Inr True left [symmetric]
        by (auto simp: delete_work_def scanPhase_step_def)
      moreover have "delete_phase ?paths (deletedThusFar ?left) ?left calls"
        using scan(4) by (simp add: delete_phase_def delete_new_def)
      moreover have "scanned_paths disk rs (failedEntries ?left) ?paths" "delete_state ?left = NotStarted"
        using fin by (auto simp: scanned_paths_def delete_new_def)
      ultimately show ?thesis by (auto simp: run_phase_def)
    qed
  qed
qed

lemma delete_step_phase:
  assumes "delete_phase paths (deletedThusFar operation) operation calls" and "scanned_paths disk rs (failedEntries operation) paths"
    and "delete_state operation \<in> {NotStarted, Running}"
    and "delete_work (watched answers) operation (srv, calls) = (result, operation', srv', calls')"
  shows "(result = Inr MoreWork \<longrightarrow> run_phase disk rs operation' calls') \<and> end_phase disk rs result operation' calls'"
proof -
  have none: "delete_scanPhase operation = None" using assms(1) by (simp add: delete_phase_def)
  have "delete_work (watched answers) operation (srv, calls) =
      delete_run (watched answers) (operation\<lparr>delete_state := Running\<rparr>) (srv, calls)"
  proof (cases "delete_state operation = Running")
    case True
    then have same: "operation\<lparr>delete_state := Running\<rparr> = operation" by (cases operation) simp
    show ?thesis unfolding same using none True by (simp add: delete_work_def)
  next
    case False
    with assms(1,3) none show ?thesis by (auto simp: delete_work_def delete_prepare_def delete_phase_def)
  qed
  with assms(4) have run: "delete_run (watched answers) (operation\<lparr>delete_state := Running\<rparr>) (srv, calls) = (result, operation', srv', calls')"
    by simp
  have "delete_phase paths (deletedThusFar (operation\<lparr>delete_state := Running\<rparr>)) (operation\<lparr>delete_state := Running\<rparr>) calls"
    "scanned_paths disk rs (failedEntries (operation\<lparr>delete_state := Running\<rparr>)) paths"
    using assms(1,2) by (simp_all add: delete_phase_def)
  from delete_run_phase [OF this run] show ?thesis
    by (fastforce simp: run_phase_def end_phase_def)
qed

lemma recursive_delete_starts:
  "scan_phase disk rs (recursive_delete (remote_of rs)) []"
  unfolding scan_phase_def recursive_delete_def addScanRoot_def
  by (intro conjI exI [of _ "scan_new (remote_of rs) False True False"])
    (simp_all add: delete_new_def plain_scan_def scan_new_def walk_state_new)

lemma delete_run_invariant:
  assumes "delete_run_to (watched answers) (recursive_delete (remote_of rs), srv, []) last_result final"
    and "serves answers (remote_of rs) disk" and rs: "valid_names rs" "rs \<noteq> []"
  shows "case final of (operation, srv', calls) \<Rightarrow>
    last_result \<in> {None, Some (Inr MoreWork)} \<and> run_phase disk rs operation calls \<or>
    (\<exists>result. last_result = Some result \<and> result \<noteq> Inr MoreWork \<and> end_phase disk rs result operation calls)"
  using assms(1)
proof (induction rule: delete_run_to.induct)
  case run_start
  then show ?case using recursive_delete_starts by (simp add: run_phase_def)
next
  case (run_more last_result operation state result operation' state')
  obtain srv1 calls1 srv2 calls2 where states: "state = (srv1, calls1)" "state' = (srv2, calls2)" by force
  have work: "delete_work (watched answers) operation (srv1, calls1) = (result, operation', srv2, calls2)"
    using run_more(3) states by simp
  have "run_phase disk rs operation calls1" using run_more(2,4) states by auto
  then consider (scan) "scan_phase disk rs operation calls1"
    | (delete) paths where "delete_phase paths (deletedThusFar operation) operation calls1"
        "scanned_paths disk rs (failedEntries operation) paths" "delete_state operation \<in> {NotStarted, Running}"
    by (auto simp: run_phase_def)
  then show ?case
  proof cases
    case scan
    from scan_step_phase [OF assms(2) rs scan work] show ?thesis using states by simp
  next
    case delete
    from delete_step_phase [OF delete work] show ?thesis using states by auto
  qed
qed

lemma scanned_paths_reachable:
  "scanned_paths disk rs failed paths \<Longrightarrow>
     set paths \<subseteq> {remote_of (rs @ ns) |ns. \<exists>e. reachable_entry disk ns e} \<and>
     ((paths = [] \<longrightarrow> failed = []) \<longrightarrow> set paths = {remote_of (rs @ ns) |ns. \<exists>e. reachable_entry disk ns e})"
  using delete_paths_reachable by (fastforce simp: scanned_paths_def)

lemma subseq_elements: "subseq xs ys \<Longrightarrow> set xs \<subseteq> set ys"
  by (induction rule: list_emb.induct) auto

lemma subseq_sorted_wrt: "subseq xs ys \<Longrightarrow> sorted_wrt P ys \<Longrightarrow> sorted_wrt P xs"
  by (induction rule: list_emb.induct) (auto dest: subseq_elements)

lemma delete_phase_calls:
  assumes "delete_phase paths attempted operation calls" and "scanned_paths disk rs failed paths" and "valid_names rs"
  shows "set (removals calls) \<subseteq> set paths" and "sorted_wrt (\<lambda>a b. \<not> strictly_below a b) (removals calls)"
proof -
  have sub: "subseq (removals calls) (rev paths)"
    using assms(1) list_emb_prefix [of "(=)" "removals calls" "take attempted (rev paths)" "drop attempted (rev paths)"]
    by (simp add: delete_phase_def)
  from subseq_elements [OF this] show "set (removals calls) \<subseteq> set paths" by simp
  have "sorted_wrt (\<lambda>a b. \<not> strictly_below a b) (rev paths)"
    using assms(2) delete_paths_order [OF _ assms(3)] by (auto simp: scanned_paths_def)
  with sub show "sorted_wrt (\<lambda>a b. \<not> strictly_below a b) (removals calls)" by (rule subseq_sorted_wrt)
qed

text \<open>C7:
  A recursive delete, whatever the server answers and whenever it stops answering: every removal it asks for is of its
  root or of an item the listings show below it, never through a name that leads elsewhere; no item is asked to be
  removed after a directory that contains it; and when it ends as complete, every item the listings show has been removed
  by the server, or was reported as gone by it, or is named in the failed entries. So a run that ends complete without a
  failed entry has removed everything, and no refusal of the server is passed over.
\<close>

theorem recursive_delete_removes:
  assumes "valid_names rs" and "rs \<noteq> []" and "serves answers (remote_of rs) disk"
    and "delete_run_to (watched answers) (recursive_delete (remote_of rs), srv, []) last_result (operation, srv', calls)"
  shows "set (removals calls) \<subseteq> {remote_of (rs @ ns) |ns. \<exists>e. reachable_entry disk ns e} \<and>
    sorted_wrt (\<lambda>a b. \<not> strictly_below a b) (removals calls) \<and>
    (last_result = Some (Inr Complete) \<longrightarrow>
       (\<forall>ns e. reachable_entry disk ns e \<longrightarrow>
          Removed (remote_of (rs @ ns)) \<in> set calls \<or> Gone (remote_of (rs @ ns)) \<in> set calls \<or>
          remote_value (remote_of (rs @ ns)) \<in> fst ` set (failedEntries operation)))"
proof -
  from delete_run_invariant [OF assms(4,3,1,2)]
  consider (none) "removals calls = []" "last_result \<noteq> Some (Inr Complete)"
    | (some) paths attempted where "delete_phase paths attempted operation calls" "scanned_paths disk rs (failedEntries operation) paths"
        "last_result = Some (Inr Complete) \<longrightarrow> deletedThusFar operation = length paths \<and> (paths = [] \<longrightarrow> failedEntries operation = [])"
    by (auto simp: run_phase_def end_phase_def scan_phase_def)
  then show ?thesis
  proof cases
    case some
    note calls = delete_phase_calls [OF some(1,2) assms(1)] and reach = scanned_paths_reachable [OF some(2)]
    have "handled calls (failedEntries operation) (remote_of (rs @ ns))"
      if ended: "last_result = Some (Inr Complete)" and ns: "reachable_entry disk ns e" for ns e
    proof -
      have "remote_of (rs @ ns) \<in> set (take (deletedThusFar operation) (rev paths))" using reach ended ns some(3) by auto
      then show ?thesis using some(1) by (simp add: delete_phase_def)
    qed
    with calls reach show ?thesis by (simp add: handled_def) blast
  qed simp
qed

primrec delete_steps :: "'srv SftpAnswers \<Rightarrow> nat \<Rightarrow> DeleteOperation \<times> 'srv \<Rightarrow> WorkResult option \<times> DeleteOperation \<times> 'srv" where
  "delete_steps answers 0 start = (None, start)"
| "delete_steps answers (Suc n) start =
     (case delete_steps answers n start of (last_result, operation, srv) \<Rightarrow>
        if last_result \<in> {None, Some (Inr MoreWork)}
        then (case delete_work answers operation srv of (result, after) \<Rightarrow> (Some result, after))
        else (last_result, operation, srv))"

lemma delete_steps_run: "delete_steps answers n start = (last_result, final) \<Longrightarrow> delete_run_to answers start last_result final"
proof (induction n arbitrary: last_result final)
  case (Suc n)
  obtain r operation srv where steps: "delete_steps answers n start = (r, operation, srv)" by (metis prod_cases3)
  obtain result operation' srv' where work: "delete_work answers operation srv = (result, operation', srv')" by (metis prod_cases3)
  from Suc.IH [OF steps] Suc.prems steps work show ?case by (auto split: if_splits intro: run_more)
qed (auto intro: run_start)

lemma recursive_delete_removes_witness:
  "\<exists>operation calls. delete_run_to (watched sample_server) (recursive_delete (remote_of [''r'']), (), []) (Some (Inr Complete))
     (operation, (), calls) \<and> removals calls = [remote_of [''r'', ''a''], remote_of [''r'']] \<and>
   sorted_wrt (\<lambda>a b. \<not> strictly_below a b) (removals calls)"
proof -
  let ?root = "remote_of [''r'']"
  let ?steps = "delete_steps (watched sample_server) 9 (recursive_delete ?root, (), [])"
  have complete: "fst ?steps = Some (Inr Complete)" by code_simp
  have calls: "removals (snd (snd (snd ?steps))) = [remote_of [''r'', ''a''], ?root]" by code_simp
  obtain r operation u calls where "?steps = (r, operation, u, calls)" by (metis prod_cases4)
  with complete have steps: "?steps = (Some (Inr Complete), operation, (), calls)" by simp
  note run = delete_steps_run [OF steps]
  have removed: "removals calls = [remote_of [''r'', ''a''], ?root]" using calls unfolding steps by simp
  have valid: "valid_names [''r'']" "[''r''] \<noteq> []" by code_simp+
  have serves: "serves sample_server ?root (\<lambda>relative. if remote_div ?root relative = ?root
      then [root_entry\<lparr>entry_name := ''a'', entry_type := Regular\<rparr>] else [])"
    by (simp add: serves_def sample_server_def)
  from recursive_delete_removes [OF valid serves run] run removed show ?thesis by blast
qed

end
