(* ===== verification/Operation_Queue.thy ===== *)
theory Operation_Queue
  imports Remote_Operations "HOL-Library.Multiset"
begin

text \<open>
  The queue of a session, \<open>backend/sftp/operation_queue.cpp\<close>, for every class of operations. What it tells (the frontend,
  the sync sessions, the owners of operations and its driver) is a log of events. \<open>completionTime\<close>, progress and the
  cards' labels are not modelled; a callback of an owner that calls the queue again is a later call of the run. The
  lemmas show that an operation is never lost and never ends twice, what one tick may change, and what moving does.
\<close>

subsection \<open>State\<close>

record OperationCompleted =
  completed_reason :: OperationCompletionReason
  completed_id :: string
  completed_localPath :: "LocalPath option"
  completed_remotePath :: "RemotePath option"
  completed_error :: "OperationError option"
  completed_failedEntries :: "(string \<times> OperationError) list"
  completed_keptPartialFiles :: bool

datatype ScanFailure = ScanCancelled | ScanFailedWith OperationType OperationError

datatype QueueEvent =
  OperationAdded string OperationType OperationMode
| CompletionObserved OperationCompleted
| OperationEnded OperationCompleted
| OwnerCalled string
| OperationsReordered string nat bool
| SyncScanPhaseDone string bool
| SyncScanFailed string bool ScanFailure
| Woken

datatype 'backup KeptContinuation = BulkContinuation 'backup | SingleContinuation KeptSingleTransfer

record 'backup KeptTransfer =
  transfer_partialFiles :: KeptPartialFiles
  transfer_continuation :: "'backup KeptContinuation option"

record SyncCallback =
  callback_session :: string
  callback_sibling :: string
  callback_isLocal :: bool

text \<open>
  \<open>syncScanCallbacks\<close> is in the order of its keys; \<open>heldSessions\<close> are the sync sessions that something else than the queue
  keeps alive. \<open>postedCancels\<close> are the tasks of \<open>cancelSiblingScan\<close> the strand has not run yet.
\<close>

record ('op, 'backup) Queue =
  priorityOperations :: "(string \<times> 'op) list"
  operations :: "(string \<times> 'op) list"
  queue_paused :: bool
  parallelism :: int
  completionCallbacks :: "string list"
  progressObservers :: "string list"
  changedDestinationsLeftToOwner :: "string list"
  failuresWithoutToast :: "string list"
  syncScanCallbacks :: "(string \<times> SyncCallback) list"
  syncSessions :: "string list"
  heldSessions :: "string list"
  bulkResumeStash :: "string \<rightharpoonup> 'backup"
  keptTransfers :: "string \<rightharpoonup> 'backup KeptTransfer"
  postedCancels :: "string list"
  queue_log :: "QueueEvent list"

definition newQueue :: "int \<Rightarrow> ('op, 'backup) Queue" where
  "newQueue slots = \<lparr>priorityOperations = [], operations = [], queue_paused = True, parallelism = max 1 slots,
     completionCallbacks = [], progressObservers = [], changedDestinationsLeftToOwner = [], failuresWithoutToast = [],
     syncScanCallbacks = [], syncSessions = [], heldSessions = [], bulkResumeStash = Map.empty, keptTransfers = Map.empty,
     postedCancels = [], queue_log = []\<rparr>"

definition emit :: "QueueEvent \<Rightarrow> ('op, 'backup) Queue \<Rightarrow> ('op, 'backup) Queue" where
  "emit event q = q\<lparr>queue_log := queue_log q @ [event]\<rparr>"

definition wake :: "('op, 'backup) Queue \<Rightarrow> ('op, 'backup) Queue" where
  "wake = emit Woken"

definition hasPriorityWork :: "('op, 'backup) Queue \<Rightarrow> bool" where
  "hasPriorityWork q \<longleftrightarrow> priorityOperations q \<noteq> []"

text \<open>\<open>queueFor\<close> with the push of an added operation.\<close>

definition queueFor :: "OperationMode \<Rightarrow> ('op, 'backup) Queue \<Rightarrow> (string \<times> 'op) list" where
  "queueFor mode q = (if mode = PriorityQueued then priorityOperations q else operations q)"

definition set_queue :: "OperationMode \<Rightarrow> (string \<times> 'op) list \<Rightarrow> ('op, 'backup) Queue \<Rightarrow> ('op, 'backup) Queue" where
  "set_queue mode items q = (if mode = PriorityQueued then q\<lparr>priorityOperations := items\<rparr> else q\<lparr>operations := items\<rparr>)"

definition pushOperation ::
  "('op, 'w, 'backup) OperationClass \<Rightarrow> OperationMode \<Rightarrow> string \<Rightarrow> 'op \<Rightarrow> ('op, 'backup) Queue \<Rightarrow> ('op, 'backup) Queue" where
  "pushOperation cls mode ident operation q =
     emit (OperationAdded ident (class_type cls operation) mode) (set_queue mode (queueFor mode q @ [(ident, operation)]) q)"

subsection \<open>Completion\<close>

definition changedSinceCompare :: "OperationError \<Rightarrow> bool" where
  "changedSinceCompare error \<longleftrightarrow> error_type error = ChangedSinceCompare"

definition leaveChangesToOwner :: "OperationCompleted \<Rightarrow> OperationCompleted" where
  "leaveChangesToOwner completed =
     (let completed = (case completed_error completed of
          Some error \<Rightarrow> if completed_reason completed = ReasonFailed \<and> changedSinceCompare error
            then completed\<lparr>completed_reason := ReasonCanceled\<rparr> else completed
        | None \<Rightarrow> completed) in
      completed\<lparr>completed_failedEntries := filter (\<lambda>failed. \<not> changedSinceCompare (snd failed)) (completed_failedEntries completed)\<rparr>)"

definition makeCompletedOperation :: "('op, 'w, 'backup) OperationClass \<Rightarrow> OperationCompletionReason \<Rightarrow> string \<Rightarrow> 'op \<Rightarrow>
    OperationError option \<Rightarrow> OperationCompleted" where
  "makeCompletedOperation cls why ident operation error = \<lparr>completed_reason = why, completed_id = ident,
     completed_localPath = fst (completed_paths cls operation), completed_remotePath = snd (completed_paths cls operation),
     completed_error = error, completed_failedEntries = failed_entries cls operation, completed_keptPartialFiles = False\<rparr>"

definition completeOperation :: "OperationCompleted \<Rightarrow> ('op, 'backup) Queue \<Rightarrow> ('op, 'backup) Queue" where
  "completeOperation completed q =
     (let ident = completed_id completed;
          completed = (if ident \<in> set (changedDestinationsLeftToOwner q) then leaveChangesToOwner completed else completed);
          q = q\<lparr>changedDestinationsLeftToOwner := removeAll ident (changedDestinationsLeftToOwner q),
                failuresWithoutToast := removeAll ident (failuresWithoutToast q),
                bulkResumeStash := (bulkResumeStash q)(ident := None),
                progressObservers := removeAll ident (progressObservers q)\<rparr>;
          q = emit (OperationEnded completed) (emit (CompletionObserved completed) q) in
      if ident \<in> set (completionCallbacks q)
      then emit (OwnerCalled ident) (q\<lparr>completionCallbacks := removeAll ident (completionCallbacks q)\<rparr>) else q)"

subsection \<open>Scans of a sync\<close>

definition cancelSiblingScan :: "string \<Rightarrow> ('op, 'backup) Queue \<Rightarrow> ('op, 'backup) Queue" where
  "cancelSiblingScan ident q = q\<lparr>syncScanCallbacks := filter (\<lambda>entry. fst entry \<noteq> ident) (syncScanCallbacks q),
     postedCancels := postedCancels q @ [ident]\<rparr>"

text \<open>What \<open>makeSyncScanCallback\<close> returns: the callback of one side.\<close>

definition callSyncScan :: "SyncCallback \<Rightarrow> ScanFailure option \<Rightarrow> ('op, 'backup) Queue \<Rightarrow> ('op, 'backup) Queue" where
  "callSyncScan callback failure q =
     (if callback_session callback \<notin> set (syncSessions q) \<union> set (heldSessions q) then q
      else case failure of
          Some why \<Rightarrow> emit (SyncScanFailed (callback_session callback) (callback_isLocal callback) why)
            (cancelSiblingScan (callback_sibling callback) q)
        | None \<Rightarrow> emit (SyncScanPhaseDone (callback_session callback) (callback_isLocal callback)) q)"

definition extractSyncScan :: "string \<Rightarrow> ScanFailure option \<Rightarrow> ('op, 'backup) Queue \<Rightarrow> ('op, 'backup) Queue" where
  "extractSyncScan ident failure q =
     (case map_of (syncScanCallbacks q) ident of
        None \<Rightarrow> q
      | Some callback \<Rightarrow> callSyncScan callback failure
          (q\<lparr>syncScanCallbacks := filter (\<lambda>entry. fst entry \<noteq> ident) (syncScanCallbacks q)\<rparr>))"

definition failSyncScan :: "string \<Rightarrow> ScanFailure \<Rightarrow> ('op, 'backup) Queue \<Rightarrow> ('op, 'backup) Queue" where
  "failSyncScan ident why = extractSyncScan ident (Some why)"

definition deliverSyncScan :: "('op, 'w, 'backup) OperationClass \<Rightarrow> string \<Rightarrow> 'op \<Rightarrow> ('op, 'backup) Queue \<Rightarrow> ('op, 'backup) Queue" where
  "deliverSyncScan cls ident operation q =
     (if class_type cls operation \<noteq> Scan \<and> class_type cls operation \<noteq> LocalScan then q else extractSyncScan ident None q)"

text \<open>The task \<open>cancelSiblingScan\<close> posts.\<close>

definition runPostedCancel :: "('op, 'backup) Queue \<Rightarrow> ('op, 'backup) Queue" where
  "runPostedCancel q =
     (case postedCancels q of
        [] \<Rightarrow> q
      | ident # waiting \<Rightarrow>
          (let found = ident \<in> fst ` set (priorityOperations q) \<or> ident \<in> fst ` set (operations q);
               q = q\<lparr>postedCancels := waiting, priorityOperations := filter (\<lambda>queued. fst queued \<noteq> ident) (priorityOperations q),
                     operations := filter (\<lambda>queued. fst queued \<noteq> ident) (operations q)\<rparr> in
           wake (if found then completeOperation \<lparr>completed_reason = ReasonCanceled, completed_id = ident,
                completed_localPath = None, completed_remotePath = None, completed_error = None,
                completed_failedEntries = [], completed_keptPartialFiles = False\<rparr> q else q)))"

subsection \<open>Cancelling\<close>

fun takeFirst :: "string \<Rightarrow> (string \<times> 'op) list \<Rightarrow> ('op \<times> (string \<times> 'op) list) option" where
  "takeFirst ident [] = None"
| "takeFirst ident (queued # queue) =
     (if fst queued = ident then Some (snd queued, queue)
      else map_option (\<lambda>(operation, rest). (operation, queued # rest)) (takeFirst ident queue))"

definition takeOperation :: "string \<Rightarrow> ('op, 'backup) Queue \<Rightarrow> 'op option \<times> ('op, 'backup) Queue" where
  "takeOperation ident q =
     (case takeFirst ident (operations q) of
        Some (operation, rest) \<Rightarrow> (Some operation, q\<lparr>operations := rest\<rparr>)
      | None \<Rightarrow>
          (case takeFirst ident (priorityOperations q) of
             Some (operation, rest) \<Rightarrow> (Some operation, q\<lparr>priorityOperations := rest\<rparr>)
           | None \<Rightarrow> (None, q)))"

definition rememberKeptPartialFiles ::
  "('op, 'w, 'backup) OperationClass \<Rightarrow> string \<Rightarrow> 'op \<Rightarrow> ('op, 'backup) Queue \<Rightarrow> bool \<times> ('op, 'backup) Queue" where
  "rememberKeptPartialFiles cls ident operation q =
     (case keptPartialFiles cls operation of
        None \<Rightarrow> (False, q)
      | Some partialFiles \<Rightarrow>
          (let continuation = (case bulkResumeStash q ident of
               Some backup \<Rightarrow> Some (BulkContinuation (left_backup cls operation backup))
             | None \<Rightarrow> map_option SingleContinuation (single_transfer cls operation)) in
           (True, q\<lparr>bulkResumeStash := (bulkResumeStash q)(ident := None),
              keptTransfers := (keptTransfers q)(ident \<mapsto> \<lparr>transfer_partialFiles = partialFiles, transfer_continuation = continuation\<rparr>)\<rparr>)))"

definition completeCancelled ::
  "('op, 'w, 'backup) OperationClass \<Rightarrow> string \<Rightarrow> 'op \<Rightarrow> ('op, 'backup) Queue \<Rightarrow> ('op, 'backup) Queue" where
  "completeCancelled cls ident operation q =
     completeOperation (makeCompletedOperation cls ReasonCanceled ident (class_cancel cls True operation) None) q"

definition completeCancelledByUser ::
  "('op, 'w, 'backup) OperationClass \<Rightarrow> PartialFile option \<Rightarrow> string \<Rightarrow> 'op \<Rightarrow> ('op, 'backup) Queue \<Rightarrow> ('op, 'backup) Queue" where
  "completeCancelledByUser cls partialFiles ident operation q =
     (let operation = (if partialFiles = Some Kept then keepPartialFiles cls operation else operation);
          operation = class_cancel cls True operation;
          completed = makeCompletedOperation cls ReasonCanceled ident operation None;
          (kept, q) = rememberKeptPartialFiles cls ident operation q in
      completeOperation (completed\<lparr>completed_keptPartialFiles := kept\<rparr>) q)"

definition queue_cancel ::
  "('op, 'w, 'backup) OperationClass \<Rightarrow> PartialFile option \<Rightarrow> string \<Rightarrow> ('op, 'backup) Queue \<Rightarrow> ('op, 'backup) Queue" where
  "queue_cancel cls partialFiles ident q =
     (let (cancelled, q) = takeOperation ident q; q = failSyncScan ident ScanCancelled q in
      wake (case cancelled of Some operation \<Rightarrow> completeCancelledByUser cls partialFiles ident operation q | None \<Rightarrow> q))"

definition cancelUpload ::
  "('op, 'w, 'backup) OperationClass \<Rightarrow> PartialFile \<Rightarrow> string \<Rightarrow> ('op, 'backup) Queue \<Rightarrow> ('op, 'backup) Queue" where
  "cancelUpload cls part ident q =
     (case takeOperation ident q of
        (None, q) \<Rightarrow> wake q
      | (Some operation, q) \<Rightarrow> wake (completeCancelled cls ident
          (if class_type cls operation = Upload then partialFileOnCancel cls part operation else operation) q))"

definition cancelWaitingScans :: "('op, 'backup) Queue \<Rightarrow> ('op, 'backup) Queue" where
  "cancelWaitingScans q =
     fold (\<lambda>waiting. callSyncScan (snd waiting) (Some ScanCancelled)) (syncScanCallbacks q) (q\<lparr>syncScanCallbacks := []\<rparr>)"

definition cancelAll :: "('op, 'w, 'backup) OperationClass \<Rightarrow> PartialFile option \<Rightarrow> ('op, 'backup) Queue \<Rightarrow> ('op, 'backup) Queue" where
  "cancelAll cls partialFiles q =
     (let cancelled = priorityOperations q @ operations q;
          q = cancelWaitingScans (q\<lparr>priorityOperations := [], operations := []\<rparr>) in
      wake (fold (\<lambda>(ident, operation). completeCancelledByUser cls partialFiles ident operation) cancelled q))"

definition dropAll :: "('op, 'backup) Queue \<Rightarrow> ('op, 'backup) Queue" where
  "dropAll q = wake (cancelWaitingScans (q\<lparr>operations := [], priorityOperations := [], progressObservers := []\<rparr>))"

definition findOperation :: "string \<Rightarrow> ('op, 'backup) Queue \<Rightarrow> 'op option" where
  "findOperation ident q =
     (case map_of (priorityOperations q) ident of Some operation \<Rightarrow> Some operation | None \<Rightarrow> map_of (operations q) ident)"

text \<open>The backups handed to the registry.\<close>

definition dumpBulkResumes :: "('op, 'w, 'backup) OperationClass \<Rightarrow> ('op, 'backup) Queue \<Rightarrow> (string \<rightharpoonup> 'backup) \<times> ('op, 'backup) Queue" where
  "dumpBulkResumes cls q =
     ((\<lambda>ident. case bulkResumeStash q ident of
         None \<Rightarrow> None
       | Some entry \<Rightarrow> Some (case findOperation ident q of Some operation \<Rightarrow> left_backup cls operation entry | None \<Rightarrow> entry)),
      q\<lparr>bulkResumeStash := Map.empty\<rparr>)"

subsection \<open>Moving and pausing\<close>

fun indexOf :: "string \<Rightarrow> (string \<times> 'op) list \<Rightarrow> nat option" where
  "indexOf ident [] = None"
| "indexOf ident (queued # queue) = (if fst queued = ident then Some 0 else map_option Suc (indexOf ident queue))"

text \<open>\<open>erase\<close> at the old index and \<open>insert\<close> at the new one.\<close>

definition reinserted :: "nat \<Rightarrow> nat \<Rightarrow> 'a list \<Rightarrow> 'a list" where
  "reinserted oldIndex newIndex queue =
     (let entry = queue ! oldIndex; rest = take oldIndex queue @ drop (Suc oldIndex) queue in
      take newIndex rest @ entry # drop newIndex rest)"

definition moveOperation :: "string \<Rightarrow> nat \<Rightarrow> ('op, 'backup) Queue \<Rightarrow> ('op, 'backup) Queue" where
  "moveOperation ident newIndex q =
     wake (if \<not> queue_paused q then emit (OperationsReordered ident newIndex False) q
       else if ident \<in> fst ` set (priorityOperations q) then emit (OperationsReordered ident newIndex False) q
       else case indexOf ident (operations q) of
           None \<Rightarrow> emit (OperationsReordered ident newIndex False) q
         | Some oldIndex \<Rightarrow>
             (let queue = operations q;
                  newIndex = (if newIndex \<ge> length queue then length queue - 1 else newIndex) in
              if oldIndex = newIndex then emit (OperationsReordered ident newIndex False) q
              else emit (OperationsReordered ident newIndex True) (q\<lparr>operations := reinserted oldIndex newIndex queue\<rparr>)))"

definition setPaused :: "('op, 'w, 'backup) OperationClass \<Rightarrow> bool \<Rightarrow> ('op, 'backup) Queue \<Rightarrow> ('op, 'backup) Queue" where
  "setPaused cls pause q =
     wake (wake (q\<lparr>queue_paused := pause, operations := map (apsnd (class_pause cls pause)) (operations q)\<rparr>))"

subsection \<open>One tick\<close>

definition isTerminal :: "WorkResult \<Rightarrow> bool" where
  "isTerminal result \<longleftrightarrow> (case result of Inl _ \<Rightarrow> True | Inr status \<Rightarrow> status = Complete)"

fun grantSlots :: "('op, 'w, 'backup) OperationClass \<Rightarrow> EligibleOperation list \<Rightarrow> (string \<times> 'op) list \<Rightarrow> (string \<times> 'op) list" where
  "grantSlots cls [] queue = queue"
| "grantSlots cls (item # items) queue =
     grantSlots cls items (queue[eligible_index item :=
       apsnd (setParallelBudget cls (eligible_slots item)) (queue ! eligible_index item)])"

fun runBatch :: "('op, 'w, 'backup) OperationClass \<Rightarrow> bool option \<Rightarrow> EligibleOperation list \<Rightarrow> (string \<times> 'op) list \<Rightarrow> 'w \<Rightarrow>
    (nat \<times> WorkResult) list \<times> (string \<times> 'op) list \<times> 'w" where
  "runBatch cls onlyUsesStrand [] queue world = ([], queue, world)"
| "runBatch cls onlyUsesStrand (item # items) queue world =
     (let index = eligible_index item; operation = snd (queue ! index) in
      if onlyUsesStrand \<noteq> None \<and> usesStrand cls operation \<noteq> the onlyUsesStrand
      then runBatch cls onlyUsesStrand items queue world
      else case (if usesStrand cls operation then class_workInStrand cls operation world else class_work cls operation world) of
        (result, operation, world) \<Rightarrow>
          (let queue = queue[index := (fst (queue ! index), operation)] in
           if isTerminal result then ([(index, result)], queue, world)
           else case runBatch cls onlyUsesStrand items queue world of
             (results, queue, world) \<Rightarrow> ((index, result) # results, queue, world)))"

text \<open>The first eligible operation whose strand the batch is given to.\<close>

definition strandOwner :: "('op, 'w, 'backup) OperationClass \<Rightarrow> EligibleOperation list \<Rightarrow> (string \<times> 'op) list \<Rightarrow> 'w \<Rightarrow>
    EligibleOperation option" where
  "strandOwner cls eligible queue world =
     find (\<lambda>item. usesStrand cls (snd (queue ! eligible_index item)) \<and> has_strand cls (snd (queue ! eligible_index item)) world) eligible"

definition runEligible :: "('op, 'w, 'backup) OperationClass \<Rightarrow> EligibleOperation list \<Rightarrow> (string \<times> 'op) list \<Rightarrow> 'w \<Rightarrow>
    (nat \<times> WorkResult) list \<times> (string \<times> 'op) list \<times> 'w" where
  "runEligible cls eligible queue world =
     (case strandOwner cls eligible queue world of
        None \<Rightarrow> runBatch cls None eligible queue world
      | Some item \<Rightarrow>
          (if \<not> strand_runs cls (snd (queue ! eligible_index item)) world
           then ([(eligible_index item, Inl ((plain_error ChannelClosed)
               \<lparr>error_extraInfo := Some ''The SFTP processing thread no longer runs tasks''\<rparr>))], queue, world)
           else case runBatch cls (Some True) eligible queue world of
             (results, queue, world) \<Rightarrow>
               (if list_all (\<lambda>item. \<not> isTerminal (snd item)) results
                then case runBatch cls (Some False) eligible queue world of
                  (local, queue, world) \<Rightarrow> (results @ local, queue, world)
                else (results, queue, world))))"

definition takeFinished :: "OperationMode \<Rightarrow> nat \<Rightarrow> ('op, 'backup) Queue \<Rightarrow> ('op, 'backup) Queue" where
  "takeFinished mode index q =
     set_queue mode (take index (queueFor mode q) @ drop (Suc index) (queueFor mode q)) q"

fun handleResults :: "('op, 'w, 'backup) OperationClass \<Rightarrow> OperationMode \<Rightarrow> (nat \<times> WorkResult) list \<Rightarrow> bool \<Rightarrow>
    ('op, 'backup) Queue \<Rightarrow> bool \<times> ('op, 'backup) Queue" where
  "handleResults cls mode [] moreWork q = (moreWork, q)"
| "handleResults cls mode ((index, Inl error) # results) moreWork q =
     (let (ident, operation) = queueFor mode q ! index; q = takeFinished mode index q;
          q = failSyncScan ident (ScanFailedWith (class_type cls operation) error) q in
      (True, completeOperation (makeCompletedOperation cls ReasonFailed ident operation (Some error)) q))"
| "handleResults cls mode ((index, Inr status) # results) moreWork q =
     (if status = Complete then
        (let (ident, operation) = queueFor mode q ! index; q = takeFinished mode index q;
             q = deliverSyncScan cls ident operation q;
             why = (if class_state cls operation = Canceled then ReasonCanceled else ReasonCompleted) in
         (True, completeOperation (makeCompletedOperation cls why ident operation None) q))
      else handleResults cls mode results (moreWork \<or> status = MoreWork) q)"

definition workQueue :: "('op, 'w, 'backup) OperationClass \<Rightarrow> OperationMode \<Rightarrow> ('op, 'backup) Queue \<Rightarrow> 'w \<Rightarrow>
    bool \<times> ('op, 'backup) Queue \<times> 'w" where
  "workQueue cls mode q world =
     (let eligible = collectEligibleOperations cls (queueFor mode q) (parallelism q) in
      if eligible = [] then (False, q, world)
      else case runEligible cls eligible (grantSlots cls eligible (queueFor mode q)) world of
        (results, queue, world) \<Rightarrow>
          (case handleResults cls mode results False (set_queue mode queue q) of
             (moreWork, q) \<Rightarrow> (moreWork, q, world)))"

definition queue_work :: "('op, 'w, 'backup) OperationClass \<Rightarrow> ('op, 'backup) Queue \<Rightarrow> 'w \<Rightarrow> bool \<times> ('op, 'backup) Queue \<times> 'w" where
  "queue_work cls q world =
     (if priorityOperations q \<noteq> [] then workQueue cls PriorityQueued q world
      else if queue_paused q then (False, q, world)
      else workQueue cls Queued q world)"

subsection \<open>Runs\<close>

datatype 'op QueueCall =
  CallAdd OperationMode string 'op
| CallAddScans string string 'op string 'op
| CallWork
| CallCancel "PartialFile option" string
| CallCancelAll "PartialFile option"
| CallCancelUpload PartialFile string
| CallMove string nat
| CallPaused bool
| CallPosted
| CallDropAll
| CallDump
| CallWhenCompleted string
| CallWhenProgressing string
| CallLeaveChanged string
| CallDiscardBackup string
| CallCloseSyncSession string

text \<open>\<open>operator[]\<close> of the map of callbacks: the keys keep their order.\<close>

fun insertCallback :: "string \<Rightarrow> SyncCallback \<Rightarrow> (string \<times> SyncCallback) list \<Rightarrow> (string \<times> SyncCallback) list" where
  "insertCallback key callback [] = [(key, callback)]"
| "insertCallback key callback (entry # entries) =
     (if key = fst entry then (key, callback) # entries
      else if key < fst entry then (key, callback) # entry # entries
      else entry # insertCallback key callback entries)"

text \<open>The end of \<open>addSyncScanOperation\<close>: the session, both callbacks and both scans.\<close>

definition addSyncScans :: "('op, 'w, 'backup) OperationClass \<Rightarrow> string \<Rightarrow> string \<Rightarrow> 'op \<Rightarrow> string \<Rightarrow> 'op \<Rightarrow>
    ('op, 'backup) Queue \<Rightarrow> ('op, 'backup) Queue" where
  "addSyncScans cls session remoteScanId remoteScan localScanId localScan q =
     (let q = q\<lparr>syncSessions := List.insert session (syncSessions q),
                syncScanCallbacks := insertCallback localScanId \<lparr>callback_session = session, callback_sibling = remoteScanId, callback_isLocal = True\<rparr>
                  (insertCallback remoteScanId \<lparr>callback_session = session, callback_sibling = localScanId, callback_isLocal = False\<rparr>
                    (syncScanCallbacks q))\<rparr> in
      wake (pushOperation cls PriorityQueued localScanId localScan (pushOperation cls PriorityQueued remoteScanId remoteScan q)))"

fun perform :: "('op, 'w, 'backup) OperationClass \<Rightarrow> 'op QueueCall \<Rightarrow> ('op, 'backup) Queue \<times> 'w \<Rightarrow> ('op, 'backup) Queue \<times> 'w" where
  "perform cls (CallAdd mode ident operation) (q, world) = (wake (pushOperation cls mode ident operation q), world)"
| "perform cls (CallAddScans session remoteScanId remoteScan localScanId localScan) (q, world) =
     (addSyncScans cls session remoteScanId remoteScan localScanId localScan q, world)"
| "perform cls CallWork (q, world) = snd (queue_work cls q world)"
| "perform cls (CallCancel partialFiles ident) (q, world) = (queue_cancel cls partialFiles ident q, world)"
| "perform cls (CallCancelAll partialFiles) (q, world) = (cancelAll cls partialFiles q, world)"
| "perform cls (CallCancelUpload part ident) (q, world) = (cancelUpload cls part ident q, world)"
| "perform cls (CallMove ident newIndex) (q, world) = (moveOperation ident newIndex q, world)"
| "perform cls (CallPaused pause) (q, world) = (setPaused cls pause q, world)"
| "perform cls CallPosted (q, world) = (runPostedCancel q, world)"
| "perform cls CallDropAll (q, world) = (dropAll q, world)"
| "perform cls CallDump (q, world) = (snd (dumpBulkResumes cls q), world)"
| "perform cls (CallWhenCompleted ident) (q, world) = (q\<lparr>completionCallbacks := List.insert ident (completionCallbacks q)\<rparr>, world)"
| "perform cls (CallWhenProgressing ident) (q, world) = (q\<lparr>progressObservers := List.insert ident (progressObservers q)\<rparr>, world)"
| "perform cls (CallLeaveChanged ident) (q, world) =
     (q\<lparr>changedDestinationsLeftToOwner := List.insert ident (changedDestinationsLeftToOwner q)\<rparr>, world)"
| "perform cls (CallDiscardBackup ident) (q, world) = (q\<lparr>bulkResumeStash := (bulkResumeStash q)(ident := None)\<rparr>, world)"
| "perform cls (CallCloseSyncSession session) (q, world) = (q\<lparr>syncSessions := removeAll session (syncSessions q)\<rparr>, world)"


subsection \<open>What is queued and what has ended\<close>

definition queued_ids :: "('op, 'backup) Queue \<Rightarrow> string list" where
  "queued_ids q = map fst (priorityOperations q) @ map fst (operations q)"

fun ended_of :: "QueueEvent list \<Rightarrow> string list" where
  "ended_of [] = []"
| "ended_of (event # events) = (case event of OperationEnded completed \<Rightarrow> [completed_id completed] | _ \<Rightarrow> []) @ ended_of events"

definition ended_ids :: "('op, 'backup) Queue \<Rightarrow> string list" where
  "ended_ids q = ended_of (queue_log q)"

fun added_by :: "'op QueueCall \<Rightarrow> string list" where
  "added_by (CallAdd mode ident operation) = [ident]"
| "added_by (CallAddScans session remoteScanId remoteScan localScanId localScan) = [remoteScanId, localScanId]"
| "added_by call = []"

fun dropped_by :: "'op QueueCall \<Rightarrow> ('op, 'backup) Queue \<Rightarrow> string list" where
  "dropped_by CallDropAll q = queued_ids q"
| "dropped_by call q = []"

text \<open>Every call of a run adds operations under ids that are not in the queue.\<close>

fun fresh_run :: "('op, 'w, 'backup) OperationClass \<Rightarrow> 'op QueueCall list \<Rightarrow> ('op, 'backup) Queue \<times> 'w \<Rightarrow> bool" where
  "fresh_run cls [] state = True"
| "fresh_run cls (call # calls) state =
     (distinct (added_by call) \<and> set (added_by call) \<inter> set (queued_ids (fst state)) = {} \<and>
      fresh_run cls calls (perform cls call state))"

fun dropped_in :: "('op, 'w, 'backup) OperationClass \<Rightarrow> 'op QueueCall list \<Rightarrow> ('op, 'backup) Queue \<times> 'w \<Rightarrow> string list" where
  "dropped_in cls [] state = []"
| "dropped_in cls (call # calls) state = dropped_by call (fst state) @ dropped_in cls calls (perform cls call state)"

abbreviation other_mode :: "OperationMode \<Rightarrow> OperationMode" where
  "other_mode mode \<equiv> (if mode = PriorityQueued then Queued else PriorityQueued)"

lemma ended_of_append [simp]: "ended_of (xs @ ys) = ended_of xs @ ended_of ys"
  by (induction xs) auto

lemma emit_simps [simp]:
  "priorityOperations (emit event q) = priorityOperations q" "operations (emit event q) = operations q"
  "ended_ids (emit event q) = ended_ids q @ (case event of OperationEnded completed \<Rightarrow> [completed_id completed] | _ \<Rightarrow> [])"
  "queued_ids (emit event q) = queued_ids q"
  by (simp_all add: emit_def ended_ids_def queued_ids_def split: QueueEvent.splits)

lemma ended_ids_update [simp]:
  "ended_ids (q\<lparr>priorityOperations := items\<rparr>) = ended_ids q" "ended_ids (q\<lparr>operations := items\<rparr>) = ended_ids q"
  "ended_ids (q\<lparr>postedCancels := waiting\<rparr>) = ended_ids q" "ended_ids (q\<lparr>queue_paused := pause\<rparr>) = ended_ids q"
  "ended_ids (q\<lparr>progressObservers := observers\<rparr>) = ended_ids q" "ended_ids (q\<lparr>syncScanCallbacks := callbacks\<rparr>) = ended_ids q"
  "ended_ids (q\<lparr>syncSessions := sessions\<rparr>) = ended_ids q" "ended_ids (q\<lparr>completionCallbacks := owners\<rparr>) = ended_ids q"
  "ended_ids (q\<lparr>changedDestinationsLeftToOwner := owners\<rparr>) = ended_ids q" "ended_ids (q\<lparr>bulkResumeStash := stash\<rparr>) = ended_ids q"
  by (simp_all add: ended_ids_def)

lemma wake_simps [simp]:
  "priorityOperations (wake q) = priorityOperations q" "operations (wake q) = operations q"
  "ended_ids (wake q) = ended_ids q" "queued_ids (wake q) = queued_ids q"
  by (simp_all add: wake_def)

lemma queueFor_set [simp]:
  "queueFor mode (set_queue mode items q) = items"
  "queueFor (other_mode mode) (set_queue mode items q) = queueFor (other_mode mode) q"
  "ended_ids (set_queue mode items q) = ended_ids q"
  by (auto simp: queueFor_def set_queue_def ended_ids_def)

lemma queued_ids_mode: "mset (queued_ids q) = mset (map fst (queueFor mode q)) + mset (map fst (queueFor (other_mode mode) q))"
  by (cases mode) (auto simp: queued_ids_def queueFor_def)

text \<open>What leaves both queues and the ended operations as they are.\<close>

definition same_operations :: "('op, 'backup) Queue \<Rightarrow> ('op, 'backup) Queue \<Rightarrow> bool" where
  "same_operations q q' \<longleftrightarrow> priorityOperations q' = priorityOperations q \<and> operations q' = operations q \<and> ended_ids q' = ended_ids q"

lemma same_operations_trans: "same_operations q q' \<Longrightarrow> same_operations q' q'' \<Longrightarrow> same_operations q q''"
  by (simp add: same_operations_def)

lemma callSyncScan_same: "same_operations q (callSyncScan callback failure q)"
  by (simp add: same_operations_def callSyncScan_def cancelSiblingScan_def ended_ids_def emit_def split: option.splits)

lemma extractSyncScan_same: "same_operations q (extractSyncScan ident failure q)"
proof (cases "map_of (syncScanCallbacks q) ident")
  case (Some callback)
  then show ?thesis
    using callSyncScan_same [of "q\<lparr>syncScanCallbacks := filter (\<lambda>entry. fst entry \<noteq> ident) (syncScanCallbacks q)\<rparr>" callback failure]
    by (simp add: extractSyncScan_def same_operations_def ended_ids_def)
qed (simp add: extractSyncScan_def same_operations_def)

lemma failSyncScan_same: "same_operations q (failSyncScan ident failure q)"
  by (simp add: failSyncScan_def extractSyncScan_same)

lemma deliverSyncScan_same: "same_operations q (deliverSyncScan cls ident operation q)"
  using extractSyncScan_same [of q ident None] by (simp add: deliverSyncScan_def same_operations_def)

lemma cancelWaitingScans_same: "same_operations q (cancelWaitingScans q)"
proof -
  have "same_operations q (fold (\<lambda>waiting. callSyncScan (snd waiting) (Some ScanCancelled)) waitings q)"
    for waitings and q :: "('op, 'backup) Queue"
  proof (induction waitings arbitrary: q)
    case (Cons waiting waitings)
    show ?case using same_operations_trans [OF callSyncScan_same Cons] by simp
  qed (simp add: same_operations_def)
  from this [of "q\<lparr>syncScanCallbacks := []\<rparr>"] show ?thesis
    by (simp add: cancelWaitingScans_def same_operations_def ended_ids_def)
qed

lemma rememberKept_same: "rememberKeptPartialFiles cls ident operation q = (kept, q') \<Longrightarrow> same_operations q q'"
  by (auto simp: rememberKeptPartialFiles_def same_operations_def ended_ids_def Let_def split: option.splits)

lemma completed_id_left [simp]: "completed_id (leaveChangesToOwner completed) = completed_id completed"
  by (simp add: leaveChangesToOwner_def Let_def split: option.splits)

lemma completeOperation_ends:
  "priorityOperations (completeOperation completed q) = priorityOperations q"
  "operations (completeOperation completed q) = operations q"
  "ended_ids (completeOperation completed q) = ended_ids q @ [completed_id completed]"
  by (auto simp: completeOperation_def Let_def ended_ids_def emit_def)

lemma completeCancelledByUser_ends:
  "priorityOperations (completeCancelledByUser cls partialFiles ident operation q) = priorityOperations q"
  "operations (completeCancelledByUser cls partialFiles ident operation q) = operations q"
  "ended_ids (completeCancelledByUser cls partialFiles ident operation q) = ended_ids q @ [ident]"
proof -
  let ?operation = "class_cancel cls True (if partialFiles = Some Kept then keepPartialFiles cls operation else operation)"
  obtain kept q1 where keep: "rememberKeptPartialFiles cls ident ?operation q = (kept, q1)" by force
  note same = rememberKept_same [OF keep, unfolded same_operations_def]
  show "priorityOperations (completeCancelledByUser cls partialFiles ident operation q) = priorityOperations q"
    "operations (completeCancelledByUser cls partialFiles ident operation q) = operations q"
    "ended_ids (completeCancelledByUser cls partialFiles ident operation q) = ended_ids q @ [ident]"
    using keep same by (simp_all add: completeCancelledByUser_def Let_def completeOperation_ends makeCompletedOperation_def)
qed

lemma completeCancelled_ends:
  "priorityOperations (completeCancelled cls ident operation q) = priorityOperations q"
  "operations (completeCancelled cls ident operation q) = operations q"
  "ended_ids (completeCancelled cls ident operation q) = ended_ids q @ [ident]"
  by (simp_all add: completeCancelled_def completeOperation_ends makeCompletedOperation_def)

lemma takeFirst_ids:
  "takeFirst ident queue = Some (operation, rest) \<Longrightarrow> mset (map fst queue) = add_mset ident (mset (map fst rest))"
  by (induction queue arbitrary: rest) (auto split: if_splits)

lemma takeOperation_ids:
  assumes "takeOperation ident q = (taken, q')"
  shows "mset (queued_ids q) = mset (queued_ids q') + (if taken = None then {#} else {#ident#}) \<and> ended_ids q' = ended_ids q"
  using assms by (auto simp: takeOperation_def queued_ids_def ended_ids_def split: option.splits dest!: takeFirst_ids)

subsection \<open>What one tick changes\<close>

lemma replaced_ids: "map fst (queue[index := (fst (queue ! index), x)]) = map fst queue"
  by (cases "index < length queue") (simp_all add: map_update list_update_beyond list_update_same_conv)

lemma apsnd_pair: "apsnd f p = (fst p, f (snd p))"
  by (cases p) simp

lemma grantSlots_keeps:
  "map fst (grantSlots cls items queue) = map fst queue \<and>
   ((\<forall>item \<in> set items. eligible_index item < n) \<longrightarrow> drop n (grantSlots cls items queue) = drop n queue)"
proof (induction items arbitrary: queue)
  case (Cons item items)
  have "map fst (queue[eligible_index item := apsnd f (queue ! eligible_index item)]) = map fst queue" for f :: "'a \<Rightarrow> 'a"
    unfolding apsnd_pair by (rule replaced_ids)
  then show ?case using Cons [of "queue[eligible_index item := apsnd (setParallelBudget cls (eligible_slots item)) (queue ! eligible_index item)]"]
    by simp
qed simp

lemma runBatch_keeps:
  "runBatch cls only items queue world = (results, queue', world') \<Longrightarrow>
     map fst queue' = map fst queue \<and> fst ` set results \<subseteq> eligible_index ` set items \<and>
     ((\<forall>item \<in> set items. eligible_index item < n) \<longrightarrow> drop n queue' = drop n queue)"
proof (induction items arbitrary: queue world results queue' world')
  case (Cons item items)
  let ?index = "eligible_index item" and ?operation = "snd (queue ! eligible_index item)"
  show ?case
  proof (cases "only \<noteq> None \<and> usesStrand cls ?operation \<noteq> the only")
    case True
    then have "runBatch cls only items queue world = (results, queue', world')" using Cons.prems by (simp add: Let_def)
    from Cons.IH [OF this] show ?thesis by auto
  next
    case False
    obtain result operation world1 where work:
      "(if usesStrand cls ?operation then class_workInStrand cls ?operation world else class_work cls ?operation world) = (result, operation, world1)"
      by (metis prod_cases3)
    let ?queue = "queue[?index := (fst (queue ! ?index), operation)]"
    have ids: "map fst ?queue = map fst queue" by (rule replaced_ids)
    show ?thesis
    proof (cases "isTerminal result")
      case True
      with Cons.prems work False have "results = [(?index, result)]" "queue' = ?queue"
        by (simp_all add: Let_def split: if_splits prod.splits)
      with ids show ?thesis by simp
    next
      case more: False
      obtain results1 queue1 world2 where rest: "runBatch cls only items ?queue world1 = (results1, queue1, world2)" by (metis prod_cases3)
      from Cons.prems work False more rest have "results = (?index, result) # results1" "queue' = queue1"
        by (simp_all add: Let_def split: if_splits prod.splits)
      with Cons.IH [OF rest] ids show ?thesis by auto
    qed
  qed
qed simp

lemma runEligible_keeps:
  assumes "runEligible cls eligible queue world = (results, queue', world')"
  shows "map fst queue' = map fst queue" and "fst ` set results \<subseteq> eligible_index ` set eligible"
    and "(\<And>item. item \<in> set eligible \<Longrightarrow> eligible_index item < n) \<Longrightarrow> drop n queue' = drop n queue"
proof -
  have "map fst queue' = map fst queue \<and> fst ` set results \<subseteq> eligible_index ` set eligible \<and>
     ((\<forall>item \<in> set eligible. eligible_index item < n) \<longrightarrow> drop n queue' = drop n queue)"
  proof (cases "strandOwner cls eligible queue world")
    case None
    with assms runBatch_keeps show ?thesis by (simp add: runEligible_def)
  next
    case (Some item)
    then have member: "item \<in> set eligible" by (auto simp: strandOwner_def find_Some_iff)
    obtain results1 queue1 world1 where first: "runBatch cls (Some True) eligible queue world = (results1, queue1, world1)"
      by (metis prod_cases3)
    obtain results2 queue2 world2 where second: "runBatch cls (Some False) eligible queue1 world1 = (results2, queue2, world2)"
      by (metis prod_cases3)
    note kept1 = runBatch_keeps [OF first, of n] and kept2 = runBatch_keeps [OF second, of n]
    from assms Some first second
    consider "queue' = queue" "fst ` set results = {eligible_index item}"
      | "queue' = queue1" "results = results1" | "queue' = queue2" "fst ` set results = fst ` set results1 \<union> fst ` set results2"
      by (auto simp: runEligible_def image_Un split: if_splits)
    then show ?thesis
    proof cases
      case 3
      with kept1 kept2 show ?thesis by (intro conjI impI) simp_all
    qed (use kept1 member in auto)
  qed
  then show "map fst queue' = map fst queue" "fst ` set results \<subseteq> eligible_index ` set eligible"
    "(\<And>item. item \<in> set eligible \<Longrightarrow> eligible_index item < n) \<Longrightarrow> drop n queue' = drop n queue" by auto
qed

text \<open>The operation at \<open>index\<close> is out of the queue and has ended, or none is.\<close>

definition ended_at :: "OperationMode \<Rightarrow> nat \<Rightarrow> ('op, 'backup) Queue \<Rightarrow> ('op, 'backup) Queue \<Rightarrow> bool" where
  "ended_at mode index q q' \<longleftrightarrow> index < length (queueFor mode q) \<and>
     queueFor mode q' = take index (queueFor mode q) @ drop (Suc index) (queueFor mode q) \<and>
     queueFor (other_mode mode) q' = queueFor (other_mode mode) q \<and>
     ended_ids q' = ended_ids q @ [fst (queueFor mode q ! index)]"

lemma same_operations_queueFor: "same_operations q q' \<Longrightarrow> queueFor mode q' = queueFor mode q \<and> ended_ids q' = ended_ids q"
  by (simp add: same_operations_def queueFor_def)

lemma finished_at:
  assumes "index < length (queueFor mode q)" and "same_operations (takeFinished mode index q) q1"
    and "completed_id completed = fst (queueFor mode q ! index)"
  shows "ended_at mode index q (completeOperation completed q1)"
proof -
  have "queueFor m (completeOperation completed q1) = queueFor m q1" for m
    by (simp add: queueFor_def completeOperation_ends)
  with assms same_operations_queueFor [OF assms(2)] show ?thesis
    unfolding ended_at_def takeFinished_def completeOperation_ends queueFor_set by simp
qed

lemma handleResults_ends:
  "handleResults cls mode results moreWork q = (again, q') \<Longrightarrow> \<forall>result \<in> set results. fst result < length (queueFor mode q) \<Longrightarrow>
     q' = q \<or> again \<and> (\<exists>index \<in> fst ` set results. ended_at mode index q q')"
proof (induction cls mode results moreWork q arbitrary: again q' rule: handleResults.induct)
  case (2 cls mode index error results moreWork q)
  obtain ident operation where entry: "queueFor mode q ! index = (ident, operation)" by force
  have "ended_at mode index q q'" "again"
    using 2 entry by (auto simp: makeCompletedOperation_def intro!: finished_at [OF _ failSyncScan_same])
  then show ?case by simp
next
  case (3 cls mode index status results moreWork q)
  obtain ident operation where entry: "queueFor mode q ! index = (ident, operation)" by force
  show ?case
  proof (cases "status = Complete")
    case True
    have "ended_at mode index q q'" "again"
      using 3 True entry by (auto simp: makeCompletedOperation_def Let_def intro!: finished_at [OF _ deliverSyncScan_same])
    then show ?thesis by simp
  qed (use 3 in auto)
qed auto

lemma eligible_bounds:
  assumes "item \<in> set (collectEligibleOperations cls queue budget)"
  shows "eligible_index item < length (collectEligibleOperations cls queue budget)"
    and "length (collectEligibleOperations cls queue budget) \<le> length queue"
proof -
  have "eligible_index item \<in> set (map eligible_index (collectFrom cls queue 0 (max 1 budget)))"
    using assms by (simp add: collectEligibleOperations_def)
  then show "eligible_index item < length (collectEligibleOperations cls queue budget)"
    unfolding collectFrom_indices collectEligibleOperations_def by simp
  show "length (collectEligibleOperations cls queue budget) \<le> length queue"
    unfolding collectEligibleOperations_def by (rule collectFrom_length)
qed

text \<open>What one tick of a queue does: the operations behind the eligible ones stay as they are.\<close>

definition tick_of :: "('op, 'w, 'backup) OperationClass \<Rightarrow> OperationMode \<Rightarrow> ('op, 'backup) Queue \<Rightarrow> bool \<Rightarrow> ('op, 'backup) Queue \<Rightarrow> bool" where
  "tick_of cls mode q again q' \<longleftrightarrow>
     (let n = length (collectEligibleOperations cls (queueFor mode q) (parallelism q)); ids = map fst (queueFor mode q) in
      queueFor (other_mode mode) q' = queueFor (other_mode mode) q \<and>
      (map fst (queueFor mode q') = ids \<and> drop n (queueFor mode q') = drop n (queueFor mode q) \<and> ended_ids q' = ended_ids q \<or>
       again \<and> (\<exists>index < n. map fst (queueFor mode q') = take index ids @ drop (Suc index) ids \<and>
         drop (n - 1) (queueFor mode q') = drop n (queueFor mode q) \<and> ended_ids q' = ended_ids q @ [ids ! index])))"

lemma drop_removed: "index < n \<Longrightarrow> n \<le> length xs \<Longrightarrow> drop (n - 1) (take index xs @ drop (Suc index) xs) = drop n xs"
proof -
  assume "index < n" "n \<le> length xs"
  then obtain m where m: "n = Suc (index + m)" by (metis less_iff_Suc_add)
  then have "min (length xs) index = index" using \<open>n \<le> length xs\<close> by simp
  then show ?thesis by (simp add: m add.commute)
qed

lemma workQueue_tick:
  assumes "workQueue cls mode q world = (again, q', world')"
  shows "tick_of cls mode q again q'"
proof -
  let ?queue = "queueFor mode q"
  let ?eligible = "collectEligibleOperations cls ?queue (parallelism q)"
  let ?n = "length ?eligible"
  show ?thesis
  proof (cases "?eligible = []")
    case True
    with assms show ?thesis by (simp add: workQueue_def tick_of_def Let_def)
  next
    case False
    obtain results queue1 world1 where run: "runEligible cls ?eligible (grantSlots cls ?eligible ?queue) world = (results, queue1, world1)"
      by (metis prod_cases3)
    have bound: "eligible_index item < ?n" if "item \<in> set ?eligible" for item by (rule eligible_bounds(1) [OF that])
    have n: "?n \<le> length ?queue" using eligible_bounds(2) False by (metis list.set_intros(1) neq_Nil_conv)
    note kept = runEligible_keeps(1,2) [OF run] runEligible_keeps(3) [OF run, of ?n, OF bound]
    note granted = grantSlots_keeps [of cls ?eligible ?queue ?n]
    have ids: "map fst queue1 = map fst ?queue" using kept(1) granted by simp
    have rest: "drop ?n queue1 = drop ?n ?queue" using kept(3) granted bound by simp
    have len: "length queue1 = length ?queue" using ids by (metis length_map)
    let ?q1 = "set_queue mode queue1 q"
    have handled: "handleResults cls mode results False ?q1 = (again, q')" using assms False run by (auto simp: workQueue_def split: prod.splits)
    have below: "fst result < ?n" if "result \<in> set results" for result using kept(2) that bound by fastforce
    then have "\<forall>result \<in> set results. fst result < length (queueFor mode ?q1)" using n len by (metis order.strict_trans2 queueFor_set(1))
    from handleResults_ends [OF handled this] consider "q' = ?q1"
      | index where "again" "index \<in> fst ` set results" "ended_at mode index ?q1 q'" by blast
    then show ?thesis
    proof cases
      case 1
      show ?thesis unfolding tick_of_def Let_def 1 queueFor_set using ids rest by simp
    next
      case 2
      have index: "index < ?n" using 2(2) below by force
      have "map fst (take index queue1 @ drop (Suc index) queue1) = take index (map fst ?queue) @ drop (Suc index) (map fst ?queue)"
        unfolding ids [symmetric] by (simp add: take_map drop_map)
      moreover have "drop (?n - 1) (take index queue1 @ drop (Suc index) queue1) = drop ?n queue1"
        by (rule drop_removed) (use index n len in simp_all)
      moreover have "fst (queue1 ! index) = map fst ?queue ! index" unfolding ids [symmetric] using index n len by simp
      ultimately show ?thesis using 2(1,3) index rest
        unfolding tick_of_def Let_def ended_at_def queueFor_set by auto
    qed
  qed
qed

lemma queue_work_tick:
  assumes "queue_work cls q world = (again, q', world')"
  shows "q' = q \<and> world' = world \<and> \<not> again \<and> queue_paused q \<and> \<not> hasPriorityWork q \<or>
    tick_of cls (if hasPriorityWork q then PriorityQueued else Queued) q again q'"
  using assms workQueue_tick [of cls _ q world again q' world']
  by (auto simp: queue_work_def hasPriorityWork_def split: if_splits)

subsection \<open>Nothing is lost\<close>

definition balanced :: "string list \<Rightarrow> string list \<Rightarrow> ('op, 'backup) Queue \<Rightarrow> ('op, 'backup) Queue \<Rightarrow> bool" where
  "balanced added dropped q q' \<longleftrightarrow> (\<exists>ended. ended_ids q' = ended_ids q @ ended \<and>
     mset (queued_ids q') + mset ended + mset dropped = mset (queued_ids q) + mset added)"

lemma balanced_same: "same_operations q q' \<Longrightarrow> balanced [] [] q q'"
  by (auto simp: balanced_def same_operations_def queued_ids_def)

lemma mset_without: "index < length xs \<Longrightarrow> mset xs = mset (take index xs @ drop (Suc index) xs) + {#xs ! index#}"
  by (metis add_mset_add_single id_take_nth_drop mset.simps(2) mset_append union_mset_add_mset_right)

lemma balanced_tick:
  assumes "tick_of cls mode q again q'"
  shows "balanced [] [] q q'"
proof -
  let ?n = "length (collectEligibleOperations cls (queueFor mode q) (parallelism q))" and ?ids = "map fst (queueFor mode q)"
  have n: "?n \<le> length ?ids" unfolding collectEligibleOperations_def by (simp add: collectFrom_length)
  from assms consider "map fst (queueFor mode q') = ?ids" "ended_ids q' = ended_ids q" "queueFor (other_mode mode) q' = queueFor (other_mode mode) q"
    | index where "index < ?n" "map fst (queueFor mode q') = take index ?ids @ drop (Suc index) ?ids"
      "ended_ids q' = ended_ids q @ [?ids ! index]" "queueFor (other_mode mode) q' = queueFor (other_mode mode) q"
    unfolding tick_of_def Let_def by blast
  then show ?thesis
  proof cases
    case 1
    then show ?thesis unfolding balanced_def by (intro exI [of _ "[]"]) (simp add: queued_ids_mode [of _ mode] del: mset_map)
  next
    case 2
    then show ?thesis unfolding balanced_def queued_ids_mode [of _ mode] 2(2,4)
      using mset_without [of index ?ids] n by (intro exI [of _ "[?ids ! index]"]) simp
  qed
qed

lemma balanced_cancelAll: "balanced [] [] q (cancelAll cls partialFiles q)"
proof -
  have "priorityOperations (fold (\<lambda>(ident, operation). completeCancelledByUser cls partialFiles ident operation) cancelled q) = priorityOperations q \<and>
      operations (fold (\<lambda>(ident, operation). completeCancelledByUser cls partialFiles ident operation) cancelled q) = operations q \<and>
      ended_ids (fold (\<lambda>(ident, operation). completeCancelledByUser cls partialFiles ident operation) cancelled q) = ended_ids q @ map fst cancelled"
    for cancelled and q :: "('a, 'b) Queue"
    by (induction cancelled arbitrary: q) (auto simp: completeCancelledByUser_ends)
  note folded = this [of "priorityOperations q @ operations q" "cancelWaitingScans (q\<lparr>priorityOperations := [], operations := []\<rparr>)"]
  have "same_operations (q\<lparr>priorityOperations := [], operations := []\<rparr>) (cancelWaitingScans (q\<lparr>priorityOperations := [], operations := []\<rparr>))"
    by (rule cancelWaitingScans_same)
  with folded show ?thesis
    by (intro balanced_def [THEN iffD2] exI [of _ "queued_ids q"])
      (simp add: cancelAll_def Let_def same_operations_def queued_ids_def)
qed

lemma balanced_cancel: "balanced [] [] q (queue_cancel cls partialFiles ident q)"
proof -
  obtain taken q1 where take: "takeOperation ident q = (taken, q1)" by force
  note same = failSyncScan_same [of q1 ident ScanCancelled, unfolded same_operations_def]
  have "queued_ids (failSyncScan ident ScanCancelled q1) = queued_ids q1" using same by (simp add: queued_ids_def)
  with same take takeOperation_ids [OF take] show ?thesis
    by (cases taken) (auto simp: queue_cancel_def balanced_def queued_ids_def completeCancelledByUser_ends)
qed

lemma balanced_cancelUpload: "balanced [] [] q (cancelUpload cls part ident q)"
proof -
  obtain taken q1 where take: "takeOperation ident q = (taken, q1)" by force
  with takeOperation_ids [OF take] show ?thesis
    by (cases taken) (auto simp: cancelUpload_def balanced_def queued_ids_def completeCancelled_ends)
qed

lemma indexOf_nth: "indexOf ident queue = Some index \<Longrightarrow> index < length queue \<and> fst (queue ! index) = ident"
  by (induction queue arbitrary: index) (auto split: if_splits)

lemma moved_mset:
  assumes "old < length xs"
  shows "mset (reinserted old new xs) = mset xs"
proof -
  have "mset (take new zs @ x # drop new zs) = mset zs + {#x#}" for zs :: "'a list" and x
    by (metis append_take_drop_id mset_append mset.simps(2) union_mset_add_mset_right add_mset_add_single)
  then show ?thesis unfolding reinserted_def Let_def using mset_without [OF assms] by metis
qed

lemma balanced_move: "balanced [] [] q (moveOperation ident newIndex q)"
proof -
  have ended: "ended_ids (moveOperation ident newIndex q) = ended_ids q"
    by (auto simp: moveOperation_def Let_def emit_def ended_ids_def wake_def split: option.splits)
  have "mset (operations (moveOperation ident newIndex q)) = mset (operations q)"
    by (auto simp: moveOperation_def Let_def moved_mset dest: indexOf_nth split: option.splits)
  moreover have "priorityOperations (moveOperation ident newIndex q) = priorityOperations q"
    by (auto simp: moveOperation_def Let_def split: option.splits)
  ultimately show ?thesis using ended by (simp add: balanced_def queued_ids_def)
qed

lemma filter_distinct: "distinct (map fst queue) \<Longrightarrow>
  mset (map fst queue) = mset (map fst (filter (\<lambda>queued. fst queued \<noteq> ident) queue)) + (if ident \<in> fst ` set queue then {#ident#} else {#})"
  by (induction queue) (auto simp: filter_id_conv image_iff)

lemma balanced_posted:
  assumes "distinct (queued_ids q)"
  shows "balanced [] [] q (runPostedCancel q)"
proof (cases "postedCancels q")
  case (Cons ident waiting)
  let ?kept = "\<lambda>queue. filter (\<lambda>queued. fst queued \<noteq> ident) queue"
  have dist: "distinct (map fst (priorityOperations q))" "distinct (map fst (operations q))"
    "fst ` set (priorityOperations q) \<inter> fst ` set (operations q) = {}" using assms by (auto simp: queued_ids_def)
  note parts = filter_distinct [OF dist(1), of ident] filter_distinct [OF dist(2), of ident]
  have ids: "queued_ids (runPostedCancel q) = map fst (?kept (priorityOperations q)) @ map fst (?kept (operations q))"
    using Cons by (simp add: runPostedCancel_def Let_def queued_ids_def completeOperation_ends)
  show ?thesis
  proof (cases "ident \<in> fst ` set (priorityOperations q) \<or> ident \<in> fst ` set (operations q)")
    case True
    with Cons have ended: "ended_ids (runPostedCancel q) = ended_ids q @ [ident]"
      by (auto simp: runPostedCancel_def Let_def completeOperation_ends)
    have one: "(if ident \<in> fst ` set (priorityOperations q) then {#ident#} else {#}) +
      (if ident \<in> fst ` set (operations q) then {#ident#} else {#}) = {#ident#}" using True dist(3) by auto
    show ?thesis unfolding balanced_def ended ids
      by (intro exI [of _ "[ident]"]) (simp del: mset_map add: queued_ids_def parts one [symmetric])
  next
    case False
    with Cons have ended: "ended_ids (runPostedCancel q) = ended_ids q"
      by (auto simp: runPostedCancel_def Let_def)
    show ?thesis unfolding balanced_def ended ids
      by (intro exI [of _ "[]"]) (use False in \<open>simp del: mset_map add: queued_ids_def parts\<close>)
  qed
qed (simp add: runPostedCancel_def balanced_def)

lemma balanced_add: "balanced [ident] [] q (wake (pushOperation cls mode ident operation q))"
  by (simp add: balanced_def pushOperation_def queued_ids_def set_queue_def queueFor_def)

lemma balanced_addScans:
  "balanced [remoteScanId, localScanId] [] q (addSyncScans cls session remoteScanId remoteScan localScanId localScan q)"
  by (simp add: balanced_def addSyncScans_def pushOperation_def queued_ids_def set_queue_def queueFor_def Let_def)

lemma balanced_drop: "balanced [] (queued_ids q) q (dropAll q)"
  using cancelWaitingScans_same [of "q\<lparr>operations := [], priorityOperations := [], progressObservers := []\<rparr>"]
  by (simp add: balanced_def dropAll_def same_operations_def queued_ids_def)

lemma balanced_unchanged:
  "balanced [] [] q (q\<lparr>completionCallbacks := owners\<rparr>)" "balanced [] [] q (q\<lparr>progressObservers := owners\<rparr>)"
  "balanced [] [] q (q\<lparr>changedDestinationsLeftToOwner := owners\<rparr>)" "balanced [] [] q (q\<lparr>bulkResumeStash := stash\<rparr>)"
  "balanced [] [] q (q\<lparr>syncSessions := sessions\<rparr>)"
  by (simp_all add: balanced_def queued_ids_def)

lemma perform_balanced:
  assumes "distinct (queued_ids q)" and "perform cls call (q, world) = (q', world')"
  shows "balanced (added_by call) (dropped_by call q) q q'"
proof (cases call)
  case CallWork
  obtain again where "queue_work cls q world = (again, q', world')" using assms(2) CallWork by (metis perform.simps(3) prod.collapse)
  from queue_work_tick [OF this] show ?thesis using balanced_tick CallWork by (auto simp: balanced_def)
next
  case CallPosted
  then show ?thesis using assms balanced_posted [OF assms(1)] by simp
next
  case (CallPaused pause)
  have "map fst (map (apsnd f) items) = map fst items" for f :: "'a \<Rightarrow> 'a" and items :: "(string \<times> 'a) list"
    by simp
  with CallPaused assms(2) have "queued_ids q' = queued_ids q" "ended_ids q' = ended_ids q"
    by (auto simp: setPaused_def queued_ids_def)
  with CallPaused show ?thesis by (simp add: balanced_def)
qed (use assms in \<open>auto simp: balanced_add balanced_addScans balanced_cancel balanced_cancelAll balanced_cancelUpload
      balanced_move balanced_drop dumpBulkResumes_def balanced_unchanged\<close>)

lemma distinct_sub: "mset xs \<subseteq># mset ys \<Longrightarrow> distinct ys \<Longrightarrow> distinct xs"
proof -
  assume sub: "mset xs \<subseteq># mset ys" and "distinct ys"
  then have "count (mset ys) a \<le> 1" for a by (simp add: distinct_count_atmost_1)
  then have "count (mset xs) a \<le> 1" for a using mset_subset_eq_count [OF sub] order_trans by blast
  moreover have "count (mset xs) a > 0" if "a \<in> set xs" for a using that by simp
  ultimately show "distinct xs"
    unfolding distinct_count_atmost_1 by (metis One_nat_def Suc_leI count_eq_zero_iff le_antisym set_mset_mset)
qed

lemma balanced_distinct:
  assumes "balanced added dropped q q'" and "distinct (queued_ids q)" "distinct added" "set added \<inter> set (queued_ids q) = {}"
  shows "distinct (queued_ids q')"
proof -
  have "mset (queued_ids q') \<subseteq># mset (queued_ids q @ added)"
    using assms(1) unfolding balanced_def by (metis mset_append mset_subset_eq_add_left add.assoc)
  moreover have "distinct (queued_ids q @ added)" using assms by auto
  ultimately show ?thesis by (rule distinct_sub)
qed

lemma run_balanced:
  "fresh_run cls calls (q, world) \<Longrightarrow> distinct (queued_ids q) \<Longrightarrow> fold (perform cls) calls (q, world) = (q', world') \<Longrightarrow>
     balanced (concat (map added_by calls)) (dropped_in cls calls (q, world)) q q' \<and> distinct (queued_ids q')"
proof (induction calls arbitrary: q world)
  case (Cons call calls)
  obtain q1 world1 where step: "perform cls call (q, world) = (q1, world1)" by force
  have first: "balanced (added_by call) (dropped_by call q) q q1" by (rule perform_balanced [OF Cons.prems(2) step])
  have "distinct (queued_ids q1)" by (rule balanced_distinct [OF first Cons.prems(2)]) (use Cons.prems in simp_all)
  from Cons.IH [OF _ this, of world1] Cons.prems step
  have rest: "balanced (concat (map added_by calls)) (dropped_in cls calls (q1, world1)) q1 q'" "distinct (queued_ids q')" by simp_all
  from first obtain ended1 where ended1: "ended_ids q1 = ended_ids q @ ended1"
    "mset (queued_ids q1) + mset ended1 + mset (dropped_by call q) = mset (queued_ids q) + mset (added_by call)"
    unfolding balanced_def by blast
  from rest(1) obtain ended2 where ended2: "ended_ids q' = ended_ids q1 @ ended2"
    "mset (queued_ids q') + mset ended2 + mset (dropped_in cls calls (q1, world1)) = mset (queued_ids q1) + mset (concat (map added_by calls))"
    unfolding balanced_def by blast
  have "mset (queued_ids q') + mset (ended1 @ ended2) + mset (dropped_by call q @ dropped_in cls calls (q1, world1)) =
      mset (queued_ids q) + mset (added_by call @ concat (map added_by calls))"
    using ended1(2) ended2(2) by (simp add: ac_simps)
  with ended1(1) ended2(1) step rest(2) show ?case unfolding balanced_def by (intro conjI exI [of _ "ended1 @ ended2"]) simp_all
qed (simp add: balanced_def)

text \<open>C6:
  No operation of a queue is lost and none ends twice. After any sequence of calls of a new queue (adding operations and
  scans under ids that are not queued, ticks, cancels of one, of all and of uploads, moves, pauses, posted cancels of
  sibling scans, drops), the operations queued now, those whose end the frontend was told and those dropped for a
  reconnect are together exactly the added ones, and no id is queued twice.
\<close>

theorem operations_conserved:
  assumes "fresh_run cls calls (newQueue slots, world)" and "fold (perform cls) calls (newQueue slots, world) = (q, world')"
  shows "mset (queued_ids q) + mset (ended_ids q) + mset (dropped_in cls calls (newQueue slots, world)) =
      mset (concat (map added_by calls)) \<and> distinct (queued_ids q)"
proof -
  have "queued_ids (newQueue slots :: ('a, 'c) Queue) = []" "ended_ids (newQueue slots :: ('a, 'c) Queue) = []"
    by (simp_all add: newQueue_def queued_ids_def ended_ids_def)
  with run_balanced [OF assms(1) _ assms(2)] show ?thesis by (auto simp: balanced_def)
qed

text \<open>C24:
  One tick of the queue: while it is paused and has no priority operation nothing happens; else one of its two lists is
  worked and the other is left alone, the regular one only when there is no priority operation. In the worked list no
  operation changes its place, those behind the eligible ones (behind a barrier or beyond the slots) are not touched, and
  at most one ends, an eligible one, which leaves the list as the frontend is told; the queue asks to be called again then.
\<close>

theorem one_tick:
  assumes "queue_work cls q world = (again, q', world')"
  shows "q' = q \<and> world' = world \<and> \<not> again \<and> queue_paused q \<and> \<not> hasPriorityWork q \<or>
    tick_of cls (if hasPriorityWork q then PriorityQueued else Queued) q again q'"
  using assms by (rule queue_work_tick)

lemma one_tick_witness:
  "fst (queue_work (scan_class sample_server :: (ScanOperation, unit, unit) OperationClass)
     (pushOperation (scan_class sample_server :: (ScanOperation, unit, unit) OperationClass) PriorityQueued ''a''
       (scan_new (remote_of [''r'']) False True False) (newQueue 2)) ())"
proof -
  let ?cls = "scan_class sample_server :: (ScanOperation, unit, unit) OperationClass"
  let ?q = "pushOperation ?cls PriorityQueued ''a'' (scan_new (remote_of [''r'']) False True False) (newQueue 2)"
  obtain again q' u where work: "queue_work ?cls ?q () = (again, q', u)" by (rule prod_cases3)
  have priority: "hasPriorityWork ?q" by code_simp
  have again: "fst (queue_work ?cls ?q ())" by code_simp
  from one_tick [OF work] priority again work show ?thesis by simp
qed

lemma indexOf_none: "indexOf ident queue = None \<longleftrightarrow> ident \<notin> fst ` set queue"
  by (induction queue) auto

lemma indexOf_distinct: "distinct (map fst queue) \<Longrightarrow> index < length queue \<Longrightarrow> indexOf (fst (queue ! index)) queue = Some index"
  by (induction queue arbitrary: index) (auto simp: nth_Cons' gr0_conv_Suc split: if_splits)

lemma around: "length zs = n \<Longrightarrow> take n (zs @ y # ys) = zs" "length zs = n \<Longrightarrow> drop (Suc n) (zs @ y # ys) = ys"
  by simp_all

lemma reinserted_place:
  assumes "old < length xs" and "new < length xs"
  shows "reinserted old new xs ! new = xs ! old"
    and "take new (reinserted old new xs) @ drop (Suc new) (reinserted old new xs) = take old xs @ drop (Suc old) xs"
proof -
  let ?rest = "take old xs @ drop (Suc old) xs"
  have new: "length (take new ?rest) = new" using assms by simp
  have place: "reinserted old new xs = take new ?rest @ xs ! old # drop new ?rest" by (simp add: reinserted_def Let_def)
  show "reinserted old new xs ! new = xs ! old" unfolding place by (metis new nth_append_length)
  show "take new (reinserted old new xs) @ drop (Suc new) (reinserted old new xs) = ?rest"
    unfolding place around [OF new] by (rule append_take_drop_id)
qed

definition sample_calls :: "ScanOperation QueueCall list" where
  "sample_calls = [CallAdd Queued ''a'' (scan_new (remote_of [''r'']) False True False),
     CallAdd Queued ''b'' (scan_new (remote_of [''s'']) False True False), CallPaused False, CallWork, CallMove ''b'' 0,
     CallCancel None ''b'', CallWork, CallWork, CallWork, CallWork]"

lemma operations_conserved_witness:
  "ended_ids (fst (fold (perform (scan_class sample_server :: (ScanOperation, unit, unit) OperationClass)) sample_calls (newQueue 2, ())))
     = [''b'', ''a''] \<and>
   queued_ids (fst (fold (perform (scan_class sample_server :: (ScanOperation, unit, unit) OperationClass)) sample_calls (newQueue 2, ()))) = []"
proof -
  let ?cls = "scan_class sample_server :: (ScanOperation, unit, unit) OperationClass"
  let ?start = "(newQueue 2, ()) :: (ScanOperation, unit) Queue \<times> unit"
  have fresh: "fresh_run ?cls sample_calls ?start" by code_simp
  have ended: "ended_ids (fst (fold (perform ?cls) sample_calls ?start)) = [''b'', ''a'']" by code_simp
  have dropped: "dropped_in ?cls sample_calls ?start = []" "mset (concat (map added_by sample_calls)) = {#''a'', ''b''#}" by code_simp+
  obtain q u where run: "fold (perform ?cls) sample_calls ?start = (q, u)" by (rule prod.exhaust)
  from operations_conserved [OF fresh run] ended dropped run have "mset (queued_ids q) = {#}" by simp
  with ended run show ?thesis by simp
qed

end
