(* ===== verification/Local_Queue.thy ===== *)
theory Local_Queue
  imports Remote_Operations Common_Parent "HOL-Library.Multiset"
begin

text \<open>
  The queue of local deletes, copies and moves: \<open>backend/local_operation_queue.cpp\<close>, which drives itself by ticks posted
  to the strand, and the guard its requests pass, \<open>backend/local_delete_guard.cpp\<close>. The operations are any class of
  operations; \<open>localHomeDirectories\<close> and the questions to the filesystem are arguments. The lemmas show that a runnable
  operation always has a tick coming, that none is lost, that the ticks run the operations like a sequential run of them,
  and what the requests that were let in spare.
\<close>

subsection \<open>The guard\<close>

text \<open>
  \<open>disk_isDirectory\<close> is \<open>is_directory(symlink_status(path))\<close>, \<open>disk_equivalent\<close> whether \<open>equivalent\<close> answers true without
  an error.
\<close>

record LocalDisk =
  disk_isDirectory :: "LocalPath \<Rightarrow> bool"
  disk_equivalent :: "LocalPath \<Rightarrow> LocalPath \<Rightarrow> bool"
  compiledLocalPlatform :: LocalPlatform
  compiledForApple :: bool

definition guard_foldsCase :: "LocalDisk \<Rightarrow> LocalPath \<Rightarrow> bool" where
  "guard_foldsCase disk path \<longleftrightarrow> compiledForApple disk \<or> local_platform path = Windows"

definition containsAsText :: "LocalDisk \<Rightarrow> LocalPath \<Rightarrow> LocalPath \<Rightarrow> bool" where
  "containsAsText disk target home \<longleftrightarrow>
     local_isWithin home target \<or> guard_foldsCase disk target \<and> local_isWithinIgnoringCase home target"

definition isHomeOrAncestorOnDisk :: "LocalDisk \<Rightarrow> LocalPath \<Rightarrow> LocalPath \<Rightarrow> bool" where
  "isHomeOrAncestorOnDisk disk target home \<longleftrightarrow>
     local_platform target = compiledLocalPlatform disk \<and> local_platform home = local_platform target \<and>
     disk_isDirectory disk target \<and>
     (case climb local_parent (\<lambda>ancestor. disk_equivalent disk ancestor target) (Some home) of
        Some (Some _) \<Rightarrow> True | _ \<Rightarrow> False)"

definition refuseProtectedLocalDelete :: "LocalDisk \<Rightarrow> LocalPath \<Rightarrow> LocalPath list \<Rightarrow> string + unit" where
  "refuseProtectedLocalDelete disk target homes =
     (if local_empty target then Inl ''no path''
      else if local_isRoot target then Inl ([CHR 0x27] @ local_value target @ [CHR 0x27] @ '' is a root directory'')
      else case find (\<lambda>home. containsAsText disk target home \<or> isHomeOrAncestorOnDisk disk target home) homes of
          Some protectedHome \<Rightarrow> Inl ([CHR 0x27] @ local_value target @ [CHR 0x27] @ '' is or contains the home directory '' @
            [CHR 0x27] @ local_value protectedHome @ [CHR 0x27])
        | None \<Rightarrow> Inr ())"

definition localDeleteTarget :: "LocalDisk \<Rightarrow> string \<Rightarrow> LocalPath list \<Rightarrow> string + LocalPath" where
  "localDeleteTarget disk utf8 homes =
     (case LocalPath_fromUtf8 utf8 (compiledLocalPlatform disk) of
        Inl e \<Rightarrow> Inl (PathError_toString e)
      | Inr target \<Rightarrow>
          (let generic = (if local_platform target = Windows
               then map (\<lambda>c. if c = CHR 0x5C then slash else c) utf8 else utf8) in
           if ''..'' \<in> set (splitAtSlashes generic) then Inl ([CHR 0x27] @ utf8 @ [CHR 0x27] @ '' contains '' @ [CHR 0x27] @ ''..'' @ [CHR 0x27])
           else case refuseProtectedLocalDelete disk target homes of
               Inl e \<Rightarrow> Inl e
             | Inr _ \<Rightarrow> Inr target))"

text \<open>The target is set, no root, not above a home, and no directory above a home by another name.\<close>

definition spares_homes :: "LocalDisk \<Rightarrow> LocalPath list \<Rightarrow> LocalPath \<Rightarrow> bool" where
  "spares_homes disk homes target \<longleftrightarrow>
     \<not> local_empty target \<and> \<not> local_isRoot target \<and>
     (\<forall>home \<in> set homes. \<not> local_isWithin home target \<and>
        (local_platform target = compiledLocalPlatform disk \<and> disk_isDirectory disk target \<longrightarrow>
         (\<forall>ancestor. valid_local ancestor \<and> local_isWithin home ancestor \<and> local_platform home = local_platform target \<longrightarrow>
            \<not> disk_equivalent disk ancestor target)))"

lemma refuse_spares:
  assumes "refuseProtectedLocalDelete disk target homes = Inr ()" and "\<forall>home \<in> set homes. valid_local home"
  shows "spares_homes disk homes target"
proof -
  have target: "\<not> local_empty target" "\<not> local_isRoot target"
    using assms(1) by (auto simp: refuseProtectedLocalDelete_def split: if_splits)
  have free: "\<not> containsAsText disk target home" "\<not> isHomeOrAncestorOnDisk disk target home" if "home \<in> set homes" for home
    using assms(1) that by (auto simp: refuseProtectedLocalDelete_def find_None_iff split: if_splits option.splits)
  show ?thesis
    unfolding spares_homes_def
  proof (intro conjI ballI impI allI)
    fix home assume home: "home \<in> set homes"
    show "\<not> local_isWithin home target" using free(1) [OF home] by (simp add: containsAsText_def)
    fix ancestor
    assume "local_platform target = compiledLocalPlatform disk \<and> disk_isDirectory disk target"
      and ancestor: "valid_local ancestor \<and> local_isWithin home ancestor \<and> local_platform home = local_platform target"
    moreover obtain r where "climb local_parent (\<lambda>a. disk_equivalent disk a target) (Some home) = Some r"
      "case r of None \<Rightarrow> \<forall>e. valid_local e \<and> local_isWithin home e \<longrightarrow> \<not> disk_equivalent disk e target
         | Some c \<Rightarrow> valid_local c \<and> disk_equivalent disk c target"
      using local_tree.climb_searches [of home "\<lambda>a. disk_equivalent disk a target"] assms(2) home by auto
    ultimately show "\<not> disk_equivalent disk ancestor target"
      using free(2) [OF home] by (auto simp: isHomeOrAncestorOnDisk_def split: option.splits)
  qed (use target in auto)
qed

lemma delete_target_spares:
  assumes "localDeleteTarget disk utf8 homes = Inr target" and "\<forall>home \<in> set homes. valid_local home"
  shows "spares_homes disk homes target"
  using assms(1) refuse_spares [OF _ assms(2)] by (auto simp: localDeleteTarget_def Let_def split: sum.splits if_splits)

subsection \<open>The queue\<close>

record 'op QueuedOperation =
  queued_id :: string
  queued_operation :: 'op
  queued_owner :: "string option"
  queued_held :: bool
  queued_priority :: bool

record LocalCompleted =
  local_reason :: OperationCompletionReason
  local_id :: string
  local_error :: "OperationError option"
  local_failedEntries :: "(string \<times> OperationError) list"

text \<open>What \<open>OperationAdded\<close> tells of a local operation: id, type, mode, \<open>insertRefresh\<close>, \<open>localPath\<close>, \<open>scanPhase\<close> and
  \<open>localDestination\<close>.\<close>

datatype LocalEvent =
  LocalAdded string OperationType OperationMode bool "LocalPath option" bool "LocalPath option"
| LocalEnded LocalCompleted

text \<open>\<open>posted_ticks\<close> counts the tasks of \<open>schedule\<close> the strand has not run yet.\<close>

record 'op LocalQueue =
  local_operations :: "'op QueuedOperation list"
  scheduled :: bool
  posted_ticks :: nat
  local_events :: "LocalEvent list"

definition newLocalQueue :: "'op LocalQueue" where
  "newLocalQueue = \<lparr>local_operations = [], scheduled = False, posted_ticks = 0, local_events = []\<rparr>"

definition local_emit :: "LocalEvent \<Rightarrow> 'op LocalQueue \<Rightarrow> 'op LocalQueue" where
  "local_emit event q = q\<lparr>local_events := local_events q @ [event]\<rparr>"

definition schedule :: "'op LocalQueue \<Rightarrow> 'op LocalQueue" where
  "schedule q = (if scheduled q then q else q\<lparr>scheduled := True, posted_ticks := posted_ticks q + 1\<rparr>)"

definition local_complete :: "('op, 'w, 'backup) OperationClass \<Rightarrow> 'op QueuedOperation \<Rightarrow> OperationCompletionReason \<Rightarrow>
    OperationError option \<Rightarrow> 'op LocalQueue \<Rightarrow> 'op LocalQueue" where
  "local_complete cls queued why error = local_emit (LocalEnded \<lparr>local_reason = why, local_id = queued_id queued,
     local_error = error, local_failedEntries = failed_entries cls (queued_operation queued)\<rparr>)"

text \<open>A priority operation goes before the first that is none, every other one to the end.\<close>

fun insertQueued :: "'op QueuedOperation \<Rightarrow> 'op QueuedOperation list \<Rightarrow> 'op QueuedOperation list" where
  "insertQueued queued [] = [queued]"
| "insertQueued queued (other # others) =
     (if queued_priority queued \<and> \<not> queued_priority other then queued # other # others
      else other # insertQueued queued others)"

definition enqueue :: "'op QueuedOperation \<Rightarrow> 'op LocalQueue \<Rightarrow> 'op LocalQueue" where
  "enqueue queued q = schedule (q\<lparr>local_operations := insertQueued queued (local_operations q)\<rparr>)"

definition local_hold :: "string \<Rightarrow> bool \<Rightarrow> 'op LocalQueue \<Rightarrow> 'op LocalQueue" where
  "local_hold owner held q =
     (let q = q\<lparr>local_operations := map (\<lambda>queued. if queued_owner queued = Some owner \<and> \<not> queued_priority queued
            then queued\<lparr>queued_held := held\<rparr> else queued) (local_operations q)\<rparr> in
      if \<not> held then schedule q else q)"

definition local_release :: "string \<Rightarrow> 'op LocalQueue \<Rightarrow> 'op LocalQueue" where
  "local_release owner q =
     schedule (q\<lparr>local_operations := map (\<lambda>queued. if queued_owner queued \<noteq> Some owner then queued
        else queued\<lparr>queued_owner := None, queued_held := False\<rparr>) (local_operations q)\<rparr>)"

fun indexWhere :: "('a \<Rightarrow> bool) \<Rightarrow> 'a list \<Rightarrow> nat option" where
  "indexWhere P [] = None"
| "indexWhere P (x # xs) = (if P x then Some 0 else map_option Suc (indexWhere P xs))"

abbreviation without :: "nat \<Rightarrow> 'a list \<Rightarrow> 'a list" where
  "without index xs \<equiv> take index xs @ drop (Suc index) xs"

definition local_cancel :: "('op, 'w, 'backup) OperationClass \<Rightarrow> string \<Rightarrow> 'op LocalQueue \<Rightarrow> 'op LocalQueue" where
  "local_cancel cls ident q =
     (case indexWhere (\<lambda>queued. queued_id queued = ident) (local_operations q) of
        None \<Rightarrow> q
      | Some index \<Rightarrow>
          (let found = local_operations q ! index;
               found = found\<lparr>queued_operation := class_cancel cls True (queued_operation found)\<rparr> in
           (local_complete cls found ReasonCanceled None q)\<lparr>local_operations := without index (local_operations q)\<rparr>))"

abbreviation runnable :: "'op QueuedOperation list \<Rightarrow> bool" where
  "runnable queue \<equiv> list_ex (\<lambda>queued. \<not> queued_held queued) queue"

definition local_work :: "('op, 'w, 'backup) OperationClass \<Rightarrow> 'op LocalQueue \<Rightarrow> 'w \<Rightarrow> bool \<times> 'op LocalQueue \<times> 'w" where
  "local_work cls q world =
     (case indexWhere (\<lambda>queued. \<not> queued_held queued) (local_operations q) of
        None \<Rightarrow> (False, q, world)
      | Some index \<Rightarrow>
          (case class_work cls (queued_operation (local_operations q ! index)) world of
             (result, operation, world) \<Rightarrow>
               (let next_queued = (local_operations q ! index)\<lparr>queued_operation := operation\<rparr>;
                    q = (case result of
                        Inl error \<Rightarrow> (local_complete cls next_queued ReasonFailed (Some error) q)
                          \<lparr>local_operations := without index (local_operations q)\<rparr>
                      | Inr status \<Rightarrow>
                          (if status = Complete then (local_complete cls next_queued ReasonCompleted None q)
                             \<lparr>local_operations := without index (local_operations q)\<rparr>
                           else q\<lparr>local_operations := (local_operations q)[index := next_queued]\<rparr>)) in
                (runnable (local_operations q), q, world))))"

text \<open>The posted task.\<close>

definition local_tick :: "('op, 'w, 'backup) OperationClass \<Rightarrow> 'op LocalQueue \<Rightarrow> 'w \<Rightarrow> 'op LocalQueue \<times> 'w" where
  "local_tick cls q world =
     (if posted_ticks q = 0 then (q, world)
      else case local_work cls (q\<lparr>posted_ticks := posted_ticks q - 1, scheduled := False\<rparr>) world of
        (again, q, world) \<Rightarrow> (if again then schedule q else q, world))"

subsection \<open>Requests\<close>

text \<open>A message key with its arguments (\<open>localizedMessage\<close>), or the text of an error.\<close>

datatype Refusal = RefusedMessage string "string list" | RefusedError OperationError

record LocalCopyEntry =
  copy_source :: LocalPath
  copy_destination :: LocalPath
  copy_sizeBytes :: u64
  copy_isDirectory :: bool
  copy_mayOverwrite :: bool

text \<open>The constructors of the two operations.\<close>

record 'op LocalOperations =
  makeDelete :: "LocalPath list \<Rightarrow> bool \<Rightarrow> ComparedState list \<Rightarrow> 'op"
  makeCopy :: "LocalCopyEntry list \<Rightarrow> bool \<Rightarrow> 'op"

record DeleteRequest =
  delete_operationId :: string
  delete_localTargets :: "LocalPath list"
  delete_localRecursive :: bool
  delete_insertRefresh :: bool
  delete_mode :: OperationMode
  delete_owner :: "string option"
  delete_held :: bool
  delete_comparedStates :: "ComparedState list"

record CopyRequest =
  copy_operationId :: string
  copy_entries :: "LocalCopyEntry list"
  copy_move :: bool
  copy_owner :: "string option"
  copy_held :: bool

text \<open>\<open>Paths::commonParentOf\<close> on local paths; that it always returns is \<open>local_tree.commonParentOf_closest\<close>.\<close>

definition commonLocalParent :: "LocalPath list \<Rightarrow> LocalPath option" where
  "commonLocalParent paths = (case commonParentOf local_parent local_isWithin paths of Some parent \<Rightarrow> parent | None \<Rightarrow> None)"

fun refuseAnyLocal :: "LocalDisk \<Rightarrow> LocalPath list \<Rightarrow> LocalPath list \<Rightarrow> LocalPath option" where
  "refuseAnyLocal disk homes [] = None"
| "refuseAnyLocal disk homes (target # targets) =
     (case refuseProtectedLocalDelete disk target homes of Inl _ \<Rightarrow> Some target | Inr _ \<Rightarrow> refuseAnyLocal disk homes targets)"

definition addDelete :: "LocalDisk \<Rightarrow> LocalPath list \<Rightarrow> 'op LocalOperations \<Rightarrow> DeleteRequest \<Rightarrow> 'op LocalQueue \<Rightarrow>
    (OperationError + unit) \<times> 'op LocalQueue" where
  "addDelete disk homes constructors request q =
     (if delete_localTargets request = [] then (Inl ((plain_error InvalidPath)\<lparr>error_extraInfo := Some ''no targets''\<rparr>), q)
      else case refuseAnyLocal disk homes (delete_localTargets request) of
          Some target \<Rightarrow> (Inl ((plain_error InvalidPath)\<lparr>error_extraInfo := Some (local_value target)\<rparr>), q)
        | None \<Rightarrow>
            (let priority = delete_mode request = PriorityQueued;
                 operation = makeDelete constructors (delete_localTargets request) (delete_localRecursive request) (delete_comparedStates request) in
             (Inr (), local_emit (LocalAdded (delete_operationId request) LocalDelete (delete_mode request) (delete_insertRefresh request)
                 (commonLocalParent (delete_localTargets request)) (delete_localRecursive request) None)
               (enqueue \<lparr>queued_id = delete_operationId request, queued_operation = operation, queued_owner = delete_owner request,
                  queued_held = delete_held request \<and> \<not> priority, queued_priority = priority\<rparr> q))))"

text \<open>\<open>prevented\<close> is \<open>localDeletionPrevented_\<close>, true when it is not set.\<close>

definition addCopy :: "LocalDisk \<Rightarrow> LocalPath list \<Rightarrow> bool \<Rightarrow> 'op LocalOperations \<Rightarrow> CopyRequest \<Rightarrow> 'op LocalQueue \<Rightarrow>
    (Refusal + unit) \<times> 'op LocalQueue" where
  "addCopy disk homes prevented constructors request q =
     (if copy_entries request = [] then (Inl (RefusedMessage ''backend.localCopy.nothingToCopy'' []), q)
      else if (copy_move request \<or> list_ex copy_mayOverwrite (copy_entries request)) \<and> prevented
      then (Inl (RefusedMessage ''backend.rpcFilesystem.deletionPrevented'' []), q)
      else case (if copy_move request then refuseAnyLocal disk homes (map copy_source (copy_entries request)) else None) of
          Some source \<Rightarrow> (Inl (RefusedMessage ''backend.localCopy.moveRefused'' [local_value source]), q)
        | None \<Rightarrow>
            (Inr (), local_emit (LocalAdded (copy_operationId request) (if copy_move request then LocalMove else LocalCopy) Queued True
                 (commonLocalParent (map copy_source (copy_entries request))) True
                 (commonLocalParent (map copy_destination (copy_entries request))))
              (enqueue \<lparr>queued_id = copy_operationId request, queued_operation = makeCopy constructors (copy_entries request) (copy_move request),
                 queued_owner = copy_owner request, queued_held = copy_held request, queued_priority = False\<rparr> q)))"

fun deleteTargets :: "LocalDisk \<Rightarrow> LocalPath list \<Rightarrow> string list \<Rightarrow> Refusal + LocalPath list" where
  "deleteTargets disk homes [] = Inr []"
| "deleteTargets disk homes (path # paths) =
     (case localDeleteTarget disk path homes of
        Inl _ \<Rightarrow> Inl (RefusedMessage ''backend.rpcFilesystem.removeRefused'' [path])
      | Inr target \<Rightarrow> (case deleteTargets disk homes paths of Inl e \<Rightarrow> Inl e | Inr targets \<Rightarrow> Inr (target # targets)))"

definition addExplorerDelete :: "LocalDisk \<Rightarrow> LocalPath list \<Rightarrow> bool \<Rightarrow> 'op LocalOperations \<Rightarrow> string \<Rightarrow> string list \<Rightarrow>
    string option \<Rightarrow> bool \<Rightarrow> 'op LocalQueue \<Rightarrow> (Refusal + unit) \<times> 'op LocalQueue" where
  "addExplorerDelete disk homes prevented constructors ident paths owner held q =
     (if prevented then (Inl (RefusedMessage ''backend.rpcFilesystem.deletionPrevented'' []), q)
      else case deleteTargets disk homes paths of
          Inl e \<Rightarrow> (Inl e, q)
        | Inr targets \<Rightarrow>
            (case addDelete disk homes constructors \<lparr>delete_operationId = ident, delete_localTargets = targets, delete_localRecursive = True, delete_insertRefresh = True,
                delete_mode = Queued, delete_owner = owner, delete_held = held, delete_comparedStates = []\<rparr> q of
               (Inl e, q) \<Rightarrow> (Inl (RefusedError e), q) | (Inr _, q) \<Rightarrow> (Inr (), q)))"

lemma refuseAny_spares:
  assumes "refuseAnyLocal disk homes targets = None" and "\<forall>home \<in> set homes. valid_local home"
  shows "\<forall>target \<in> set targets. spares_homes disk homes target"
  using assms(1) by (induction targets) (auto split: sum.splits intro: refuse_spares [OF _ assms(2)])

subsection \<open>Runs\<close>

datatype 'op LocalCall =
  RequestDelete "LocalPath list" DeleteRequest
| RequestExplorerDelete "LocalPath list" bool string "string list" "string option" bool
| RequestCopy "LocalPath list" bool CopyRequest
| Hold string bool
| Release string
| Cancel string
| Work
| Tick

fun local_perform :: "('op, 'w, 'backup) OperationClass \<Rightarrow> LocalDisk \<Rightarrow> 'op LocalOperations \<Rightarrow> 'op LocalCall \<Rightarrow>
    'op LocalQueue \<times> 'w \<Rightarrow> 'op LocalQueue \<times> 'w" where
  "local_perform cls disk constructors (RequestDelete homes request) (q, world) = (snd (addDelete disk homes constructors request q), world)"
| "local_perform cls disk constructors (RequestExplorerDelete homes prevented ident paths owner held) (q, world) =
     (snd (addExplorerDelete disk homes prevented constructors ident paths owner held q), world)"
| "local_perform cls disk constructors (RequestCopy homes prevented request) (q, world) =
     (snd (addCopy disk homes prevented constructors request q), world)"
| "local_perform cls disk constructors (Hold owner held) (q, world) = (local_hold owner held q, world)"
| "local_perform cls disk constructors (Release owner) (q, world) = (local_release owner q, world)"
| "local_perform cls disk constructors (Cancel ident) (q, world) = (local_cancel cls ident q, world)"
| "local_perform cls disk constructors Work (q, world) = snd (local_work cls q world)"
| "local_perform cls disk constructors Tick (q, world) = local_tick cls q world"

fun ids_added :: "LocalEvent list \<Rightarrow> string list" where
  "ids_added [] = []"
| "ids_added (event # events) = (case event of LocalAdded ident _ _ _ _ _ _ \<Rightarrow> [ident] | _ \<Rightarrow> []) @ ids_added events"

fun ids_ended :: "LocalEvent list \<Rightarrow> string list" where
  "ids_ended [] = []"
| "ids_ended (event # events) = (case event of LocalEnded completed \<Rightarrow> [local_id completed] | _ \<Rightarrow> []) @ ids_ended events"

text \<open>One tick is posted exactly while one is scheduled, and one is scheduled while an operation can run.\<close>

definition driven :: "'op LocalQueue \<Rightarrow> bool" where
  "driven q \<longleftrightarrow> posted_ticks q = (if scheduled q then 1 else 0) \<and> (runnable (local_operations q) \<longrightarrow> scheduled q)"

text \<open>Priority operations are first and never held.\<close>

definition priorities_first :: "'op LocalQueue \<Rightarrow> bool" where
  "priorities_first q \<longleftrightarrow> sorted_wrt (\<lambda>x y. queued_priority y \<longrightarrow> queued_priority x) (local_operations q) \<and>
     (\<forall>queued \<in> set (local_operations q). queued_priority queued \<longrightarrow> \<not> queued_held queued)"

definition kept_track :: "'op LocalQueue \<Rightarrow> bool" where
  "kept_track q \<longleftrightarrow> mset (map queued_id (local_operations q)) + mset (ids_ended (local_events q)) = mset (ids_added (local_events q))"

abbreviation "local_invariant q \<equiv> driven q \<and> priorities_first q \<and> kept_track q"

lemma ids_append [simp]: "ids_added (xs @ ys) = ids_added xs @ ids_added ys" "ids_ended (xs @ ys) = ids_ended xs @ ids_ended ys"
  by (induction xs) auto

lemma schedule_fields [simp]:
  "local_operations (schedule q) = local_operations q" "local_events (schedule q) = local_events q"
  by (simp_all add: schedule_def)

lemma insertQueued_set: "mset (insertQueued queued queue) = add_mset queued (mset queue)"
  by (induction queue) auto

lemma insertQueued_priorities:
  "sorted_wrt (\<lambda>x y. queued_priority y \<longrightarrow> queued_priority x) queue \<Longrightarrow>
     sorted_wrt (\<lambda>x y. queued_priority y \<longrightarrow> queued_priority x) (insertQueued queued queue)"
proof (induction queue)
  case (Cons other others)
  have "set (insertQueued queued others) = insert queued (set others)" using insertQueued_set [of queued others] by (metis set_mset_add_mset_insert set_mset_mset)
  with Cons show ?case by auto
qed simp

lemma enqueue_invariant:
  assumes "local_invariant q" and "queued_priority queued \<longrightarrow> \<not> queued_held queued" and "queued_id queued = ident"
  shows "local_invariant (local_emit (LocalAdded ident type mode refresh path scans destination) (enqueue queued q))"
proof -
  have set: "set (insertQueued queued (local_operations q)) = insert queued (set (local_operations q))"
    using insertQueued_set [of queued "local_operations q"] by (metis set_mset_add_mset_insert set_mset_mset)
  have ids: "mset (map queued_id (insertQueued queued (local_operations q))) = add_mset (queued_id queued) (mset (map queued_id (local_operations q)))"
    using insertQueued_set [of queued "local_operations q"] by simp
  show ?thesis
    using assms insertQueued_priorities [of "local_operations q" queued] set ids
    by (auto simp: driven_def priorities_first_def kept_track_def enqueue_def schedule_def local_emit_def)
qed

lemma schedule_invariant:
  assumes "posted_ticks q = (if scheduled q then 1 else 0)" and "priorities_first q" and "kept_track q"
  shows "local_invariant (schedule q)"
  using assms by (auto simp: driven_def priorities_first_def kept_track_def schedule_def)

lemma regrouped_invariant:
  fixes change :: "'op QueuedOperation \<Rightarrow> 'op QueuedOperation" and q :: "'op LocalQueue"
  assumes "local_invariant q"
    and "\<And>queued. queued_id (change queued) = queued_id queued \<and> queued_priority (change queued) = queued_priority queued \<and>
           (queued_priority queued \<and> \<not> queued_held queued \<longrightarrow> \<not> queued_held (change queued))"
  shows "priorities_first (q\<lparr>local_operations := map change (local_operations q)\<rparr>)"
    and "kept_track (q\<lparr>local_operations := map change (local_operations q)\<rparr>)"
  using assms by (auto simp: priorities_first_def kept_track_def sorted_wrt_map multiset.map_comp comp_def)

lemma hold_invariant:
  assumes "local_invariant q"
  shows "local_invariant (local_hold owner held q)"
proof -
  let ?change = "\<lambda>queued. if queued_owner queued = Some owner \<and> \<not> queued_priority queued then queued\<lparr>queued_held := held\<rparr> else queued"
  let ?q = "q\<lparr>local_operations := map ?change (local_operations q)\<rparr>"
  have kept: "priorities_first ?q" "kept_track ?q" using regrouped_invariant [OF assms, of ?change] by auto
  show ?thesis
  proof (cases held)
    case True
    then have "local_hold owner held q = ?q" by (simp add: local_hold_def Let_def)
    moreover have "driven ?q" using assms True by (auto simp: driven_def list_ex_iff split: if_splits)
    ultimately show ?thesis using kept by presburger
  next
    case False
    then have "local_hold owner held q = schedule ?q" by (simp add: local_hold_def Let_def cong: if_cong)
    with schedule_invariant [OF _ kept] assms show ?thesis by (simp add: driven_def)
  qed
qed

lemma release_invariant:
  assumes "local_invariant q"
  shows "local_invariant (local_release owner q)"
proof -
  let ?change = "\<lambda>queued. if queued_owner queued \<noteq> Some owner then queued else queued\<lparr>queued_owner := None, queued_held := False\<rparr>"
  let ?q = "q\<lparr>local_operations := map ?change (local_operations q)\<rparr>"
  have kept: "priorities_first ?q" "kept_track ?q" using regrouped_invariant [OF assms, of ?change] by auto
  show ?thesis using schedule_invariant [OF _ kept] assms by (simp add: local_release_def driven_def)
qed

lemma indexWhere_Some: "indexWhere P xs = Some i \<Longrightarrow> i < length xs \<and> P (xs ! i)"
  by (induction xs arbitrary: i) (auto split: if_splits)

lemma indexWhere_None: "indexWhere P xs = None \<Longrightarrow> \<not> list_ex P xs"
  by (induction xs) (auto split: if_splits)

lemma removed_invariant:
  fixes q :: "'op LocalQueue"
  assumes "priorities_first q" and "kept_track q" and "i < length (local_operations q)"
    and "local_id completed = queued_id (local_operations q ! i)"
  shows "priorities_first ((local_emit (LocalEnded completed) q)\<lparr>local_operations := without i (local_operations q)\<rparr>)"
    and "kept_track ((local_emit (LocalEnded completed) q)\<lparr>local_operations := without i (local_operations q)\<rparr>)"
proof -
  obtain xs x ys where parts: "local_operations q = xs @ x # ys" "i = length xs"
    using assms(3) id_take_nth_drop [of i "local_operations q"] by (metis length_take min.absorb4)
  with assms show "priorities_first ((local_emit (LocalEnded completed) q)\<lparr>local_operations := without i (local_operations q)\<rparr>)"
    and "kept_track ((local_emit (LocalEnded completed) q)\<lparr>local_operations := without i (local_operations q)\<rparr>)"
    by (auto simp: priorities_first_def kept_track_def local_emit_def sorted_wrt_append)
qed

lemma runnable_without: "runnable (without i queue) \<Longrightarrow> runnable queue"
  by (auto simp: list_ex_iff dest: in_set_takeD in_set_dropD)

lemma cancel_invariant:
  assumes "local_invariant q"
  shows "local_invariant (local_cancel cls ident q)"
proof (cases "indexWhere (\<lambda>queued. queued_id queued = ident) (local_operations q)")
  case (Some i)
  let ?found = "(local_operations q ! i)\<lparr>queued_operation := class_cancel cls True (queued_operation (local_operations q ! i))\<rparr>"
  from Some assms removed_invariant [of q i] indexWhere_Some [OF Some] runnable_without [of i "local_operations q"] show ?thesis
    by (auto simp: local_cancel_def Let_def local_complete_def driven_def local_emit_def)
qed (use assms in \<open>simp add: local_cancel_def\<close>)

lemma replaced_invariant:
  fixes q :: "'op LocalQueue"
  assumes "priorities_first q" and "kept_track q" and "i < length (local_operations q)"
  shows "priorities_first (q\<lparr>local_operations := (local_operations q)[i := (local_operations q ! i)\<lparr>queued_operation := operation\<rparr>]\<rparr>)"
    and "kept_track (q\<lparr>local_operations := (local_operations q)[i := (local_operations q ! i)\<lparr>queued_operation := operation\<rparr>]\<rparr>)"
proof -
  obtain xs x ys where parts: "local_operations q = xs @ x # ys" "i = length xs"
    using assms(3) id_take_nth_drop [of i "local_operations q"] by (metis length_take min.absorb4)
  with assms show "priorities_first (q\<lparr>local_operations := (local_operations q)[i := (local_operations q ! i)\<lparr>queued_operation := operation\<rparr>]\<rparr>)"
    and "kept_track (q\<lparr>local_operations := (local_operations q)[i := (local_operations q ! i)\<lparr>queued_operation := operation\<rparr>]\<rparr>)"
    by (auto simp: priorities_first_def kept_track_def sorted_wrt_append)
qed

lemma work_keeps:
  assumes "priorities_first q" and "kept_track q" and "local_work cls q world = (again, q', world')"
  shows "priorities_first q' \<and> kept_track q' \<and> again = runnable (local_operations q') \<and> scheduled q' = scheduled q \<and>
    posted_ticks q' = posted_ticks q \<and> (runnable (local_operations q') \<longrightarrow> runnable (local_operations q))"
proof (cases "indexWhere (\<lambda>queued. \<not> queued_held queued) (local_operations q)")
  case None
  then have "\<not> runnable (local_operations q)" by (rule indexWhere_None)
  with None assms show ?thesis by (simp add: local_work_def)
next
  case (Some i)
  then have i: "i < length (local_operations q)" "\<not> queued_held (local_operations q ! i)" using indexWhere_Some by fast+
  then have runs: "runnable (local_operations q)" unfolding list_ex_iff using nth_mem by blast
  obtain result operation w where worked: "class_work cls (queued_operation (local_operations q ! i)) world = (result, operation, w)"
    by (rule prod_cases3)
  let ?next = "(local_operations q ! i)\<lparr>queued_operation := operation\<rparr>"
  have ended: "priorities_first ((local_complete cls ?next why error q)\<lparr>local_operations := without i (local_operations q)\<rparr>)"
    "kept_track ((local_complete cls ?next why error q)\<lparr>local_operations := without i (local_operations q)\<rparr>)" for why error
    unfolding local_complete_def using removed_invariant [OF assms(1,2) i(1)] by simp_all
  note replaced = replaced_invariant [OF assms(1,2) i(1), of operation]
  consider (failed) error where "result = Inl error" | (completed) "result = Inr Complete"
    | (going) status where "result = Inr status" "status \<noteq> Complete" by (cases result) auto
  then show ?thesis
  proof cases
    case failed
    with assms(3) have q': "again = runnable (local_operations q')"
      "q' = (local_complete cls ?next ReasonFailed (Some error) q)\<lparr>local_operations := without i (local_operations q)\<rparr>"
      by (auto simp: local_work_def Some worked Let_def)
    show ?thesis unfolding q' using ended runs by (simp add: local_complete_def local_emit_def)
  next
    case completed
    with assms(3) have q': "again = runnable (local_operations q')"
      "q' = (local_complete cls ?next ReasonCompleted None q)\<lparr>local_operations := without i (local_operations q)\<rparr>"
      by (auto simp: local_work_def Some worked Let_def)
    show ?thesis unfolding q' using ended runs by (simp add: local_complete_def local_emit_def)
  next
    case going
    with assms(3) have q': "again = runnable (local_operations q')" "q' = q\<lparr>local_operations := (local_operations q)[i := ?next]\<rparr>"
      by (auto simp: local_work_def Some worked Let_def)
    show ?thesis unfolding q' using replaced runs by simp
  qed
qed

lemma work_invariant:
  assumes "local_invariant q" and "local_work cls q world = (again, q', world')"
  shows "local_invariant q'"
  using work_keeps [of q cls world again q' world'] assms by (auto simp: driven_def)

lemma tick_invariant:
  assumes "local_invariant q" and "local_tick cls q world = (q', world')"
  shows "local_invariant q'"
proof (cases "posted_ticks q = 0")
  case True
  with assms show ?thesis by (simp add: local_tick_def)
next
  case False
  let ?q = "q\<lparr>posted_ticks := posted_ticks q - 1, scheduled := False\<rparr>"
  obtain again p w where worked: "local_work cls ?q world = (again, p, w)" by (rule prod_cases3)
  have "priorities_first ?q" "kept_track ?q" using assms(1) by (auto simp: priorities_first_def kept_track_def)
  note kept = work_keeps [OF this worked]
  have q': "q' = (if again then schedule p else p)" using assms(2) worked False by (simp add: local_tick_def)
  have posted: "posted_ticks p = (if scheduled p then 1 else 0)" using kept False assms(1) by (auto simp: driven_def split: if_splits)
  show ?thesis
  proof (cases again)
    case True
    with q' schedule_invariant [OF posted] kept show ?thesis by simp
  next
    case False
    with q' kept posted show ?thesis by (simp add: driven_def)
  qed
qed

lemma addDelete_invariant: "local_invariant q \<Longrightarrow> local_invariant (snd (addDelete disk homes constructors request q))"
  by (simp add: addDelete_def Let_def enqueue_invariant split: option.splits)

lemma addCopy_invariant: "local_invariant q \<Longrightarrow> local_invariant (snd (addCopy disk homes prevented constructors request q))"
  by (simp add: addCopy_def enqueue_invariant split: option.splits)

lemma explorer_delete_invariant:
  assumes "local_invariant q"
  shows "local_invariant (snd (addExplorerDelete disk homes prevented constructors ident paths owner held q))"
proof -
  have "snd (addExplorerDelete disk homes prevented constructors ident paths owner held q) = q \<or>
    (\<exists>request. snd (addExplorerDelete disk homes prevented constructors ident paths owner held q) = snd (addDelete disk homes constructors request q))"
    by (auto simp: addExplorerDelete_def split: sum.splits prod.splits) (metis snd_conv)+
  with assms addDelete_invariant show ?thesis by metis
qed

lemma perform_invariant:
  assumes "local_invariant q" and "local_perform cls disk constructors call (q, world) = (q', world')"
  shows "local_invariant q'"
proof (cases call)
  case Work
  obtain again p w where worked: "local_work cls q world = (again, p, w)" by (rule prod_cases3)
  with Work assms(2) have "q' = p" by simp
  with work_invariant [OF assms(1) worked] show ?thesis by simp
next
  case Tick
  then have "local_tick cls q world = (q', world')" using assms(2) by simp
  then show ?thesis by (rule tick_invariant [OF assms(1)])
qed (use assms(2) addDelete_invariant [OF assms(1)] explorer_delete_invariant [OF assms(1)] addCopy_invariant [OF assms(1)]
    hold_invariant [OF assms(1)] release_invariant [OF assms(1)] cancel_invariant [OF assms(1), of cls] in \<open>auto\<close>)


lemma run_invariant:
  assumes "fold (local_perform cls disk constructors) calls (newLocalQueue, world) = (q, world')"
  shows "local_invariant q"
proof -
  have "local_invariant q" if "local_invariant p" "fold (local_perform cls disk constructors) calls (p, world) = (q, world')" for p
    using that
  proof (induction calls arbitrary: p world)
    case (Cons call calls)
    obtain p' w where "local_perform cls disk constructors call (p, world) = (p', w)" by (rule prod.exhaust)
    note perform_invariant [OF Cons.prems(1) this]
    moreover have "fold (local_perform cls disk constructors) calls (p', w) = (q, world')"
      using Cons.prems(2) \<open>local_perform cls disk constructors call (p, world) = (p', w)\<close> by simp
    ultimately show ?case using Cons.IH by blast
  qed simp
  moreover have "local_invariant (newLocalQueue :: 'a LocalQueue)"
    by (simp add: newLocalQueue_def driven_def priorities_first_def kept_track_def)
  ultimately show ?thesis using assms by blast
qed

subsection \<open>Ticks run the operations one after the other\<close>

text \<open>
  Working one operation until it ends, from one state of the world, and so every operation of a queue that is not held in
  turn, each in the world the one before has left: with what is told of each when it ended. \<open>None\<close> when one never ends.
\<close>

partial_function (option) finish_operation :: "('op, 'w, 'backup) OperationClass \<Rightarrow> 'op \<Rightarrow> 'w \<Rightarrow> (OperationError option \<times> 'op \<times> 'w) option" where
  "finish_operation cls operation world =
     (case class_work cls operation world of
        (Inl error, operation', world') \<Rightarrow> Some (Some error, operation', world')
      | (Inr status, operation', world') \<Rightarrow>
          if status = Complete then Some (None, operation', world') else finish_operation cls operation' world')"

definition ended_event :: "('op, 'w, 'backup) OperationClass \<Rightarrow> string \<Rightarrow> OperationError option \<Rightarrow> 'op \<Rightarrow> LocalEvent" where
  "ended_event cls ident error operation = LocalEnded \<lparr>local_reason = (if error = None then ReasonCompleted else ReasonFailed),
     local_id = ident, local_error = error, local_failedEntries = failed_entries cls operation\<rparr>"

fun finish_all :: "('op, 'w, 'backup) OperationClass \<Rightarrow> 'op QueuedOperation list \<Rightarrow> 'w \<Rightarrow> (LocalEvent list \<times> 'w) option" where
  "finish_all cls [] world = Some ([], world)"
| "finish_all cls (queued # queue) world =
     (if queued_held queued then finish_all cls queue world
      else case finish_operation cls (queued_operation queued) world of
          None \<Rightarrow> None
        | Some (error, operation, world) \<Rightarrow>
            (case finish_all cls queue world of
               None \<Rightarrow> None
             | Some (events, world) \<Rightarrow> Some (ended_event cls (queued_id queued) error operation # events, world)))"

lemma indexWhere_split:
  "\<forall>x \<in> set xs. \<not> P x \<Longrightarrow> P x \<Longrightarrow> indexWhere P (xs @ x # ys) = Some (length xs)"
  by (induction xs) auto

text \<open>A tick works the first operation that is not held, whatever stands behind it.\<close>

lemma tick_front:
  assumes "local_invariant q" and "local_operations q = hs @ x # ys" and "\<forall>h \<in> set hs. queued_held h" and "\<not> queued_held x"
    and "class_work cls (queued_operation x) world = (result, operation, world')"
  obtains q' where "local_perform cls disk constructors Tick (q, world) = (q', world')" and "local_invariant q'"
    and "case result of
        Inl error \<Rightarrow> local_operations q' = hs @ ys \<and> local_events q' = local_events q @ [ended_event cls (queued_id x) (Some error) operation]
      | Inr status \<Rightarrow>
          if status = Complete
          then local_operations q' = hs @ ys \<and> local_events q' = local_events q @ [ended_event cls (queued_id x) None operation]
          else local_operations q' = hs @ x\<lparr>queued_operation := operation\<rparr> # ys \<and> local_events q' = local_events q"
proof -
  let ?q = "q\<lparr>posted_ticks := posted_ticks q - 1, scheduled := False\<rparr>"
  have posted: "posted_ticks q \<noteq> 0" using assms(1,2,4) by (auto simp: driven_def)
  have index: "indexWhere (\<lambda>queued. \<not> queued_held queued) (hs @ x # ys) = Some (length hs)"
    using assms(3,4) by (intro indexWhere_split) auto
  obtain again p w where worked: "local_work cls ?q world = (again, p, w)" by (rule prod_cases3)
  define q' where "q' = (if again then schedule p else p)"
  have tick: "local_tick cls q world = (q', w)" using worked posted by (simp add: local_tick_def q'_def)
  have w: "w = world'" using worked assms(2,5) index by (auto simp: local_work_def Let_def)
  have "case result of
        Inl error \<Rightarrow> local_operations p = hs @ ys \<and> local_events p = local_events q @ [ended_event cls (queued_id x) (Some error) operation]
      | Inr status \<Rightarrow>
          if status = Complete
          then local_operations p = hs @ ys \<and> local_events p = local_events q @ [ended_event cls (queued_id x) None operation]
          else local_operations p = hs @ x\<lparr>queued_operation := operation\<rparr> # ys \<and> local_events p = local_events q"
    using worked assms(2,5) index
    by (cases result) (auto simp: local_work_def local_complete_def local_emit_def ended_event_def Let_def split: if_splits)
  moreover have "local_operations q' = local_operations p" "local_events q' = local_events p" by (simp_all add: q'_def)
  moreover have "local_perform cls disk constructors Tick (q, world) = (q', world')" using tick w by simp
  ultimately show thesis using that [of q'] tick_invariant [OF assms(1) tick] by presburger
qed

lemma ticks_finish:
  fixes cls :: "('op, 'w, 'backup) OperationClass"
  assumes "finish_operation cls operation world = Some (error, operation', world')" and "local_invariant q"
    and "local_operations q = hs @ x # ys" and "\<forall>h \<in> set hs. queued_held h" and "\<not> queued_held x" and "queued_operation x = operation"
  shows "\<exists>n q'. (local_perform cls disk constructors Tick ^^ n) (q, world) = (q', world') \<and> local_invariant q' \<and>
    local_operations q' = hs @ ys \<and> local_events q' = local_events q @ [ended_event cls (queued_id x) error operation']"
  using assms
proof (induction cls operation world "(error, operation', world')" arbitrary: q x error operation' world'
    rule: finish_operation.raw_induct [rotated 1, consumes 1])
  case (1 finish cls operation world)
  let ?tick = "local_perform cls disk constructors Tick"
  obtain result op1 w1 where work: "class_work cls operation world = (result, op1, w1)" by (rule prod_cases3)
  have front: "class_work cls (queued_operation x) world = (result, op1, w1)" using work 1(7) by simp
  obtain q1 where
    tick: "?tick (q, world) = (q1, w1)" "local_invariant q1" and
    after: "case result of
        Inl error \<Rightarrow> local_operations q1 = hs @ ys \<and> local_events q1 = local_events q @ [ended_event cls (queued_id x) (Some error) op1]
      | Inr status \<Rightarrow>
          if status = Complete
          then local_operations q1 = hs @ ys \<and> local_events q1 = local_events q @ [ended_event cls (queued_id x) None op1]
          else local_operations q1 = hs @ x\<lparr>queued_operation := op1\<rparr> # ys \<and> local_events q1 = local_events q"
    by (rule tick_front [OF 1(3-6) front])
  show ?case
  proof (cases "\<exists>status. result = Inr status \<and> status \<noteq> Complete")
    case False
    then have "(error, operation', world') = (case result of Inl e \<Rightarrow> Some e | Inr _ \<Rightarrow> None, op1, w1)"
      using 1(2) work by (auto split: sum.splits)
    with False tick after show ?thesis by (intro exI [of _ 1] exI [of _ q1]) (auto split: sum.splits)
  next
    case True
    then have more: "finish cls op1 w1 = Some (error, operation', world')" using 1(2) work by auto
    from True after have "local_operations q1 = hs @ x\<lparr>queued_operation := op1\<rparr> # ys" "local_events q1 = local_events q" by auto
    with 1(1) [OF more tick(2) this(1) 1(5)] 1(6) obtain n q' where "(?tick ^^ n) (q1, w1) = (q', world')" "local_invariant q'"
      "local_operations q' = hs @ ys" "local_events q' = local_events q @ [ended_event cls (queued_id x) error operation']" by auto
    with tick(1) show ?thesis by (intro exI [of _ "Suc n"] exI [of _ q']) (simp add: funpow_swap1)
  qed
qed

lemma ticks_finish_all:
  assumes "finish_all cls queue world = Some (events, final)" and "local_invariant q"
    and "local_operations q = hs @ queue" and "\<forall>h \<in> set hs. queued_held h"
  shows "\<exists>n q'. (local_perform cls disk constructors Tick ^^ n) (q, world) = (q', final) \<and>
    local_operations q' = hs @ filter queued_held queue \<and> local_events q' = local_events q @ events"
  using assms
proof (induction queue arbitrary: q hs world events)
  case Nil
  then show ?case by (intro exI [of _ 0] exI [of _ q]) simp
next
  case (Cons x queue)
  let ?tick = "local_perform cls disk constructors Tick"
  show ?case
  proof (cases "queued_held x")
    case True
    with Cons.IH [of world events q "hs @ [x]"] Cons.prems show ?thesis by simp
  next
    case False
    with Cons.prems(1) obtain error operation w rest where one: "finish_operation cls (queued_operation x) world = Some (error, operation, w)"
      and others: "finish_all cls queue w = Some (rest, final)" "events = ended_event cls (queued_id x) error operation # rest"
      by (auto split: option.splits)
    from ticks_finish [OF one Cons.prems(2-4) False refl] obtain n q1 where n: "(?tick ^^ n) (q, world) = (q1, w)" "local_invariant q1"
      "local_operations q1 = hs @ queue" "local_events q1 = local_events q @ [ended_event cls (queued_id x) error operation]" by blast
    from Cons.IH [OF others(1) n(2,3) Cons.prems(4)] obtain m q' where m: "(?tick ^^ m) (q1, w) = (q', final)"
      "local_operations q' = hs @ filter queued_held queue" "local_events q' = local_events q1 @ rest" by blast
    have "(?tick ^^ (m + n)) (q, world) = (q', final)" using n(1) m(1) by (simp add: funpow_add)
    with m n(4) others(2) False show ?thesis by (intro exI [of _ "m + n"] exI [of _ q']) simp
  qed
qed

text \<open>A run of at most the given number of steps that ends is the run to the end.\<close>

primrec finish_within :: "nat \<Rightarrow> ('op, 'w, 'backup) OperationClass \<Rightarrow> 'op \<Rightarrow> 'w \<Rightarrow> (OperationError option \<times> 'op \<times> 'w) option" where
  "finish_within 0 cls operation world = None"
| "finish_within (Suc n) cls operation world =
     (case class_work cls operation world of
        (Inl error, operation', world') \<Rightarrow> Some (Some error, operation', world')
      | (Inr status, operation', world') \<Rightarrow>
          if status = Complete then Some (None, operation', world') else finish_within n cls operation' world')"

lemma finish_within_finish: "finish_within n cls operation world = Some r \<Longrightarrow> finish_operation cls operation world = Some r"
proof (induction n arbitrary: operation world)
  case (Suc n)
  then show ?case by (subst finish_operation.simps) (auto split: prod.splits sum.splits if_splits)
qed simp

text \<open>A small class for the examples: an operation is the number of steps it has left.\<close>

definition sample_steps :: "(nat, unit, unit) OperationClass" where
  "sample_steps = \<lparr>class_type = (\<lambda>_. LocalDelete), class_state = (\<lambda>_. Running), isBarrier = (\<lambda>_. False),
     parallelWorkDoable = (\<lambda>_ _. 1), setParallelBudget = (\<lambda>_ op. op), usesStrand = (\<lambda>_. False), has_strand = (\<lambda>_ _. True),
     strand_runs = (\<lambda>_ _. True),
     class_work = (\<lambda>op w. if op = 0 then (Inr Complete, 0, w) else (Inr MoreWork, op - 1, w)),
     class_workInStrand = (\<lambda>op w. (Inr Complete, op, w)), class_cancel = (\<lambda>_ op. op), class_pause = (\<lambda>_ op. op),
     keepPartialFiles = (\<lambda>op. op), keptPartialFiles = (\<lambda>_. None), partialFileOnCancel = (\<lambda>_ op. op), failed_entries = (\<lambda>_. []),
     completed_paths = (\<lambda>_. (None, None)), left_backup = (\<lambda>_ backup. backup), single_transfer = (\<lambda>_. None)\<rparr>"

definition sample_disk :: LocalDisk where
  "sample_disk = \<lparr>disk_isDirectory = (\<lambda>_. True),
     disk_equivalent = (\<lambda>a b. a = b \<or> local_value a = ''/home'' \<and> local_value b = ''/link''),
     compiledLocalPlatform = Posix, compiledForApple = False\<rparr>"

definition sample_constructors :: "nat LocalOperations" where
  "sample_constructors = \<lparr>makeDelete = (\<lambda>targets _ _. length targets), makeCopy = (\<lambda>entries _. length entries)\<rparr>"

definition sample_delete :: DeleteRequest where
  "sample_delete = \<lparr>delete_operationId = ''d'', delete_localTargets = [local_of Posix [] [''srv'', ''a'']], delete_localRecursive = True,
     delete_insertRefresh = True, delete_mode = Queued, delete_owner = Some ''s'', delete_held = True, delete_comparedStates = []\<rparr>"

subsection \<open>The properties\<close>

text \<open>C13: in every run of requests, holds, releases, cancels and ticks an operation that is not held has a tick posted and
  never more than one is posted, priority operations are first and never held, and every operation that was announced is
  queued or was told as ended exactly once, never both.\<close>

theorem local_queue_driven:
  assumes "fold (local_perform cls disk constructors) calls (newLocalQueue, world) = (q, world')"
  shows "driven q \<and> priorities_first q \<and> kept_track q"
  by (rule run_invariant [OF assms])

lemma local_queue_driven_witness:
  "driven (fst (fold (local_perform sample_steps sample_disk sample_constructors)
      [RequestDelete [] sample_delete, Hold ''s'' False, Tick] (newLocalQueue, ()))) \<and>
   length (local_operations (fst (fold (local_perform sample_steps sample_disk sample_constructors)
      [RequestDelete [] sample_delete, Hold ''s'' False, Tick] (newLocalQueue, ())))) = 1"
proof -
  let ?run = "fold (local_perform sample_steps sample_disk sample_constructors)
      [RequestDelete [] sample_delete, Hold ''s'' False, Tick] (newLocalQueue, ())"
  obtain q w where run: "?run = (q, w)" by (rule prod.exhaust)
  have "length (local_operations (fst ?run)) = 1" by code_simp
  with local_queue_driven [OF run] run show ?thesis by simp
qed

text \<open>C12:
  The ticks the queue posts for itself run its operations one after the other. Take the queue in whatever state a run of
  calls left it, and let the operations that are not held end when each is worked to its end in the order of the queue, in
  the world the one before left. Then after finitely many ticks exactly these have been ended: the held ones are left in
  their order, each of the others was told once, in order, with its outcome, and the world is what the sequential run leaves.
\<close>

theorem local_queue_drains:
  assumes "fold (local_perform cls disk constructors) calls (newLocalQueue, world) = (q, world')"
    and "finish_all cls (local_operations q) world' = Some (events, final)"
  shows "\<exists>n q'. (local_perform cls disk constructors Tick ^^ n) (q, world') = (q', final) \<and>
    local_operations q' = filter queued_held (local_operations q) \<and> local_events q' = local_events q @ events"
  using ticks_finish_all [OF assms(2) run_invariant [OF assms(1)], of "[]"] by simp

text \<open>Its operations here are recursive deletes on the sample server, which are scanned before they remove anything.\<close>

definition sample_deletes :: "DeleteOperation LocalOperations" where
  "sample_deletes = \<lparr>makeDelete = (\<lambda>_ _ _. addScanRoot (scan_new (remote_of [''r'']) False True False) (delete_new (remote_of [''r'']) True)),
     makeCopy = (\<lambda>_ _. delete_new (remote_of [''r'']) False)\<rparr>"

lemma local_queue_drains_witness:
  "\<exists>n q'. (local_perform (delete_class sample_server :: (DeleteOperation, unit, unit) OperationClass) sample_disk sample_deletes Tick ^^ n)
      (fold (local_perform (delete_class sample_server :: (DeleteOperation, unit, unit) OperationClass) sample_disk sample_deletes)
        [RequestDelete [] sample_delete, Hold ''s'' False] (newLocalQueue, ())) = (q', ()) \<and>
     local_operations q' = [] \<and> ids_ended (local_events q') = [''d'']"
proof -
  let ?cls = "delete_class sample_server :: (DeleteOperation, unit, unit) OperationClass"
  let ?run = "fold (local_perform ?cls sample_disk sample_deletes) [RequestDelete [] sample_delete, Hold ''s'' False] (newLocalQueue, ())"
  let ?op = "addScanRoot (scan_new (remote_of [''r'']) False True False) (delete_new (remote_of [''r'']) True)"
  obtain q w where run: "?run = (q, w)" by (rule prod.exhaust)
  have queue: "local_operations (fst ?run) = [\<lparr>queued_id = ''d'', queued_operation = ?op, queued_owner = Some ''s'', queued_held = False,
      queued_priority = False\<rparr>]" "ids_ended (local_events (fst ?run)) = []" by code_simp+
  have "map_option fst (finish_within 9 ?cls ?op ()) = Some None" by code_simp
  then obtain operation where "finish_within 9 ?cls ?op () = Some (None, operation, ())" by auto
  from finish_within_finish [OF this] have "finish_all ?cls (local_operations q) w = Some ([ended_event ?cls ''d'' None operation], ())"
    using queue(1) run by simp
  from local_queue_drains [OF run this] obtain n q' where
    ticks: "(local_perform ?cls sample_disk sample_deletes Tick ^^ n) (q, w) = (q', ())" and
    left: "local_operations q' = filter queued_held (local_operations q)" "local_events q' = local_events q @ [ended_event ?cls ''d'' None operation]"
    by blast
  have "local_operations q' = []" using left(1) queue(1) run by simp
  moreover have "ids_ended (local_events q') = [''d'']" using left(2) queue(2) run by (simp add: ended_event_def)
  ultimately show ?thesis using ticks unfolding run by blast
qed

text \<open>C14: whatever the filesystem answers, a delete or move that is let in names no empty path, no root, no home or directory
  above one, and no existing directory that is one of these by another name.\<close>

theorem local_requests_spare_homes:
  assumes "\<forall>home \<in> set homes. valid_local home"
    and "case call of
        Inl (Inl delete) \<Rightarrow> fst (addDelete disk homes constructors delete q) = Inr () \<and> targets = delete_localTargets delete
      | Inl (Inr copy) \<Rightarrow> fst (addCopy disk homes prevented constructors copy q) = Inr () \<and> copy_move copy \<and>
          targets = map copy_source (copy_entries copy)
      | Inr paths \<Rightarrow> fst (addExplorerDelete disk homes prevented constructors ident paths owner held q) = Inr () \<and>
          deleteTargets disk homes paths = Inr targets"
  shows "targets \<noteq> [] \<and> (\<forall>target \<in> set targets. spares_homes disk homes target)"
proof (cases call)
  case (Inl request)
  show ?thesis
  proof (cases request)
    case (Inl delete)
    with \<open>call = Inl request\<close> assms show ?thesis
      using refuseAny_spares [of disk homes "delete_localTargets delete"]
      by (auto simp: addDelete_def split: option.splits if_splits)
  next
    case (Inr copy)
    with \<open>call = Inl request\<close> assms show ?thesis
      using refuseAny_spares [of disk homes "map copy_source (copy_entries copy)"]
      by (auto simp: addCopy_def split: option.splits if_splits)
  qed
next
  case (Inr paths)
  have "targets \<noteq> [] \<and> refuseAnyLocal disk homes targets = None"
    using assms(2) Inr by (auto simp: addExplorerDelete_def addDelete_def split: if_splits option.splits sum.splits prod.splits)
  with refuseAny_spares assms(1) show ?thesis by blast
qed

lemma local_requests_spare_homes_witness:
  "spares_homes sample_disk [local_of Posix [] [''home'']] (local_of Posix [] [''srv'', ''a'']) \<and>
   fst (addExplorerDelete sample_disk [local_of Posix [] [''home'']] False sample_constructors ''x'' [''/link''] None False newLocalQueue) \<noteq> Inr ()"
proof -
  have "fst (addDelete sample_disk [local_of Posix [] [''home'']] sample_constructors sample_delete newLocalQueue) = Inr ()"
    by code_simp
  moreover have "\<forall>home \<in> set [local_of Posix [] [''home'']]. valid_local home"
    using valid_local_of [of Posix "[]" "[''home'']"] by (simp add: local_stem_def) code_simp
  moreover have "fst (addExplorerDelete sample_disk [local_of Posix [] [''home'']] False sample_constructors ''x'' [''/link''] None False newLocalQueue) \<noteq> Inr ()"
    by code_simp
  ultimately show ?thesis
    using local_requests_spare_homes [where homes = "[local_of Posix [] [''home'']]" and call = "Inl (Inl sample_delete)" and
        disk = sample_disk and constructors = sample_constructors and q = newLocalQueue and targets = "[local_of Posix [] [''srv'', ''a'']]"]
    by (simp add: sample_delete_def)
qed

end
