(* ===== verification/Local_Files.thy ===== *)
theory Local_Files
  imports Remote_Operations
begin

text \<open>
  What an operation does to files of this machine: \<open>utility/rename.cpp\<close>, \<open>utility/permissions.cpp\<close>, the POSIX part of
  \<open>utility/link_safe_remove.cpp\<close> that looks for links, and the local half of \<open>backend/sftp/compared_state_check.cpp\<close>. The
  calls of the system and of \<open>std::filesystem\<close> are a record of functions on the disk that may fail at any time; the
  locale \<open>local_files\<close> states what they do to the content of files, and a disk of named nodes that can fill up is its
  instance. The build is the one for Linux; the system's message in the text of an error is left out.
\<close>

subsection \<open>The calls\<close>

datatype SysError =
  ErrFileExists | ErrInvalidArgument | ErrFunctionNotSupported | ErrOperationNotSupported | ErrNotSupported
| ErrOperationNotPermitted | ErrNoSuchFile | ErrOther

datatype OpenMode = InOut | Out | App

text \<open>
  A path is its text. \<open>sys_status\<close> is \<open>symlink_status\<close>, without a value when nothing is there. \<open>sys_create\<close> opens with
  \<open>O_WRONLY | O_CREAT | O_NOFOLLOW\<close> and closes again, \<open>sys_chmodOpened\<close> is the \<open>fchmod\<close> on the descriptor. \<open>sys_open\<close>,
  \<open>sys_write\<close> and \<open>sys_read\<close> are those of the file streams; a write without a position appends. The stream's own buffer is
  not modelled: a write that reports success has reached the file.
\<close>

record 'disk LocalCalls =
  sys_umask :: u32
  sys_status :: "string \<Rightarrow> 'disk \<Rightarrow> SysError + FileType option"
  sys_exists :: "string \<Rightarrow> 'disk \<Rightarrow> SysError + bool"
  sys_fileSize :: "string \<Rightarrow> 'disk \<Rightarrow> SysError + u64"
  sys_modified :: "string \<Rightarrow> 'disk \<Rightarrow> SysError + u64"
  sys_readLink :: "string \<Rightarrow> 'disk \<Rightarrow> SysError + string"
  sys_read :: "string \<Rightarrow> nat \<Rightarrow> nat \<Rightarrow> 'disk \<Rightarrow> string option"
  sys_create :: "string \<Rightarrow> 'disk \<Rightarrow> (SysError + unit) \<times> 'disk"
  sys_chmodOpened :: "string \<Rightarrow> u32 \<Rightarrow> 'disk \<Rightarrow> (SysError + unit) \<times> 'disk"
  sys_resize :: "string \<Rightarrow> u64 \<Rightarrow> 'disk \<Rightarrow> (SysError + unit) \<times> 'disk"
  sys_open :: "OpenMode \<Rightarrow> string \<Rightarrow> 'disk \<Rightarrow> bool \<times> 'disk"
  sys_write :: "string \<Rightarrow> nat option \<Rightarrow> string \<Rightarrow> 'disk \<Rightarrow> bool \<times> 'disk"
  sys_createDirectories :: "string \<Rightarrow> 'disk \<Rightarrow> (SysError + unit) \<times> 'disk"
  sys_createSymlink :: "bool \<Rightarrow> string \<Rightarrow> string \<Rightarrow> 'disk \<Rightarrow> (SysError + unit) \<times> 'disk"
  sys_remove :: "string \<Rightarrow> 'disk \<Rightarrow> (SysError + unit) \<times> 'disk"
  sys_rename :: "string \<Rightarrow> string \<Rightarrow> 'disk \<Rightarrow> (SysError + unit) \<times> 'disk"
  sys_renameNoReplace :: "string \<Rightarrow> string \<Rightarrow> 'disk \<Rightarrow> (SysError + unit) \<times> 'disk"
  sys_hardLink :: "string \<Rightarrow> string \<Rightarrow> 'disk \<Rightarrow> (SysError + unit) \<times> 'disk"
  sys_permissions :: "string \<Rightarrow> u32 \<Rightarrow> 'disk \<Rightarrow> (SysError + unit) \<times> 'disk"
  sys_setModified :: "string \<Rightarrow> u64 \<Rightarrow> u32 \<Rightarrow> 'disk \<Rightarrow> (SysError + unit) \<times> 'disk"

subsection \<open>Renaming\<close>

definition isNoReplaceUnsupported :: "SysError \<Rightarrow> bool" where
  "isNoReplaceUnsupported error \<longleftrightarrow> error = ErrInvalidArgument \<or> error = ErrFunctionNotSupported \<or>
     error = ErrOperationNotSupported \<or> error = ErrNotSupported \<or> error = ErrOperationNotPermitted"

definition renameByLink :: "'disk LocalCalls \<Rightarrow> string \<Rightarrow> string \<Rightarrow> 'disk \<Rightarrow> (SysError + unit) \<times> 'disk" where
  "renameByLink calls from to disk =
     (case sys_hardLink calls from to disk of
        (Inl e, disk) \<Rightarrow> (Inl e, disk)
      | (Inr _, disk) \<Rightarrow>
          (case sys_remove calls from disk of
             (Inl e, disk) \<Rightarrow> (case sys_remove calls to disk of (_, disk) \<Rightarrow> (Inl e, disk))
           | (Inr _, disk) \<Rightarrow> (Inr (), disk)))"

definition renameUnlessExists :: "'disk LocalCalls \<Rightarrow> string \<Rightarrow> string \<Rightarrow> 'disk \<Rightarrow> (SysError + unit) \<times> 'disk" where
  "renameUnlessExists calls from to disk =
     (case sys_status calls to disk of
        Inl e \<Rightarrow> (Inl e, disk)
      | Inr (Some _) \<Rightarrow> (Inl ErrFileExists, disk)
      | Inr None \<Rightarrow> sys_rename calls from to disk)"

definition renameNoReplace :: "'disk LocalCalls \<Rightarrow> string \<Rightarrow> string \<Rightarrow> 'disk \<Rightarrow> (SysError + unit) \<times> 'disk" where
  "renameNoReplace calls from to disk =
     (case sys_renameNoReplace calls from to disk of
        (Inr _, disk) \<Rightarrow> (Inr (), disk)
      | (Inl error, disk) \<Rightarrow>
          (if \<not> isNoReplaceUnsupported error then (Inl error, disk)
           else if sys_status calls from disk = Inr (Some Regular) then
             (case renameByLink calls from to disk of
                (Inr _, disk) \<Rightarrow> (Inr (), disk)
              | (Inl linkError, disk) \<Rightarrow>
                  (if \<not> isNoReplaceUnsupported linkError then (Inl linkError, disk) else renameUnlessExists calls from to disk))
           else renameUnlessExists calls from to disk))"

definition moveIntoPlace :: "'disk LocalCalls \<Rightarrow> string \<Rightarrow> string \<Rightarrow> bool \<Rightarrow> 'disk \<Rightarrow> (SysError + unit) \<times> 'disk" where
  "moveIntoPlace calls from to replace disk =
     (if \<not> replace then renameNoReplace calls from to disk else sys_rename calls from to disk)"

subsection \<open>Permissions\<close>

text \<open>\<open>perms::unknown\<close>, \<open>perms::all\<close> and the read and write bits of everyone.\<close>

abbreviation "perms_unknown \<equiv> 0xFFFF :: u32"
abbreviation "perms_all \<equiv> 0x1FF :: u32"
abbreviation "perms_readWrite \<equiv> 0x1B6 :: u32"
abbreviation "perms_owner \<equiv> 0x180 :: u32"

definition sanitizePermissions :: "u32 \<Rightarrow> u32 option" where
  "sanitizePermissions permissions = (if permissions = perms_unknown then None else Some (and permissions perms_all))"

definition inheritablePermissions :: "u32 \<Rightarrow> u32 \<Rightarrow> u32 option" where
  "inheritablePermissions umask permissions = map_option (\<lambda>sanitized. and sanitized (not umask)) (sanitizePermissions permissions)"

definition newFilePermissions :: "u32 \<Rightarrow> u32" where
  "newFilePermissions umask = and perms_readWrite (not umask)"

definition restrictToOwner :: "'disk LocalCalls \<Rightarrow> string \<Rightarrow> 'disk \<Rightarrow> (SysError + unit) \<times> 'disk" where
  "restrictToOwner calls path disk =
     (case sys_create calls path disk of
        (Inl e, disk) \<Rightarrow> (Inl e, disk)
      | (Inr _, disk) \<Rightarrow> sys_chmodOpened calls path perms_owner disk)"

subsection \<open>Links\<close>

datatype NoFollowKind = MissingKind | LinkKind | DirectoryKind | OtherKind

fun inspectionOf :: "FileType option \<Rightarrow> NoFollowKind" where
  "inspectionOf None = MissingKind"
| "inspectionOf (Some Symlink) = LinkKind"
| "inspectionOf (Some Directory) = DirectoryKind"
| "inspectionOf (Some _) = OtherKind"

definition noFollowKindOf :: "'disk LocalCalls \<Rightarrow> string \<Rightarrow> 'disk \<Rightarrow> SysError + NoFollowKind" where
  "noFollowKindOf calls path disk = map_sum id inspectionOf (sys_status calls path disk)"

text \<open>
  \<open>lexically_relative\<close> of canonical paths: the names below the root, none when it is the root itself, no value when the
  path is elsewhere.
\<close>

definition namesBelow :: "string \<Rightarrow> string \<Rightarrow> string list option" where
  "namesBelow root path =
     (let above = (if root \<noteq> [] \<and> last root = slash then root else root @ [slash]) in
      if path = root then Some []
      else if take (length above) path = above then Some (splitAtSlashes (drop (length above) path))
      else None)"

definition nativeJoin :: "string \<Rightarrow> string \<Rightarrow> string" where
  "nativeJoin directory name = (if directory \<noteq> [] \<and> last directory = slash then directory @ name else directory @ slash # name)"

text \<open>The result is a link, none, or the error; the second part are the verified directories.\<close>

fun linkAmong :: "'disk LocalCalls \<Rightarrow> string \<Rightarrow> string list \<Rightarrow> string list option \<Rightarrow> 'disk \<Rightarrow>
    (SysError + string option) \<times> string list option" where
  "linkAmong calls current [] verified disk = (Inr None, verified)"
| "linkAmong calls current (component # components) verified disk =
     (let current = nativeJoin current component in
      if (case verified of Some directories \<Rightarrow> current \<in> set directories | None \<Rightarrow> False)
      then linkAmong calls current components verified disk
      else case noFollowKindOf calls current disk of
          Inl e \<Rightarrow> (Inl e, verified)
        | Inr LinkKind \<Rightarrow> (Inr (Some current), verified)
        | Inr MissingKind \<Rightarrow> (Inr None, verified)
        | Inr DirectoryKind \<Rightarrow> linkAmong calls current components (map_option (List.insert current) verified) disk
        | Inr OtherKind \<Rightarrow> linkAmong calls current components verified disk)"

definition firstLinkBelow :: "'disk LocalCalls \<Rightarrow> string \<Rightarrow> string \<Rightarrow> string list option \<Rightarrow> 'disk \<Rightarrow>
    (SysError + string option) \<times> string list option" where
  "firstLinkBelow calls root path verified disk =
     (case namesBelow root path of
        None \<Rightarrow> (Inl ErrInvalidArgument, verified)
      | Some names \<Rightarrow> linkAmong calls root names verified disk)"

subsection \<open>Moving into place what a compare allows\<close>

definition localStateOf :: "'disk LocalCalls \<Rightarrow> string \<Rightarrow> 'disk \<Rightarrow> SysError + ComparedState" where
  "localStateOf calls path disk =
     (case sys_status calls path disk of
        Inr None \<Rightarrow> Inr absent_state
      | Inl e \<Rightarrow> (if e = ErrNoSuchFile then Inr absent_state else Inl e)
      | Inr (Some t) \<Rightarrow>
          (let state = absent_state\<lparr>cs_exists := True, cs_type := t\<rparr> in
           if t = Symlink then map_sum id (\<lambda>literal. state\<lparr>cs_linkTarget := Some literal\<rparr>) (sys_readLink calls path disk)
           else if t = Regular then
             (case sys_fileSize calls path disk of
                Inl e \<Rightarrow> Inl e
              | Inr bytes \<Rightarrow> map_sum id (\<lambda>modified. state\<lparr>cs_size := bytes, cs_mtime := modified\<rparr>) (sys_modified calls path disk))
           else Inr state))"

definition requireUnchangedLocal :: "'disk LocalCalls \<Rightarrow> string \<Rightarrow> ComparedState option \<Rightarrow> 'disk \<Rightarrow> OperationError + unit" where
  "requireUnchangedLocal calls path compared disk =
     (case compared of
        None \<Rightarrow> Inr ()
      | Some seen \<Rightarrow>
          (case localStateOf calls path disk of
             Inl _ \<Rightarrow> Inl ((plain_error FileStatFailed)\<lparr>error_extraInfo := Some (''Inspecting '' @ [CHR 0x27] @ path @ [CHR 0x27])\<rparr>)
           | Inr current \<Rightarrow> if unchangedSinceCompare seen current then Inr () else Inl (changedError path)))"

definition localMoveError :: "SysError \<Rightarrow> OperationError" where
  "localMoveError error = (if error = ErrFileExists then plain_error FileExists else plain_error RenameFailure)"

definition moveLocalIntoPlace :: "'disk LocalCalls \<Rightarrow> string \<Rightarrow> string \<Rightarrow> bool \<Rightarrow> ComparedState option \<Rightarrow> 'disk \<Rightarrow>
    (OperationError + unit) \<times> 'disk" where
  "moveLocalIntoPlace calls from to replace compared disk =
     (case requireUnchangedLocal calls to compared disk of
        Inl e \<Rightarrow> (Inl e, disk)
      | Inr _ \<Rightarrow>
          (case moveIntoPlace calls from to replace disk of
             (Inl e, disk) \<Rightarrow> (Inl (localMoveError e), disk)
           | (Inr _, disk) \<Rightarrow> (Inr (), disk)))"

subsection \<open>What the calls do to files\<close>

text \<open>\<open>overwrite content n text\<close>: the text at position \<open>n\<close>, a gap before it filled with zeros.\<close>

definition overwrite :: "string \<Rightarrow> nat \<Rightarrow> string \<Rightarrow> string" where
  "overwrite content n written =
     take n content @ replicate (n - length content) (CHR 0x00) @ written @ drop (n + length written) content"

text \<open>\<open>content disk path\<close> is the content of the regular file at the path, \<open>islink disk path\<close> whether a symlink is there. Nothing
  but the paths of the set changes.\<close>

definition only_at :: "('disk \<Rightarrow> string \<Rightarrow> string option) \<Rightarrow> ('disk \<Rightarrow> string \<Rightarrow> bool) \<Rightarrow> string set \<Rightarrow> 'disk \<Rightarrow> 'disk \<Rightarrow> bool" where
  "only_at content islink paths d d' \<longleftrightarrow> (\<forall>q. q \<notin> paths \<longrightarrow> content d' q = content d q \<and> islink d' q = islink d q)"

text \<open>
  The laws. Calls that follow a link are only described where there is none. A file that is written has no second hard
  link. A failed write has written a part of what it was given, other failed calls on content leave what was there or nothing.
\<close>

locale local_files =
  fixes calls :: "'disk LocalCalls"
    and content :: "'disk \<Rightarrow> string \<Rightarrow> string option"
    and islink :: "'disk \<Rightarrow> string \<Rightarrow> bool"
  assumes status_link: "sys_status calls p d = Inr found \<Longrightarrow> islink d p \<longleftrightarrow> found = Some Symlink"
    and status_none: "sys_status calls p d = Inr None \<Longrightarrow> content d p = None"
    and status_below: "sys_status calls p d = Inr None \<Longrightarrow> take (length p + 1) q = p @ [slash] \<Longrightarrow> \<not> islink d q"
    and file_size: "sys_fileSize calls p d = Inr n \<Longrightarrow> \<not> islink d p \<Longrightarrow>
       \<exists>c. content d p = Some c \<and> n = of_nat (length c) \<and> length c < 2 ^ 64"
    and read_part: "sys_read calls p offset count d = Some t \<Longrightarrow> \<not> islink d p \<Longrightarrow> content d p = Some c \<Longrightarrow>
       t = take count (drop offset c) \<and> length t = count"
    and create_at: "sys_create calls p d = (r, d') \<Longrightarrow> \<not> islink d p \<Longrightarrow> only_at content islink {p} d d' \<and> \<not> islink d' p \<and>
       (\<forall>c. content d' p = Some c \<longrightarrow> content d p = Some c \<or> content d p = None \<and> c = []) \<and>
       (content d p \<noteq> None \<longrightarrow> content d' p = content d p)"
    and chmod_at: "sys_chmodOpened calls p m d = (r, d') \<Longrightarrow> only_at content islink {} d d'"
    and permissions_at: "sys_permissions calls p m d = (r, d') \<Longrightarrow> only_at content islink {} d d'"
    and modified_at: "sys_setModified calls p stamp ns d = (r, d') \<Longrightarrow> only_at content islink {} d d'"
    and directories_at: "sys_createDirectories calls p d = (r, d') \<Longrightarrow> only_at content islink {} d d'"
    and resize_at: "sys_resize calls p n d = (r, d') \<Longrightarrow> \<not> islink d p \<Longrightarrow> only_at content islink {p} d d' \<and> \<not> islink d' p \<and>
       (r = Inr () \<longrightarrow> (\<forall>c. content d' p = Some c \<longrightarrow> length c = unat n))"
    and open_at: "sys_open calls mode p d = (opened, d') \<Longrightarrow> \<not> islink d p \<Longrightarrow> only_at content islink {p} d d' \<and> \<not> islink d' p \<and>
       (\<forall>c. content d' p = Some c \<longrightarrow> content d p = Some c \<and> mode \<noteq> Out \<or> c = [] \<and> (mode = Out \<or> content d p = None))"
    and write_at: "sys_write calls p pos t d = (good, d') \<Longrightarrow> \<not> islink d p \<Longrightarrow> only_at content islink {p} d d' \<and> \<not> islink d' p \<and>
       (\<forall>c'. content d' p = Some c' \<longrightarrow> (\<exists>c k. content d p = Some c \<and> k \<le> length t \<and> (good \<longrightarrow> k = length t) \<and>
          c' = overwrite c (case pos of Some n \<Rightarrow> n | None \<Rightarrow> length c) (take k t)))"
    and symlink_at: "sys_createSymlink calls directory target p d = (r, d') \<Longrightarrow> only_at content islink {p} d d' \<and>
       (r = Inr () \<longrightarrow> islink d' p \<and> content d' p = None)"
    and remove_at: "sys_remove calls p d = (r, d') \<Longrightarrow> only_at content islink {p} d d' \<and>
       (case r of Inr _ \<Rightarrow> content d' p = None \<and> \<not> islink d' p | Inl _ \<Rightarrow> only_at content islink {} d d')"
    and rename_at: "sys_rename calls f t d = (r, d') \<Longrightarrow> content d f \<noteq> None \<or> islink d f \<Longrightarrow> only_at content islink {f, t} d d' \<and>
       (case r of Inr _ \<Rightarrow> content d' t = content d f \<and> islink d' t = islink d f | Inl _ \<Rightarrow> only_at content islink {} d d')"
    and rename_free_at: "sys_renameNoReplace calls f t d = (r, d') \<Longrightarrow> content d f \<noteq> None \<or> islink d f \<Longrightarrow>
       only_at content islink {f, t} d d' \<and>
       (case r of Inr _ \<Rightarrow> content d' t = content d f \<and> islink d' t = islink d f \<and> content d t = None \<and> \<not> islink d t
        | Inl _ \<Rightarrow> only_at content islink {} d d')"
    and link_at: "sys_hardLink calls f t d = (r, d') \<Longrightarrow> only_at content islink {t} d d' \<and>
       (case r of Inr _ \<Rightarrow> content d' t = content d f \<and> islink d' t = islink d f \<and> content d t = None \<and> \<not> islink d t
        | Inl _ \<Rightarrow> only_at content islink {} d d')"
begin

lemma only_at_weaken: "only_at content islink P d d' \<Longrightarrow> P \<subseteq> Q \<Longrightarrow> only_at content islink Q d d'"
  by (auto simp: only_at_def)

lemma only_at_trans: "only_at content islink P d d' \<Longrightarrow> only_at content islink P d' d'' \<Longrightarrow> only_at content islink P d d''"
  by (auto simp: only_at_def)

lemma only_at_refl: "only_at content islink P d d"
  by (simp add: only_at_def)

text \<open>What moving into place leaves at the destination.\<close>

definition left_at :: "string \<Rightarrow> string \<Rightarrow> bool \<Rightarrow> 'disk \<Rightarrow> SysError + unit \<Rightarrow> 'disk \<Rightarrow> bool" where
  "left_at f t replace d r d' \<longleftrightarrow> only_at content islink {f, t} d d' \<and>
     (r = Inr () \<longrightarrow> content d' t = content d f \<and> islink d' t = islink d f) \<and>
     (content d' t = content d t \<and> islink d' t = islink d t \<or> content d' t = content d f \<and> islink d' t = islink d f) \<and>
     (\<not> replace \<and> (content d t \<noteq> None \<or> islink d t) \<longrightarrow> content d' t = content d t \<and> islink d' t = islink d t)"

lemma left_same: "only_at content islink {} d d' \<Longrightarrow> left_at f t replace d (Inl e) d'"
  by (auto simp: left_at_def only_at_def)

lemma left_later: "only_at content islink {} d d' \<Longrightarrow> left_at f t replace d' r d'' \<Longrightarrow> left_at f t replace d r d''"
  by (auto simp: left_at_def only_at_def)

lemma renameUnlessExists_left:
  assumes "renameUnlessExists calls f t d = (r, d')" and "content d f \<noteq> None \<or> islink d f"
  shows "left_at f t False d r d'"
proof (cases "sys_status calls t d = Inr None")
  case True
  then have free: "content d t = None" "\<not> islink d t" using status_none status_link by blast+
  from assms(1) True have "sys_rename calls f t d = (r, d')" by (simp add: renameUnlessExists_def)
  from rename_at [OF this assms(2)] free show ?thesis by (cases r) (auto simp: left_at_def only_at_def)
next
  case False
  with assms(1) have "d' = d" "r \<noteq> Inr ()" by (auto simp: renameUnlessExists_def split: sum.splits option.splits)
  then show ?thesis by (auto simp: left_at_def only_at_def)
qed

lemma renameByLink_left:
  assumes "renameByLink calls f t d = (r, d')" and "f \<noteq> t"
  shows "left_at f t False d r d'" and "r = Inl e \<Longrightarrow> content d' f = content d f \<and> islink d' f = islink d f"
proof -
  obtain r1 d1 where linked: "sys_hardLink calls f t d = (r1, d1)" by (rule prod.exhaust)
  obtain r2 d2 where removed: "sys_remove calls f d1 = (r2, d2)" by (rule prod.exhaust)
  obtain r3 d3 where undone: "sys_remove calls t d2 = (r3, d3)" by (rule prod.exhaust)
  note effects = link_at [OF linked] remove_at [OF removed] remove_at [OF undone]
  show "left_at f t False d r d'"
    using assms effects linked removed undone
    by (cases r1; cases r2; cases r3) (auto simp: renameByLink_def left_at_def only_at_def)
  show "content d' f = content d f \<and> islink d' f = islink d f" if "r = Inl e"
    using assms effects linked removed undone that
    by (cases r1; cases r2; cases r3) (auto simp: renameByLink_def only_at_def)
qed

lemma renameNoReplace_left:
  assumes "renameNoReplace calls f t d = (r, d')" and "content d f \<noteq> None \<or> islink d f" and "f \<noteq> t"
  shows "left_at f t False d r d'"
proof -
  obtain r1 d1 where tried: "sys_renameNoReplace calls f t d = (r1, d1)" by (rule prod.exhaust)
  note first = rename_free_at [OF tried assms(2)]
  show ?thesis
  proof (cases r1)
    case (Inr u)
    with first assms(1) tried show ?thesis by (auto simp: renameNoReplace_def left_at_def only_at_def)
  next
    case (Inl error)
    with first have same: "only_at content islink {} d d1" by simp
    then have there: "content d1 f \<noteq> None \<or> islink d1 f" using assms(2) by (auto simp: only_at_def)
    obtain r2 d2 where linked: "renameByLink calls f t d1 = (r2, d2)" by (rule prod.exhaust)
    have eq: "(if \<not> isNoReplaceUnsupported error then (Inl error, d1)
        else if sys_status calls f d1 = Inr (Some Regular) then
          (case r2 of Inr _ \<Rightarrow> (Inr (), d2)
           | Inl linkError \<Rightarrow> if \<not> isNoReplaceUnsupported linkError then (Inl linkError, d2) else renameUnlessExists calls f t d2)
        else renameUnlessExists calls f t d1) = (r, d')"
      using assms(1) by (simp add: renameNoReplace_def tried Inl linked cong: if_cong)
    have "r = Inl error \<and> d' = d1 \<or> r = r2 \<and> d' = d2 \<or> renameUnlessExists calls f t d1 = (r, d') \<or>
      (\<exists>e. r2 = Inl e) \<and> renameUnlessExists calls f t d2 = (r, d')"
      using eq by (cases "isNoReplaceUnsupported error"; cases "sys_status calls f d1 = Inr (Some Regular)"; cases r2)
        (simp_all split: if_split_asm)
    then consider (stop) "r = Inl error" "d' = d1"
      | (links) "r = r2" "d' = d2" | (last) "renameUnlessExists calls f t d1 = (r, d')"
      | (then_last) e where "r2 = Inl e" "renameUnlessExists calls f t d2 = (r, d')" by blast
    then show ?thesis
    proof cases
      case stop
      with same left_same show ?thesis by simp
    next
      case links
      with left_later [OF same renameByLink_left(1) [OF linked assms(3)]] show ?thesis by simp
    next
      case last
      from left_later [OF same renameUnlessExists_left [OF last there]] show ?thesis .
    next
      case then_last
      note l = renameByLink_left [OF linked assms(3)]
      from l(2) [OF then_last(1)] there have "content d2 f \<noteq> None \<or> islink d2 f" by simp
      note u = renameUnlessExists_left [OF then_last(2) this]
      have f: "content d2 f = content d1 f" "islink d2 f = islink d1 f" using l(2) [OF then_last(1)] by simp_all
      have only: "only_at content islink {f, t} d1 d'" using l(1) u only_at_trans by (auto simp: left_at_def)
      have ok: "r = Inr () \<longrightarrow> content d' t = content d1 f \<and> islink d' t = islink d1 f" using u f by (simp add: left_at_def)
      have either: "content d2 t = content d1 t \<and> islink d2 t = islink d1 t \<or> content d2 t = content d1 f \<and> islink d2 t = islink d1 f"
        and kept: "content d1 t \<noteq> None \<or> islink d1 t \<Longrightarrow> content d2 t = content d1 t \<and> islink d2 t = islink d1 t"
        using l(1) by (auto simp: left_at_def)
      have after_either: "content d' t = content d2 t \<and> islink d' t = islink d2 t \<or> content d' t = content d2 f \<and> islink d' t = islink d2 f"
        and after_kept: "content d2 t \<noteq> None \<or> islink d2 t \<Longrightarrow> content d' t = content d2 t \<and> islink d' t = islink d2 t"
        using u by (auto simp: left_at_def)
      have "left_at f t False d1 r d'"
        unfolding left_at_def
      proof (intro conjI)
        show "content d' t = content d1 t \<and> islink d' t = islink d1 t \<or> content d' t = content d1 f \<and> islink d' t = islink d1 f"
          using either after_either f by auto
        show "\<not> False \<and> (content d1 t \<noteq> None \<or> islink d1 t) \<longrightarrow> content d' t = content d1 t \<and> islink d' t = islink d1 t"
          using kept after_kept by auto
      qed (use only ok in auto)
      with left_later [OF same] show ?thesis .
    qed
  qed
qed

lemma moveIntoPlace_left:
  assumes "moveIntoPlace calls f t replace d = (r, d')" and "content d f \<noteq> None \<or> islink d f" and "f \<noteq> t"
  shows "left_at f t replace d r d'"
proof (cases replace)
  case True
  with assms(1) have "sys_rename calls f t d = (r, d')" by (simp add: moveIntoPlace_def)
  from rename_at [OF this assms(2)] True show ?thesis by (cases r) (auto simp: left_at_def only_at_def)
next
  case False
  with assms renameNoReplace_left show ?thesis by (simp add: moveIntoPlace_def)
qed

lemma moveLocalIntoPlace_left:
  assumes "moveLocalIntoPlace calls f t replace compared d = (r, d')" and "content d f \<noteq> None \<or> islink d f" and "f \<noteq> t"
  obtains r' where "left_at f t replace d r' d'" and "r = Inr () \<Longrightarrow> r' = Inr ()"
proof (cases "requireUnchangedLocal calls t compared d")
  case (Inl e)
  with assms(1) have "d' = d" "r \<noteq> Inr ()" by (auto simp: moveLocalIntoPlace_def)
  then show ?thesis using that [of "Inl ErrOther"] left_same [of d d' f t replace] by (simp add: only_at_refl)
next
  case (Inr u)
  obtain r1 d1 where moved: "moveIntoPlace calls f t replace d = (r1, d1)" by (rule prod.exhaust)
  with assms(1) Inr have "d' = d1" "r = Inr () \<longrightarrow> r1 = Inr ()" by (auto simp: moveLocalIntoPlace_def split: sum.splits)
  with that moveIntoPlace_left [OF moved assms(2,3)] show ?thesis by blast
qed

lemma restrictToOwner_at:
  assumes "restrictToOwner calls p d = (r, d')" and "\<not> islink d p"
  shows "only_at content islink {p} d d' \<and> \<not> islink d' p \<and>
    (\<forall>c. content d' p = Some c \<longrightarrow> content d p = Some c \<or> content d p = None \<and> c = []) \<and> (content d p \<noteq> None \<longrightarrow> content d' p = content d p)"
proof -
  obtain r1 d1 where created: "sys_create calls p d = (r1, d1)" by (rule prod.exhaust)
  note first = create_at [OF created assms(2)]
  show ?thesis
  proof (cases r1)
    case (Inl e)
    with assms(1) created first show ?thesis by (auto simp: restrictToOwner_def)
  next
    case (Inr u)
    with assms(1) created have "sys_chmodOpened calls p perms_owner d1 = (r, d')" by (simp add: restrictToOwner_def)
    from chmod_at [OF this] first show ?thesis by (auto simp: only_at_def)
  qed
qed

lemma linkAmong_verified:
  "linkAmong calls current names verified d = (r, verified') \<Longrightarrow> verified = Some vs \<Longrightarrow> \<forall>p \<in> set vs. \<not> islink d p \<Longrightarrow>
     \<exists>vs'. verified' = Some vs' \<and> (\<forall>p \<in> set vs'. \<not> islink d p)"
proof (induction names arbitrary: current verified vs)
  case (Cons name names)
  let ?at = "nativeJoin current name"
  show ?case
  proof (cases "?at \<in> set vs")
    case True
    with Cons.prems show ?thesis by (intro Cons.IH [of ?at verified vs]) (auto simp: Let_def)
  next
    case new: False
    show ?thesis
    proof (cases "sys_status calls ?at d")
      case (Inl e)
      with Cons.prems new show ?thesis by (auto simp: Let_def noFollowKindOf_def)
    next
      case (Inr found)
      consider (stop) "inspectionOf found \<in> {LinkKind, MissingKind}" | (into) "inspectionOf found = DirectoryKind"
        | (on) "inspectionOf found = OtherKind" by (cases "inspectionOf found") auto
      then show ?thesis
      proof cases
        case stop
        with Cons.prems new Inr show ?thesis by (auto simp: Let_def noFollowKindOf_def)
      next
        case into
        then have "found \<noteq> Some Symlink" by auto
        then have "\<not> islink d ?at" using status_link [OF Inr] by simp
        with Cons.prems new Inr into show ?thesis
          by (intro Cons.IH [of ?at "Some (List.insert ?at vs)" "List.insert ?at vs"]) (auto simp: Let_def noFollowKindOf_def)
      next
        case on
        with Cons.prems new Inr show ?thesis by (intro Cons.IH [of ?at verified vs]) (auto simp: Let_def noFollowKindOf_def)
      qed
    qed
  qed
qed auto

lemma nativeJoin_begins:
  "names \<noteq> [] \<Longrightarrow> \<forall>n \<in> set names. n \<noteq> [] \<and> slash \<notin> set n \<Longrightarrow> current \<noteq> [] \<Longrightarrow> last current \<noteq> slash \<Longrightarrow>
     take (length current + 1) (foldl nativeJoin current names) = current @ [slash]"
proof (induction names rule: rev_induct)
  case (snoc n names)
  show ?case
  proof (cases "names = []")
    case True
    with snoc.prems show ?thesis by (simp add: nativeJoin_def)
  next
    case False
    with snoc have "take (length current + 1) (foldl nativeJoin current names) = current @ [slash]" by simp
    moreover from this have "length (foldl nativeJoin current names) \<ge> length current + 1"
      by (metis append_eq_conv_conj length_append_singleton length_take min.cobounded1 Suc_eq_plus1)
    moreover obtain w where "nativeJoin (foldl nativeJoin current names) n = foldl nativeJoin current names @ w"
      by (metis nativeJoin_def)
    ultimately show ?thesis by simp
  qed
qed simp

lemma linkAmong_free:
  "linkAmong calls current names verified d = (Inr None, verified') \<Longrightarrow> names \<noteq> [] \<Longrightarrow>
     \<forall>n \<in> set names. n \<noteq> [] \<and> slash \<notin> set n \<Longrightarrow> \<forall>vs. verified = Some vs \<longrightarrow> (\<forall>p \<in> set vs. \<not> islink d p) \<Longrightarrow>
     \<not> islink d (foldl nativeJoin current names)"
proof (induction names arbitrary: current verified)
  case (Cons name names)
  let ?at = "nativeJoin current name"
  have at: "?at \<noteq> []" "last ?at \<noteq> slash" using Cons.prems(3) by (auto simp: nativeJoin_def) (metis last_in_set)+
  have further: "\<not> islink d (foldl nativeJoin ?at names)"
    if "linkAmong calls ?at names v d = (Inr None, verified')" "\<not> islink d ?at" "\<forall>vs. v = Some vs \<longrightarrow> (\<forall>p \<in> set vs. \<not> islink d p)" for v
    using Cons.IH [OF that(1) _ _ that(3)] Cons.prems(3) that(2) by (cases "names = []") auto
  show ?case
  proof (cases "\<exists>vs. verified = Some vs \<and> ?at \<in> set vs")
    case True
    with Cons.prems further [of verified] show ?thesis by (auto simp: Let_def)
  next
    case new: False
    then have goes: "linkAmong calls current (name # names) verified d = (case noFollowKindOf calls ?at d of
        Inl e \<Rightarrow> (Inl e, verified) | Inr LinkKind \<Rightarrow> (Inr (Some ?at), verified) | Inr MissingKind \<Rightarrow> (Inr None, verified)
      | Inr DirectoryKind \<Rightarrow> linkAmong calls ?at names (map_option (List.insert ?at) verified) d
      | Inr OtherKind \<Rightarrow> linkAmong calls ?at names verified d)"
      by (auto simp: Let_def split: option.splits)
    obtain found where found: "sys_status calls ?at d = Inr found" "inspectionOf found \<noteq> LinkKind"
      using Cons.prems(1) [unfolded goes] by (cases "sys_status calls ?at d") (auto simp: noFollowKindOf_def split: NoFollowKind.splits)
    then have here: "\<not> islink d ?at" using status_link [OF found(1)] by auto
    show ?thesis
    proof (cases "inspectionOf found")
      case MissingKind
      then have none: "sys_status calls ?at d = Inr None" using found(1) by (cases found rule: inspectionOf.cases) auto
      show ?thesis
        using status_below [OF none nativeJoin_begins [of names ?at]] Cons.prems(3) at here by (cases "names = []") auto
    next
      case DirectoryKind
      then have "linkAmong calls ?at names (map_option (List.insert ?at) verified) d = (Inr None, verified')"
        using Cons.prems(1) [unfolded goes] found(1) by (simp add: noFollowKindOf_def)
      from further [OF this here] Cons.prems(4) here show ?thesis by (cases verified) auto
    next
      case OtherKind
      then have "linkAmong calls ?at names verified d = (Inr None, verified')"
        using Cons.prems(1) [unfolded goes] found(1) by (simp add: noFollowKindOf_def)
      from further [OF this here] Cons.prems(4) show ?thesis by simp
    qed (use found(2) in simp)
  qed
qed simp

end

subsection \<open>A disk\<close>

text \<open>Files, links and directories by their path, and room for so many more bytes.\<close>

datatype DiskNode = FileNode string | LinkNode string | DirectoryNode

record FileDisk =
  disk_nodes :: "(string \<times> DiskNode) list"
  disk_room :: nat

definition node_of :: "FileDisk \<Rightarrow> string \<Rightarrow> DiskNode option" where
  "node_of d p = map_of (disk_nodes d) p"

definition holds_below :: "FileDisk \<Rightarrow> string \<Rightarrow> bool" where
  "holds_below d p \<longleftrightarrow> list_ex (\<lambda>entry. take (length p + 1) (fst entry) = p @ [slash]) (disk_nodes d)"

definition put_node :: "string \<Rightarrow> DiskNode option \<Rightarrow> FileDisk \<Rightarrow> FileDisk" where
  "put_node p node d = d\<lparr>disk_nodes := (case node of Some n \<Rightarrow> [(p, n)] | None \<Rightarrow> []) @ filter (\<lambda>entry. fst entry \<noteq> p) (disk_nodes d)\<rparr>"

definition opened_path :: "FileDisk \<Rightarrow> string \<Rightarrow> string" where
  "opened_path d p = (case node_of d p of Some (LinkNode target) \<Rightarrow> target | _ \<Rightarrow> p)"

definition disk_content :: "FileDisk \<Rightarrow> string \<Rightarrow> string option" where
  "disk_content d p = (case node_of d p of Some (FileNode c) \<Rightarrow> Some c | _ \<Rightarrow> None)"

definition disk_islink :: "FileDisk \<Rightarrow> string \<Rightarrow> bool" where
  "disk_islink d p \<longleftrightarrow> (case node_of d p of Some (LinkNode _) \<Rightarrow> True | _ \<Rightarrow> False)"

definition disk_status :: "string \<Rightarrow> FileDisk \<Rightarrow> SysError + FileType option" where
  "disk_status p d = Inr (case node_of d p of
       Some (FileNode _) \<Rightarrow> Some Regular | Some (LinkNode _) \<Rightarrow> Some Symlink | Some DirectoryNode \<Rightarrow> Some Directory
     | None \<Rightarrow> if holds_below d p then Some Directory else None)"

definition disk_write :: "string \<Rightarrow> nat option \<Rightarrow> string \<Rightarrow> FileDisk \<Rightarrow> bool \<times> FileDisk" where
  "disk_write path pos t d =
     (let p = opened_path d path in
      case disk_content d p of
        None \<Rightarrow> (False, d)
      | Some c \<Rightarrow> (let k = min (length t) (disk_room d) in
          (k = length t, (put_node p (Some (FileNode (overwrite c (case pos of Some n \<Rightarrow> n | None \<Rightarrow> length c) (take k t)))) d)
             \<lparr>disk_room := disk_room d - k\<rparr>)))"

definition disk_open :: "OpenMode \<Rightarrow> string \<Rightarrow> FileDisk \<Rightarrow> bool \<times> FileDisk" where
  "disk_open mode path d =
     (let p = opened_path d path in
      case node_of d p of
        Some (FileNode _) \<Rightarrow> (True, if mode = Out then put_node p (Some (FileNode [])) d else d)
      | None \<Rightarrow> if mode = InOut \<or> holds_below d p then (False, d) else (True, put_node p (Some (FileNode [])) d)
      | _ \<Rightarrow> (False, d))"

definition disk_rename :: "string \<Rightarrow> string \<Rightarrow> FileDisk \<Rightarrow> (SysError + unit) \<times> FileDisk" where
  "disk_rename f t d =
     (case node_of d f of
        None \<Rightarrow> (Inl ErrNoSuchFile, d)
      | Some DirectoryNode \<Rightarrow> (Inl ErrOther, d)
      | Some node \<Rightarrow> if f = t then (Inr (), d) else if node_of d t = Some DirectoryNode \<or> holds_below d t then (Inl ErrOther, d)
          else (Inr (), put_node t (Some node) (put_node f None d)))"

definition disk_calls :: "FileDisk LocalCalls" where
  "disk_calls = \<lparr>sys_umask = 0x12, sys_status = disk_status,
     sys_exists = (\<lambda>p d. Inr (node_of d (opened_path d p) \<noteq> None \<or> holds_below d p)),
     sys_fileSize = (\<lambda>p d. case disk_content d (opened_path d p) of
        Some c \<Rightarrow> if int (length c) < 2 ^ 64 then Inr (of_nat (length c)) else Inl ErrOther | None \<Rightarrow> Inl ErrOther),
     sys_modified = (\<lambda>_ _. Inr 0),
     sys_readLink = (\<lambda>p d. case node_of d p of Some (LinkNode target) \<Rightarrow> Inr target | _ \<Rightarrow> Inl ErrInvalidArgument),
     sys_read = (\<lambda>p offset count d. case disk_content d (opened_path d p) of
        Some c \<Rightarrow> if offset + count \<le> length c then Some (take count (drop offset c)) else None | None \<Rightarrow> None),
     sys_create = (\<lambda>p d. case node_of d p of
        Some (FileNode _) \<Rightarrow> (Inr (), d)
      | None \<Rightarrow> if holds_below d p then (Inl ErrOther, d) else (Inr (), put_node p (Some (FileNode [])) d)
      | _ \<Rightarrow> (Inl ErrOther, d)),
     sys_chmodOpened = (\<lambda>_ _ d. (Inr (), d)),
     sys_resize = (\<lambda>path n d. let p = opened_path d path in case disk_content d p of
        Some c \<Rightarrow> (Inr (), put_node p (Some (FileNode (take (unat n) (c @ replicate (unat n - length c) (CHR 0x00))))) d)
      | None \<Rightarrow> (Inl ErrOther, d)),
     sys_open = disk_open, sys_write = disk_write, sys_createDirectories = (\<lambda>_ d. (Inr (), d)),
     sys_createSymlink = (\<lambda>_ target p d. if node_of d p \<noteq> None \<or> holds_below d p then (Inl ErrFileExists, d)
        else (Inr (), put_node p (Some (LinkNode target)) d)),
     sys_remove = (\<lambda>p d. if node_of d p = Some DirectoryNode then (Inl ErrOther, d) else (Inr (), put_node p None d)),
     sys_rename = disk_rename,
     sys_renameNoReplace = (\<lambda>f t d. if node_of d t \<noteq> None \<or> holds_below d t then (Inl ErrFileExists, d) else disk_rename f t d),
     sys_hardLink = (\<lambda>f t d. case node_of d f of
        Some (FileNode c) \<Rightarrow> if node_of d t \<noteq> None \<or> holds_below d t then (Inl ErrFileExists, d)
          else (Inr (), put_node t (Some (FileNode c)) d)
      | _ \<Rightarrow> (Inl ErrOther, d)),
     sys_permissions = (\<lambda>_ _ d. (Inr (), d)), sys_setModified = (\<lambda>_ _ _ d. (Inr (), d))\<rparr>"

lemma node_of_put [simp]: "node_of (put_node p node d) q = (if q = p then node else node_of d q)"
proof -
  have "map_of (filter (\<lambda>entry. fst entry \<noteq> p) xs) q = (if q = p then None else map_of xs q)" for xs :: "(string \<times> DiskNode) list"
    by (induction xs) auto
  then show ?thesis by (cases node) (auto simp: node_of_def put_node_def)
qed

lemma node_of_room [simp]: "node_of (d\<lparr>disk_room := k\<rparr>) q = node_of d q"
  by (simp add: node_of_def)

lemma opened_path_self: "\<not> disk_islink d p \<Longrightarrow> opened_path d p = p"
  by (auto simp: disk_islink_def opened_path_def split: option.splits DiskNode.splits)

lemma no_node_below:
  assumes "\<not> holds_below d p" and "take (length p + 1) q = p @ [slash]"
  shows "node_of d q = None"
proof -
  have "(q, node) \<notin> set (disk_nodes d)" for node using assms by (force simp: holds_below_def list_ex_iff)
  then show ?thesis unfolding node_of_def by (meson map_of_SomeD option.exhaust)
qed

lemma disk_put [simp]:
  "disk_content (put_node p node d) q = (if q = p then (case node of Some (FileNode c) \<Rightarrow> Some c | _ \<Rightarrow> None) else disk_content d q)"
  "disk_islink (put_node p node d) q = (if q = p then (case node of Some (LinkNode _) \<Rightarrow> True | _ \<Rightarrow> False) else disk_islink d q)"
  "disk_content (d\<lparr>disk_room := k\<rparr>) q = disk_content d q" "disk_islink (d\<lparr>disk_room := k\<rparr>) q = disk_islink d q"
  by (simp_all add: disk_content_def disk_islink_def)

lemma node_facts:
  "node_of d p = None \<Longrightarrow> disk_content d p = None \<and> \<not> disk_islink d p"
  "node_of d p = Some (FileNode c) \<Longrightarrow> disk_content d p = Some c \<and> \<not> disk_islink d p"
  "node_of d p = Some (LinkNode t) \<Longrightarrow> disk_content d p = None \<and> disk_islink d p"
  "node_of d p = Some DirectoryNode \<Longrightarrow> disk_content d p = None \<and> \<not> disk_islink d p"
  by (simp_all add: disk_content_def disk_islink_def)

lemma disk_content_node: "disk_content d p = Some c \<longleftrightarrow> node_of d p = Some (FileNode c)"
  by (auto simp: disk_content_def split: option.splits DiskNode.splits)

lemma disk_write_at:
  assumes "disk_write p pos t d = (good, d')" and "\<not> disk_islink d p"
  shows "only_at disk_content disk_islink {p} d d' \<and> \<not> disk_islink d' p \<and>
    (\<forall>c'. disk_content d' p = Some c' \<longrightarrow> (\<exists>c k. disk_content d p = Some c \<and> k \<le> length t \<and> (good \<longrightarrow> k = length t) \<and>
       c' = overwrite c (case pos of Some n \<Rightarrow> n | None \<Rightarrow> length c) (take k t)))"
proof (cases "disk_content d p")
  case None
  with assms show ?thesis by (auto simp: disk_write_def Let_def opened_path_self only_at_def)
next
  case (Some c)
  let ?k = "min (length t) (disk_room d)"
  have "good = (?k = length t)" "disk_content d' p = Some (overwrite c (case pos of Some n \<Rightarrow> n | None \<Rightarrow> length c) (take ?k t))"
    "only_at disk_content disk_islink {p} d d'" "\<not> disk_islink d' p"
    using assms Some by (auto simp: disk_write_def Let_def opened_path_self only_at_def)
  with Some show ?thesis by (intro conjI allI impI exI [of _ c] exI [of _ ?k]) (auto simp: min_def split: if_splits)
qed

lemma disk_rename_at:
  assumes "disk_rename f t d = (r, d')"
  shows "only_at disk_content disk_islink {f, t} d d' \<and>
    (case r of Inr _ \<Rightarrow> disk_content d' t = disk_content d f \<and> disk_islink d' t = disk_islink d f
     | Inl _ \<Rightarrow> only_at disk_content disk_islink {} d d')"
proof (cases "node_of d f")
  case (Some node)
  with assms node_facts [of d f] show ?thesis
    by (cases node) (auto simp: disk_rename_def only_at_def split: if_splits)
qed (use assms in \<open>auto simp: disk_rename_def only_at_def\<close>)

lemma disk_status_at:
  "disk_status p d = Inr found \<Longrightarrow> disk_islink d p \<longleftrightarrow> found = Some Symlink"
  "disk_status p d = Inr None \<Longrightarrow> disk_content d p = None \<and> \<not> holds_below d p \<and> node_of d p = None"
  by (auto simp: disk_status_def disk_content_def disk_islink_def split: option.splits DiskNode.splits if_splits)

lemma disk_open_at:
  assumes "disk_open mode p d = (opened, d')" and "\<not> disk_islink d p"
  shows "only_at disk_content disk_islink {p} d d' \<and> \<not> disk_islink d' p \<and>
    (\<forall>c. disk_content d' p = Some c \<longrightarrow> disk_content d p = Some c \<and> mode \<noteq> Out \<or> c = [] \<and> (mode = Out \<or> disk_content d p = None))"
proof (cases "node_of d p")
  case None
  with assms node_facts(1) [OF None] show ?thesis by (auto simp: disk_open_def opened_path_self Let_def only_at_def split: if_splits)
next
  case (Some node)
  with assms node_facts [of d p] show ?thesis
    by (cases node) (auto simp: disk_open_def opened_path_self Let_def only_at_def split: if_splits)
qed

lemma disk_create_at:
  assumes "sys_create disk_calls p d = (r, d')"
  shows "only_at disk_content disk_islink {p} d d' \<and> (\<not> disk_islink d p \<longrightarrow> \<not> disk_islink d' p) \<and>
    (\<forall>c. disk_content d' p = Some c \<longrightarrow> disk_content d p = Some c \<or> disk_content d p = None \<and> c = []) \<and> (disk_content d p \<noteq> None \<longrightarrow> disk_content d' p = disk_content d p)"
proof (cases "node_of d p")
  case None
  with assms node_facts(1) [OF None] show ?thesis by (auto simp: disk_calls_def only_at_def split: if_splits)
next
  case (Some node)
  with assms show ?thesis by (cases node) (auto simp: disk_calls_def only_at_def)
qed

lemma disk_link_at:
  assumes "sys_hardLink disk_calls f t d = (r, d')"
  shows "only_at disk_content disk_islink {t} d d' \<and>
    (case r of Inr _ \<Rightarrow> disk_content d' t = disk_content d f \<and> disk_islink d' t = disk_islink d f \<and> disk_content d t = None \<and> \<not> disk_islink d t
     | Inl _ \<Rightarrow> only_at disk_content disk_islink {} d d')"
proof (cases "node_of d f")
  case None
  with assms show ?thesis by (auto simp: disk_calls_def only_at_def)
next
  case (Some node)
  with assms node_facts [of d f] node_facts(1) [of d t] show ?thesis
    by (cases node) (auto simp: disk_calls_def only_at_def split: if_splits)
qed

lemma disk_below: "disk_status p d = Inr None \<Longrightarrow> take (length p + 1) q = p @ [slash] \<Longrightarrow> \<not> disk_islink d q"
  using disk_status_at(2) [of p d] no_node_below [of d p q] node_facts(1) [of d q] by blast

lemma disk_size_at:
  assumes "sys_fileSize disk_calls p d = Inr n" and "\<not> disk_islink d p"
  shows "\<exists>c. disk_content d p = Some c \<and> n = of_nat (length c) \<and> length c < 2 ^ 64"
proof -
  obtain c where c: "disk_content d p = Some c" "n = of_nat (length c)" "int (length c) < 2 ^ 64"
    using assms by (auto simp: disk_calls_def opened_path_self split: option.splits if_splits)
  from c(3) have "length c < 2 ^ 64" by simp
  with c show ?thesis by blast
qed

lemma disk_read_at:
  assumes "sys_read disk_calls p offset count d = Some t" and "\<not> disk_islink d p" and "disk_content d p = Some c"
  shows "t = take count (drop offset c) \<and> length t = count"
  using assms by (auto simp: disk_calls_def opened_path_self split: if_splits)

lemma disk_resize_at:
  assumes "sys_resize disk_calls p n d = (r, d')" and "\<not> disk_islink d p"
  shows "only_at disk_content disk_islink {p} d d' \<and> \<not> disk_islink d' p \<and> (r = Inr () \<longrightarrow> (\<forall>c. disk_content d' p = Some c \<longrightarrow> length c = unat n))"
  using assms by (auto simp: disk_calls_def opened_path_self only_at_def Let_def split: option.splits)

lemma disk_symlink_at:
  assumes "sys_createSymlink disk_calls b target p d = (r, d')"
  shows "only_at disk_content disk_islink {p} d d' \<and> (r = Inr () \<longrightarrow> disk_islink d' p \<and> disk_content d' p = None)"
  using assms by (auto simp: disk_calls_def only_at_def split: if_splits)

lemma disk_remove_at:
  assumes "sys_remove disk_calls p d = (r, d')"
  shows "only_at disk_content disk_islink {p} d d' \<and>
    (case r of Inr _ \<Rightarrow> disk_content d' p = None \<and> \<not> disk_islink d' p | Inl _ \<Rightarrow> only_at disk_content disk_islink {} d d')"
  using assms by (auto simp: disk_calls_def only_at_def split: if_splits)

lemma disk_rename_free_at:
  assumes "sys_renameNoReplace disk_calls f t d = (r, d')"
  shows "only_at disk_content disk_islink {f, t} d d' \<and> (case r of
      Inr _ \<Rightarrow> disk_content d' t = disk_content d f \<and> disk_islink d' t = disk_islink d f \<and> disk_content d t = None \<and> \<not> disk_islink d t
    | Inl _ \<Rightarrow> only_at disk_content disk_islink {} d d')"
proof (cases "node_of d t \<noteq> None \<or> holds_below d t")
  case True
  with assms have "r = Inl ErrFileExists" "d' = d" by (auto simp: disk_calls_def)
  then show ?thesis by (simp add: only_at_def)
next
  case False
  with assms have "disk_rename f t d = (r, d')" by (simp add: disk_calls_def)
  from disk_rename_at [OF this] node_facts(1) [of d t] False show ?thesis by (cases r) simp_all
qed

interpretation file_disk: local_files disk_calls disk_content disk_islink
  apply unfold_locales
  subgoal by (rule disk_status_at(1)) (simp add: disk_calls_def)
  subgoal using disk_status_at(2) by (simp add: disk_calls_def)
  subgoal by (rule disk_below) (simp_all add: disk_calls_def)
  subgoal by (rule disk_size_at)
  subgoal by (rule disk_read_at)
  subgoal using disk_create_at by blast
  subgoal by (simp add: disk_calls_def only_at_def)
  subgoal by (simp add: disk_calls_def only_at_def)
  subgoal by (simp add: disk_calls_def only_at_def)
  subgoal by (simp add: disk_calls_def only_at_def)
  subgoal by (rule disk_resize_at)
  subgoal by (rule disk_open_at) (simp_all add: disk_calls_def)
  subgoal by (rule disk_write_at) (simp_all add: disk_calls_def)
  subgoal by (rule disk_symlink_at)
  subgoal by (rule disk_remove_at)
  subgoal by (rule disk_rename_at) (simp add: disk_calls_def)
  subgoal by (rule disk_rename_free_at)
  subgoal by (rule disk_link_at)
  done

end
