(* ===== verification/Download_Operation.thy ===== *)
theory Download_Operation
  imports Local_Files
begin

text \<open>
  The download of one file or link: \<open>backend/sftp/download_operation.cpp\<close> with \<open>resume_check.cpp\<close>. A run is the operation,
  the server and the disk. The answers of the session and of the open stream are functions on the state of the server,
  the calls of the disk those of \<open>Local_Files\<close>; every one may fail at any time. The task of a large file reads on its own
  and hands pieces to \<open>commitBufferToFile\<close>, which is a step of the run. Progress callbacks and logging are left out.
\<close>

subsection \<open>The server\<close>

record DeepLinkResult =
  deep_linkContent :: string
  deep_linkTarget :: RemotePath
  deep_targetInfo :: "DirectoryEntry option"

datatype AsyncState = TransferRuns | TransferCompleted | TransferStopped "SftpFailure option"

text \<open>
  \<open>stream_alive\<close> is whether the weak pointer to the stream can be locked. \<open>stream_read n\<close> reads at most \<open>n\<close> bytes.
  \<open>lease_buffer\<close> gives the size of the leased buffer, 0 for none.
\<close>

record 'srv StreamAnswers = "'srv SftpAnswers" +
  readLinkDeepInStrand :: "RemotePath \<Rightarrow> 'srv \<Rightarrow> (SftpFailure + DeepLinkResult) \<times> 'srv"
  openFileInStrand :: "RemotePath \<Rightarrow> 'srv \<Rightarrow> (SftpFailure + unit) \<times> 'srv"
  stream_alive :: "'srv \<Rightarrow> bool"
  stream_stat :: "'srv \<Rightarrow> (SftpFailure + DirectoryEntry) \<times> 'srv"
  stream_seek :: "u64 \<Rightarrow> 'srv \<Rightarrow> (SftpFailure + unit) \<times> 'srv"
  stream_read :: "nat \<Rightarrow> 'srv \<Rightarrow> (SftpFailure + string) \<times> 'srv"
  stream_close :: "'srv \<Rightarrow> 'srv"
  readLengthLimit :: "'srv \<Rightarrow> nat"
  lease_buffer :: "u64 \<Rightarrow> nat \<Rightarrow> 'srv \<Rightarrow> nat \<times> 'srv"
  readAsyncInStrand :: "u64 \<Rightarrow> nat \<Rightarrow> 'srv \<Rightarrow> (SftpFailure + unit) \<times> 'srv"
  async_state :: "'srv \<Rightarrow> AsyncState"
  async_cancel :: "'srv \<Rightarrow> 'srv"
  async_pause :: "bool \<Rightarrow> 'srv \<Rightarrow> 'srv"

subsection \<open>The operation\<close>

datatype SymlinkHandling = AsSymlink | FollowSymlink | SkipSymlink

text \<open>\<open>opt_unsafeFastMode\<close> is what the function of the option answers, false when it is not set.\<close>

record DownloadOptions =
  opt_remotePath :: RemotePath
  opt_localPath :: LocalPath
  opt_tempFileSuffix :: string
  opt_mayOverwrite :: bool
  opt_reserveSpace :: bool
  opt_tryContinue :: bool
  opt_inheritPermissions :: bool
  opt_doCleanup :: bool
  opt_bigFileOptimized :: bool
  opt_filePermissions :: "u32 option"
  opt_symlinkHandling :: SymlinkHandling
  opt_entry :: "DirectoryEntry option"
  opt_createMissingDirectories :: bool
  opt_markAsDownloaded :: bool
  opt_linkFreeRoot :: LocalPath
  opt_verifiedDirectories :: "string list option"
  opt_comparedDestination :: "ComparedState option"
  opt_unsafeFastMode :: bool

text \<open>An open output stream: its file and the position the next write goes to, none for one that appends.\<close>

record OpenFile =
  open_path :: string
  open_position :: "nat option"

record DownloadOperation =
  dl_state :: OperationState
  dl_error :: "OperationError option"
  dl_options :: DownloadOptions
  localNativePath :: string
  tempNativePath :: string
  fileStream :: bool
  localFile :: "OpenFile option"
  dl_buffer :: nat
  asyncTransfer :: bool
  resumeOffset :: u64
  bytesInFile :: u64
  transferComplete :: bool
  unsafeFast :: bool
  openedDestination :: bool

definition effectiveTempFileSuffix :: "string option \<Rightarrow> string" where
  "effectiveTempFileSuffix configured =
     (case configured of
        None \<Rightarrow> ''.filepart''
      | Some given \<Rightarrow> if given = [] \<or> slash \<in> set given \<or> CHR 0x5C \<in> set given then ''.filepart'' else given)"

definition DownloadOperation_new :: "DownloadOptions \<Rightarrow> DownloadOperation" where
  "DownloadOperation_new options =
     (let ending = effectiveTempFileSuffix (Some (opt_tempFileSuffix options));
          native = local_value (opt_localPath options) in
      \<lparr>dl_state = NotStarted, dl_error = None, dl_options = options\<lparr>opt_tempFileSuffix := ending\<rparr>, localNativePath = native,
       tempNativePath = (if local_empty (opt_localPath options) then [] else native @ ending), fileStream = False,
       localFile = None, dl_buffer = 0, asyncTransfer = False, resumeOffset = 0, bytesInFile = 0, transferComplete = False,
       unsafeFast = False, openedDestination = False\<rparr>)"

definition dl_entry :: "DownloadOperation \<Rightarrow> DirectoryEntry" where
  "dl_entry operation = (case opt_entry (dl_options operation) of Some entry \<Rightarrow> entry | None \<Rightarrow> root_entry)"

definition keepsLink :: "DownloadOperation \<Rightarrow> bool" where
  "keepsLink operation \<longleftrightarrow> entry_type (dl_entry operation) = Symlink \<and> opt_symlinkHandling (dl_options operation) \<noteq> FollowSymlink"

definition writtenNativePath :: "DownloadOperation \<Rightarrow> string" where
  "writtenNativePath operation = (if unsafeFast operation then localNativePath operation else tempNativePath operation)"

subsection \<open>Steps of a run\<close>

record ('srv, 'disk) DownloadRun =
  run_download :: DownloadOperation
  run_server :: 'srv
  run_disk :: 'disk

type_synonym ('srv, 'disk, 'a) DownloadStep = "('srv, 'disk) DownloadRun \<Rightarrow> (OperationError + 'a) \<times> ('srv, 'disk) DownloadRun"

definition change :: "(DownloadOperation \<Rightarrow> DownloadOperation) \<Rightarrow> ('srv, 'disk) DownloadRun \<Rightarrow> ('srv, 'disk) DownloadRun" where
  "change f s = s\<lparr>run_download := f (run_download s)\<rparr>"

text \<open>The operations that return \<open>std::expected\<close> one after the other; a call of the server or the disk with its error.\<close>

definition chain :: "('srv, 'disk, 'a) DownloadStep \<Rightarrow> ('a \<Rightarrow> ('srv, 'disk, 'b) DownloadStep) \<Rightarrow> ('srv, 'disk, 'b) DownloadStep" where
  "chain first later s = (case first s of (Inl e, s) \<Rightarrow> (Inl e, s) | (Inr a, s) \<Rightarrow> later a s)"

definition on_server :: "('e \<Rightarrow> OperationError) \<Rightarrow> ('srv \<Rightarrow> ('e + 'a) \<times> 'srv) \<Rightarrow> ('srv, 'disk, 'a) DownloadStep" where
  "on_server failure call s = (case call (run_server s) of (r, srv) \<Rightarrow> (map_sum failure id r, s\<lparr>run_server := srv\<rparr>))"

definition on_disk :: "('e \<Rightarrow> OperationError) \<Rightarrow> ('disk \<Rightarrow> ('e + 'a) \<times> 'disk) \<Rightarrow> ('srv, 'disk, 'a) DownloadStep" where
  "on_disk failure call s = (case call (run_disk s) of (r, d) \<Rightarrow> (map_sum failure id r, s\<lparr>run_disk := d\<rparr>))"

definition sftpFailed :: "SftpFailure \<Rightarrow> OperationError" where
  "sftpFailed e = (plain_error SftpError)\<lparr>error_sftp := Some e\<rparr>"

definition lock_stream :: "'srv StreamAnswers \<Rightarrow> ('srv, 'disk, unit) DownloadStep" where
  "lock_stream answers s =
     (if fileStream (run_download s) \<and> stream_alive answers (run_server s) then (Inr (), s)
      else (Inl (plain_error FileStreamExpired), s))"

text \<open>What a call may leave behind is removed; a failed removal is only logged.\<close>

definition cleanup :: "'srv StreamAnswers \<Rightarrow> 'disk LocalCalls \<Rightarrow> ('srv, 'disk) DownloadRun \<Rightarrow> ('srv, 'disk) DownloadRun" where
  "cleanup answers calls s =
     (let s = (if asyncTransfer (run_download s) then s\<lparr>run_server := async_cancel answers (run_server s)\<rparr> else s);
          s = (if fileStream (run_download s) \<and> stream_alive answers (run_server s)
               then s\<lparr>run_server := stream_close answers (run_server s)\<rparr> else s);
          s = change (\<lambda>operation. operation\<lparr>localFile := None\<rparr>) s;
          s = (if opt_doCleanup (dl_options (run_download s)) \<and> tempNativePath (run_download s) \<noteq> []
               then s\<lparr>run_disk := snd (sys_remove calls (tempNativePath (run_download s)) (run_disk s))\<rparr> else s) in
      if openedDestination (run_download s)
      then (change (\<lambda>operation. operation\<lparr>openedDestination := False\<rparr>) s)
             \<lparr>run_disk := snd (sys_remove calls (localNativePath (run_download s)) (run_disk s))\<rparr>
      else s)"

definition dl_cancel :: "'srv StreamAnswers \<Rightarrow> 'disk LocalCalls \<Rightarrow> bool \<Rightarrow> ('srv, 'disk) DownloadRun \<Rightarrow> ('srv, 'disk) DownloadRun" where
  "dl_cancel answers calls adoptCancelState s =
     cleanup answers calls (if adoptCancelState then change (\<lambda>operation. operation\<lparr>dl_state := Canceled\<rparr>) s else s)"

definition enterErrorState :: "'srv StreamAnswers \<Rightarrow> 'disk LocalCalls \<Rightarrow> OperationError \<Rightarrow> ('srv, 'disk, 'a) DownloadStep" where
  "enterErrorState answers calls error s =
     (Inl error, dl_cancel answers calls False (change (\<lambda>operation. operation\<lparr>dl_state := Failed, dl_error := Some error\<rparr>) s))"

subsection \<open>The local file\<close>

definition nativeParent :: "string \<Rightarrow> string" where
  "nativeParent path = (case rfind_char slash path of None \<Rightarrow> [] | Some i \<Rightarrow> if i = 0 then [slash] else take i path)"

definition refuseLinkedPath :: "'disk LocalCalls \<Rightarrow> string \<Rightarrow> ('srv, 'disk, unit) DownloadStep" where
  "refuseLinkedPath calls path s =
     (let options = dl_options (run_download s);
          inspected = (if \<not> local_empty (opt_linkFreeRoot options)
            then firstLinkBelow calls (local_value (opt_linkFreeRoot options)) path (opt_verifiedDirectories options) (run_disk s)
            else (map_sum id (\<lambda>kind. if kind = LinkKind then Some path else None) (noFollowKindOf calls path (run_disk s)),
                  opt_verifiedDirectories options));
          s = change (\<lambda>operation. operation\<lparr>dl_options := (dl_options operation)\<lparr>opt_verifiedDirectories := snd inspected\<rparr>\<rparr>) s in
      case fst inspected of
        Inl _ \<Rightarrow> (Inl ((plain_error FileStatFailed)\<lparr>error_extraInfo := Some path\<rparr>), s)
      | Inr (Some link) \<Rightarrow>
          (Inl ((plain_error LinkInLocalPath)\<lparr>error_extraInfo := Some (''The local path runs through a link: '' @ link)\<rparr>), s)
      | Inr None \<Rightarrow> (Inr (), s))"

definition createMissingParents :: "'disk LocalCalls \<Rightarrow> string \<Rightarrow> ('srv, 'disk, unit) DownloadStep" where
  "createMissingParents calls path s =
     (if \<not> opt_createMissingDirectories (dl_options (run_download s)) then (Inr (), s)
      else on_disk (\<lambda>_. plain_error CannotCreateDirectory) (sys_createDirectories calls (nativeParent path)) s)"

definition restrictWrittenFile :: "'disk LocalCalls \<Rightarrow> ('srv, 'disk, unit) DownloadStep" where
  "restrictWrittenFile calls s =
     on_disk (\<lambda>_. plain_error OpenFailure) (restrictToOwner calls (writtenNativePath (run_download s))) s"

definition openLocalFile :: "'disk LocalCalls \<Rightarrow> OpenMode \<Rightarrow> string \<Rightarrow> ('srv, 'disk) DownloadRun \<Rightarrow> ('srv, 'disk) DownloadRun" where
  "openLocalFile calls mode path s =
     (case sys_open calls mode path (run_disk s) of
        (opened, d) \<Rightarrow> change (\<lambda>operation. operation\<lparr>localFile := (if opened
            then Some \<lparr>open_path = path, open_position = (if mode = App then None else Some 0)\<rparr> else None)\<rparr>) (s\<lparr>run_disk := d\<rparr>))"

definition emptyLeftover :: "'disk LocalCalls \<Rightarrow> string \<Rightarrow> ('srv, 'disk, bool) DownloadStep" where
  "emptyLeftover calls path s =
     (case sys_exists calls path (run_disk s) of
        Inl _ \<Rightarrow> (Inl (plain_error OpenFailure), s)
      | Inr False \<Rightarrow> (Inr False, s)
      | Inr True \<Rightarrow>
          (case sys_fileSize calls path (run_disk s) of
             Inl _ \<Rightarrow> (Inl (plain_error OpenFailure), s)
           | Inr existingSize \<Rightarrow>
               (if existingSize \<noteq> 0 then chain (on_disk (\<lambda>_. plain_error OpenFailure) (sys_resize calls path 0)) (\<lambda>_ s. (Inr True, s)) s
                else (Inr True, s))))"

definition openEmptyWrittenFile :: "'disk LocalCalls \<Rightarrow> ('srv, 'disk, unit) DownloadStep" where
  "openEmptyWrittenFile calls s =
     (let path = writtenNativePath (run_download s) in
      chain (restrictWrittenFile calls) (\<lambda>_. chain (emptyLeftover calls path)
        (\<lambda>exists s. (Inr (), openLocalFile calls (if exists then InOut else Out) path s))) s)"

text \<open>The last bytes of the partial file against the same bytes of the source.\<close>

function readTail :: "'srv StreamAnswers \<Rightarrow> nat \<Rightarrow> string \<Rightarrow> 'srv \<Rightarrow> (SftpFailure + string option) \<times> 'srv" where
  "readTail answers missing filled srv =
     (if missing = 0 then (Inr (Some filled), srv)
      else case stream_read answers missing srv of
          (Inl e, srv) \<Rightarrow> (Inl e, srv)
        | (Inr read, srv) \<Rightarrow>
            (if read = [] then (Inr None, srv) else readTail answers (missing - length read) (filled @ read) srv))"
  by pat_completeness auto
termination
  by (relation "measure (\<lambda>(_, missing, _, _). missing)") auto

declare readTail.simps [simp del]

abbreviation "comparedBytes \<equiv> 0x10000 :: u64"

definition tailsMatchInStrand :: "'srv StreamAnswers \<Rightarrow> 'disk LocalCalls \<Rightarrow> string \<Rightarrow> u64 \<Rightarrow> ('srv, 'disk, bool) DownloadStep" where
  "tailsMatchInStrand answers calls path existing s =
     (let count = min existing comparedBytes; offset = existing - count in
      case sys_read calls path (unat offset) (unat count) (run_disk s) of
        None \<Rightarrow> (Inr False, s)
      | Some localTail \<Rightarrow>
          chain (on_server sftpFailed (stream_seek answers offset))
            (\<lambda>_. chain (on_server sftpFailed (readTail answers (unat count) []))
              (\<lambda>remoteTail s. (Inr (remoteTail = Some localTail), s))) s)"

text \<open>The branches of \<open>openOrAdoptFileInStrand\<close> for an existing partial file.\<close>

definition belongsToSource :: "'srv StreamAnswers \<Rightarrow> 'disk LocalCalls \<Rightarrow> u64 \<Rightarrow> ('srv, 'disk, bool) DownloadStep" where
  "belongsToSource answers calls existing s =
     (if existing = 0 \<or> existing > entry_size (dl_entry (run_download s)) then (Inr False, s)
      else tailsMatchInStrand answers calls (tempNativePath (run_download s)) existing s)"

definition requireOpen :: "('srv, 'disk, unit) DownloadStep" where
  "requireOpen s = (if localFile (run_download s) = None then (Inl (plain_error OpenFailure), s) else (Inr (), s))"

definition startOver :: "'srv StreamAnswers \<Rightarrow> 'disk LocalCalls \<Rightarrow> ('srv, 'disk, unit) DownloadStep" where
  "startOver answers calls =
     chain (on_server sftpFailed (stream_seek answers 0)) (\<lambda>_. chain (openEmptyWrittenFile calls) (\<lambda>_. requireOpen))"

definition continueAt :: "'srv StreamAnswers \<Rightarrow> 'disk LocalCalls \<Rightarrow> u64 \<Rightarrow> ('srv, 'disk, unit) DownloadStep" where
  "continueAt answers calls existing =
     chain (restrictWrittenFile calls) (\<lambda>_ s.
       let s = openLocalFile calls App (tempNativePath (run_download s)) s in
       chain requireOpen (\<lambda>_ s.
         chain (on_server (\<lambda>_. plain_error FileStatFailed) (stream_seek answers existing)) (\<lambda>_. requireOpen)
           (change (\<lambda>operation. operation\<lparr>resumeOffset := existing, bytesInFile := existing\<rparr>) s)) s)"

definition adoptFile :: "'srv StreamAnswers \<Rightarrow> 'disk LocalCalls \<Rightarrow> u64 \<Rightarrow> bool \<Rightarrow> ('srv, 'disk, unit) DownloadStep" where
  "adoptFile answers calls existing belongs s =
     (if belongs \<and> existing = entry_size (dl_entry (run_download s))
      then (Inr (), change (\<lambda>operation. operation\<lparr>bytesInFile := existing, transferComplete := True\<rparr>) s)
      else if \<not> belongs then startOver answers calls s
      else continueAt answers calls existing s)"

definition openOrAdoptFileInStrand :: "'srv StreamAnswers \<Rightarrow> 'disk LocalCalls \<Rightarrow> ('srv, 'disk, unit) DownloadStep" where
  "openOrAdoptFileInStrand answers calls s =
     (let path = tempNativePath (run_download s) in
      chain (refuseLinkedPath calls path) (\<lambda>_. chain (createMissingParents calls path) (\<lambda>_ s.
        if opt_tryContinue (dl_options (run_download s)) \<and> sys_exists calls path (run_disk s) = Inr True then
          (case sys_fileSize calls path (run_disk s) of
             Inl _ \<Rightarrow> (Inl (plain_error FileStatFailed), s)
           | Inr existing \<Rightarrow> chain (belongsToSource answers calls existing) (adoptFile answers calls existing) s)
        else chain (openEmptyWrittenFile calls) (\<lambda>_. requireOpen) s)) s)"

definition openDestination :: "'disk LocalCalls \<Rightarrow> ('srv, 'disk, unit) DownloadStep" where
  "openDestination calls s =
     (let path = localNativePath (run_download s) in
      chain (refuseLinkedPath calls path) (\<lambda>_. chain (createMissingParents calls path) (\<lambda>_. chain (openEmptyWrittenFile calls)
        (\<lambda>_ s. requireOpen (change (\<lambda>operation. operation\<lparr>openedDestination := True\<rparr>) s)))) s)"

definition leaseBufferInStrand :: "'srv StreamAnswers \<Rightarrow> ('srv, 'disk, unit) DownloadStep" where
  "leaseBufferInStrand answers s =
     (case lease_buffer answers (entry_size (dl_entry (run_download s))) (readLengthLimit answers (run_server s)) (run_server s) of
        (leased, srv) \<Rightarrow>
          (let s = change (\<lambda>operation. operation\<lparr>dl_buffer := leased\<rparr>) (s\<lparr>run_server := srv\<rparr>) in
           if leased = 0 then (Inl ((plain_error SftpError)\<lparr>error_sftp := Some \<lparr>sftp_message = ''No buffer available from pool'',
               sftp_sshError = 0, sftp_sftpError = 0, sftp_wrapperError = BufferUnavailable\<rparr>\<rparr>), s)
           else (Inr (), s)))"

text \<open>\<open>localFile.write\<close>: a stream that is not open fails, the position moves on with what was written.\<close>

definition writeLocal :: "'disk LocalCalls \<Rightarrow> string \<Rightarrow> ('srv, 'disk) DownloadRun \<Rightarrow> bool \<times> ('srv, 'disk) DownloadRun" where
  "writeLocal calls data s =
     (case localFile (run_download s) of
        None \<Rightarrow> (False, s)
      | Some opened \<Rightarrow>
          (case sys_write calls (open_path opened) (open_position opened) data (run_disk s) of
             (good, d) \<Rightarrow> (good, change (\<lambda>operation. operation\<lparr>localFile := Some (opened
                \<lparr>open_position := map_option (\<lambda>n. n + length data) (open_position opened)\<rparr>)\<rparr>) (s\<lparr>run_disk := d\<rparr>))))"

text \<open>The space is reserved by a zero at the last place of the file.\<close>

definition reserveLocal :: "'disk LocalCalls \<Rightarrow> ('srv, 'disk, unit) DownloadStep" where
  "reserveLocal calls s =
     (let operation = run_download s; listed = entry_size (dl_entry operation) in
      if opt_reserveSpace (dl_options operation) \<and> listed \<noteq> 0 \<and> resumeOffset operation = 0 \<and> \<not> transferComplete operation then
        (case localFile operation of
           None \<Rightarrow> (Inl (plain_error OpenFailure), s)
         | Some opened \<Rightarrow>
             (case sys_write calls (open_path opened) (map_option (\<lambda>_. unat (listed - 1)) (open_position opened)) [CHR 0x00] (run_disk s) of
                (good, d) \<Rightarrow> (if good then Inr () else Inl (plain_error OpenFailure), s\<lparr>run_disk := d\<rparr>)))
      else (Inr (), s))"

definition unsafeFastSizeLimit :: u64 where
  "unsafeFastSizeLimit = 0x100000"

definition transfersUnsafeFast :: "bool \<Rightarrow> u64 \<Rightarrow> bool" where
  "transfersUnsafeFast mode bytes \<longleftrightarrow> bytes < unsafeFastSizeLimit \<and> mode"

definition setEntry :: "DirectoryEntry \<Rightarrow> DownloadOperation \<Rightarrow> DownloadOperation" where
  "setEntry entry operation = operation\<lparr>dl_options := (dl_options operation)\<lparr>opt_entry := Some entry\<rparr>\<rparr>"

definition statEntry :: "'srv StreamAnswers \<Rightarrow> ('srv, 'disk, unit) DownloadStep" where
  "statEntry answers s =
     (if opt_entry (dl_options (run_download s)) \<noteq> None then (Inr (), s)
      else chain (on_server (\<lambda>e. (plain_error FileStatFailed)\<lparr>error_sftp := Some e\<rparr>)
             (lstatInStrand answers (opt_remotePath (dl_options (run_download s)))))
           (\<lambda>entry s. (Inr (), change (setEntry entry) s)) s)"

text \<open>A followed link takes the type, size, times and permissions of its target.\<close>

definition followTarget :: "'srv StreamAnswers \<Rightarrow> ('srv, 'disk, unit) DownloadStep" where
  "followTarget answers s =
     (if entry_type (dl_entry (run_download s)) \<noteq> Symlink then (Inr (), s)
      else chain (on_server (\<lambda>e. (plain_error FileStatFailed)\<lparr>error_sftp := Some e\<rparr>) (stream_stat answers))
           (\<lambda>target s. if entry_type target \<noteq> Regular then (Inl (plain_error NotAFile), s)
              else (Inr (), change (\<lambda>operation. setEntry ((dl_entry operation)\<lparr>entry_type := entry_type target, entry_size := entry_size target,
                 entry_mtime := entry_mtime target, entry_mtimeNsec := entry_mtimeNsec target,
                 entry_permissions := entry_permissions target\<rparr>) operation) s)) s)"

definition openTransfer :: "'srv StreamAnswers \<Rightarrow> 'disk LocalCalls \<Rightarrow> ('srv, 'disk, unit) DownloadStep" where
  "openTransfer answers calls s =
     (let s = change (\<lambda>operation. operation\<lparr>unsafeFast :=
            transfersUnsafeFast (opt_unsafeFastMode (dl_options operation)) (entry_size (dl_entry operation))\<rparr>) s in
      if unsafeFast (run_download s) then chain (leaseBufferInStrand answers) (\<lambda>_. openDestination calls) s
      else chain (openOrAdoptFileInStrand answers calls) (\<lambda>_. leaseBufferInStrand answers) s)"

definition openStream :: "'srv StreamAnswers \<Rightarrow> ('srv, 'disk, unit) DownloadStep" where
  "openStream answers s =
     chain (on_server (\<lambda>e. (sftpFailed e)\<lparr>error_extraInfo :=
            Some (''Opening remote file: '' @ remote_value (opt_remotePath (dl_options (run_download s))))\<rparr>)
          (openFileInStrand answers (opt_remotePath (dl_options (run_download s)))))
       (\<lambda>_ s. lock_stream answers (change (\<lambda>operation. operation\<lparr>fileStream := True\<rparr>) s)) s"

definition prepareInStrand :: "'srv StreamAnswers \<Rightarrow> 'disk LocalCalls \<Rightarrow> ('srv, 'disk, unit) DownloadStep" where
  "prepareInStrand answers calls s =
     (let remotePath = opt_remotePath (dl_options (run_download s)) in
      if remote_empty remotePath \<or> remote_isRoot remotePath
      then (Inl ((plain_error InvalidPath)\<lparr>error_extraInfo := Some (remote_value remotePath)\<rparr>), s)
      else chain (statEntry answers) (\<lambda>_ s.
        if keepsLink (run_download s) then (Inr (), s)
        else chain (openStream answers) (\<lambda>_. chain (followTarget answers) (\<lambda>_. chain (openTransfer answers calls)
               (\<lambda>_. reserveLocal calls))) s) s)"

fun decimal :: "nat \<Rightarrow> string" where
  "decimal n = (if n < 10 then [char_of (48 + n)] else decimal (n div 10) @ [char_of (48 + n mod 10)])"

declare decimal.simps [simp del]

definition sizeMismatch :: "DownloadOperation \<Rightarrow> OperationError" where
  "sizeMismatch operation = (plain_error SizeMismatch)\<lparr>error_extraInfo := Some
     (''Received '' @ decimal (unat (bytesInFile operation)) @ '' of '' @ decimal (unat (entry_size (dl_entry operation))) @ '' bytes for '' @
      remote_value (opt_remotePath (dl_options operation)))\<rparr>"

text \<open>True while there is more to read.\<close>

definition readOnceInStrand :: "'srv StreamAnswers \<Rightarrow> 'disk LocalCalls \<Rightarrow> ('srv, 'disk, bool) DownloadStep" where
  "readOnceInStrand answers calls s =
     (let operation = run_download s; fileSize = entry_size (dl_entry operation) in
      if state_rank (dl_state operation) < state_rank Prepared then enterErrorState answers calls (plain_error OperationNotPrepared) s
      else if localFile operation = None then enterErrorState answers calls (plain_error OpenFailure) s
      else if fileSize = 0 then (Inr False, s)
      else if \<not> (fileStream operation \<and> stream_alive answers (run_server s))
      then enterErrorState answers calls (plain_error FileStreamExpired) s
      else case on_server sftpFailed (stream_read answers (dl_buffer operation)) s of
          (Inl e, s) \<Rightarrow> enterErrorState answers calls e s
        | (Inr data, s) \<Rightarrow>
            (if data = [] then (if bytesInFile operation \<ge> fileSize then (Inr False, s)
               else enterErrorState answers calls (sizeMismatch operation) s)
             else case writeLocal calls data s of
                 (good, s) \<Rightarrow>
                   (let s = change (\<lambda>operation. operation\<lparr>bytesInFile := bytesInFile operation + of_nat (length data)\<rparr>) s in
                    if \<not> good then (Inr False, snd (enterErrorState answers calls (plain_error TargetFileNotGood) s :: (_ + unit) \<times> _))
                    else (Inr (bytesInFile (run_download s) < fileSize), s))))"

definition commitBufferToFile :: "'srv StreamAnswers \<Rightarrow> 'disk LocalCalls \<Rightarrow> string \<Rightarrow> ('srv, 'disk) DownloadRun \<Rightarrow> bool \<times> ('srv, 'disk) DownloadRun" where
  "commitBufferToFile answers calls data s =
     (case writeLocal calls data s of
        (good, s) \<Rightarrow>
          (let s = change (\<lambda>operation. operation\<lparr>bytesInFile := bytesInFile operation + of_nat (length data)\<rparr>) s in
           if \<not> good then (False, snd (enterErrorState answers calls (plain_error TargetFileNotGood) s :: (_ + unit) \<times> _))
           else (True, s)))"

subsection \<open>Finishing\<close>

definition finalPermissionsInStrand :: "'srv StreamAnswers \<Rightarrow> 'disk LocalCalls \<Rightarrow> ('srv, 'disk, u32) DownloadStep" where
  "finalPermissionsInStrand answers calls s =
     (let operation = run_download s; options = dl_options operation; fresh = newFilePermissions (sys_umask calls);
          orFresh = (\<lambda>permissions. case permissions of Some p \<Rightarrow> p | None \<Rightarrow> fresh) in
      if \<not> opt_inheritPermissions options
      then (Inr (orFresh (Option.bind (opt_filePermissions options) sanitizePermissions)), s)
      else if unsafeFast operation \<and> entry_permissions (dl_entry operation) \<noteq> perms_unknown
      then (Inr (orFresh (inheritablePermissions (sys_umask calls) (entry_permissions (dl_entry operation)))), s)
      else chain (lock_stream answers) (\<lambda>_. chain
             (on_server (\<lambda>e. (plain_error FileStatFailed)\<lparr>error_sftp := Some e\<rparr>) (stream_stat answers))
             (\<lambda>info s. (Inr (orFresh (inheritablePermissions (sys_umask calls) (entry_permissions info))), s))) s)"

text \<open>Only a build for Windows or macOS marks a file as downloaded.\<close>

definition finishWritten :: "'srv StreamAnswers \<Rightarrow> 'disk LocalCalls \<Rightarrow> ('srv, 'disk, unit) DownloadStep" where
  "finishWritten answers calls s =
     (let path = writtenNativePath (run_download s); entry = dl_entry (run_download s);
          s = s\<lparr>run_disk := snd (sys_setModified calls path (entry_mtime entry) (entry_mtimeNsec entry) (run_disk s))\<rparr> in
      chain (finalPermissionsInStrand answers calls) (\<lambda>permissions.
        chain (on_disk (\<lambda>_. plain_error CannotSetFilePermissions) (sys_permissions calls path permissions)) (\<lambda>_ s.
          if unsafeFast (run_download s) then (Inr (), change (\<lambda>operation. operation\<lparr>openedDestination := False\<rparr>) s)
          else on_disk id (moveLocalIntoPlace calls path (localNativePath (run_download s))
                 (opt_mayOverwrite (dl_options (run_download s))) (opt_comparedDestination (dl_options (run_download s)))) s)) s)"

definition finalizeInStrand :: "'srv StreamAnswers \<Rightarrow> 'disk LocalCalls \<Rightarrow> ('srv, 'disk, unit) DownloadStep" where
  "finalizeInStrand answers calls s =
     (if dl_state (run_download s) = Running then (Inl (plain_error CannotFinalizeDuringRead), s)
      else let s = change (\<lambda>operation. operation\<lparr>localFile := None\<rparr>) s; operation = run_download s;
               listed = entry_size (dl_entry operation) in
        if sys_fileSize calls (writtenNativePath operation) (run_disk s) \<noteq> Inr listed \<or> bytesInFile operation \<noteq> listed
        then (Inl (sizeMismatch operation), s)
        else finishWritten answers calls s)"

subsection \<open>Links\<close>

definition readSymlinkInStrand :: "'srv StreamAnswers \<Rightarrow> ('srv, 'disk, DeepLinkResult) DownloadStep" where
  "readSymlinkInStrand answers s =
     (let path = opt_remotePath (dl_options (run_download s)) in
      on_server (\<lambda>e. (sftpFailed e)\<lparr>error_extraInfo := Some (''Reading symlink target for entry: '' @ remote_value path)\<rparr>)
        (readLinkDeepInStrand answers path) s)"

definition createLink :: "'disk LocalCalls \<Rightarrow> DeepLinkResult \<Rightarrow> ('srv, 'disk, unit) DownloadStep" where
  "createLink calls found s =
     (let operation = run_download s; temp = tempNativePath operation; options = dl_options operation in
      if \<not> isValidUtf8 (deep_linkContent found)
      then (Inl ((plain_error OperationErrorType.InvalidName)\<lparr>error_extraInfo := Some (sanitizedUtf8 (deep_linkContent found))\<rparr>), s)
      else let s = s\<lparr>run_disk := snd (sys_remove calls temp (run_disk s))\<rparr>;
               directory = (case deep_targetInfo found of Some info \<Rightarrow> entry_type info = Directory | None \<Rightarrow> False) in
        chain (on_disk (\<lambda>_. plain_error CannotCreateSymlink) (sys_createSymlink calls directory (deep_linkContent found) temp)) (\<lambda>_ s.
          case on_disk id (moveLocalIntoPlace calls temp (localNativePath operation) (opt_mayOverwrite options)
                 (opt_comparedDestination options)) s of
            (Inl e, s) \<Rightarrow> (Inl e, s\<lparr>run_disk := snd (sys_remove calls temp (run_disk s))\<rparr>)
          | (Inr _, s) \<Rightarrow> (Inr (), s)) s)"

definition handleSymlinkInStrand :: "'srv StreamAnswers \<Rightarrow> 'disk LocalCalls \<Rightarrow> ('srv, 'disk, unit) DownloadStep" where
  "handleSymlinkInStrand answers calls s =
     (if opt_symlinkHandling (dl_options (run_download s)) = SkipSymlink then (Inr (), s)
      else chain (readSymlinkInStrand answers) (\<lambda>found.
        chain (\<lambda>s. if \<not> local_empty (opt_linkFreeRoot (dl_options (run_download s)))
                  then refuseLinkedPath calls (nativeParent (localNativePath (run_download s))) s else (Inr (), s))
          (\<lambda>_. chain (\<lambda>s. createMissingParents calls (localNativePath (run_download s)) s) (\<lambda>_. createLink calls found))) s)"

subsection \<open>The state machine\<close>

text \<open>Each case of the switch, with the case it falls through to. An error entered twice is entered twice in the code.\<close>

definition work_finalizing :: "'srv StreamAnswers \<Rightarrow> 'disk LocalCalls \<Rightarrow> ('srv, 'disk, WorkStatus) DownloadStep" where
  "work_finalizing answers calls s =
     (case finalizeInStrand answers calls s of
        (Inl e, s) \<Rightarrow> enterErrorState answers calls e s
      | (Inr _, s) \<Rightarrow> (Inr Complete, change (\<lambda>operation. operation\<lparr>dl_state := Completed\<rparr>) s))"

definition asyncTransferError :: "SftpFailure option \<Rightarrow> OperationError" where
  "asyncTransferError failure =
     (case failure of
        Some e \<Rightarrow> sftpFailed e
      | None \<Rightarrow> (plain_error SftpError)\<lparr>error_extraInfo := Some ''The transfer ended before it completed''\<rparr>)"

definition work_running :: "'srv StreamAnswers \<Rightarrow> 'disk LocalCalls \<Rightarrow> ('srv, 'disk, WorkStatus) DownloadStep" where
  "work_running answers calls s =
     (if \<not> opt_bigFileOptimized (dl_options (run_download s)) then
        (case readOnceInStrand answers calls s of
           (Inl e, s) \<Rightarrow> enterErrorState answers calls e s
         | (Inr goesOn, s) \<Rightarrow>
             (if goesOn then (Inr MoreWork, s)
              else work_finalizing answers calls (change (\<lambda>operation. operation\<lparr>dl_state := Finalizing\<rparr>) s)))
      else case async_state answers (run_server s) of
          TransferRuns \<Rightarrow> (Inr Waiting, s)
        | TransferCompleted \<Rightarrow> work_finalizing answers calls (change (\<lambda>operation. operation\<lparr>dl_state := Finalizing\<rparr>) s)
        | TransferStopped failure \<Rightarrow> enterErrorState answers calls (asyncTransferError failure) s)"

definition startAsync :: "'srv StreamAnswers \<Rightarrow> ('srv, 'disk, unit) DownloadStep" where
  "startAsync answers =
     chain (lock_stream answers) (\<lambda>_ s.
       chain (on_server sftpFailed (readAsyncInStrand answers
           (entry_size (dl_entry (run_download s)) - resumeOffset (run_download s)) (dl_buffer (run_download s))))
         (\<lambda>_ s. (Inr (), change (\<lambda>operation. operation\<lparr>asyncTransfer := True\<rparr>) s)) s)"

definition work_prepared :: "'srv StreamAnswers \<Rightarrow> 'disk LocalCalls \<Rightarrow> ('srv, 'disk, WorkStatus) DownloadStep" where
  "work_prepared answers calls s =
     (let s = change (\<lambda>operation. operation\<lparr>dl_state := Running\<rparr>) s in
      if keepsLink (run_download s) then
        (case handleSymlinkInStrand answers calls s of
           (Inl e, s) \<Rightarrow> enterErrorState answers calls e s
         | (Inr _, s) \<Rightarrow> (Inr Complete, change (\<lambda>operation. operation\<lparr>dl_state := Completed\<rparr>) s))
      else if transferComplete (run_download s)
      then (Inr MoreWork, change (\<lambda>operation. operation\<lparr>dl_state := Finalizing\<rparr>) s)
      else if opt_bigFileOptimized (dl_options (run_download s)) then
        (case startAsync answers s of
           (Inl e, s) \<Rightarrow> enterErrorState answers calls e s
         | (Inr _, s) \<Rightarrow> work_running answers calls s)
      else work_running answers calls s)"

definition work_preparing :: "'srv StreamAnswers \<Rightarrow> 'disk LocalCalls \<Rightarrow> ('srv, 'disk, WorkStatus) DownloadStep" where
  "work_preparing answers calls s =
     (if local_empty (opt_localPath (dl_options (run_download s))) then enterErrorState answers calls (plain_error InvalidPath) s
      else if sys_exists calls (localNativePath (run_download s)) (run_disk s) = Inr True \<and> \<not> opt_mayOverwrite (dl_options (run_download s))
      then enterErrorState answers calls (plain_error FileExists) s
      else case prepareInStrand answers calls s of
          (Inl e, s) \<Rightarrow> enterErrorState answers calls e s
        | (Inr _, s) \<Rightarrow> work_prepared answers calls (change (\<lambda>operation. operation\<lparr>dl_state := Prepared\<rparr>) s))"

definition workInStrand :: "'srv StreamAnswers \<Rightarrow> 'disk LocalCalls \<Rightarrow> ('srv, 'disk, WorkStatus) DownloadStep" where
  "workInStrand answers calls s =
     (if \<not> session_open answers (run_server s) \<and> \<not> hasEnded (dl_state (run_download s))
      then enterErrorState answers calls channelClosedError s
      else case dl_state (run_download s) of
          NotStarted \<Rightarrow> work_preparing answers calls (change (\<lambda>operation. operation\<lparr>dl_state := Preparing\<rparr>) s)
        | Preparing \<Rightarrow> work_preparing answers calls s
        | Prepared \<Rightarrow> work_prepared answers calls s
        | Running \<Rightarrow> work_running answers calls s
        | Finalizing \<Rightarrow> work_finalizing answers calls s
        | Completed \<Rightarrow> (Inl (plain_error CannotWorkCompletedOperation), s)
        | Failed \<Rightarrow> (Inl (plain_error CannotWorkFailedOperation), s)
        | Canceled \<Rightarrow> (Inl (plain_error CannotWorkCanceledOperation), s)
        | PartialSuccess \<Rightarrow> (Inl (plain_error CannotWorkCompletedOperation), s))"

text \<open>\<open>work\<close> waits for the step on the strand; when the wait ends too early the step has run nonetheless.\<close>

definition dl_work :: "'srv StreamAnswers \<Rightarrow> 'disk LocalCalls \<Rightarrow> ('srv, 'disk, WorkStatus) DownloadStep" where
  "dl_work answers calls s =
     (if \<not> session_open answers (run_server s) then enterErrorState answers calls channelClosedError s
      else case workInStrand answers calls s of
        (result, s') \<Rightarrow>
          (if in_time answers (run_server s) then (result, s')
           else enterErrorState answers calls (plain_error FutureTimeout) s'))"

definition dl_keepPartialFiles :: "DownloadOperation \<Rightarrow> DownloadOperation" where
  "dl_keepPartialFiles operation = operation\<lparr>dl_options := (dl_options operation)\<lparr>opt_doCleanup := False\<rparr>\<rparr>"

definition dl_keptPartialFiles :: "DownloadOperation \<Rightarrow> KeptPartialFiles option" where
  "dl_keptPartialFiles operation =
     (if opt_doCleanup (dl_options operation) then None
      else if unsafeFast operation \<or> tempNativePath operation = [] then Some \<lparr>kept_local = [], kept_remote = []\<rparr>
      else Some \<lparr>kept_local = [tempNativePath operation], kept_remote = []\<rparr>)"

definition dl_pause :: "'srv StreamAnswers \<Rightarrow> bool \<Rightarrow> ('srv, 'disk) DownloadRun \<Rightarrow> ('srv, 'disk) DownloadRun" where
  "dl_pause answers doPause s =
     (if asyncTransfer (run_download s) then s\<lparr>run_server := async_pause answers doPause (run_server s)\<rparr> else s)"

text \<open>The public \<open>prepare\<close> and \<open>finalize\<close>, for callers outside the strand.\<close>

definition dl_prepare :: "'srv StreamAnswers \<Rightarrow> 'disk LocalCalls \<Rightarrow> ('srv, 'disk, unit) DownloadStep" where
  "dl_prepare answers calls s =
     (if local_empty (opt_localPath (dl_options (run_download s))) then enterErrorState answers calls (plain_error InvalidPath) s
      else if sys_exists calls (localNativePath (run_download s)) (run_disk s) = Inr True \<and> \<not> opt_mayOverwrite (dl_options (run_download s))
      then enterErrorState answers calls (plain_error FileExists) s
      else if \<not> session_open answers (run_server s) then enterErrorState answers calls channelClosedError s
      else case prepareInStrand answers calls s of
        (result, s') \<Rightarrow>
          (if \<not> in_time answers (run_server s)
           then enterErrorState answers calls ((plain_error FutureTimeout)\<lparr>error_extraInfo := Some ''Timeout preparing download''\<rparr>) s'
           else case result of Inl e \<Rightarrow> enterErrorState answers calls e s' | Inr _ \<Rightarrow> (Inr (), s')))"

definition dl_finalize :: "'srv StreamAnswers \<Rightarrow> 'disk LocalCalls \<Rightarrow> ('srv, 'disk, unit) DownloadStep" where
  "dl_finalize answers calls s =
     (if \<not> session_open answers (run_server s) then (Inl channelClosedError, s)
      else case finalizeInStrand answers calls s of
        (result, s') \<Rightarrow> if in_time answers (run_server s) then (result, s') else (Inl (plain_error FutureTimeout), s'))"

text \<open>\<open>readOnce\<close> and \<open>handleSymlink\<close>, for callers outside the strand.\<close>

definition dl_readOnce :: "'srv StreamAnswers \<Rightarrow> 'disk LocalCalls \<Rightarrow> ('srv, 'disk, bool) DownloadStep" where
  "dl_readOnce answers calls s =
     (if \<not> session_open answers (run_server s) then enterErrorState answers calls channelClosedError s
      else case readOnceInStrand answers calls s of
        (result, s') \<Rightarrow> if in_time answers (run_server s) then (result, s')
          else enterErrorState answers calls (plain_error FutureTimeout) s')"

definition dl_handleSymlink :: "'srv StreamAnswers \<Rightarrow> 'disk LocalCalls \<Rightarrow> ('srv, 'disk, unit) DownloadStep" where
  "dl_handleSymlink answers calls s =
     (if \<not> session_open answers (run_server s) then (Inl channelClosedError, s)
      else case handleSymlinkInStrand answers calls s of
        (result, s') \<Rightarrow> if in_time answers (run_server s) then (result, s') else (Inl (plain_error FutureTimeout), s'))"

end
