(* ===== verification/Download_Safety.thy ===== *)
theory Download_Safety
  imports Download_Operation
begin

text \<open>
  What a download leaves on the disk, over all runs of work steps, pieces of the reading task, cancels and pauses, with a
  server and a disk that may fail at any call: the invariant of a run, proved once in the locale \<open>download_world\<close> with the
  laws of the disk and of the stream, and read off for any server and for one that answers from a fixed source.
\<close>

subsection \<open>Steps that may fail\<close>

definition holds :: "(('srv, 'disk) DownloadRun \<Rightarrow> bool) \<Rightarrow> ('srv, 'disk, 'a) DownloadStep \<Rightarrow>
    ('a \<Rightarrow> ('srv, 'disk) DownloadRun \<Rightarrow> bool) \<Rightarrow> (('srv, 'disk) DownloadRun \<Rightarrow> bool) \<Rightarrow> bool" where
  "holds P m Q E \<longleftrightarrow> (\<forall>s. P s \<longrightarrow> (case m s of (Inr a, s') \<Rightarrow> Q a s' | (Inl _, s') \<Rightarrow> E s'))"

lemma holdsI: "(\<And>s r s'. P s \<Longrightarrow> m s = (r, s') \<Longrightarrow> (case r of Inr a \<Rightarrow> Q a s' | Inl _ \<Rightarrow> E s')) \<Longrightarrow> holds P m Q E"
  by (fastforce simp: holds_def split: prod.splits sum.splits)

lemma holdsD: "holds P m Q E \<Longrightarrow> P s \<Longrightarrow> m s = (r, s') \<Longrightarrow> (case r of Inr a \<Rightarrow> Q a s' | Inl _ \<Rightarrow> E s')"
  by (force simp: holds_def split: prod.splits sum.splits)

lemma holds_chain: "holds P m R E \<Longrightarrow> (\<And>a. holds (R a) (k a) Q E) \<Longrightarrow> holds P (chain m k) Q E"
  by (fastforce simp: holds_def chain_def split: prod.splits sum.splits)

lemma holds_weaken: "holds P m Q E \<Longrightarrow> (\<And>s. P' s \<Longrightarrow> P s) \<Longrightarrow> (\<And>a s. Q a s \<Longrightarrow> Q' a s) \<Longrightarrow> holds P' m Q' E"
  by (fastforce simp: holds_def split: prod.splits sum.splits)

lemma holds_on_server:
  assumes "\<And>s r srv. P s \<Longrightarrow> call (run_server s) = (r, srv) \<Longrightarrow>
    (case r of Inr a \<Rightarrow> Q a (s\<lparr>run_server := srv\<rparr>) | Inl _ \<Rightarrow> E (s\<lparr>run_server := srv\<rparr>))"
  shows "holds P (on_server failure call) Q E"
proof (rule holdsI)
  fix s r s' assume s: "P s" and run: "on_server failure call s = (r, s')"
  obtain x srv where called: "call (run_server s) = (x, srv)" by (rule prod.exhaust)
  with run have "r = map_sum failure id x" "s' = s\<lparr>run_server := srv\<rparr>" by (simp_all add: on_server_def)
  with assms [OF s called] show "case r of Inr a \<Rightarrow> Q a s' | Inl _ \<Rightarrow> E s'" by (cases x) simp_all
qed

lemma holds_on_disk:
  assumes "\<And>s r d. P s \<Longrightarrow> call (run_disk s) = (r, d) \<Longrightarrow>
    (case r of Inr a \<Rightarrow> Q a (s\<lparr>run_disk := d\<rparr>) | Inl _ \<Rightarrow> E (s\<lparr>run_disk := d\<rparr>))"
  shows "holds P (on_disk failure call) Q E"
proof (rule holdsI)
  fix s r s' assume s: "P s" and run: "on_disk failure call s = (r, s')"
  obtain x d where called: "call (run_disk s) = (x, d)" by (rule prod.exhaust)
  with run have "r = map_sum failure id x" "s' = s\<lparr>run_disk := d\<rparr>" by (simp_all add: on_disk_def)
  with assms [OF s called] show "case r of Inr a \<Rightarrow> Q a s' | Inl _ \<Rightarrow> E s'" by (cases x) simp_all
qed

lemma run_more [simp]: "DownloadRun.more (change f s) = DownloadRun.more s"
  by (simp add: change_def)

lemma map_sum_ok [simp]: "map_sum f id r = Inr a \<longleftrightarrow> r = Inr a"
  by (cases r) auto

lemma change_run [simp]:
  "run_download (change f s) = f (run_download s)" "run_server (change f s) = run_server s" "run_disk (change f s) = run_disk s"
  by (simp_all add: change_def)

lemma dl_entry_change [simp]:
  "dl_entry (operation\<lparr>dl_state := v1\<rparr>) = dl_entry operation" "dl_entry (operation\<lparr>dl_error := v2\<rparr>) = dl_entry operation"
  "dl_entry (operation\<lparr>fileStream := v3\<rparr>) = dl_entry operation" "dl_entry (operation\<lparr>localFile := v4\<rparr>) = dl_entry operation"
  "dl_entry (operation\<lparr>dl_buffer := v5\<rparr>) = dl_entry operation" "dl_entry (operation\<lparr>asyncTransfer := v6\<rparr>) = dl_entry operation"
  "dl_entry (operation\<lparr>resumeOffset := v7\<rparr>) = dl_entry operation" "dl_entry (operation\<lparr>bytesInFile := v8\<rparr>) = dl_entry operation"
  "dl_entry (operation\<lparr>transferComplete := v9\<rparr>) = dl_entry operation" "dl_entry (operation\<lparr>unsafeFast := v10\<rparr>) = dl_entry operation"
  "dl_entry (operation\<lparr>openedDestination := v11\<rparr>) = dl_entry operation"
  by (simp_all add: dl_entry_def)

subsection \<open>Opening the file leaves what is downloaded\<close>

definition steady :: "('srv, 'disk, 'a) DownloadStep \<Rightarrow> bool" where
  "steady m \<longleftrightarrow> (\<forall>s r s'. m s = (r, s') \<longrightarrow> keepsLink (run_download s') = keepsLink (run_download s))"

lemma steadyI: "(\<And>s r s'. m s = (r, s') \<Longrightarrow> keepsLink (run_download s') = keepsLink (run_download s)) \<Longrightarrow> steady m"
  by (simp add: steady_def)

lemma steadyD: "steady m \<Longrightarrow> m s = (r, s') \<Longrightarrow> keepsLink (run_download s') = keepsLink (run_download s)"
  by (simp add: steady_def)

lemma steady_chain: "steady m \<Longrightarrow> (\<And>a. steady (k a)) \<Longrightarrow> steady (chain m k)"
  by (rule steadyI) (force simp: chain_def dest: steadyD split: prod.splits sum.splits)

lemma steady_on_server: "steady (on_server failure call)"
  by (rule steadyI) (auto simp: on_server_def split: prod.splits)

lemma steady_on_disk: "steady (on_disk failure call)"
  by (rule steadyI) (auto simp: on_disk_def split: prod.splits)

lemma keepsLink_change [simp]:
  "keepsLink (operation\<lparr>dl_state := v1\<rparr>) = keepsLink operation" "keepsLink (operation\<lparr>dl_error := v2\<rparr>) = keepsLink operation"
  "keepsLink (operation\<lparr>fileStream := v3\<rparr>) = keepsLink operation" "keepsLink (operation\<lparr>localFile := v4\<rparr>) = keepsLink operation"
  "keepsLink (operation\<lparr>dl_buffer := v5\<rparr>) = keepsLink operation" "keepsLink (operation\<lparr>asyncTransfer := v6\<rparr>) = keepsLink operation"
  "keepsLink (operation\<lparr>resumeOffset := v7\<rparr>) = keepsLink operation" "keepsLink (operation\<lparr>bytesInFile := v8\<rparr>) = keepsLink operation"
  "keepsLink (operation\<lparr>transferComplete := v9\<rparr>) = keepsLink operation" "keepsLink (operation\<lparr>unsafeFast := v10\<rparr>) = keepsLink operation"
  "keepsLink (operation\<lparr>openedDestination := v11\<rparr>) = keepsLink operation"
  "keepsLink (operation\<lparr>dl_options := (dl_options operation)\<lparr>opt_verifiedDirectories := v\<rparr>\<rparr>) = keepsLink operation"
  by (simp_all add: keepsLink_def dl_entry_def)

lemma steady_refuse: "steady (refuseLinkedPath calls path)"
  by (rule steadyI) (auto simp: refuseLinkedPath_def Let_def split: sum.splits option.splits)

lemma steady_parents: "steady (createMissingParents calls path)"
  by (rule steadyI) (auto simp: createMissingParents_def dest: steadyD [OF steady_on_disk] split: if_splits)

lemma steady_empty: "steady (openEmptyWrittenFile calls)"
proof -
  have 1: "steady (restrictWrittenFile calls)"
    by (rule steadyI) (auto simp: restrictWrittenFile_def dest: steadyD [OF steady_on_disk])
  have 2: "steady (emptyLeftover calls path)" for path
    by (rule steadyI) (auto simp: emptyLeftover_def chain_def on_disk_def split: sum.splits bool.splits if_splits prod.splits)
  have 3: "steady (\<lambda>s. (Inr (), openLocalFile calls (if exists then InOut else Out) path s))" for exists path
    by (rule steadyI) (auto simp: openLocalFile_def split: prod.splits)
  have "steady (chain (restrictWrittenFile calls) (\<lambda>_. chain (emptyLeftover calls path)
        (\<lambda>exists s. (Inr (), openLocalFile calls (if exists then InOut else Out) path s))))" for path
    by (intro steady_chain 1 2 3)
  from steadyD [OF this] show ?thesis unfolding openEmptyWrittenFile_def Let_def by (intro steadyI) blast
qed

lemma steady_require: "steady requireOpen"
  by (rule steadyI) (auto simp: requireOpen_def split: if_splits)

lemma steady_adopt: "steady (adoptFile answers calls existing belongs)"
proof -
  have 1: "steady (startOver answers calls)"
    unfolding startOver_def by (intro steady_chain steady_on_server steady_empty steady_require)
  have 2: "steady (continueAt answers calls existing)"
    by (rule steadyI) (auto simp: continueAt_def chain_def restrictWrittenFile_def on_disk_def on_server_def openLocalFile_def requireOpen_def
        Let_def split: prod.splits sum.splits if_splits)
  show ?thesis by (rule steadyI) (auto simp: adoptFile_def dest: steadyD [OF 1] steadyD [OF 2] split: if_splits)
qed

lemma steady_belongs: "steady (belongsToSource answers calls existing)"
  by (rule steadyI) (auto simp: belongsToSource_def tailsMatchInStrand_def chain_def on_server_def Let_def
      split: prod.splits sum.splits if_splits option.splits)

lemma steady_open: "steady (openTransfer answers calls)"
proof -
  have lease: "steady (leaseBufferInStrand answers)"
    by (rule steadyI) (auto simp: leaseBufferInStrand_def Let_def split: prod.splits if_splits)
  have size: "steady (\<lambda>s. if opt_tryContinue (dl_options (run_download s)) \<and> sys_exists calls path (run_disk s) = Inr True then
          (case sys_fileSize calls path (run_disk s) of
             Inl _ \<Rightarrow> (Inl (plain_error FileStatFailed), s)
           | Inr existing \<Rightarrow> chain (belongsToSource answers calls existing) (adoptFile answers calls existing) s)
        else chain (openEmptyWrittenFile calls) (\<lambda>_. requireOpen) s)" for path
  proof (rule steadyI)
    fix s :: "('a, 'b) DownloadRun" and r s'
    assume run: "(if opt_tryContinue (dl_options (run_download s)) \<and> sys_exists calls path (run_disk s) = Inr True then
          (case sys_fileSize calls path (run_disk s) of
             Inl _ \<Rightarrow> (Inl (plain_error FileStatFailed), s)
           | Inr existing \<Rightarrow> chain (belongsToSource answers calls existing) (adoptFile answers calls existing) s)
        else chain (openEmptyWrittenFile calls) (\<lambda>_. requireOpen) s) = (r, s')"
    consider "s' = s" | n where "chain (belongsToSource answers calls n) (adoptFile answers calls n) s = (r, s')"
      | "chain (openEmptyWrittenFile calls) (\<lambda>_. requireOpen) s = (r, s')"
      using run by (cases "opt_tryContinue (dl_options (run_download s)) \<and> sys_exists calls path (run_disk s) = Inr True";
          cases "sys_fileSize calls path (run_disk s)") simp_all
    then show "keepsLink (run_download s') = keepsLink (run_download s)"
    proof cases
      case 2
      show ?thesis by (rule steadyD [OF steady_chain [OF steady_belongs steady_adopt] 2])
    next
      case 3
      show ?thesis by (rule steadyD [OF steady_chain [OF steady_empty steady_require] 3])
    qed simp
  qed
  have adopt: "steady (openOrAdoptFileInStrand answers calls)"
    unfolding openOrAdoptFileInStrand_def Let_def
    by (rule steadyI) (erule steadyD [OF steady_chain [OF steady_refuse steady_chain [OF steady_parents size]]])
  have opened: "steady (\<lambda>s. requireOpen (change (\<lambda>operation. operation\<lparr>openedDestination := True\<rparr>) s))"
    by (rule steadyI) (auto simp: requireOpen_def split: if_splits)
  have destination: "steady (openDestination calls)"
    unfolding openDestination_def Let_def
    by (rule steadyI) (erule steadyD [OF steady_chain [OF steady_refuse steady_chain [OF steady_parents steady_chain [OF steady_empty opened]]]])
  show ?thesis
  proof (rule steadyI)
    fix s :: "('a, 'b) DownloadRun" and r s'
    assume "openTransfer answers calls s = (r, s')"
    then show "keepsLink (run_download s') = keepsLink (run_download s)"
      using steadyD [OF steady_chain [OF lease destination]] steadyD [OF steady_chain [OF adopt lease]]
      unfolding openTransfer_def Let_def by (fastforce split: if_splits)
  qed
qed

lemma steady_reserve: "steady (reserveLocal calls)"
  by (rule steadyI) (auto simp: reserveLocal_def Let_def split: if_splits option.splits prod.splits)

subsection \<open>The world of a download\<close>

text \<open>The names of the path of the partial file below the link free root are no empty texts.\<close>

definition names_clean :: "LocalPath \<Rightarrow> string \<Rightarrow> bool" where
  "names_clean root path \<longleftrightarrow> local_empty root \<or>
     (case namesBelow (local_value root) path of Some names \<Rightarrow> names \<noteq> [] \<and> [] \<notin> set names | None \<Rightarrow> True)"

text \<open>
  \<open>at srv n\<close>: the stream stands at byte \<open>n\<close>; \<open>right n data\<close>: the source has this data there; \<open>good c n\<close>: the first \<open>n\<close> bytes
  of a file are what a download of the source may have. \<open>piece\<close> is what the reading task may hand over at a byte.
\<close>

locale download_world = local_files calls content islink
  for calls :: "'disk LocalCalls" and content :: "'disk \<Rightarrow> string \<Rightarrow> string option" and islink :: "'disk \<Rightarrow> string \<Rightarrow> bool" +
  fixes answers :: "'srv StreamAnswers"
    and at :: "'srv \<Rightarrow> nat \<Rightarrow> bool" and right :: "nat \<Rightarrow> string \<Rightarrow> bool" and good :: "string \<Rightarrow> nat \<Rightarrow> bool"
    and piece :: "u64 \<Rightarrow> string \<Rightarrow> bool"
    and temp dest :: string and root :: LocalPath and reserve over resume :: bool and start :: 'disk
  assumes opens_at: "openFileInStrand answers path srv = (Inr (), srv') \<Longrightarrow> at srv' 0"
    and stats_at: "at srv n \<Longrightarrow> stream_stat answers srv = (r, srv') \<Longrightarrow> at srv' n"
    and leases_at: "at srv n \<Longrightarrow> lease_buffer answers bytes limit srv = (leased, srv') \<Longrightarrow> at srv' n"
    and seeks_at: "stream_seek answers place srv = (Inr (), srv') \<Longrightarrow> at srv' (unat place)"
    and reads_at: "at srv n \<Longrightarrow> stream_read answers limit srv = (Inr data, srv') \<Longrightarrow> (data = [] \<or> right n data) \<and> at srv' (n + length data)"
    and right_start: "right 0 []"
    and right_ends: "right n data \<Longrightarrow> right (n + length data) []"
    and right_append: "right n data \<Longrightarrow> right (n + length data) further \<Longrightarrow> right n (data @ further)"
    and pieces: "right n [] \<Longrightarrow> piece (of_nat n) data \<Longrightarrow> right n data"
    and no_wrap: "right n [] \<Longrightarrow> n < 2 ^ 64 \<or> (\<forall>c m. good c m)"
    and good_none: "good c 0"
    and good_write: "good c n \<Longrightarrow> n \<le> length c \<Longrightarrow> right n data \<Longrightarrow> good (overwrite c n data) (n + length data)"
    and good_tail: "resume \<Longrightarrow> content start temp = Some c \<Longrightarrow> c \<noteq> [] \<Longrightarrow> right (length c - min (length c) (unat comparedBytes))
        (drop (length c - min (length c) (unat comparedBytes)) c) \<Longrightarrow> right (length c) [] \<and> good c (length c)"
    and reserve_writes: "reserve \<Longrightarrow> fst (sys_write calls p pos data d) \<or> (\<forall>c m. good c m)"
    and paths_differ: "temp \<noteq> dest" "temp \<noteq> []"
    and clean: "names_clean root temp"
begin

text \<open>Nothing but the temporary path and the destination has changed; the destination has not changed.\<close>

definition base :: "('srv, 'disk) DownloadRun \<Rightarrow> bool" where
  "base s \<longleftrightarrow> tempNativePath (run_download s) = temp \<and> localNativePath (run_download s) = dest \<and>
     \<not> unsafeFast (run_download s) \<and> \<not> openedDestination (run_download s) \<and>
     \<not> opt_unsafeFastMode (dl_options (run_download s)) \<and> opt_reserveSpace (dl_options (run_download s)) = reserve \<and>
     opt_mayOverwrite (dl_options (run_download s)) = over \<and> opt_tryContinue (dl_options (run_download s)) = resume \<and>
     opt_linkFreeRoot (dl_options (run_download s)) = root \<and>
     only_at content islink {temp, dest} start (run_disk s)"

definition safe :: "('srv, 'disk) DownloadRun \<Rightarrow> bool" where
  "safe s \<longleftrightarrow> base s \<and> content (run_disk s) dest = content start dest \<and> islink (run_disk s) dest = islink start dest"

definition complete :: "('srv, 'disk) DownloadRun \<Rightarrow> string \<Rightarrow> bool" where
  "complete s c \<longleftrightarrow> entry_size (dl_entry (run_download s)) = of_nat (length c) \<and> length c < 2 ^ 64 \<and> good c (length c)"

text \<open>What the operation was to bring: a link, or a file of the listed size.\<close>

definition brought :: "('srv, 'disk) DownloadRun \<Rightarrow> bool" where
  "brought s \<longleftrightarrow> (if keepsLink (run_download s) then islink (run_disk s) dest
     else \<not> islink (run_disk s) dest \<and> (\<exists>c. content (run_disk s) dest = Some c \<and> complete s c))"

definition unchanged :: "('srv, 'disk) DownloadRun \<Rightarrow> bool" where
  "unchanged s \<longleftrightarrow> content (run_disk s) dest = content start dest \<and> islink (run_disk s) dest = islink start dest"

definition outcome :: "('srv, 'disk) DownloadRun \<Rightarrow> bool" where
  "outcome s \<longleftrightarrow> base s \<and> (unchanged s \<or> brought s) \<and> (\<not> over \<and> (content start dest \<noteq> None \<or> islink start dest) \<longrightarrow> unchanged s)"

definition finished :: "('srv, 'disk) DownloadRun \<Rightarrow> bool" where
  "finished s \<longleftrightarrow> outcome s \<and>
     (brought s \<or> keepsLink (run_download s) \<and> opt_symlinkHandling (dl_options (run_download s)) = SkipSymlink)"

definition unopened :: "('srv, 'disk) DownloadRun \<Rightarrow> bool" where
  "unopened s \<longleftrightarrow> safe s \<and> localFile (run_download s) = None \<and> bytesInFile (run_download s) = 0 \<and>
     resumeOffset (run_download s) = 0 \<and> \<not> transferComplete (run_download s) \<and> \<not> asyncTransfer (run_download s) \<and>
     content (run_disk s) temp = content start temp \<and>
     (\<forall>vs. opt_verifiedDirectories (dl_options (run_download s)) = Some vs \<longrightarrow> (\<forall>p \<in> set vs. \<not> islink (run_disk s) p))"

text \<open>\<open>written s n\<close>: \<open>n\<close> bytes of the source are in the file that is open.\<close>

definition written :: "('srv, 'disk) DownloadRun \<Rightarrow> OpenFile \<Rightarrow> nat \<Rightarrow> bool" where
  "written s opened n \<longleftrightarrow> bytesInFile (run_download s) = of_nat n \<and> right n [] \<and> open_path opened = temp \<and>
     open_position opened \<in> {None, Some n} \<and>
     (\<forall>c. content (run_disk s) temp = Some c \<longrightarrow> n \<le> length c \<and> good c n \<and>
        (\<not> reserve \<or> open_position opened = None \<longrightarrow> length c = n))"

definition free :: "('srv, 'disk) DownloadRun \<Rightarrow> bool" where
  "free s \<longleftrightarrow> \<not> islink (run_disk s) temp"

definition writing :: "('srv, 'disk) DownloadRun \<Rightarrow> bool" where
  "writing s \<longleftrightarrow> safe s \<and> free s \<and> \<not> transferComplete (run_download s) \<and> (\<exists>opened n. localFile (run_download s) = Some opened \<and>
     written s opened n \<and> (\<not> asyncTransfer (run_download s) \<longrightarrow> at (run_server s) n))"

text \<open>A file that has the size the operation counted is good.\<close>

definition closing :: "('srv, 'disk) DownloadRun \<Rightarrow> bool" where
  "closing s \<longleftrightarrow> safe s \<and> free s \<and> (\<forall>c. content (run_disk s) temp = Some c \<and>
     bytesInFile (run_download s) = of_nat (length c) \<and> length c < 2 ^ 64 \<longrightarrow> good c (length c))"

text \<open>The file is ready to be written, or the partial file was complete.\<close>

definition prepared :: "('srv, 'disk) DownloadRun \<Rightarrow> bool" where
  "prepared s \<longleftrightarrow> \<not> asyncTransfer (run_download s) \<and>
     (if transferComplete (run_download s) then closing s \<and> localFile (run_download s) = None else writing s)"

definition ready :: "('srv, 'disk) DownloadRun \<Rightarrow> bool" where
  "ready s \<longleftrightarrow> (if keepsLink (run_download s) then unopened s else prepared s)"

definition inv :: "('srv, 'disk) DownloadRun \<Rightarrow> bool" where
  "inv s \<longleftrightarrow>
     (case dl_state (run_download s) of
        NotStarted \<Rightarrow> unopened s
      | Preparing \<Rightarrow> unopened s
      | Prepared \<Rightarrow> ready s
      | Running \<Rightarrow> writing s \<and> \<not> keepsLink (run_download s) \<and> (asyncTransfer (run_download s) \<longleftrightarrow> opt_bigFileOptimized (dl_options (run_download s)))
      | Finalizing \<Rightarrow> closing s \<and> \<not> keepsLink (run_download s) \<and> localFile (run_download s) = None \<and> \<not> asyncTransfer (run_download s)
      | Completed \<Rightarrow> finished s \<and> localFile (run_download s) = None
      | _ \<Rightarrow> outcome s \<and> localFile (run_download s) = None)"

lemmas run_defs = base_def safe_def unopened_def written_def free_def writing_def closing_def

lemma safe_outcome: "safe s \<Longrightarrow> outcome s"
  by (simp add: safe_def outcome_def unchanged_def)

lemma cleanup_shape:
  assumes "base s"
  obtains srv d where "cleanup answers calls s = (change (\<lambda>operation. operation\<lparr>localFile := None\<rparr>) s)\<lparr>run_server := srv, run_disk := d\<rparr>"
    and "d = run_disk s \<or> d = snd (sys_remove calls temp (run_disk s))"
proof -
  have closed: "\<not> openedDestination (run_download s)" "tempNativePath (run_download s) = temp" using assms by (simp_all add: base_def)
  define srv1 where "srv1 = (if asyncTransfer (run_download s) then async_cancel answers (run_server s) else run_server s)"
  define srv2 where "srv2 = (if fileStream (run_download s) \<and> stream_alive answers srv1 then stream_close answers srv1 else srv1)"
  define d where "d = (if opt_doCleanup (dl_options (run_download s)) \<and> temp \<noteq> [] then snd (sys_remove calls temp (run_disk s)) else run_disk s)"
  have "cleanup answers calls s = (change (\<lambda>operation. operation\<lparr>localFile := None\<rparr>) s)\<lparr>run_server := srv2, run_disk := d\<rparr>"
    unfolding srv2_def srv1_def d_def by (rule DownloadRun.equality) (simp_all add: cleanup_def Let_def closed paths_differ)
  then show ?thesis using that d_def by auto
qed

lemma cleanup_keeps:
  assumes "base s"
  shows "base (cleanup answers calls s)" and "localFile (run_download (cleanup answers calls s)) = None"
    and "dl_state (run_download (cleanup answers calls s)) = dl_state (run_download s)"
    and "dl_entry (run_download (cleanup answers calls s)) = dl_entry (run_download s)"
    and "keepsLink (run_download (cleanup answers calls s)) = keepsLink (run_download s)"
    and "content (run_disk (cleanup answers calls s)) dest = content (run_disk s) dest"
    and "islink (run_disk (cleanup answers calls s)) dest = islink (run_disk s) dest"
proof -
  obtain srv d where shape: "cleanup answers calls s = (change (\<lambda>operation. operation\<lparr>localFile := None\<rparr>) s)\<lparr>run_server := srv, run_disk := d\<rparr>"
    "d = run_disk s \<or> d = snd (sys_remove calls temp (run_disk s))" using cleanup_shape [OF assms] by blast
  have only: "only_at content islink {temp} (run_disk s) d"
    using shape(2) only_at_refl remove_at [of temp "run_disk s"] by (cases "sys_remove calls temp (run_disk s)") auto
  then have same: "content d dest = content (run_disk s) dest" "islink d dest = islink (run_disk s) dest"
    using paths_differ by (auto simp: only_at_def)
  have "only_at content islink {temp, dest} start d" using assms only by (auto simp: base_def only_at_def)
  with assms show "base (cleanup answers calls s)" by (simp add: shape(1) base_def)
  show "localFile (run_download (cleanup answers calls s)) = None" "dl_state (run_download (cleanup answers calls s)) = dl_state (run_download s)"
    "dl_entry (run_download (cleanup answers calls s)) = dl_entry (run_download s)"
    "keepsLink (run_download (cleanup answers calls s)) = keepsLink (run_download s)"
    "content (run_disk (cleanup answers calls s)) dest = content (run_disk s) dest"
    "islink (run_disk (cleanup answers calls s)) dest = islink (run_disk s) dest"
    using same by (simp_all add: shape(1))
qed

lemma outcome_of:
  assumes "outcome s" and "base s'" and "dl_entry (run_download s') = dl_entry (run_download s)"
    and "keepsLink (run_download s') = keepsLink (run_download s)"
    and "content (run_disk s') dest = content (run_disk s) dest" and "islink (run_disk s') dest = islink (run_disk s) dest"
  shows "outcome s'"
proof -
  have "unchanged s' = unchanged s" "brought s' = brought s" using assms(3-6) by (simp_all add: unchanged_def brought_def complete_def)
  with assms(1,2) show ?thesis by (simp add: outcome_def)
qed

lemma outcome_base: "outcome s \<Longrightarrow> base s"
  by (simp add: outcome_def)

lemma base_state: "base (change (\<lambda>operation. operation\<lparr>dl_state := v1\<rparr>) s) = base s"
  "base (change (\<lambda>operation. operation\<lparr>dl_state := v1, dl_error := v2\<rparr>) s) = base s"
  by (simp_all add: base_def)

lemma outcome_state: "outcome (change (\<lambda>operation. operation\<lparr>dl_state := v1\<rparr>) s) = outcome s"
  "outcome (change (\<lambda>operation. operation\<lparr>dl_state := v1, dl_error := v2\<rparr>) s) = outcome s"
  by (simp_all add: outcome_def base_state complete_def unchanged_def brought_def)

lemma cancel_outcome:
  assumes "outcome s"
  shows "outcome (dl_cancel answers calls adopt s)" and "localFile (run_download (dl_cancel answers calls adopt s)) = None"
    and "dl_state (run_download (dl_cancel answers calls adopt s)) = (if adopt then Canceled else dl_state (run_download s))"
proof -
  define t where "t = (if adopt then change (\<lambda>operation. operation\<lparr>dl_state := Canceled\<rparr>) s else s)"
  have t: "outcome t" "dl_state (run_download t) = (if adopt then Canceled else dl_state (run_download s))"
    using assms outcome_state(1) [of Canceled s] by (simp_all add: t_def)
  note kept = cleanup_keeps [OF outcome_base [OF t(1)]]
  have cancel: "dl_cancel answers calls adopt s = cleanup answers calls t" by (simp add: dl_cancel_def t_def)
  show "outcome (dl_cancel answers calls adopt s)" unfolding cancel by (rule outcome_of [OF t(1) kept(1,4,5,6,7)])
  show "localFile (run_download (dl_cancel answers calls adopt s)) = None" unfolding cancel by (rule kept(2))
  show "dl_state (run_download (dl_cancel answers calls adopt s)) = (if adopt then Canceled else dl_state (run_download s))"
    unfolding cancel kept(3) by (rule t(2))
qed

text \<open>Whatever went wrong, entering the error state leaves a failed operation with an outcome.\<close>

lemma error_inv:
  assumes "outcome s" and "enterErrorState answers calls e s = (r, s')"
  shows "inv s' \<and> r = Inl e \<and> outcome s'"
proof -
  let ?s = "change (\<lambda>operation. operation\<lparr>dl_state := Failed, dl_error := Some e\<rparr>) s"
  have "outcome ?s" using assms(1) by (simp add: outcome_state)
  from cancel_outcome [OF this, of False] assms(2) show ?thesis by (auto simp: enterErrorState_def inv_def)
qed

subsection \<open>Preparing\<close>

lemma unopened_safe: "unopened s \<Longrightarrow> safe s"
  by (simp add: unopened_def)

lemma foldl_nativeJoin:
  "names \<noteq> [] \<Longrightarrow> \<forall>n \<in> set names. n \<noteq> [] \<and> slash \<notin> set n \<Longrightarrow> foldl nativeJoin current names =
     (if current \<noteq> [] \<and> last current = slash then current else current @ [slash]) @ join_slash names"
proof (induction names rule: rev_induct)
  case (snoc n names)
  show ?case
  proof (cases "names = []")
    case True
    then show ?thesis by (simp add: nativeJoin_def)
  next
    case False
    then have "join_slash names \<noteq> [] \<and> last (join_slash names) \<noteq> slash"
      using snoc.prems(2)
    proof (induction names rule: join_slash.induct)
      case (2 p)
      then show ?case using last_in_set by force
    qed auto
    with False snoc show ?thesis by (simp add: nativeJoin_def join_slash_append)
  qed
qed simp

lemma no_verified: "linkAmong calls current names None d = (x, w) \<Longrightarrow> w = None"
  by (induction names arbitrary: current) (auto simp: Let_def split: sum.splits NoFollowKind.splits)

lemma first_link_free:
  assumes "firstLinkBelow calls (local_value root) temp verified d = (Inr None, v)" and "\<not> local_empty root"
    and "\<forall>vs. verified = Some vs \<longrightarrow> (\<forall>p \<in> set vs. \<not> islink d p)"
  shows "\<not> islink d temp \<and> (\<forall>vs. v = Some vs \<longrightarrow> (\<forall>p \<in> set vs. \<not> islink d p))"
proof -
  let ?above = "if local_value root \<noteq> [] \<and> last (local_value root) = slash then local_value root else local_value root @ [slash]"
  obtain names where names: "namesBelow (local_value root) temp = Some names"
    "linkAmong calls (local_value root) names verified d = (Inr None, v)"
    using assms(1) by (auto simp: firstLinkBelow_def split: option.splits)
  have nonempty: "names \<noteq> []" "[] \<notin> set names" using clean assms(2) names(1) by (simp_all add: names_clean_def)
  then have split: "take (length ?above) temp = ?above" "names = splitAtSlashes (drop (length ?above) temp)"
    using names(1) unfolding namesBelow_def Let_def by (auto split: if_split_asm)
  have parts: "\<forall>n \<in> set names. n \<noteq> [] \<and> slash \<notin> set n"
    using nonempty split(2) split_slash_parts by (auto simp: splitAtSlashes_def split: if_split_asm)
  have "foldl nativeJoin (local_value root) names = ?above @ join_slash names" using foldl_nativeJoin [OF nonempty(1) parts] .
  also have "\<dots> = temp" using split append_take_drop_id [of "length ?above" temp] by (simp only: join_splitAtSlashes)
  finally have "\<not> islink d temp" using linkAmong_free [OF names(2) nonempty(1) parts assms(3)] by simp
  moreover have "\<forall>vs. v = Some vs \<longrightarrow> (\<forall>p \<in> set vs. \<not> islink d p)"
  proof (cases verified)
    case None
    with names(2) no_verified [of "local_value root" names d "Inr None" v] show ?thesis by simp
  next
    case (Some vs)
    with linkAmong_verified [OF names(2) Some] assms(3) show ?thesis by auto
  qed
  ultimately show ?thesis by blast
qed

lemma refuse_free:
  assumes "\<forall>vs. opt_verifiedDirectories (dl_options (run_download s)) = Some vs \<longrightarrow> (\<forall>p \<in> set vs. \<not> islink (run_disk s) p)"
    and "opt_linkFreeRoot (dl_options (run_download s)) = root"
    and "refuseLinkedPath calls temp s = (r, s')"
  obtains v where "s' = change (\<lambda>operation. operation\<lparr>dl_options := (dl_options operation)\<lparr>opt_verifiedDirectories := v\<rparr>\<rparr>) s"
    and "r = Inr () \<Longrightarrow> \<not> islink (run_disk s) temp"
    and "r = Inr () \<Longrightarrow> \<forall>vs. v = Some vs \<longrightarrow> (\<forall>p \<in> set vs. \<not> islink (run_disk s) p)"
proof -
  let ?verified = "opt_verifiedDirectories (dl_options (run_download s))"
  obtain found v where looked: "(if \<not> local_empty root then firstLinkBelow calls (local_value root) temp ?verified (run_disk s)
      else (map_sum id (\<lambda>kind. if kind = LinkKind then Some temp else None) (noFollowKindOf calls temp (run_disk s)), ?verified)) = (found, v)"
    by (rule prod.exhaust)
  have run: "s' = change (\<lambda>operation. operation\<lparr>dl_options := (dl_options operation)\<lparr>opt_verifiedDirectories := v\<rparr>\<rparr>) s"
    "r = Inr () \<longrightarrow> found = Inr None"
    using assms(2,3) looked by (auto simp: refuseLinkedPath_def Let_def split: sum.splits option.splits)
  have "\<not> islink (run_disk s) temp \<and> (\<forall>vs. v = Some vs \<longrightarrow> (\<forall>p \<in> set vs. \<not> islink (run_disk s) p))" if "found = Inr None"
  proof (cases "local_empty root")
    case True
    with looked that have v: "v = ?verified" "map_sum id (\<lambda>kind. if kind = LinkKind then Some temp else None) (noFollowKindOf calls temp (run_disk s)) = Inr None"
      by auto
    then have "\<not> islink (run_disk s) temp"
      using status_link [of temp "run_disk s"] by (cases "sys_status calls temp (run_disk s)") (auto simp: noFollowKindOf_def split: if_splits)
    with v(1) assms(1) show ?thesis by simp
  next
    case False
    with looked that first_link_free [of ?verified "run_disk s" v] assms(1) show ?thesis by simp
  qed
  with that [of v] run show ?thesis by blast
qed

lemma base_disk:
  assumes "base s" and "only_at content islink {temp, dest} (run_disk s) d"
  shows "base (s\<lparr>run_disk := d\<rparr>)"
  using assms by (auto simp: base_def only_at_def)

text \<open>A call that only touches the temporary path leaves the destination.\<close>

lemma safe_disk:
  assumes "safe s" and "only_at content islink {temp} (run_disk s) d"
  shows "safe (s\<lparr>run_disk := d\<rparr>)"
proof -
  have "content d dest = content (run_disk s) dest" "islink d dest = islink (run_disk s) dest"
    using assms(2) paths_differ by (auto simp: only_at_def)
  with assms base_disk [of s d] only_at_weaken [OF assms(2), of "{temp, dest}"] show ?thesis by (simp add: safe_def)
qed

lemma safe_server [simp]: "safe (s\<lparr>run_server := srv\<rparr>) = safe s"
  by (simp add: safe_def base_def)

lemma unopened_server [simp]: "unopened (s\<lparr>run_server := srv\<rparr>) = unopened s"
  by (simp add: unopened_def)

text \<open>Before the file is opened the stream stands at its start.\<close>

definition at_start :: "('srv, 'disk) DownloadRun \<Rightarrow> bool" where
  "at_start s \<longleftrightarrow> unopened s \<and> at (run_server s) 0"

definition opened_empty :: "('srv, 'disk) DownloadRun \<Rightarrow> bool" where
  "opened_empty s \<longleftrightarrow> safe s \<and> free s \<and> at (run_server s) 0 \<and> bytesInFile (run_download s) = 0 \<and>
     \<not> transferComplete (run_download s) \<and> \<not> asyncTransfer (run_download s) \<and>
     (\<forall>c. content (run_disk s) temp = Some c \<longrightarrow> c = []) \<and>
     (\<forall>opened. localFile (run_download s) = Some opened \<longrightarrow> opened = \<lparr>open_path = temp, open_position = Some 0\<rparr>)"

text \<open>What opening the file leaves: it is open and holds what is counted, or the partial file is complete.\<close>

definition adopted :: "('srv, 'disk) DownloadRun \<Rightarrow> bool" where
  "adopted s \<longleftrightarrow> \<not> asyncTransfer (run_download s) \<and>
     (if transferComplete (run_download s) then closing s \<and> localFile (run_download s) = None
      else safe s \<and> free s \<and> (\<exists>opened n. localFile (run_download s) = Some opened \<and> written s opened n \<and> at (run_server s) n \<and>
        (\<forall>c. content (run_disk s) temp = Some c \<longrightarrow> length c = n) \<and> (open_position opened = None \<longrightarrow> resumeOffset (run_download s) \<noteq> 0) \<and> (open_position opened \<noteq> None \<longrightarrow> n = 0)))"

lemma openEmpty_opened:
  "holds (\<lambda>s. at_start s \<and> free s) (openEmptyWrittenFile calls) (\<lambda>_. opened_empty) safe"
proof (rule holdsI)
  fix s :: "('srv, 'disk) DownloadRun" and r :: "OperationError + unit" and s'
  assume start: "at_start s \<and> free s" and run: "openEmptyWrittenFile calls s = (r, s')"
  have path: "writtenNativePath (run_download s) = temp" and safe: "safe s" and free: "\<not> islink (run_disk s) temp"
    using start by (simp_all add: writtenNativePath_def at_start_def run_defs)
  obtain r1 d1 where restricted: "restrictToOwner calls temp (run_disk s) = (r1, d1)" by (rule prod.exhaust)
  note first = restrictToOwner_at [OF restricted free]
  let ?s1 = "s\<lparr>run_disk := d1\<rparr>"
  have safe1: "safe ?s1" using safe_disk [OF safe] first by blast
  show "case r of Inr a \<Rightarrow> opened_empty s' | Inl _ \<Rightarrow> safe s'"
  proof (cases r1)
    case (Inl e)
    with run path restricted have "s' = ?s1" "\<exists>e. r = Inl e"
      by (auto simp: openEmptyWrittenFile_def chain_def restrictWrittenFile_def on_disk_def Let_def)
    with safe1 show ?thesis by auto
  next
    case (Inr u)
    with run path restricted have rest: "chain (emptyLeftover calls temp)
        (\<lambda>exists s. (Inr (), openLocalFile calls (if exists then InOut else Out) temp s)) ?s1 = (r, s')"
      by (auto simp: openEmptyWrittenFile_def chain_def restrictWrittenFile_def on_disk_def Let_def)
    obtain r2 s2 where emptied: "emptyLeftover calls temp ?s1 = (r2, s2)" by (rule prod.exhaust)
    have two: "safe s2 \<and> run_download s2 = run_download s \<and> run_server s2 = run_server s \<and> \<not> islink (run_disk s2) temp \<and>
        (r2 = Inr True \<longrightarrow> (\<forall>c. content (run_disk s2) temp = Some c \<longrightarrow> c = []))"
    proof (cases "sys_exists calls temp d1 = Inr True \<and> (\<exists>n. sys_fileSize calls temp d1 = Inr n)")
      case False
      with emptied safe1 first show ?thesis by (auto simp: emptyLeftover_def split: sum.splits bool.splits)
    next
      case True
      then obtain n where n: "sys_exists calls temp d1 = Inr True" "sys_fileSize calls temp d1 = Inr n" by blast
      show ?thesis
      proof (cases "n = 0")
        case True
        with emptied n have "s2 = ?s1" by (simp add: emptyLeftover_def)
        moreover have "c = []" if "content d1 temp = Some c" for c
        proof -
          have "\<not> islink d1 temp" using first by blast
          from file_size [OF n(2) this] that True have "(0 :: u64) = of_nat (length c)" "length c < 2 ^ 64" by auto
          from arg_cong [OF this(1), of unat] this(2) show ?thesis by (simp add: unat_of_nat)
        qed
        ultimately show ?thesis using safe1 first by simp
      next
        case False
        obtain r3 d3 where resized: "sys_resize calls temp 0 d1 = (r3, d3)" by (rule prod.exhaust)
        note cut = resize_at [OF resized]
        from emptied n False resized have "s2 = ?s1\<lparr>run_disk := d3\<rparr>" "r2 = Inr True \<longrightarrow> r3 = Inr ()"
          by (auto simp: emptyLeftover_def chain_def on_disk_def split: sum.splits)
        with cut first safe_disk [OF safe1, of d3] show ?thesis by auto
      qed
    qed
    show ?thesis
    proof (cases r2)
      case (Inl e)
      with rest emptied two show ?thesis by (auto simp: chain_def)
    next
      case (Inr exists)
      let ?mode = "if exists then InOut else Out"
      obtain good d where opened: "sys_open calls ?mode temp (run_disk s2) = (good, d)" by (rule prod.exhaust)
      from rest emptied Inr opened have s': "r = Inr ()" "s' = change (\<lambda>operation. operation\<lparr>localFile :=
          (if good then Some \<lparr>open_path = temp, open_position = Some 0\<rparr> else None)\<rparr>) (s2\<lparr>run_disk := d\<rparr>)"
        by (auto simp: chain_def openLocalFile_def)
      have "\<not> islink (run_disk s2) temp" using two by blast
      note last = open_at [OF opened this]
      have "c = []" if "content d temp = Some c" for c
        using last that two Inr by (cases exists) auto
      moreover have "safe (s2\<lparr>run_disk := d\<rparr>)" using safe_disk two last by blast
      ultimately show ?thesis
        using s' two start last by (auto simp: opened_empty_def at_start_def run_defs dl_entry_def split: if_splits)
    qed
  qed
qed

lemma at_disk:
  assumes "at_start s" and "only_at content islink {} (run_disk s) d"
  shows "at_start (s\<lparr>run_disk := d\<rparr>)"
  using assms safe_disk [of s d] by (auto simp: at_start_def unopened_def only_at_def)

lemma require_adopted: "holds opened_empty requireOpen (\<lambda>_. adopted) safe"
proof (rule holdsI)
  fix s :: "('srv, 'disk) DownloadRun" and r :: "OperationError + unit" and s'
  assume "opened_empty s" "requireOpen s = (r, s')"
  then show "case r of Inr a \<Rightarrow> adopted s' | Inl _ \<Rightarrow> safe s'"
    using right_start good_none
    by (auto simp: requireOpen_def opened_empty_def adopted_def written_def split: if_splits intro!: exI [of _ 0])
qed

lemma readTail_right:
  "readTail answers missing filled srv = (Inr (Some tail), srv') \<Longrightarrow> at srv (n + length filled) \<Longrightarrow> filled = [] \<or> right n filled \<Longrightarrow>
     tail = [] \<or> right n tail"
proof (induction missing arbitrary: filled srv rule: less_induct)
  case (less missing)
  show ?case
  proof (cases "missing = 0")
    case True
    with less.prems show ?thesis by (simp add: readTail.simps)
  next
    case False
    obtain r srv1 where read: "stream_read answers missing srv = (r, srv1)" by (rule prod.exhaust)
    with less.prems(1) False obtain data where data: "r = Inr data" "data \<noteq> []"
      "readTail answers (missing - length data) (filled @ data) srv1 = (Inr (Some tail), srv')"
      by (auto simp: readTail.simps [of answers missing] split: sum.splits if_splits)
    have next_at: "right (n + length filled) data" "at srv1 (n + length filled + length data)"
      using reads_at [OF less.prems(2)] read data by auto
    then have "right n (filled @ data)" using less.prems(3) right_append by (cases "filled = []") auto
    moreover have "missing - length data < missing" using False data(2) by (cases data) auto
    ultimately show ?thesis using less.IH [OF _ data(3)] next_at(2) by (simp add: add.assoc)
  qed
qed

definition tail_good :: "u64 \<Rightarrow> bool \<Rightarrow> bool" where
  "tail_good existing belongs \<longleftrightarrow> (belongs \<longrightarrow> existing \<noteq> 0 \<and>
     (\<exists>c. content start temp = Some c \<and> existing = of_nat (length c) \<and> length c < 2 ^ 64 \<and> right (length c) [] \<and> good c (length c)))"

lemma belongs_good:
  assumes "unopened s \<and> free s" and "sys_fileSize calls temp (run_disk s) = Inr existing" and "resume"
    and "belongsToSource answers calls existing s = (r, s')"
  shows "unopened s' \<and> free s' \<and> run_disk s' = run_disk s \<and> run_download s' = run_download s \<and>
    (\<forall>b. r = Inr b \<longrightarrow> tail_good existing b)"
proof (cases "existing = 0 \<or> existing > entry_size (dl_entry (run_download s))")
  case True
  with assms show ?thesis by (auto simp: belongsToSource_def tail_good_def)
next
  case some: False
  let ?count = "min existing comparedBytes"
  have free: "\<not> islink (run_disk s) temp" and temp: "tempNativePath (run_download s) = temp"
    and start: "content (run_disk s) temp = content start temp" using assms(1) by (simp_all add: run_defs)
  obtain c where c: "content (run_disk s) temp = Some c" "existing = of_nat (length c)" "length c < 2 ^ 64"
    using file_size [OF assms(2) free] by blast
  have len: "unat existing = length c" using c by (simp add: unat_of_nat)
  then have count: "unat ?count = min (length c) (unat comparedBytes)"
    by (simp add: min_def word_le_nat_alt)
  have place: "unat (existing - ?count) = length c - unat ?count"
    using len unat_sub [of ?count existing] by simp
  from assms(4) some temp have run: "tailsMatchInStrand answers calls temp existing s = (r, s')" by (simp add: belongsToSource_def)
  show ?thesis
  proof (cases "sys_read calls temp (unat (existing - ?count)) (unat ?count) (run_disk s)")
    case None
    with run assms(1) show ?thesis by (auto simp: tailsMatchInStrand_def Let_def tail_good_def)
  next
    case (Some localTail)
    have tail: "localTail = drop (length c - unat ?count) c"
      using read_part [OF Some free c(1)] place count by simp
    obtain r1 srv1 where sought: "stream_seek answers (existing - ?count) (run_server s) = (r1, srv1)" by (rule prod.exhaust)
    obtain r2 srv2 where read: "readTail answers (unat ?count) [] srv1 = (r2, srv2)" by (rule prod.exhaust)
    show ?thesis
    proof (cases "\<exists>e. r1 = Inl e \<or> r2 = Inl e")
      case True
      with run Some sought read assms(1) have "(s' = s\<lparr>run_server := srv1\<rparr> \<or> s' = s\<lparr>run_server := srv2\<rparr>) \<and> (\<exists>e. r = Inl e)"
        by (cases r1; cases r2) (auto simp: tailsMatchInStrand_def Let_def chain_def on_server_def)
      with assms(1) show ?thesis by (auto simp: free_def)
    next
      case False
      then obtain remote where ok: "r1 = Inr ()" "r2 = Inr remote" by (cases r1; cases r2) auto
      with run Some sought read have s': "s' = s\<lparr>run_server := srv2\<rparr>" "r = Inr (remote = Some localTail)"
        by (auto simp: tailsMatchInStrand_def Let_def chain_def on_server_def)
      have "tail_good existing (remote = Some localTail)"
      proof -
        have "right (length c) [] \<and> good c (length c)" if "remote = Some localTail"
        proof -
          have at1: "at srv1 (length c - unat ?count)" using seeks_at sought ok(1) place by metis
          have "localTail = [] \<or> right (length c - unat ?count) localTail"
            using readTail_right [of "unat ?count" "[]" srv1 localTail srv2 "length c - unat ?count"] read ok(2) that at1 by simp
          moreover have "c \<noteq> []" using some c(2) by auto
          moreover have "localTail \<noteq> []" using tail count \<open>c \<noteq> []\<close> by (auto simp: min_def unat_eq_0)
          ultimately show ?thesis using good_tail [of c] assms(3) start c(1) tail count by auto
        qed
        with some c c(1) [unfolded start] show ?thesis unfolding tail_good_def by blast
      qed
      with s' assms(1) show ?thesis by (simp add: free_def)
    qed
  qed
qed

lemma start_over:
  "holds (\<lambda>s. unopened s \<and> free s) (startOver answers calls) (\<lambda>_. adopted) safe"
proof -
  have "holds (\<lambda>s. unopened s \<and> free s) (on_server sftpFailed (stream_seek answers 0)) (\<lambda>_ s. at_start s \<and> free s) safe"
  proof (rule holds_on_server)
    fix s :: "('srv, 'disk) DownloadRun" and r :: "SftpFailure + unit" and srv
    assume "unopened s \<and> free s" "stream_seek answers 0 (run_server s) = (r, srv)"
    then show "case r of Inr a \<Rightarrow> at_start (s\<lparr>run_server := srv\<rparr>) \<and> free (s\<lparr>run_server := srv\<rparr>) | Inl _ \<Rightarrow> safe (s\<lparr>run_server := srv\<rparr>)"
      using seeks_at [of 0 "run_server s" srv] unopened_safe by (cases r) (auto simp: at_start_def free_def)
  qed
  then show ?thesis
    unfolding startOver_def by (intro holds_chain [OF _ holds_chain [OF openEmpty_opened require_adopted]])
qed

lemma continue_at:
  assumes "unopened s \<and> free s" and "tail_good existing True" and "continueAt answers calls existing s = (r, s')"
  shows "case r of Inr _ \<Rightarrow> adopted s' | Inl _ \<Rightarrow> safe s'"
proof -
  have safe: "safe s" and free: "\<not> islink (run_disk s) temp" and path: "writtenNativePath (run_download s) = temp" "tempNativePath (run_download s) = temp"
    and start: "content (run_disk s) temp = content start temp" using assms(1) by (simp_all add: run_defs writtenNativePath_def)
  obtain c where c: "content start temp = Some c" "existing = of_nat (length c)" "length c < 2 ^ 64" "right (length c) []" "good c (length c)"
    and nonzero: "existing \<noteq> 0" using assms(2) by (auto simp: tail_good_def)
  have len: "unat existing = length c" using c by (simp add: unat_of_nat)
  obtain r1 d1 where restricted: "restrictToOwner calls temp (run_disk s) = (r1, d1)" by (rule prod.exhaust)
  note first = restrictToOwner_at [OF restricted free]
  obtain good1 d where opened: "sys_open calls App temp d1 = (good1, d)" by (rule prod.exhaust)
  have safe1: "safe (s\<lparr>run_disk := d1\<rparr>)" using safe_disk [OF safe] first by blast
  show ?thesis
  proof (cases r1)
    case (Inl e)
    with assms(3) restricted path safe1 show ?thesis by (auto simp: continueAt_def chain_def restrictWrittenFile_def on_disk_def)
  next
    case (Inr u)
    have d1: "\<not> islink d1 temp" "content d1 temp = Some c" using first start c(1) by (blast, metis option.distinct(1))
    have last: "only_at content islink {temp} d1 d" "\<not> islink d temp" "\<And>c'. content d temp = Some c' \<Longrightarrow> c' = c"
      using open_at [OF opened d1(1)] d1(2) by simp_all
    have safe2: "safe (s\<lparr>run_disk := d\<rparr>)" using safe_disk [OF safe1, of d] last(1) by simp
    let ?s = "change (\<lambda>operation. operation\<lparr>localFile := (if good1 then Some \<lparr>open_path = temp, open_position = None\<rparr> else None)\<rparr>)
        (s\<lparr>run_disk := d\<rparr>)"
    obtain r2 srv where sought: "stream_seek answers existing (run_server s) = (r2, srv)" by (rule prod.exhaust)
    let ?t = "(change (\<lambda>operation. operation\<lparr>resumeOffset := existing, bytesInFile := existing\<rparr>) ?s)\<lparr>run_server := srv\<rparr>"
    have safes: "safe ?s" "safe ?t" using safe2 by (simp_all add: safe_def base_def)
    have opens: "openLocalFile calls App temp (s\<lparr>run_disk := d1\<rparr>) = ?s" by (simp add: openLocalFile_def opened)
    have step: "chain requireOpen (\<lambda>_ s. chain (on_server (\<lambda>_. plain_error FileStatFailed) (stream_seek answers existing)) (\<lambda>_. requireOpen)
        (change (\<lambda>operation. operation\<lparr>resumeOffset := existing, bytesInFile := existing\<rparr>) s)) ?s = (r, s')"
      using assms(3) by (simp add: continueAt_def chain_def restrictWrittenFile_def on_disk_def restricted path Inr Let_def opens)
    have "(\<exists>e. r = Inl e) \<and> (s' = ?s \<or> s' = ?t) \<or> good1 \<and> r2 = Inr () \<and> r = Inr () \<and> s' = ?t"
    proof (cases good1)
      case False
      with step show ?thesis by (auto simp: chain_def requireOpen_def)
    next
      case True
      with step sought show ?thesis by (cases r2) (auto simp: chain_def requireOpen_def on_server_def)
    qed
    then show ?thesis
    proof
      assume "(\<exists>e. r = Inl e) \<and> (s' = ?s \<or> s' = ?t)"
      with safes show ?thesis by auto
    next
      assume ok: "good1 \<and> r2 = Inr () \<and> r = Inr () \<and> s' = ?t"
      then have "at srv (length c)" using seeks_at sought len by metis
      then have "adopted ?t"
        using ok safes(2) c last nonzero assms(1)
        by (auto simp: adopted_def written_def free_def unopened_def intro!: exI [of _ "length c"])
      with ok show ?thesis by simp
    qed
  qed
qed

lemma adopt_file:
  assumes "unopened s \<and> free s" and "tail_good existing belongs" and "adoptFile answers calls existing belongs s = (r, s')"
  shows "case r of Inr _ \<Rightarrow> adopted s' | Inl _ \<Rightarrow> safe s'"
proof (cases belongs)
  case False
  with assms(3) have "startOver answers calls s = (r, s')" by (simp add: adoptFile_def)
  from holdsD [OF start_over assms(1) this] show ?thesis by (cases r) simp_all
next
  case True
  show ?thesis
  proof (cases "existing = entry_size (dl_entry (run_download s))")
    case False
    with True assms(3) have "continueAt answers calls existing s = (r, s')" by (simp add: adoptFile_def)
    from continue_at [OF assms(1) _ this] assms(2) True show ?thesis by simp
  next
    case complete: True
    with True assms(3) have s': "r = Inr ()" "s' = change (\<lambda>operation. operation\<lparr>bytesInFile := existing, transferComplete := True\<rparr>) s"
      by (auto simp: adoptFile_def)
    obtain c where c: "content start temp = Some c" "good c (length c)" using assms(2) True by (auto simp: tail_good_def)
    with s' assms(1) show ?thesis by (auto simp: adopted_def run_defs)
  qed
qed

lemma open_adopted: "holds at_start (openOrAdoptFileInStrand answers calls) (\<lambda>_. adopted) safe"
proof (rule holdsI)
  fix s :: "('srv, 'disk) DownloadRun" and r :: "OperationError + unit" and s'
  assume start: "at_start s" and run: "openOrAdoptFileInStrand answers calls s = (r, s')"
  have path: "tempNativePath (run_download s) = temp" and root: "opt_linkFreeRoot (dl_options (run_download s)) = root"
    and verified: "\<forall>vs. opt_verifiedDirectories (dl_options (run_download s)) = Some vs \<longrightarrow> (\<forall>p \<in> set vs. \<not> islink (run_disk s) p)"
    using start by (simp_all add: at_start_def run_defs)
  obtain r1 s1 where refused: "refuseLinkedPath calls temp s = (r1, s1)" by (rule prod.exhaust)
  obtain v where v: "s1 = change (\<lambda>operation. operation\<lparr>dl_options := (dl_options operation)\<lparr>opt_verifiedDirectories := v\<rparr>\<rparr>) s"
    "r1 = Inr () \<Longrightarrow> \<not> islink (run_disk s) temp"
    "r1 = Inr () \<Longrightarrow> \<forall>vs. v = Some vs \<longrightarrow> (\<forall>p \<in> set vs. \<not> islink (run_disk s) p)"
    by (rule refuse_free [OF verified root refused]) blast
  have safe1: "safe s1" using start v(1) by (auto simp: at_start_def run_defs)
  show "case r of Inr a \<Rightarrow> adopted s' | Inl _ \<Rightarrow> safe s'"
  proof (cases r1)
    case (Inl e)
    with run path refused safe1 show ?thesis by (auto simp: openOrAdoptFileInStrand_def chain_def)
  next
    case (Inr u)
    then have one: "at_start s1 \<and> free s1" using start v by (auto simp: at_start_def run_defs)
    obtain r2 s2 where made: "createMissingParents calls temp s1 = (r2, s2)" by (rule prod.exhaust)
    have two: "at_start s2 \<and> free s2"
    proof (cases "opt_createMissingDirectories (dl_options (run_download s1))")
      case False
      with made one show ?thesis by (simp add: createMissingParents_def)
    next
      case True
      obtain x d where dirs: "sys_createDirectories calls (nativeParent temp) (run_disk s1) = (x, d)" by (rule prod.exhaust)
      with made True have "s2 = s1\<lparr>run_disk := d\<rparr>" by (simp add: createMissingParents_def on_disk_def)
      with one at_disk [of s1 d] directories_at [OF dirs] show ?thesis by (auto simp: free_def only_at_def)
    qed
    then have unopened2: "unopened s2 \<and> free s2" "safe s2" by (simp_all add: at_start_def unopened_def)
    show ?thesis
    proof (cases r2)
      case (Inl e)
      with run path refused made \<open>r1 = Inr u\<close> unopened2 show ?thesis by (auto simp: openOrAdoptFileInStrand_def chain_def)
    next
      case (Inr u2)
      let ?resume = "opt_tryContinue (dl_options (run_download s2)) \<and> sys_exists calls temp (run_disk s2) = Inr True"
      have rest: "(if ?resume then (case sys_fileSize calls temp (run_disk s2) of
             Inl _ \<Rightarrow> (Inl (plain_error FileStatFailed), s2)
           | Inr existing \<Rightarrow> chain (belongsToSource answers calls existing) (adoptFile answers calls existing) s2)
        else chain (openEmptyWrittenFile calls) (\<lambda>_. requireOpen) s2) = (r, s')"
        using run path refused made \<open>r1 = Inr u\<close> Inr by (simp add: openOrAdoptFileInStrand_def chain_def)
      show ?thesis
      proof (cases ?resume)
        case False
        with rest have "chain (openEmptyWrittenFile calls) (\<lambda>_. requireOpen) s2 = (r, s')" by auto
        from holdsD [OF holds_chain [OF openEmpty_opened require_adopted] two this] show ?thesis .
      next
        case True
        show ?thesis
        proof (cases "sys_fileSize calls temp (run_disk s2)")
          case (Inl e)
          with rest True unopened2 show ?thesis by auto
        next
          case (Inr existing)
          obtain r3 s3 where tail: "belongsToSource answers calls existing s2 = (r3, s3)" by (rule prod.exhaust)
          have "opt_tryContinue (dl_options (run_download s2)) = resume" using unopened2(2) by (simp add: safe_def base_def)
          then have "resume" using True by blast
          note three = belongs_good [OF unopened2(1) Inr this tail]
          show ?thesis
          proof (cases r3)
            case (Inl e)
            with rest True \<open>sys_fileSize calls temp (run_disk s2) = Inr existing\<close> tail three show ?thesis
              by (auto simp: chain_def unopened_def)
          next
            case (Inr b)
            with rest True \<open>sys_fileSize calls temp (run_disk s2) = Inr existing\<close> tail
            have "adoptFile answers calls existing b s3 = (r, s')" by (simp add: chain_def)
            from adopt_file [OF _ _ this] three Inr show ?thesis by simp
          qed
        qed
      qed
    qed
  qed
qed

lemma adopted_safe: "adopted s \<Longrightarrow> safe s"
  by (auto simp: adopted_def closing_def split: if_splits)

lemma lease_adopted: "holds adopted (leaseBufferInStrand answers) (\<lambda>_. adopted) safe"
proof (rule holdsI)
  fix s :: "('srv, 'disk) DownloadRun" and r :: "OperationError + unit" and s'
  assume s: "adopted s" and run: "leaseBufferInStrand answers s = (r, s')"
  obtain leased srv where lease: "lease_buffer answers (entry_size (dl_entry (run_download s))) (readLengthLimit answers (run_server s)) (run_server s) = (leased, srv)"
    by (rule prod.exhaust)
  let ?t = "change (\<lambda>operation. operation\<lparr>dl_buffer := leased\<rparr>) (s\<lparr>run_server := srv\<rparr>)"
  have "s' = ?t" using run lease by (auto simp: leaseBufferInStrand_def Let_def split: if_splits)
  moreover have "adopted ?t"
  proof (cases "transferComplete (run_download s)")
    case True
    with s show ?thesis by (simp add: adopted_def closing_def safe_def base_def free_def)
  next
    case False
    with s obtain opened n where o: "localFile (run_download s) = Some opened" "written s opened n" "at (run_server s) n"
      "\<forall>c. content (run_disk s) temp = Some c \<longrightarrow> length c = n" "open_position opened = None \<longrightarrow> resumeOffset (run_download s) \<noteq> 0"
      "open_position opened \<noteq> None \<longrightarrow> n = 0" "safe s" "free s" "\<not> asyncTransfer (run_download s)"
      by (auto simp: adopted_def)
    moreover have "at srv n" using leases_at [OF o(3) lease] .
    moreover have "safe ?t" "free ?t" "written ?t opened n" using o by (simp_all add: safe_def base_def free_def written_def)
    ultimately show ?thesis using False unfolding adopted_def by auto
  qed
  ultimately show "case r of Inr a \<Rightarrow> adopted s' | Inl _ \<Rightarrow> safe s'" using adopted_safe by (cases r) auto
qed

lemma adopted_prepared: "adopted s \<Longrightarrow> prepared s"
  by (auto simp: adopted_def prepared_def writing_def split: if_splits)

lemma written_reserved: "written s opened 0 \<Longrightarrow> reserve \<Longrightarrow> open_position opened \<noteq> None \<Longrightarrow> written (s\<lparr>run_disk := d\<rparr>) opened 0"
  unfolding written_def using good_none by auto

lemma reserve_prepared: "holds adopted (reserveLocal calls) (\<lambda>_. prepared) safe"
proof (rule holdsI)
  fix s :: "('srv, 'disk) DownloadRun" and r :: "OperationError + unit" and s'
  assume s: "adopted s" and run: "reserveLocal calls s = (r, s')"
  let ?listed = "entry_size (dl_entry (run_download s))"
  show "case r of Inr a \<Rightarrow> prepared s' | Inl _ \<Rightarrow> safe s'"
  proof (cases "opt_reserveSpace (dl_options (run_download s)) \<and> ?listed \<noteq> 0 \<and> resumeOffset (run_download s) = 0 \<and> \<not> transferComplete (run_download s)")
    case False
    with run have "s' = s" "r = Inr ()" by (auto simp: reserveLocal_def Let_def)
    with adopted_prepared [OF s] show ?thesis by simp
  next
    case True
    with s obtain opened n where o: "localFile (run_download s) = Some opened" "written s opened n" "at (run_server s) n"
      "open_position opened \<noteq> None" "n = 0" "safe s" "free s" "\<not> asyncTransfer (run_download s)"
      unfolding adopted_def by auto
    have "reserve" using True o(6) unfolding safe_def base_def by blast
    obtain good d where put: "sys_write calls (open_path opened) (map_option (\<lambda>_. unat (?listed - 1)) (open_position opened)) [CHR 0x00] (run_disk s) = (good, d)"
      by (rule prod.exhaust)
    have path: "open_path opened = temp" and free: "\<not> islink (run_disk s) temp" using o by (simp_all add: written_def free_def)
    note effect = write_at [OF put [unfolded path] free]
    have s': "s' = s\<lparr>run_disk := d\<rparr>" "r = (if good then Inr () else Inl (plain_error OpenFailure))"
      using run True o(1) put by (auto simp: reserveLocal_def Let_def)
    have safe: "safe s'" unfolding s' using safe_disk [OF o(6)] effect by blast
    have "written s' opened 0" unfolding s' by (rule written_reserved [OF _ \<open>reserve\<close> o(4)]) (use o(2,5) in blast)
    moreover have "free s'" "at (run_server s') 0" "localFile (run_download s') = Some opened" "\<not> transferComplete (run_download s')"
      "\<not> asyncTransfer (run_download s')" using effect o True by (simp_all add: s' free_def)
    ultimately have "prepared s'" using safe unfolding prepared_def writing_def by auto
    with safe s' show ?thesis by auto
  qed
qed

lemma transfer_prepared:
  "holds at_start (openTransfer answers calls) (\<lambda>_. adopted) safe"
proof (rule holdsI)
  fix s :: "('srv, 'disk) DownloadRun" and r :: "OperationError + unit" and s'
  assume s: "at_start s" and run: "openTransfer answers calls s = (r, s')"
  let ?t = "change (\<lambda>operation. operation\<lparr>unsafeFast := False\<rparr>) s"
  have mode: "\<not> opt_unsafeFastMode (dl_options (run_download s))" using s by (simp add: at_start_def run_defs)
  then have "chain (openOrAdoptFileInStrand answers calls) (\<lambda>_. leaseBufferInStrand answers) ?t = (r, s')"
    using run by (simp add: openTransfer_def transfersUnsafeFast_def Let_def change_def)
  moreover have "at_start ?t" using s by (simp add: at_start_def run_defs)
  ultimately show "case r of Inr a \<Rightarrow> adopted s' | Inl _ \<Rightarrow> safe s'"
    using holdsD [OF holds_chain [OF open_adopted lease_adopted]] by blast
qed

lemma stream_start: "holds unopened (openStream answers) (\<lambda>_. at_start) safe"
proof (rule holdsI)
  fix s :: "('srv, 'disk) DownloadRun" and r :: "OperationError + unit" and s'
  assume s: "unopened s" and run: "openStream answers s = (r, s')"
  obtain x srv where opened: "openFileInStrand answers (opt_remotePath (dl_options (run_download s))) (run_server s) = (x, srv)" by (rule prod.exhaust)
  let ?t = "change (\<lambda>operation. operation\<lparr>fileStream := True\<rparr>) (s\<lparr>run_server := srv\<rparr>)"
  have t: "unopened ?t" "safe (s\<lparr>run_server := srv\<rparr>)" using s by (simp_all add: run_defs)
  show "case r of Inr a \<Rightarrow> at_start s' | Inl _ \<Rightarrow> safe s'"
  proof (cases x)
    case (Inl e)
    with run opened t show ?thesis by (auto simp: openStream_def chain_def on_server_def)
  next
    case (Inr u)
    with run opened have "lock_stream answers ?t = (r, s')" by (simp add: openStream_def chain_def on_server_def)
    then have "s' = ?t" by (auto simp: lock_stream_def split: if_splits)
    with t opens_at opened Inr unopened_safe show ?thesis by (cases r) (auto simp: at_start_def)
  qed
qed

lemma follow_start: "holds at_start (followTarget answers) (\<lambda>_. at_start) safe"
proof (rule holdsI)
  fix s :: "('srv, 'disk) DownloadRun" and r :: "OperationError + unit" and s'
  assume s: "at_start s" and run: "followTarget answers s = (r, s')"
  obtain x srv where looked: "stream_stat answers (run_server s) = (x, srv)" by (rule prod.exhaust)
  have same: "at_start (change (setEntry entry) s)" "at_start (change (\<lambda>operation. setEntry (f operation) operation) s)" if "at_start s" for entry f s
    using that by (simp_all add: at_start_def run_defs setEntry_def)
  have t: "at_start (s\<lparr>run_server := srv\<rparr>)" using s stats_at looked by (auto simp: at_start_def)
  show "case r of Inr a \<Rightarrow> at_start s' | Inl _ \<Rightarrow> safe s'"
  proof (cases "entry_type (dl_entry (run_download s)) = Symlink")
    case False
    with run s show ?thesis by (auto simp: followTarget_def)
  next
    case True
    with run looked t same show ?thesis
      by (cases x) (auto simp: followTarget_def chain_def on_server_def at_start_def unopened_safe split: if_splits)
  qed
qed

lemma stat_unopened: "holds unopened (statEntry answers) (\<lambda>_. unopened) safe"
proof (rule holdsI)
  fix s :: "('srv, 'disk) DownloadRun" and r :: "OperationError + unit" and s'
  assume s: "unopened s" and run: "statEntry answers s = (r, s')"
  have same: "unopened (change (setEntry entry) s)" if "unopened s" for entry s using that by (simp add: run_defs setEntry_def)
  obtain x srv where looked: "lstatInStrand answers (opt_remotePath (dl_options (run_download s))) (run_server s) = (x, srv)" by (rule prod.exhaust)
  show "case r of Inr a \<Rightarrow> unopened s' | Inl _ \<Rightarrow> safe s'"
  proof (cases "opt_entry (dl_options (run_download s)) = None")
    case False
    with run s show ?thesis by (auto simp: statEntry_def)
  next
    case True
    with run looked s same unopened_safe show ?thesis by (cases x) (auto simp: statEntry_def chain_def on_server_def)
  qed
qed

lemma follow_unlinked: "followTarget answers s = (r, s') \<Longrightarrow> \<not> keepsLink (run_download s) \<Longrightarrow> \<not> keepsLink (run_download s')"
  by (auto simp: followTarget_def chain_def on_server_def keepsLink_def dl_entry_def setEntry_def
      split: if_splits prod.splits sum.splits)

lemma prepare_ready: "holds unopened (prepareInStrand answers calls) (\<lambda>_. ready) safe"
proof (rule holdsI)
  fix s :: "('srv, 'disk) DownloadRun" and r :: "OperationError + unit" and s'
  assume s: "unopened s" and run: "prepareInStrand answers calls s = (r, s')"
  let ?transfer = "chain (openTransfer answers calls) (\<lambda>_. reserveLocal calls)"
  obtain r1 s1 where looked: "statEntry answers s = (r1, s1)" by (rule prod.exhaust)
  obtain r2 s2 where opened: "openStream answers s1 = (r2, s2)" by (rule prod.exhaust)
  obtain r3 s3 where followed: "followTarget answers s2 = (r3, s3)" by (rule prod.exhaust)
  note one = holdsD [OF stat_unopened s looked]
  consider (bad) "s' = s" "\<exists>e. r = Inl e" | (stat) e where "r1 = Inl e" "r = Inl e" "s' = s1"
    | (link) "r1 = Inr ()" "keepsLink (run_download s1)" "r = Inr ()" "s' = s1"
    | (stream) e where "r1 = Inr ()" "r2 = Inl e" "r = Inl e" "s' = s2"
    | (follow) e where "r1 = Inr ()" "r2 = Inr ()" "r3 = Inl e" "r = Inl e" "s' = s3"
    | (transfer) "r1 = Inr ()" "\<not> keepsLink (run_download s1)" "r2 = Inr ()" "r3 = Inr ()" "?transfer s3 = (r, s')"
    using run looked opened followed
    by (cases r1; cases r2; cases r3) (auto simp: prepareInStrand_def chain_def [of "statEntry answers"]
        chain_def [of "openStream answers"] chain_def [of "followTarget answers"] Let_def split: if_splits)
  then show "case r of Inr a \<Rightarrow> ready s' | Inl _ \<Rightarrow> safe s'"
  proof cases
    case bad
    with unopened_safe [OF s] show ?thesis by auto
  next
    case link
    with one show ?thesis by (simp add: ready_def)
  next
    case stream
    with holdsD [OF stream_start _ opened] one show ?thesis by simp
  next
    case follow
    with holdsD [OF stream_start _ opened] holdsD [OF follow_start _ followed] one show ?thesis by simp
  next
    case transfer
    have at: "at_start s3" using holdsD [OF stream_start _ opened] holdsD [OF follow_start _ followed] one transfer by simp
    have "\<not> keepsLink (run_download s2)"
      using transfer(2) opened by (auto simp: openStream_def chain_def on_server_def lock_stream_def split: prod.splits sum.splits if_splits)
    from follow_unlinked [OF followed this] have "\<not> keepsLink (run_download s')"
      using steadyD [OF steady_chain [OF steady_open steady_reserve] transfer(5)] by simp
    with holdsD [OF holds_chain [OF transfer_prepared reserve_prepared] at transfer(5)] show ?thesis by (cases r) (simp_all add: ready_def)
  qed (use one in simp_all)
qed

end

end
