(* ===== verification/Download_Runs.thy ===== *)
theory Download_Runs
  imports Download_Safety
begin

text \<open>
  The states of a download: every step of \<open>Download_Operation\<close> keeps the invariant of \<open>Download_Safety\<close>. The runs of an operation,
  and what they leave at the destination: for any server, and for one that answers from a fixed source.
\<close>

context download_world begin

subsection \<open>Reading and writing\<close>

lemma right_sized: "right n [] \<Longrightarrow> (of_nat n :: u64) = of_nat m \<Longrightarrow> m < 2 ^ 64 \<Longrightarrow> n = m \<or> (\<forall>c m. good c m)"
proof -
  assume "right n []" "(of_nat n :: u64) = of_nat m" "m < 2 ^ 64"
  moreover have "n = m" if "n < 2 ^ 64"
    using arg_cong [OF \<open>(of_nat n :: u64) = of_nat m\<close>, of unat] that \<open>m < 2 ^ 64\<close> by (simp add: unat_of_nat)
  ultimately show ?thesis using no_wrap by blast
qed

lemma writing_closing:
  assumes "writing s"
  shows "closing s"
proof -
  obtain opened n where w: "written s opened n" "safe s" "free s" using assms unfolding writing_def by blast
  have "good c (length c)" if c: "content (run_disk s) temp = Some c" "bytesInFile (run_download s) = of_nat (length c)" "length c < 2 ^ 64" for c
  proof -
    have "n = length c \<or> (\<forall>c m. good c m)" using right_sized [of n "length c"] w(1) c by (simp add: written_def)
    with w(1) c(1) show ?thesis by (auto simp: written_def)
  qed
  with w show ?thesis unfolding closing_def by blast
qed

text \<open>A piece at its place: the file holds it, or the write failed and the size shows it.\<close>

definition counted :: "nat \<Rightarrow> ('srv, 'disk) DownloadRun \<Rightarrow> ('srv, 'disk) DownloadRun" where
  "counted n = change (\<lambda>operation. operation\<lparr>bytesInFile := bytesInFile operation + of_nat n\<rparr>)"

lemma write_step:
  assumes "safe s" and "free s" and "\<not> transferComplete (run_download s)" and "localFile (run_download s) = Some opened"
    and "written s opened n" and "right n data" and "writeLocal calls data s = (ok, s1)"
  shows "safe (counted (length data) s1)" and "free (counted (length data) s1)" and "run_server s1 = run_server s"
    and "\<exists>f. run_download s1 = run_download s\<lparr>localFile := f\<rparr>"
    and "ok \<Longrightarrow> \<exists>opened'. localFile (run_download s1) = Some opened' \<and> written (counted (length data) s1) opened' (n + length data)"
    and "closing (counted (length data) s1)"
proof -
  have path: "open_path opened = temp" and pos: "open_position opened = None \<or> open_position opened = Some n"
    and count: "bytesInFile (run_download s) = of_nat n" using assms(5) by (auto simp: written_def)
  have free: "\<not> islink (run_disk s) temp" using assms(2) by (simp add: free_def)
  obtain d where put: "sys_write calls temp (open_position opened) data (run_disk s) = (ok, d)"
    and s1: "s1 = change (\<lambda>operation. operation\<lparr>localFile := Some (opened\<lparr>open_position := map_option (\<lambda>n. n + length data) (open_position opened)\<rparr>)\<rparr>)
        (s\<lparr>run_disk := d\<rparr>)"
    using assms(4,7) path by (auto simp: writeLocal_def split: prod.splits)
  let ?t = "counted (length data) s1"
  note effect = write_at [OF put free]
  have "safe (s\<lparr>run_disk := d\<rparr>)" using safe_disk [OF assms(1)] effect by blast
  then show safe: "safe ?t" by (simp add: s1 counted_def safe_def base_def)
  show free': "free ?t" using effect by (simp add: s1 counted_def free_def)
  show "run_server s1 = run_server s" "\<exists>f. run_download s1 = run_download s\<lparr>localFile := f\<rparr>" by (auto simp: s1)
  have after: "\<exists>c k. content (run_disk s) temp = Some c \<and> k \<le> length data \<and> (ok \<longrightarrow> k = length data) \<and> n \<le> length c \<and> good c n \<and>
      (\<not> reserve \<or> open_position opened = None \<longrightarrow> length c = n) \<and> c' = overwrite c n (take k data)"
    if "content d temp = Some c'" for c'
  proof -
    obtain c k where ck: "content (run_disk s) temp = Some c" "k \<le> length data" "ok \<longrightarrow> k = length data"
      "c' = overwrite c (case open_position opened of Some n \<Rightarrow> n | None \<Rightarrow> length c) (take k data)" using effect \<open>content d temp = Some c'\<close> by blast
    then have "n \<le> length c" "good c n" "\<not> reserve \<or> open_position opened = None \<longrightarrow> length c = n"
      using assms(5) by (auto simp: written_def)
    with ck pos show ?thesis by auto
  qed
  show "\<exists>opened'. localFile (run_download s1) = Some opened' \<and> written ?t opened' (n + length data)" if "ok"
  proof (intro exI conjI)
    show "localFile (run_download s1) = Some (opened\<lparr>open_position := map_option (\<lambda>n. n + length data) (open_position opened)\<rparr>)"
      by (simp add: s1)
    have "n + length data \<le> length c' \<and> good c' (n + length data) \<and>
        (\<not> reserve \<or> map_option (\<lambda>n. n + length data) (open_position opened) = None \<longrightarrow> length c' = n + length data)"
      if "content d temp = Some c'" for c'
    proof -
      obtain c where c: "n \<le> length c" "good c n" "\<not> reserve \<or> open_position opened = None \<longrightarrow> length c = n" "c' = overwrite c n data"
        using after [OF \<open>content d temp = Some c'\<close>] \<open>ok\<close> by auto
      from good_write [OF c(2,1) assms(6)] c show ?thesis by (auto simp: overwrite_def)
    qed
    then show "written ?t (opened\<lparr>open_position := map_option (\<lambda>n. n + length data) (open_position opened)\<rparr>) (n + length data)"
      using count path pos right_ends [OF assms(6)] unfolding written_def by (auto simp: s1 counted_def)
  qed
  show "closing ?t"
  proof -
    have "good c' (length c')" if c': "content d temp = Some c'" "of_nat n + of_nat (length data) = (of_nat (length c') :: u64)"
      "length c' < 2 ^ 64" for c'
    proof -
      obtain c k where c: "k \<le> length data" "ok \<longrightarrow> k = length data" "n \<le> length c" "good c n" "\<not> reserve \<longrightarrow> length c = n"
        "c' = overwrite c n (take k data)" using after [OF c'(1)] by blast
      have "n + length data = length c' \<or> (\<forall>c m. good c m)"
        using right_sized [OF right_ends [OF assms(6)], of "length c'"] c'(2,3) by simp
      then show ?thesis
      proof
        assume len: "n + length data = length c'"
        show ?thesis
        proof (cases "\<forall>c m. good c m")
          case False
          have "k = length data"
          proof (cases reserve)
            case True
            with reserve_writes [of temp "open_position opened" data "run_disk s"] False put c(2) show ?thesis by auto
          next
            case False
            with c len show ?thesis by (simp add: overwrite_def)
          qed
          with good_write [OF c(4,3) assms(6)] c(6) len show ?thesis by simp
        qed simp
      qed simp
    qed
    with safe free' show ?thesis using count unfolding closing_def by (auto simp: s1 counted_def)
  qed
qed

lemma closing_cleanup:
  assumes "closing s"
  shows "closing (cleanup answers calls s)"
proof -
  have base: "base s" using assms by (simp add: closing_def safe_def)
  obtain srv d where shape: "cleanup answers calls s = (change (\<lambda>operation. operation\<lparr>localFile := None\<rparr>) s)\<lparr>run_server := srv, run_disk := d\<rparr>"
    "d = run_disk s \<or> d = snd (sys_remove calls temp (run_disk s))" using cleanup_shape [OF base] by blast
  obtain x d2 where removed: "sys_remove calls temp (run_disk s) = (x, d2)" by (rule prod.exhaust)
  have gone: "only_at content islink {temp} (run_disk s) d2" "content d2 temp = None \<and> \<not> islink d2 temp \<or>
      content d2 temp = content (run_disk s) temp \<and> islink d2 temp = islink (run_disk s) temp"
    using remove_at [OF removed] by (auto simp: only_at_def split: sum.splits)
  have d: "d = run_disk s \<or> d = d2" using shape(2) removed by simp
  have "closing (s\<lparr>run_disk := d\<rparr>)"
  proof (cases "d = run_disk s")
    case True
    with assms show ?thesis by simp
  next
    case False
    with d have "d = d2" by simp
    with assms gone safe_disk [of s d2] show ?thesis unfolding closing_def free_def by auto
  qed
  then show ?thesis by (simp add: shape(1) closing_def safe_def base_def free_def)
qed

lemma closing_error:
  assumes "closing s"
  shows "closing (snd (enterErrorState answers calls e s))" and "keepsLink (run_download (snd (enterErrorState answers calls e s))) = keepsLink (run_download s)"
proof -
  let ?s = "change (\<lambda>operation. operation\<lparr>dl_state := Failed, dl_error := Some e\<rparr>) s"
  have c: "closing ?s" using assms by (simp add: closing_def safe_def base_def free_def)
  then show "closing (snd (enterErrorState answers calls e s))" by (simp add: enterErrorState_def dl_cancel_def closing_cleanup)
  have "base ?s" using c by (simp add: closing_def safe_def)
  from cleanup_keeps(5) [OF this] show "keepsLink (run_download (snd (enterErrorState answers calls e s))) = keepsLink (run_download s)"
    by (simp add: enterErrorState_def dl_cancel_def)
qed

text \<open>One read of a download without a reading task.\<close>

lemma error_outcome: "safe s \<Longrightarrow> enterErrorState answers calls e s = (r, s') \<Longrightarrow> r = Inl e \<and> outcome s'"
  using error_inv safe_outcome by blast

lemma read_step:
  assumes w: "writing s" and state: "dl_state (run_download s) = Running" "\<not> asyncTransfer (run_download s)"
    and run: "readOnceInStrand answers calls s = (r, s')"
  shows "case r of Inl _ \<Rightarrow> outcome s'
    | Inr goesOn \<Rightarrow> keepsLink (run_download s') = keepsLink (run_download s) \<and>
        (if goesOn then writing s' \<and> dl_state (run_download s') = Running \<and> \<not> asyncTransfer (run_download s') \<and>
           opt_bigFileOptimized (dl_options (run_download s')) = opt_bigFileOptimized (dl_options (run_download s)) else closing s')"
proof -
  obtain opened n where o: "safe s" "free s" "\<not> transferComplete (run_download s)" "localFile (run_download s) = Some opened" "written s opened n"
    "at (run_server s) n" using w state(2) unfolding writing_def by blast
  let ?listed = "entry_size (dl_entry (run_download s))"
  obtain x srv where read: "stream_read answers (dl_buffer (run_download s)) (run_server s) = (x, srv)" by (rule prod.exhaust)
  let ?s = "s\<lparr>run_server := srv\<rparr>"
  have same: "safe ?s" "free ?s" "written ?s opened n" "closing ?s" using o writing_closing [OF w] by (simp_all add: free_def written_def closing_def)
  show ?thesis
  proof (cases "?listed = 0 \<or> \<not> (fileStream (run_download s) \<and> stream_alive answers (run_server s))")
    case True
    with run state o(4) have "r = Inr False \<and> s' = s \<or> (\<exists>e. enterErrorState answers calls e s = (r, s'))"
      by (cases "?listed = 0") (simp_all add: readOnceInStrand_def Let_def cong: if_cong, blast)
    with writing_closing [OF w] error_outcome [OF o(1)] show ?thesis by fastforce
  next
    case False
    show ?thesis
    proof (cases x)
      case (Inl e)
      with run state o(4) False read have "enterErrorState answers calls (sftpFailed e) ?s = (r, s')"
        by (simp add: readOnceInStrand_def Let_def on_server_def)
      from error_outcome [OF same(1) this] show ?thesis by simp
    next
      case (Inr data)
      note got = reads_at [OF o(6) read [unfolded Inr]]
      show ?thesis
      proof (cases "data = []")
        case True
        with run state o(4) False read Inr have "r = Inr False \<and> s' = ?s \<or> (\<exists>e. enterErrorState answers calls e ?s = (r, s'))"
          by (auto simp: readOnceInStrand_def Let_def on_server_def split: if_splits)
        with same(4) error_outcome [OF same(1)] show ?thesis by fastforce
      next
        case some: False
        obtain ok s1 where put: "writeLocal calls data ?s = (ok, s1)" by (rule prod.exhaust)
        note step = write_step [OF same(1,2) _ _ same(3) _ put]
        have t: "safe (counted (length data) s1)" "free (counted (length data) s1)" "run_server s1 = srv"
          "closing (counted (length data) s1)" "\<exists>f. run_download s1 = run_download s\<lparr>localFile := f\<rparr>"
          using step o(3,4) got some by simp_all
        let ?t = "counted (length data) s1"
        have eq: "(if \<not> ok then (Inr False, snd (enterErrorState answers calls (plain_error TargetFileNotGood) ?t :: (OperationError + unit) \<times> _))
              else (Inr (bytesInFile (run_download ?t) < ?listed), ?t)) = (r, s')"
          using run state o(4) False read Inr some put by (cases ok) (auto simp: readOnceInStrand_def Let_def on_server_def counted_def)
        have kept: "keepsLink (run_download ?t) = keepsLink (run_download s)" "dl_state (run_download ?t) = Running"
          "\<not> asyncTransfer (run_download ?t)" "\<not> transferComplete (run_download ?t)"
          "opt_bigFileOptimized (dl_options (run_download ?t)) = opt_bigFileOptimized (dl_options (run_download s))"
          "localFile (run_download ?t) = localFile (run_download s1)"
          using t(5) state o(3) by (auto simp: counted_def)
        show ?thesis
        proof (cases ok)
          case False
          with eq have "r = Inr False" "s' = snd (enterErrorState answers calls (plain_error TargetFileNotGood) ?t :: (OperationError + unit) \<times> _)"
            by simp_all
          with kept(1) show ?thesis by (simp add: closing_error [OF t(4)])
        next
          case True
          with eq have r: "s' = ?t" "r = Inr (bytesInFile (run_download ?t) < ?listed)" by auto
          obtain opened' where "localFile (run_download s1) = Some opened'" "written ?t opened' (n + length data)"
            using step(5) o(3,4) got some True by auto
          then have "writing ?t" unfolding writing_def using t got kept by (auto simp: counted_def)
          with writing_closing [OF this] r kept show ?thesis by simp
        qed
      qed
    qed
  qed
qed

subsection \<open>Finishing\<close>

lemma moved_outcome:
  assumes "safe s" and "left_at temp dest over (run_disk s) r d"
    and new: "keepsLink (run_download s) \<and> islink (run_disk s) temp \<or> \<not> keepsLink (run_download s) \<and> \<not> islink (run_disk s) temp \<and>
      (\<exists>c. content (run_disk s) temp = Some c \<and> complete s c)"
  shows "outcome (s\<lparr>run_disk := d\<rparr>)" and "r = Inr () \<Longrightarrow> brought (s\<lparr>run_disk := d\<rparr>)"
proof -
  let ?s = "s\<lparr>run_disk := d\<rparr>"
  have base: "base ?s" using assms(1,2) base_disk [of s d] by (simp add: safe_def left_at_def)
  have moved: "brought ?s" if "content d dest = content (run_disk s) temp" "islink d dest = islink (run_disk s) temp"
    using new that by (auto simp: brought_def complete_def)
  have kept: "unchanged ?s" if "content d dest = content (run_disk s) dest" "islink d dest = islink (run_disk s) dest"
    using assms(1) that by (simp add: unchanged_def safe_def)
  have either: "unchanged ?s \<or> brought ?s" using assms(2) moved kept unfolding left_at_def by blast
  have "unchanged ?s" if "\<not> over" "content start dest \<noteq> None \<or> islink start dest"
    using assms(1,2) that kept unfolding left_at_def safe_def by metis
  with base either show "outcome ?s" unfolding outcome_def by blast
  show "brought ?s" if "r = Inr ()" using assms(2) that moved unfolding left_at_def by blast
qed

lemma permissions_world: "finalPermissionsInStrand answers calls s = (r, s') \<Longrightarrow> \<exists>srv. s' = s\<lparr>run_server := srv\<rparr>"
proof -
  have same: "\<exists>srv. s = s\<lparr>run_server := srv\<rparr>" by (rule exI [of _ "run_server s"]) simp
  assume "finalPermissionsInStrand answers calls s = (r, s')"
  with same show ?thesis
    by (auto simp: finalPermissionsInStrand_def Let_def chain_def lock_stream_def on_server_def
        split: if_splits prod.splits sum.splits)
qed

text \<open>A closed file of the listed size moves to the destination, or everything stays.\<close>

lemma finish_step:
  assumes "safe s" and "free s" and "\<not> keepsLink (run_download s)"
    and "content (run_disk s) temp = Some c" and "complete s c"
    and run: "finishWritten answers calls s = (r, s')"
  shows "outcome s' \<and> (r = Inr () \<longrightarrow> brought s') \<and> localFile (run_download s') = localFile (run_download s) \<and>
    keepsLink (run_download s') = keepsLink (run_download s)"
proof -
  have path: "writtenNativePath (run_download s) = temp" "localNativePath (run_download s) = dest" "\<not> unsafeFast (run_download s)"
    and over: "opt_mayOverwrite (dl_options (run_download s)) = over"
    using assms(1) by (simp_all add: safe_def base_def writtenNativePath_def)
  let ?entry = "dl_entry (run_download s)"
  obtain r1 d1 where stamped: "sys_setModified calls temp (entry_mtime ?entry) (entry_mtimeNsec ?entry) (run_disk s) = (r1, d1)" by (rule prod.exhaust)
  let ?s1 = "s\<lparr>run_disk := d1\<rparr>"
  obtain r2 s2 where wanted: "finalPermissionsInStrand answers calls ?s1 = (r2, s2)" by (rule prod.exhaust)
  obtain srv where "s2 = ?s1\<lparr>run_server := srv\<rparr>" using permissions_world [OF wanted] by blast
  then have s2: "s2 = s\<lparr>run_server := srv, run_disk := d1\<rparr>" by simp
  have only1: "only_at content islink {} (run_disk s) d1" by (rule modified_at [OF stamped])
  have fine: "safe (s\<lparr>run_server := srv', run_disk := d\<rparr>) \<and> outcome (s\<lparr>run_server := srv', run_disk := d\<rparr>) \<and>
      content d temp = Some c \<and> \<not> islink d temp" if "only_at content islink {} (run_disk s) d" for srv' d
  proof -
    have "safe ((s\<lparr>run_server := srv'\<rparr>)\<lparr>run_disk := d\<rparr>)"
      using assms(1) that only_at_weaken [OF that, of "{temp}"] by (intro safe_disk) simp_all
    with safe_outcome that assms(2,4) show ?thesis by (auto simp: only_at_def free_def)
  qed
  show ?thesis
  proof (cases r2)
    case (Inl e)
    with run path stamped wanted have "r = Inl e" "s' = s2" by (simp_all add: finishWritten_def chain_def Let_def)
    with fine [OF only1] s2 show ?thesis by simp
  next
    case (Inr permissions)
    obtain r3 d3 where chmod: "sys_permissions calls temp permissions d1 = (r3, d3)" by (rule prod.exhaust)
    have only3: "only_at content islink {} (run_disk s) d3" by (rule only_at_trans [OF only1 permissions_at [OF chmod]])
    let ?s3 = "s\<lparr>run_server := srv, run_disk := d3\<rparr>"
    show ?thesis
    proof (cases r3)
      case (Inl e)
      with run path stamped wanted Inr chmod have "\<exists>e. r = Inl e" "s' = ?s3"
        by (auto simp: finishWritten_def chain_def Let_def s2 on_disk_def)
      with fine [OF only3] show ?thesis by auto
    next
      case ok: (Inr u)
      obtain r4 d4 where move: "moveLocalIntoPlace calls temp dest over (opt_comparedDestination (dl_options (run_download s))) d3 = (r4, d4)"
        by (rule prod.exhaust)
      have s': "s' = ?s3\<lparr>run_disk := d4\<rparr>" "r = r4"
        using run path over stamped wanted Inr chmod ok move by (auto simp: finishWritten_def chain_def Let_def s2 on_disk_def map_sum.id)
      obtain r5 where left: "left_at temp dest over d3 r5 d4" "r4 = Inr () \<Longrightarrow> r5 = Inr ()"
        using moveLocalIntoPlace_left [OF move _ paths_differ(1)] fine [OF only3] by auto
      have new: "\<not> keepsLink (run_download ?s3) \<and> \<not> islink (run_disk ?s3) temp \<and> (\<exists>c. content (run_disk ?s3) temp = Some c \<and> complete ?s3 c)"
        using fine [OF only3] assms(3,5) by (simp add: complete_def)
      have "safe ?s3" using fine [OF only3] by blast
      then have "outcome s'" "r5 = Inr () \<Longrightarrow> brought s'" using moved_outcome [OF _ _ disjI2 [OF new], of r5 d4] left(1) s'(1) by simp_all
      with left(2) s' show ?thesis by simp
    qed
  qed
qed

lemma finalize_step:
  assumes "closing s" and "\<not> keepsLink (run_download s)" and "dl_state (run_download s) \<noteq> Running"
    and run: "finalizeInStrand answers calls s = (r, s')"
  shows "outcome s' \<and> (r = Inr () \<longrightarrow> brought s' \<and> localFile (run_download s') = None) \<and> keepsLink (run_download s') = keepsLink (run_download s)"
proof -
  let ?s = "change (\<lambda>operation. operation\<lparr>localFile := None\<rparr>) s"
  let ?listed = "entry_size (dl_entry (run_download s))"
  have path: "writtenNativePath ((run_download s)\<lparr>localFile := None\<rparr>) = temp"
    using assms(1) by (simp add: closing_def safe_def base_def writtenNativePath_def)
  have s: "safe ?s" "free ?s" using assms(1) by (simp_all add: closing_def safe_def base_def free_def)
  show ?thesis
  proof (cases "sys_fileSize calls temp (run_disk s) = Inr ?listed \<and> bytesInFile (run_download s) = ?listed")
    case False
    with run assms(3) path have "s' = ?s" "\<exists>e. r = Inl e" by (auto simp: finalizeInStrand_def Let_def)
    with safe_outcome [OF s(1)] show ?thesis by auto
  next
    case True
    with run assms(3) path have last: "finishWritten answers calls ?s = (r, s')" by (simp add: finalizeInStrand_def Let_def)
    have "\<not> islink (run_disk s) temp" using s(2) by (simp add: free_def)
    then obtain c where c: "content (run_disk s) temp = Some c" "?listed = of_nat (length c)" "length c < 2 ^ 64"
      using file_size [of temp "run_disk s" ?listed] True by blast
    then have "complete ?s c" using assms(1) True by (simp add: complete_def closing_def)
    with finish_step [OF s _ _ _ last, of c] assms(2) c show ?thesis by simp
  qed
qed

lemma brought_state: "brought (change (\<lambda>operation. operation\<lparr>dl_state := v1\<rparr>) s) = brought s"
  by (simp add: brought_def complete_def)

lemma finalizing_step:
  assumes "closing s" and "\<not> keepsLink (run_download s)" and "dl_state (run_download s) \<noteq> Running"
    and "work_finalizing answers calls s = (r, s')"
  shows "inv s' \<and> (r = Inr Complete \<or> (\<exists>e. r = Inl e))"
proof -
  obtain r1 s1 where last: "finalizeInStrand answers calls s = (r1, s1)" by (rule prod.exhaust)
  note step = finalize_step [OF assms(1-3) last]
  show ?thesis
  proof (cases r1)
    case (Inl e)
    with assms(4) last have "enterErrorState answers calls e s1 = (r, s')" by (simp add: work_finalizing_def)
    from error_inv [OF _ this] step show ?thesis by simp
  next
    case (Inr u)
    with assms(4) last have s': "r = Inr Complete" "s' = change (\<lambda>operation. operation\<lparr>dl_state := Completed\<rparr>) s1" by (simp_all add: work_finalizing_def)
    have "outcome s'" using step outcome_state by (simp add: s')
    moreover have "brought s'" using step Inr brought_state by (simp add: s')
    ultimately show ?thesis using step Inr s' by (simp add: inv_def finished_def)
  qed
qed

subsection \<open>Links\<close>

lemma brought_link:
  assumes "safe s" and "keepsLink (run_download s)" and "createLink calls found s = (r, s')"
  shows "outcome s' \<and> (r = Inr () \<longrightarrow> brought s') \<and> run_download s' = run_download s"
proof -
  have path: "tempNativePath (run_download s) = temp" "localNativePath (run_download s) = dest"
    and over: "opt_mayOverwrite (dl_options (run_download s)) = over" using assms(1) by (simp_all add: safe_def base_def)
  define directory where "directory = (case deep_targetInfo found of Some info \<Rightarrow> entry_type info = Directory | None \<Rightarrow> False)"
  obtain x0 d0 where removed: "sys_remove calls temp (run_disk s) = (x0, d0)" by (rule prod.exhaust)
  have only0: "only_at content islink {temp} (run_disk s) d0" using remove_at [OF removed] by blast
  obtain x1 d1 where made: "sys_createSymlink calls directory (deep_linkContent found) temp d0 = (x1, d1)" by (rule prod.exhaust)
  note link = symlink_at [OF made]
  have only1: "only_at content islink {temp} (run_disk s) d1" using only_at_trans [OF only0] link by blast
  have safe1: "safe (s\<lparr>run_disk := d1\<rparr>)" by (rule safe_disk [OF assms(1) only1])
  show ?thesis
  proof (cases "isValidUtf8 (deep_linkContent found) \<and> x1 = Inr ()")
    case False
    with assms(3) path removed made have "(s' = s \<or> s' = s\<lparr>run_disk := d1\<rparr>) \<and> (\<exists>e. r = Inl e)"
      by (cases x1) (auto simp: createLink_def chain_def on_disk_def Let_def directory_def split: if_splits)
    with assms(1) safe1 safe_outcome show ?thesis by auto
  next
    case True
    obtain x2 d2 where move: "moveLocalIntoPlace calls temp dest over (opt_comparedDestination (dl_options (run_download s))) d1 = (x2, d2)"
      by (rule prod.exhaust)
    obtain x3 d3 where undone: "sys_remove calls temp d2 = (x3, d3)" by (rule prod.exhaust)
    have "createLink calls found s = (case x2 of Inl e \<Rightarrow> (Inl e, s\<lparr>run_disk := d3\<rparr>) | Inr _ \<Rightarrow> (Inr (), s\<lparr>run_disk := d2\<rparr>))"
      using True by (cases x2) (simp_all add: createLink_def chain_def on_disk_def path over removed made [unfolded directory_def] move undone Let_def)
    with assms(3) have s': "(\<exists>e. r = Inl e) \<and> s' = s\<lparr>run_disk := d3\<rparr> \<or> r = Inr () \<and> x2 = Inr () \<and> s' = s\<lparr>run_disk := d2\<rparr>"
      by (cases x2) auto
    obtain x4 where left: "left_at temp dest over d1 x4 d2" "x2 = Inr () \<Longrightarrow> x4 = Inr ()"
      using moveLocalIntoPlace_left [OF move _ paths_differ(1)] link True by auto
    have new: "keepsLink (run_download s) \<and> islink (run_disk (s\<lparr>run_disk := d1\<rparr>)) temp" using assms(2) link True by simp
    have two: "outcome (s\<lparr>run_disk := d2\<rparr>)" "x2 = Inr () \<Longrightarrow> brought (s\<lparr>run_disk := d2\<rparr>)"
      using moved_outcome [OF safe1, of x4 d2] left new by simp_all
    have only3: "only_at content islink {temp} d2 d3" using remove_at [OF undone] by blast
    have "outcome (s\<lparr>run_disk := d3\<rparr>)"
    proof (rule outcome_of [OF two(1)])
      show "base (s\<lparr>run_disk := d3\<rparr>)"
        using base_disk [of "s\<lparr>run_disk := d2\<rparr>" d3] outcome_base [OF two(1)] only_at_weaken [OF only3, of "{temp, dest}"] by simp
      show "content (run_disk (s\<lparr>run_disk := d3\<rparr>)) dest = content (run_disk (s\<lparr>run_disk := d2\<rparr>)) dest"
        "islink (run_disk (s\<lparr>run_disk := d3\<rparr>)) dest = islink (run_disk (s\<lparr>run_disk := d2\<rparr>)) dest"
        using only3 paths_differ by (auto simp: only_at_def)
    qed simp_all
    with s' two show ?thesis by auto
  qed
qed

lemma refuse_safe: "refuseLinkedPath calls path s = (r, s') \<Longrightarrow> safe s \<Longrightarrow> safe s' \<and> localFile (run_download s') = localFile (run_download s)"
proof -
  assume "refuseLinkedPath calls path s = (r, s')" and s: "safe s"
  then obtain v where "s' = change (\<lambda>operation. operation\<lparr>dl_options := (dl_options operation)\<lparr>opt_verifiedDirectories := v\<rparr>\<rparr>) s"
    unfolding refuseLinkedPath_def Let_def by (force split: sum.split_asm option.split_asm)
  with s show ?thesis by (simp add: safe_def base_def)
qed

lemma parents_safe: "createMissingParents calls path s = (r, s') \<Longrightarrow> safe s \<Longrightarrow> safe s' \<and> run_download s' = run_download s"
proof -
  assume run: "createMissingParents calls path s = (r, s')" and s: "safe s"
  obtain x d where made: "sys_createDirectories calls (nativeParent path) (run_disk s) = (x, d)" by (rule prod.exhaust)
  have "safe (s\<lparr>run_disk := d\<rparr>)" by (rule safe_disk [OF s only_at_weaken [OF directories_at [OF made]]]) simp
  with run s made show ?thesis by (auto simp: createMissingParents_def on_disk_def split: if_splits)
qed

lemma link_step:
  assumes "safe s" and "keepsLink (run_download s)" and "localFile (run_download s) = None"
    and run: "handleSymlinkInStrand answers calls s = (r, s')"
  shows "outcome s' \<and> (r = Inr () \<longrightarrow> finished s') \<and> localFile (run_download s') = None"
proof (cases "opt_symlinkHandling (dl_options (run_download s)) = SkipSymlink")
  case True
  with run assms(1-3) safe_outcome show ?thesis by (auto simp: handleSymlinkInStrand_def finished_def)
next
  case False
  obtain r1 s1 where target: "readSymlinkInStrand answers s = (r1, s1)" by (rule prod.exhaust)
  have s1: "safe s1" "run_download s1 = run_download s"
    using target assms(1) by (auto simp: readSymlinkInStrand_def Let_def on_server_def split: prod.splits)
  define m where "m = (\<lambda>s. if \<not> local_empty (opt_linkFreeRoot (dl_options (run_download s)))
      then refuseLinkedPath calls (nativeParent (localNativePath (run_download s))) s
      else ((Inr (), s) :: (OperationError + unit) \<times> ('srv, 'disk) DownloadRun))"
  obtain r2 s2 where refused: "m s1 = (r2, s2)" by (rule prod.exhaust)
  have s2: "safe s2" "localFile (run_download s2) = None" "keepsLink (run_download s2)"
    using refused refuse_safe [of _ s1 r2 s2] steadyD [OF steady_refuse, of calls _ s1 r2 s2] s1 assms(2,3) by (auto simp: m_def split: if_splits)
  obtain r3 s3 where made: "createMissingParents calls (localNativePath (run_download s2)) s2 = (r3, s3)" by (rule prod.exhaust)
  note s3 = parents_safe [OF made s2(1)]
  consider (early) e where "r = Inl e" "s' = s1 \<or> s' = s2 \<or> s' = s3" | (late) found where "createLink calls found s3 = (r, s')"
    using run False target refused made unfolding handleSymlinkInStrand_def m_def [symmetric]
    by (cases r1; cases r2; cases r3) (auto simp: chain_def)
  then show ?thesis
  proof cases
    case early
    have "outcome s1" "outcome s2" "outcome s3" using s1 s2 s3 safe_outcome by blast+
    with early s1 s2 s3 assms(3) show ?thesis by auto
  next
    case late
    from brought_link [OF _ _ this] s2 s3 show ?thesis by (simp add: finished_def)
  qed
qed

subsection \<open>Work\<close>

lemma closing_state: "closing (change (\<lambda>operation. operation\<lparr>dl_state := v1\<rparr>) s) = closing s"
  by (simp add: closing_def safe_def base_def free_def)

lemma writing_state: "writing (change (\<lambda>operation. operation\<lparr>dl_state := v1\<rparr>) s) = writing s"
  by (simp add: writing_def safe_def base_def free_def written_def)

lemma unopened_state: "unopened (change (\<lambda>operation. operation\<lparr>dl_state := v1\<rparr>) s) = unopened s"
  by (simp add: unopened_def safe_def base_def)

lemma finalizing_change:
  assumes "closing s" and "\<not> keepsLink (run_download s)"
    and "work_finalizing answers calls (change (\<lambda>operation. operation\<lparr>dl_state := Finalizing\<rparr>) s) = (r, s')"
  shows "inv s'"
  using finalizing_step [OF _ _ _ assms(3)] assms(1,2) by (simp add: closing_state)

lemma writing_safe: "writing s \<Longrightarrow> safe s"
  unfolding writing_def by blast

lemma running_step:
  assumes w: "writing s" "\<not> keepsLink (run_download s)" "dl_state (run_download s) = Running"
    and mode: "asyncTransfer (run_download s) \<longleftrightarrow> opt_bigFileOptimized (dl_options (run_download s))"
    and run: "work_running answers calls s = (r, s')"
  shows "inv s'"
proof (cases "opt_bigFileOptimized (dl_options (run_download s))")
  case True
  note last = finalizing_change [OF writing_closing [OF w(1)] w(2)]
  show ?thesis
  proof (cases "async_state answers (run_server s)")
    case TransferRuns
    with True run have "s' = s" by (simp add: work_running_def)
    with w mode show ?thesis by (simp add: inv_def)
  next
    case TransferCompleted
    with True run have "work_finalizing answers calls (change (\<lambda>operation. operation\<lparr>dl_state := Finalizing\<rparr>) s) = (r, s')"
      by (simp add: work_running_def)
    then show ?thesis by (rule last)
  next
    case (TransferStopped failure)
    with True run have "enterErrorState answers calls (asyncTransferError failure) s = (r, s')" by (simp add: work_running_def)
    with error_inv safe_outcome writing_safe [OF w(1)] show ?thesis by blast
  qed
next
  case False
  obtain r1 s1 where read: "readOnceInStrand answers calls s = (r1, s1)" by (rule prod.exhaust)
  have "\<not> asyncTransfer (run_download s)" using mode False by simp
  note step = read_step [OF w(1,3) this read]
  show ?thesis
  proof (cases r1)
    case (Inl e)
    with False run read have "enterErrorState answers calls e s1 = (r, s')" by (simp add: work_running_def)
    with error_inv step Inl show ?thesis by auto
  next
    case (Inr goesOn)
    show ?thesis
    proof (cases goesOn)
      case True
      with False run read Inr have "s' = s1" by (simp add: work_running_def)
      with step Inr True w(2) False show ?thesis by (simp add: inv_def)
    next
      case ended: False
      with False run read Inr have "work_finalizing answers calls (change (\<lambda>operation. operation\<lparr>dl_state := Finalizing\<rparr>) s1) = (r, s')"
        by (simp add: work_running_def)
      from finalizing_change [OF _ _ this] step Inr ended w(2) show ?thesis by simp
    qed
  qed
qed

lemma start_step:
  assumes "writing s" and "startAsync answers s = (r, s')"
  shows "safe s' \<and> (r = Inr () \<longrightarrow> writing s' \<and> asyncTransfer (run_download s') \<and>
    (\<exists>srv. s' = change (\<lambda>operation. operation\<lparr>asyncTransfer := True\<rparr>) (s\<lparr>run_server := srv\<rparr>)))"
proof -
  obtain x srv where started: "readAsyncInStrand answers (entry_size (dl_entry (run_download s)) - resumeOffset (run_download s))
      (dl_buffer (run_download s)) (run_server s) = (x, srv)" by (rule prod.exhaust)
  let ?t = "change (\<lambda>operation. operation\<lparr>asyncTransfer := True\<rparr>) (s\<lparr>run_server := srv\<rparr>)"
  have run: "(\<exists>e. r = Inl e) \<and> (s' = s \<or> s' = s\<lparr>run_server := srv\<rparr>) \<or> r = Inr () \<and> s' = ?t"
    using assms(2) started by (cases x) (auto simp: startAsync_def chain_def lock_stream_def on_server_def split: if_splits)
  have safe: "safe s" by (rule writing_safe [OF assms(1)])
  obtain opened n where o: "localFile (run_download s) = Some opened" "written s opened n" "free s" "\<not> transferComplete (run_download s)"
    using assms(1) unfolding writing_def by blast
  then have "written ?t opened n" by (simp add: written_def)
  moreover have "safe ?t" "free ?t" using safe o(3) by (simp_all add: safe_def base_def free_def)
  ultimately have t: "writing ?t" "safe ?t" unfolding writing_def using o by auto
  from run show ?thesis
  proof
    assume "(\<exists>e. r = Inl e) \<and> (s' = s \<or> s' = s\<lparr>run_server := srv\<rparr>)"
    with safe show ?thesis by auto
  next
    assume "r = Inr () \<and> s' = ?t"
    with t show ?thesis by auto
  qed
qed

lemma prepared_step:
  assumes ready: "ready s" and run: "work_prepared answers calls s = (r, s')"
  shows "inv s'"
proof -
  let ?s = "change (\<lambda>operation. operation\<lparr>dl_state := Running\<rparr>) s"
  have running: "dl_state (run_download ?s) = Running" by simp
  show ?thesis
  proof (cases "keepsLink (run_download s)")
    case True
    then have s: "safe ?s" "localFile (run_download ?s) = None" using ready unopened_state by (auto simp: ready_def unopened_def)
    obtain r1 s1 where linked: "handleSymlinkInStrand answers calls ?s = (r1, s1)" by (rule prod.exhaust)
    note step = link_step [OF s(1) _ s(2) linked]
    show ?thesis
    proof (cases r1)
      case (Inl e)
      with True run linked have "enterErrorState answers calls e s1 = (r, s')" by (simp add: work_prepared_def Let_def)
      with error_inv step True show ?thesis by auto
    next
      case (Inr u)
      with True run linked have s': "s' = change (\<lambda>operation. operation\<lparr>dl_state := Completed\<rparr>) s1" by (simp add: work_prepared_def Let_def)
      have "finished s'" using step True Inr outcome_state brought_state unfolding s' finished_def by simp
      with step True s' show ?thesis by (simp add: inv_def)
    qed
  next
    case plain: False
    then have prep: "prepared s" using ready by (simp add: ready_def)
    show ?thesis
    proof (cases "transferComplete (run_download s)")
      case True
      with plain run have "s' = change (\<lambda>operation. operation\<lparr>dl_state := Finalizing\<rparr>) ?s" by (simp add: work_prepared_def Let_def)
      with prep plain True closing_state show ?thesis by (simp add: inv_def prepared_def)
    next
      case False
      with prep have w: "writing ?s" "\<not> asyncTransfer (run_download ?s)" by (simp_all add: prepared_def writing_state)
      show ?thesis
      proof (cases "opt_bigFileOptimized (dl_options (run_download s))")
        case small: False
        with plain False run have "work_running answers calls ?s = (r, s')" by (simp add: work_prepared_def Let_def)
        from running_step [OF w(1) _ running _ this] plain small w(2) show ?thesis by simp
      next
        case True
        obtain r1 s1 where started: "startAsync answers ?s = (r1, s1)" by (rule prod.exhaust)
        note step = start_step [OF w(1) started]
        show ?thesis
        proof (cases r1)
          case (Inl e)
          with plain False True run started have "enterErrorState answers calls e s1 = (r, s')" by (simp add: work_prepared_def Let_def)
          with error_inv safe_outcome step show ?thesis by blast
        next
          case (Inr u)
          with plain False True run started have "work_running answers calls s1 = (r, s')" by (simp add: work_prepared_def Let_def)
          from running_step [OF _ _ _ _ this] step Inr plain True show ?thesis by auto
        qed
      qed
    qed
  qed
qed

lemma preparing_step:
  assumes "unopened s" and run: "work_preparing answers calls s = (r, s')"
  shows "inv s'"
proof -
  obtain r1 s1 where prep: "prepareInStrand answers calls s = (r1, s1)" by (rule prod.exhaust)
  note step = holdsD [OF prepare_ready assms(1) prep]
  consider (refused) e where "enterErrorState answers calls e s = (r, s')" | (failed) e where "r1 = Inl e" "enterErrorState answers calls e s1 = (r, s')"
    | (on) "r1 = Inr ()" "work_prepared answers calls (change (\<lambda>operation. operation\<lparr>dl_state := Prepared\<rparr>) s1) = (r, s')"
    using run prep by (cases r1) (auto simp: work_preparing_def split: if_splits)
  then show ?thesis
  proof cases
    case refused
    with error_inv safe_outcome unopened_safe [OF assms(1)] show ?thesis by blast
  next
    case failed
    with error_inv [OF safe_outcome failed(2)] step show ?thesis by simp
  next
    case on
    let ?t = "change (\<lambda>operation. operation\<lparr>dl_state := Prepared\<rparr>) s1"
    have "prepared ?t = prepared s1" by (simp add: prepared_def closing_state writing_state)
    with step on have "ready ?t" by (simp add: ready_def unopened_state)
    then show ?thesis by (rule prepared_step [OF _ on(2)])
  qed
qed

lemma ready_outcome: "ready s \<Longrightarrow> outcome s"
  by (auto simp: ready_def prepared_def closing_def dest: unopened_safe writing_safe intro: safe_outcome split: if_splits)

lemma inv_outcome: "inv s \<Longrightarrow> outcome s"
  by (auto simp: inv_def finished_def closing_def dest: unopened_safe writing_safe ready_outcome intro: safe_outcome split: OperationState.splits)

lemma strand_inv:
  assumes "inv s" and run: "workInStrand answers calls s = (r, s')"
  shows "inv s'"
proof (cases "\<not> session_open answers (run_server s) \<and> \<not> hasEnded (dl_state (run_download s))")
  case True
  with run have "enterErrorState answers calls channelClosedError s = (r, s')" by (simp add: workInStrand_def)
  with error_inv inv_outcome [OF assms(1)] show ?thesis by blast
next
  case False
  let ?t = "change (\<lambda>operation. operation\<lparr>dl_state := Preparing\<rparr>) s"
  note run' = run [unfolded workInStrand_def if_not_P [OF False]]
  show ?thesis
  proof (cases "dl_state (run_download s)")
    case NotStarted
    with run' have "work_preparing answers calls ?t = (r, s')" by simp
    then show ?thesis using preparing_step [of ?t] assms(1) NotStarted unopened_state by (simp add: inv_def)
  next
    case Preparing
    with run' have "work_preparing answers calls s = (r, s')" by simp
    then show ?thesis using preparing_step [of s] assms(1) Preparing by (simp add: inv_def)
  next
    case Prepared
    with run' have "work_prepared answers calls s = (r, s')" by simp
    then show ?thesis using prepared_step [of s] assms(1) Prepared by (simp add: inv_def)
  next
    case Running
    with run' have "work_running answers calls s = (r, s')" by simp
    then show ?thesis using running_step [of s] assms(1) Running by (simp add: inv_def)
  next
    case Finalizing
    with run' have "work_finalizing answers calls s = (r, s')" by simp
    then show ?thesis using finalizing_step [of s] assms(1) Finalizing by (simp add: inv_def)
  qed (use run' assms(1) in simp_all)
qed

lemma work_inv:
  assumes "inv s" and run: "dl_work answers calls s = (r, s')"
  shows "inv s'"
proof -
  obtain r1 s1 where step: "workInStrand answers calls s = (r1, s1)" by (rule prod.exhaust)
  have "inv s1" by (rule strand_inv [OF assms(1) step])
  moreover have "(\<exists>e. enterErrorState answers calls e s = (r, s')) \<or> s' = s1 \<or> (\<exists>e. enterErrorState answers calls e s1 = (r, s'))"
    using run step by (auto simp: dl_work_def split: if_splits)
  ultimately show ?thesis using error_inv inv_outcome assms(1) by blast
qed

subsection \<open>The other calls\<close>

lemma unopened_write: "localFile (run_download s) = None \<Longrightarrow> commitBufferToFile answers calls data s =
    (False, snd (enterErrorState answers calls (plain_error TargetFileNotGood) (counted (length data) s) :: (OperationError + unit) \<times> _))"
  by (simp add: commitBufferToFile_def writeLocal_def counted_def Let_def)

text \<open>A piece of the reading task: while the operation runs it is the next one of the source.\<close>

lemma commit_inv:
  assumes "inv s" and async: "asyncTransfer (run_download s)" and fits: "piece (bytesInFile (run_download s)) data"
    and run: "commitBufferToFile answers calls data s = (ok, s')"
  shows "inv s'"
proof (cases "dl_state (run_download s) = Running")
  case False
  have none: "localFile (run_download s) = None" "outcome s"
    using assms(1,2) False inv_outcome [OF assms(1)]
    by (auto simp: inv_def ready_def prepared_def unopened_def split: OperationState.splits if_splits)
  let ?t = "counted (length data) s"
  have "base ?t" using outcome_base [OF none(2)] by (simp add: counted_def base_def)
  then have t: "outcome ?t" by (rule outcome_of [OF none(2)]) (simp_all add: counted_def)
  have s': "s' = snd (enterErrorState answers calls (plain_error TargetFileNotGood) ?t :: (OperationError + unit) \<times> _)"
    using run unopened_write [OF none(1)] by simp
  show ?thesis unfolding s' using error_inv [OF t prod.collapse [symmetric]] by blast
next
  case True
  then have w: "writing s" "\<not> keepsLink (run_download s)" "opt_bigFileOptimized (dl_options (run_download s))"
    using assms(1,2) by (simp_all add: inv_def)
  then obtain opened n where o: "safe s" "free s" "\<not> transferComplete (run_download s)" "localFile (run_download s) = Some opened" "written s opened n"
    unfolding writing_def by blast
  have "right n data" using o(5) fits pieces by (simp add: written_def)
  obtain good s1 where put: "writeLocal calls data s = (good, s1)" by (rule prod.exhaust)
  let ?t = "counted (length data) s1"
  note step = write_step [OF o \<open>right n data\<close> put]
  show ?thesis
  proof (cases good)
    case False
    with run put have s': "s' = snd (enterErrorState answers calls (plain_error TargetFileNotGood) ?t :: (OperationError + unit) \<times> _)"
      by (simp add: commitBufferToFile_def counted_def Let_def)
    show ?thesis unfolding s' using error_inv [OF safe_outcome [OF step(1)] prod.collapse [symmetric]] by blast
  next
    case True
    with run put have s': "s' = ?t" by (auto simp: commitBufferToFile_def counted_def Let_def)
    obtain opened' where o': "localFile (run_download s1) = Some opened'" "written ?t opened' (n + length data)" using step(5) True by blast
    obtain f where f: "run_download s1 = run_download s\<lparr>localFile := f\<rparr>" using step(4) by blast
    have kept: "localFile (run_download ?t) = Some opened'" "\<not> transferComplete (run_download ?t)" "asyncTransfer (run_download ?t)"
      "dl_state (run_download ?t) = Running" "keepsLink (run_download ?t) = keepsLink (run_download s)"
      "opt_bigFileOptimized (dl_options (run_download ?t)) = opt_bigFileOptimized (dl_options (run_download s))"
      using o' f o(3) async \<open>dl_state (run_download s) = Running\<close> by (simp_all add: counted_def)
    then have "writing ?t" using step(1,2) o'(2) unfolding writing_def by blast
    with kept w s' show ?thesis by (simp add: inv_def)
  qed
qed

lemma cancel_inv: "inv s \<Longrightarrow> inv (dl_cancel answers calls True s)"
  using cancel_outcome [OF inv_outcome, of s True] by (simp add: inv_def)

lemma writing_server: "writing s \<Longrightarrow> asyncTransfer (run_download s) \<Longrightarrow> writing (s\<lparr>run_server := srv\<rparr>)"
  by (simp add: writing_def free_def written_def)

lemma brought_server [simp]: "brought (s\<lparr>run_server := srv\<rparr>) = brought s"
  by (simp add: brought_def complete_def)

lemma outcome_server [simp]: "outcome (s\<lparr>run_server := srv\<rparr>) = outcome s"
  by (simp add: outcome_def base_def unchanged_def)

lemma server_inv:
  assumes "inv s" and "asyncTransfer (run_download s)"
  shows "inv (s\<lparr>run_server := srv\<rparr>)"
  using assms writing_server
  by (cases "dl_state (run_download s)") (auto simp: inv_def unopened_def ready_def prepared_def finished_def split: if_splits)

lemma pause_inv: "inv s \<Longrightarrow> inv (dl_pause answers doPause s)"
  by (simp add: dl_pause_def server_inv)

lemma keep_inv:
  assumes "inv s"
  shows "inv (change dl_keepPartialFiles s)"
proof -
  let ?t = "change dl_keepPartialFiles s"
  have link: "keepsLink (dl_keepPartialFiles (run_download s)) = keepsLink (run_download s)"
    and entry: "dl_entry (dl_keepPartialFiles (run_download s)) = dl_entry (run_download s)"
    by (simp_all add: dl_keepPartialFiles_def keepsLink_def dl_entry_def)
  have base: "base ?t = base s" by (simp add: dl_keepPartialFiles_def base_def)
  have safe: "safe ?t = safe s" by (simp add: safe_def base)
  have written: "written ?t = written s" by (intro ext) (simp add: dl_keepPartialFiles_def written_def)
  have writing: "writing ?t = writing s" by (simp add: writing_def safe free_def written) (simp add: dl_keepPartialFiles_def)
  have closing: "closing ?t = closing s" by (simp add: closing_def safe free_def) (simp add: dl_keepPartialFiles_def)
  have unopened: "unopened ?t = unopened s" by (simp add: unopened_def safe) (simp add: dl_keepPartialFiles_def)
  have outcome: "outcome ?t = outcome s" "brought ?t = brought s"
    by (simp_all add: outcome_def base unchanged_def brought_def complete_def link entry)
  have fields: "dl_state (dl_keepPartialFiles x) = dl_state x" "localFile (dl_keepPartialFiles x) = localFile x"
    "asyncTransfer (dl_keepPartialFiles x) = asyncTransfer x" "transferComplete (dl_keepPartialFiles x) = transferComplete x"
    "opt_bigFileOptimized (dl_options (dl_keepPartialFiles x)) = opt_bigFileOptimized (dl_options x)"
    "opt_symlinkHandling (dl_options (dl_keepPartialFiles x)) = opt_symlinkHandling (dl_options x)" for x
    by (simp_all add: dl_keepPartialFiles_def)
  have "ready ?t = ready s" by (simp add: ready_def prepared_def writing closing unopened link fields)
  moreover have "finished ?t = finished s" by (simp add: finished_def outcome link fields)
  ultimately have "inv ?t = inv s"
    by (cases "dl_state (run_download s)") (simp_all add: inv_def writing closing unopened outcome link fields)
  with assms show ?thesis by simp
qed

end

subsection \<open>Runs\<close>

text \<open>
  What happens to an operation: work steps, pieces of its reading task, cancels, pauses and a later decision to keep the
  partial file. While the task reads the server changes on its own. \<open>piece k data\<close> is what the task may hand over at byte \<open>k\<close>.
\<close>

inductive download_run :: "'srv StreamAnswers \<Rightarrow> 'disk LocalCalls \<Rightarrow> (u64 \<Rightarrow> string \<Rightarrow> bool) \<Rightarrow> ('srv, 'disk) DownloadRun \<Rightarrow>
    ('srv, 'disk) DownloadRun \<Rightarrow> bool" for answers calls piece s where
  begins: "download_run answers calls piece s s"
| works: "download_run answers calls piece s t \<Longrightarrow> dl_work answers calls t = (r, t') \<Longrightarrow> download_run answers calls piece s t'"
| commits: "download_run answers calls piece s t \<Longrightarrow> asyncTransfer (run_download t) \<Longrightarrow> piece (bytesInFile (run_download t)) data \<Longrightarrow>
    commitBufferToFile answers calls data t = (ok, t') \<Longrightarrow> download_run answers calls piece s t'"
| reads: "download_run answers calls piece s t \<Longrightarrow> asyncTransfer (run_download t) \<Longrightarrow> download_run answers calls piece s (t\<lparr>run_server := srv\<rparr>)"
| cancels: "download_run answers calls piece s t \<Longrightarrow> download_run answers calls piece s (dl_cancel answers calls True t)"
| pauses: "download_run answers calls piece s t \<Longrightarrow> download_run answers calls piece s (dl_pause answers doPause t)"
| keeps: "download_run answers calls piece s t \<Longrightarrow> download_run answers calls piece s (change dl_keepPartialFiles t)"

definition download_begin :: "DownloadOptions \<Rightarrow> 'srv \<Rightarrow> 'disk \<Rightarrow> ('srv, 'disk) DownloadRun" where
  "download_begin options srv d = \<lparr>run_download = DownloadOperation_new options, run_server = srv, run_disk = d\<rparr>"

definition destination_of :: "DownloadOptions \<Rightarrow> string" where
  "destination_of options = localNativePath (DownloadOperation_new options)"

definition partial_of :: "DownloadOptions \<Rightarrow> string" where
  "partial_of options = tempNativePath (DownloadOperation_new options)"

text \<open>A destination below clean names, no directory of the cache a link, and not the mode that writes to the destination.\<close>

definition guarded :: "('disk \<Rightarrow> string \<Rightarrow> bool) \<Rightarrow> DownloadOptions \<Rightarrow> 'disk \<Rightarrow> bool" where
  "guarded islink options d \<longleftrightarrow> \<not> local_empty (opt_localPath options) \<and> \<not> opt_unsafeFastMode options \<and>
     names_clean (opt_linkFreeRoot options) (partial_of options) \<and>
     (case opt_verifiedDirectories options of None \<Rightarrow> True | Some vs \<Rightarrow> list_all (\<lambda>p. \<not> islink d p) vs)"

lemma guarded_paths:
  assumes "guarded islink options d"
  shows "partial_of options \<noteq> destination_of options" and "partial_of options \<noteq> []"
  using assms by (auto simp: guarded_def partial_of_def destination_of_def DownloadOperation_new_def Let_def effectiveTempFileSuffix_def
      split: if_splits)

context download_world begin

lemma run_inv: "download_run answers calls piece s t \<Longrightarrow> inv s \<Longrightarrow> inv t"
proof (induction rule: download_run.induct)
  case (works t r t')
  with work_inv show ?case by blast
next
  case (commits t data ok t')
  with commit_inv show ?case by blast
qed (simp_all add: server_inv cancel_inv pause_inv keep_inv)

lemma begin_inv:
  assumes "guarded islink options start" and "partial_of options = temp" and "destination_of options = dest"
    and "opt_linkFreeRoot options = root" and "opt_reserveSpace options = reserve" and "opt_mayOverwrite options = over"
    and "opt_tryContinue options = resume"
  shows "inv (download_begin options srv start)"
  using assms
  by (auto simp: inv_def unopened_def safe_def base_def download_begin_def DownloadOperation_new_def partial_of_def destination_of_def
      guarded_def Let_def only_at_refl list_all_iff)

lemma run_outcome:
  assumes "guarded islink options start" and "partial_of options = temp" and "destination_of options = dest"
    and "opt_linkFreeRoot options = root" and "opt_reserveSpace options = reserve" and "opt_mayOverwrite options = over"
    and "opt_tryContinue options = resume" and "download_run answers calls piece (download_begin options srv start) s"
  shows "outcome s" and "dl_state (run_download s) = Completed \<Longrightarrow> finished s"
proof -
  have "inv s" using run_inv [OF assms(8) begin_inv [OF assms(1-7)]] .
  then show "outcome s" "dl_state (run_download s) = Completed \<Longrightarrow> finished s" using inv_outcome by (simp_all add: inv_def)
qed

end

subsection \<open>Any server\<close>

text \<open>C1:
  A run of a guarded download: one in the normal mode and not in the unsafe fast mode, which writes to the destination
  itself, with a local path set, clean names on the way below the link free root, and no directory of its cache of verified
  directories a link. Whatever the server answers and whichever calls of the system fail under the laws of \<open>local_files\<close>, the
  run leaves every path but the partial file and the destination as it was. The destination is as it was, or is the link
  of a download of a link, or a file of the listed size; without leave to overwrite what was there stays. A completed
  download has brought its link or file, unless it skips a link.
\<close>

theorem download_spares_destination:
  assumes "local_files calls content islink" and "guarded islink options d"
    and "download_run answers calls piece (download_begin options srv d) s"
  shows "only_at content islink {partial_of options, destination_of options} d (run_disk s) \<and>
    (let kept = content (run_disk s) (destination_of options) = content d (destination_of options) \<and>
           islink (run_disk s) (destination_of options) = islink d (destination_of options);
         brought = (if keepsLink (run_download s) then islink (run_disk s) (destination_of options)
           else \<not> islink (run_disk s) (destination_of options) \<and> (\<exists>c. content (run_disk s) (destination_of options) = Some c \<and>
             entry_size (dl_entry (run_download s)) = of_nat (length c) \<and> length c < 2 ^ 64)) in
     (kept \<or> brought) \<and>
     (\<not> opt_mayOverwrite options \<and> (content d (destination_of options) \<noteq> None \<or> islink d (destination_of options)) \<longrightarrow> kept) \<and>
     (dl_state (run_download s) = Completed \<longrightarrow> brought \<or>
        keepsLink (run_download s) \<and> opt_symlinkHandling (dl_options (run_download s)) = SkipSymlink))"
proof -
  have world: "download_world calls content islink answers (\<lambda>_ _. True) (\<lambda>_ _. True) (\<lambda>_ _. True) piece
      (partial_of options) (destination_of options) (opt_linkFreeRoot options)
      (opt_reserveSpace options) (opt_tryContinue options) d"
    using guarded_paths [OF assms(2)] assms(2) by (intro download_world.intro assms(1) download_world_axioms.intro) (simp_all add: guarded_def)
  note last = download_world.run_outcome [OF world assms(2) refl refl refl refl refl refl assms(3)]
  note defs = download_world.outcome_def [OF world] download_world.finished_def [OF world] download_world.unchanged_def [OF world]
    download_world.brought_def [OF world] download_world.complete_def [OF world] download_world.base_def [OF world]
  from last(1) last(2) show ?thesis unfolding defs Let_def simp_thms by blast
qed

end
