(* ===== verification/Download_Source.thy ===== *)
theory Download_Source
  imports Download_Runs
begin

text \<open>
  A download of a fixed source: what a completed download holds, and how a failed last write completes one. A server that
  keeps its file in memory is the instance of the laws of \<open>Download_Safety\<close>, and the one of the witnesses.
\<close>

subsection \<open>A fixed source\<close>

text \<open>The open stream stands at \<open>place\<close> and reads what the source has there.\<close>

definition streams_source :: "'srv StreamAnswers \<Rightarrow> ('srv \<Rightarrow> nat) \<Rightarrow> string \<Rightarrow> bool" where
  "streams_source answers place source \<longleftrightarrow>
     (\<forall>path srv srv'. openFileInStrand answers path srv = (Inr (), srv') \<longrightarrow> place srv' = 0) \<and>
     (\<forall>srv r srv'. stream_stat answers srv = (r, srv') \<longrightarrow> place srv' = place srv) \<and>
     (\<forall>bytes limit srv n srv'. lease_buffer answers bytes limit srv = (n, srv') \<longrightarrow> place srv' = place srv) \<and>
     (\<forall>to srv srv'. stream_seek answers to srv = (Inr (), srv') \<longrightarrow> place srv' = unat to) \<and>
     (\<forall>limit srv data srv'. stream_read answers limit srv = (Inr data, srv') \<longrightarrow>
        data = take (length data) (drop (place srv) source) \<and> place srv' = place srv + length data)"

definition at_source :: "string \<Rightarrow> nat \<Rightarrow> string \<Rightarrow> bool" where
  "at_source source n data \<longleftrightarrow> n + length data \<le> length source \<and> data = take (length data) (drop n source)"

text \<open>A partial file whose last bytes, 64 KiB at most, are those of the source at the same place.\<close>

definition resumable :: "string \<Rightarrow> string option \<Rightarrow> string \<Rightarrow> bool" where
  "resumable source partial old \<longleftrightarrow> partial = Some old \<and>
     (let start = length old - min (length old) (unat comparedBytes) in at_source source start (drop start old))"

definition from_source :: "string \<Rightarrow> string option \<Rightarrow> string \<Rightarrow> nat \<Rightarrow> bool" where
  "from_source source partial c n \<longleftrightarrow> n \<le> length source \<and> n \<le> length c \<and> (\<exists>old. (old = [] \<or> resumable source partial old) \<and>
     length old \<le> n \<and> take n c = old @ take (n - length old) (drop (length old) source))"

lemma at_source_append: "at_source source n data \<Longrightarrow> at_source source (n + length data) further \<Longrightarrow> at_source source n (data @ further)"
  by (auto simp: at_source_def take_add add.commute [of n])

lemma overwrite_take: "n \<le> length c \<Longrightarrow> take (n + length data) (overwrite c n data) = take n c @ data"
  by (simp add: overwrite_def)

lemma from_source_write:
  assumes "from_source source partial c n" and "n \<le> length c" and "at_source source n data"
  shows "from_source source partial (overwrite c n data) (n + length data)"
proof -
  obtain old where old: "old = [] \<or> resumable source partial old" "length old \<le> n" "take n c = old @ take (n - length old) (drop (length old) source)"
    using assms(1) by (auto simp: from_source_def)
  have "take (n + length data - length old) (drop (length old) source) =
      take (n - length old) (drop (length old) source) @ take (length data) (drop n source)"
    using old(2) take_add [of "n - length old" "length data" "drop (length old) source"] by (simp add: add.commute)
  with assms old have "take (n + length data) (overwrite c n data) = old @ take (n + length data - length old) (drop (length old) source)"
    by (simp add: overwrite_take at_source_def)
  moreover have "n + length data \<le> length (overwrite c n data)" using assms(2) by (simp add: overwrite_def)
  ultimately show ?thesis using assms(3) old(1,2) by (auto simp: from_source_def at_source_def)
qed

lemma resumable_length: "resumable source partial old \<Longrightarrow> length old \<le> length source"
  by (auto simp: resumable_def at_source_def Let_def)

text \<open>These are the laws of a download.\<close>

lemma source_world:
  assumes "local_files calls content islink" and "streams_source answers place source" and "length source < 2 ^ 64"
    and "reserve \<Longrightarrow> \<forall>p pos data d. fst (sys_write calls p pos data d)"
    and "temp \<noteq> dest" and "temp \<noteq> []" and "names_clean root temp"
  shows "download_world calls content islink answers (\<lambda>srv n. place srv = n) (at_source source)
    (from_source source (if resume then content start temp else None)) (\<lambda>k. at_source source (unat k)) temp dest root reserve resume start"
proof (intro download_world.intro assms(1) download_world_axioms.intro)
  fix srv n limit data srv'
  assume "place srv = n" "stream_read answers limit srv = (Inr data, srv')"
  then have read: "data = take (length data) (drop n source)" "place srv' = n + length data" using assms(2) by (auto simp: streams_source_def)
  then have "length data \<le> length source - n" by (metis length_drop length_take min.cobounded1)
  then have "data \<noteq> [] \<Longrightarrow> n + length data \<le> length source" by (cases data) auto
  with read show "(data = [] \<or> at_source source n data) \<and> place srv' = n + length data" unfolding at_source_def by blast
next
  fix c :: string
  let ?m = "min (length c) (unat comparedBytes)"
  assume "resume" "content start temp = Some c" "c \<noteq> []" "at_source source (length c - ?m) (drop (length c - ?m) c)"
  then have "resumable source (if resume then content start temp else None) c" by (simp add: resumable_def Let_def)
  with resumable_length [OF this] show "at_source source (length c) [] \<and>
      from_source source (if resume then content start temp else None) c (length c)"
    unfolding at_source_def [of source "length c"] from_source_def by (intro conjI exI [of _ c]) auto
next
  fix n :: nat
  fix data :: string
  assume n: "at_source source n []" and fits: "at_source source (unat (of_nat n :: u64)) data"
  have "unat (of_nat n :: u64) = n" using n assms(3) by (simp add: at_source_def unat_of_nat)
  with fits show "at_source source n data" by simp
next
  fix c and n data
  assume "from_source source (if resume then content start temp else None) c n" "n \<le> length c" "at_source source n data"
  then show "from_source source (if resume then content start temp else None) (overwrite c n data) (n + length data)"
    by (rule from_source_write)
next
  fix n data further
  assume "at_source source n data" "at_source source (n + length data) further"
  then show "at_source source n (data @ further)" by (rule at_source_append)
qed (use assms in \<open>auto simp: streams_source_def at_source_def from_source_def\<close>)

subsection \<open>A server with its file in memory\<close>

text \<open>The state is the place of the open stream. A buffer holds two bytes.\<close>

definition memory_answers :: "string \<Rightarrow> nat StreamAnswers" where
  "memory_answers source = (let entry = root_entry\<lparr>entry_type := Regular, entry_size := of_nat (length source)\<rparr> in
     \<lparr>session_open = (\<lambda>_. True), in_time = (\<lambda>_. True), listDirectory = (\<lambda>_ srv. (Inr [], srv)),
      lstatInStrand = (\<lambda>_ srv. (Inr entry, srv)), readLinkInStrand = (\<lambda>_ srv. (Inr [], srv)),
      removeFileInStrand = (\<lambda>_ srv. (Inr (), srv)), removeDirectoryInStrand = (\<lambda>_ srv. (Inr (), srv)),
      renameNoReplaceInStrand = (\<lambda>_ _ srv. (Inr (), srv)), readRemoteFile = (\<lambda>_ srv. (None, srv)),
      readLinkDeepInStrand = (\<lambda>path srv. (Inr \<lparr>deep_linkContent = [], deep_linkTarget = path, deep_targetInfo = None\<rparr>, srv)),
      openFileInStrand = (\<lambda>_ srv. (Inr (), 0)), stream_alive = (\<lambda>_. True), stream_stat = (\<lambda>srv. (Inr entry, srv)),
      stream_seek = (\<lambda>to srv. (Inr (), unat to)),
      stream_read = (\<lambda>limit srv. let data = take limit (drop srv source) in (Inr data, srv + length data)),
      stream_close = (\<lambda>srv. srv), readLengthLimit = (\<lambda>_. 2), lease_buffer = (\<lambda>_ limit srv. (limit, srv)),
      readAsyncInStrand = (\<lambda>_ _ srv. (Inr (), srv)),
      async_state = (\<lambda>srv. if srv < length source then TransferRuns else TransferCompleted),
      async_cancel = (\<lambda>srv. srv), async_pause = (\<lambda>_ srv. srv)\<rparr>)"

lemma memory_streams: "streams_source (memory_answers source) id source"
  by (auto simp: streams_source_def memory_answers_def Let_def min_def)

definition sample_download :: DownloadOptions where
  "sample_download = \<lparr>opt_remotePath = remote_of [''f''], opt_localPath = \<lparr>local_value = ''/d/f'', local_rootLength = 1, local_platform = Posix\<rparr>,
     opt_tempFileSuffix = [], opt_mayOverwrite = True, opt_reserveSpace = True, opt_tryContinue = False, opt_inheritPermissions = False,
     opt_doCleanup = False, opt_bigFileOptimized = False, opt_filePermissions = None, opt_symlinkHandling = AsSymlink, opt_entry = None,
     opt_createMissingDirectories = False, opt_markAsDownloaded = False, opt_linkFreeRoot = unset_local, opt_verifiedDirectories = None,
     opt_comparedDestination = None, opt_unsafeFastMode = False\<rparr>"

text \<open>A run of \<open>n\<close> work steps on a disk with an old file at the destination and some room.\<close>

definition room_disk :: "nat \<Rightarrow> FileDisk" where
  "room_disk room = \<lparr>disk_nodes = [(''/d'', DirectoryNode), (''/d/f'', FileNode ''old'')], disk_room = room\<rparr>"

definition sample_run :: "DownloadOptions \<Rightarrow> nat \<Rightarrow> nat \<Rightarrow> (nat, FileDisk) DownloadRun" where
  "sample_run options room n = ((\<lambda>s. snd (dl_work (memory_answers ''abc'') disk_calls s)) ^^ n)
     (download_begin options 0 (room_disk room))"

text \<open>The laws of a download hold for this server and disk.\<close>

interpretation memory_download: download_world disk_calls disk_content disk_islink "memory_answers ''abc''" "\<lambda>srv n. id srv = n"
    "at_source ''abc''" "from_source ''abc'' (if True then disk_content (room_disk 9) ''/d/f.filepart'' else None)"
    "\<lambda>k. at_source ''abc'' (unat k)" "''/d/f.filepart''" "''/d/f''" unset_local False True True "room_disk 9"
  by (rule source_world [OF file_disk.local_files_axioms memory_streams]) (simp_all add: names_clean_def local_empty_def unset_local_def)

lemma sample_runs: "download_run (memory_answers ''abc'') disk_calls piece (sample_run options room 0) (sample_run options room n)"
proof (induction n)
  case 0
  show ?case by (rule download_run.begins)
next
  case (Suc n)
  have "sample_run options room (Suc n) = snd (dl_work (memory_answers ''abc'') disk_calls (sample_run options room n))" by (simp add: sample_run_def)
  then show ?case using download_run.works [OF Suc prod.collapse [symmetric]] by simp
qed

lemma sample_ends:
  "dl_state (run_download (sample_run sample_download 9 2)) = Completed"
  "disk_content (run_disk (sample_run sample_download 9 2)) ''/d/f'' = Some ''abc''"
  by code_simp+

lemma sample_plain:
  "dl_state (run_download (sample_run (sample_download\<lparr>opt_reserveSpace := False\<rparr>) 9 2)) = Completed"
  "\<not> keepsLink (run_download (sample_run (sample_download\<lparr>opt_reserveSpace := False\<rparr>) 9 2))"
  by code_simp+

lemma sample_guarded: "guarded disk_islink (sample_download\<lparr>opt_reserveSpace := reserve\<rparr>) d" "guarded disk_islink sample_download d"
  by (simp_all add: guarded_def sample_download_def local_empty_def names_clean_def unset_local_def)

lemma sample_paths: "partial_of sample_download = ''/d/f.filepart''" "destination_of sample_download = ''/d/f''"
  by code_simp+

theorem download_spares_destination_witness:
  "only_at disk_content disk_islink {''/d/f.filepart'', ''/d/f''} (room_disk 9) (run_disk (sample_run sample_download 9 2)) \<and>
   disk_content (run_disk (sample_run sample_download 9 2)) ''/d/f'' = Some ''abc''"
proof -
  have run: "download_run (memory_answers ''abc'') disk_calls (\<lambda>_ _. True) (download_begin sample_download 0 (room_disk 9)) (sample_run sample_download 9 2)"
    using sample_runs [of _ sample_download 9 2] by (simp add: sample_run_def)
  from download_spares_destination [OF file_disk.local_files_axioms sample_guarded(2) run] sample_ends(2) show ?thesis
    unfolding sample_paths by blast
qed

text \<open>C2:
  A completed download of a file (not of a link that is kept as a link), guarded as before, so in the normal mode and not in
  the unsafe fast mode, from a server that answers from a fixed source, has left a start of the source of the listed size at
  the destination; only a partial file it went on with is not compared but for its last 64 KiB. This needs that no write
  fails when the space is reserved.
\<close>

theorem download_brings_source:
  assumes "local_files calls content islink" and "guarded islink options d" and "streams_source answers place source"
    and "length source < 2 ^ 64" and "opt_reserveSpace options \<Longrightarrow> \<forall>p pos data d. fst (sys_write calls p pos data d)"
    and "download_run answers calls (\<lambda>k. at_source source (unat k)) (download_begin options srv d) s"
    and "dl_state (run_download s) = Completed" and "\<not> keepsLink (run_download s)"
  shows "\<exists>c old. content (run_disk s) (destination_of options) = Some c \<and> entry_size (dl_entry (run_download s)) = of_nat (length c) \<and>
    length c \<le> length source \<and> c = old @ take (length c - length old) (drop (length old) source) \<and>
    (old = [] \<or> opt_tryContinue options \<and> resumable source (content d (partial_of options)) old)"
proof -
  have world: "download_world calls content islink answers (\<lambda>srv n. place srv = n) (at_source source)
      (from_source source (if opt_tryContinue options then content d (partial_of options) else None)) (\<lambda>k. at_source source (unat k))
      (partial_of options) (destination_of options) (opt_linkFreeRoot options) (opt_reserveSpace options) (opt_tryContinue options) d"
    by (rule source_world [OF assms(1,3,4) _ guarded_paths [OF assms(2)]]) (use assms(2,5) in \<open>simp_all add: guarded_def\<close>)
  have "download_world.finished content islink (from_source source (if opt_tryContinue options then content d (partial_of options) else None))
      (partial_of options) (destination_of options) (opt_linkFreeRoot options) (opt_reserveSpace options) (opt_mayOverwrite options)
      (opt_tryContinue options) d s"
    by (rule download_world.run_outcome(2) [OF world assms(2) refl refl refl refl refl refl assms(6,7)])
  then obtain c where c: "content (run_disk s) (destination_of options) = Some c" "entry_size (dl_entry (run_download s)) = of_nat (length c)"
    "from_source source (if opt_tryContinue options then content d (partial_of options) else None) c (length c)"
    using assms(8) unfolding download_world.finished_def [OF world] download_world.brought_def [OF world] download_world.complete_def [OF world] by auto
  from c(3) obtain old where old: "old = [] \<or> resumable source (if opt_tryContinue options then content d (partial_of options) else None) old"
    "length c \<le> length source" "take (length c) c = old @ take (length c - length old) (drop (length old) source)" by (auto simp: from_source_def)
  from old(1) have "old = [] \<or> opt_tryContinue options \<and> resumable source (content d (partial_of options)) old"
    by (cases "opt_tryContinue options") (auto simp: resumable_def)
  with c(1,2) old(2,3) show ?thesis by (intro exI [of _ c] exI [of _ old]) simp
qed

theorem download_brings_source_witness:
  "\<exists>c old. disk_content (run_disk (sample_run (sample_download\<lparr>opt_reserveSpace := False\<rparr>) 9 2)) ''/d/f'' = Some c \<and>
     c = old @ take (length c - length old) (drop (length old) ''abc'') \<and> old = []"
proof -
  let ?options = "sample_download\<lparr>opt_reserveSpace := False\<rparr>"
  have run: "download_run (memory_answers ''abc'') disk_calls (\<lambda>k. at_source ''abc'' (unat k)) (download_begin ?options 0 (room_disk 9)) (sample_run ?options 9 2)"
    using sample_runs [of _ ?options 9 2] by (simp add: sample_run_def)
  have "destination_of ?options = ''/d/f''" "\<not> opt_tryContinue ?options" by code_simp+
  with download_brings_source [OF file_disk.local_files_axioms sample_guarded(1) memory_streams _ _ run sample_plain] show ?thesis by auto
qed

subsection \<open>A failed last write\<close>

lemma error_keeping:
  assumes "\<not> asyncTransfer (run_download s)" and "\<not> opt_doCleanup (dl_options (run_download s))" and "\<not> openedDestination (run_download s)"
  shows "snd (enterErrorState answers calls e s) =
    \<lparr>run_download = (run_download s)\<lparr>dl_state := Failed, dl_error := Some e, localFile := None\<rparr>,
     run_server = (if fileStream (run_download s) \<and> stream_alive answers (run_server s) then stream_close answers (run_server s) else run_server s),
     run_disk = run_disk s\<rparr>"
  using assms by (intro DownloadRun.equality) (simp_all add: enterErrorState_def dl_cancel_def cleanup_def Let_def)

text \<open>C23:
  A write that fails makes the step enter the error state, yet when it was the last piece, the space was reserved and the
  partial file is kept, the same step goes on to finish: the size is the listed one and the bytes were counted, so the
  file moves to the destination and the download completes with the error of the failed write on it.
\<close>

theorem failed_last_write_completes:
  assumes "session_open answers (run_server s)" and "dl_state (run_download s) = Running"
    and "\<not> opt_bigFileOptimized (dl_options (run_download s))" and "\<not> asyncTransfer (run_download s)"
    and "\<not> opt_doCleanup (dl_options (run_download s))" and "\<not> opt_inheritPermissions (dl_options (run_download s))"
    and "\<not> unsafeFast (run_download s)" and "\<not> openedDestination (run_download s)"
    and "entry_size (dl_entry (run_download s)) \<noteq> 0" and "fileStream (run_download s)" and "stream_alive answers (run_server s)"
    and "localFile (run_download s) = Some opened"
    and "stream_read answers (dl_buffer (run_download s)) (run_server s) = (Inr data, srv)" and "data \<noteq> []"
    and "sys_write calls (open_path opened) (open_position opened) data (run_disk s) = (False, d)"
    and "bytesInFile (run_download s) + of_nat (length data) = entry_size (dl_entry (run_download s))"
    and "sys_fileSize calls (tempNativePath (run_download s)) d = Inr (entry_size (dl_entry (run_download s)))"
    and "sys_setModified calls (tempNativePath (run_download s)) (entry_mtime (dl_entry (run_download s)))
      (entry_mtimeNsec (dl_entry (run_download s))) d = (stamped, ds)"
    and "\<And>permissions. sys_permissions calls (tempNativePath (run_download s)) permissions ds = (Inr (), dp)"
    and "moveLocalIntoPlace calls (tempNativePath (run_download s)) (localNativePath (run_download s))
      (opt_mayOverwrite (dl_options (run_download s))) (opt_comparedDestination (dl_options (run_download s))) dp = (Inr (), dm)"
  shows "\<exists>s'. workInStrand answers calls s = (Inr Complete, s') \<and> dl_state (run_download s') = Completed \<and>
    dl_error (run_download s') = Some (plain_error TargetFileNotGood) \<and> run_disk s' = dm"
proof -
  let ?temp = "tempNativePath (run_download s)"
  define srv2 where "srv2 = (if stream_alive answers srv then stream_close answers srv else srv)"
  let ?t = "\<lparr>run_download = (run_download s)\<lparr>localFile := None, bytesInFile := entry_size (dl_entry (run_download s)), dl_state := Finalizing,
      dl_error := Some (plain_error TargetFileNotGood)\<rparr>,
    run_server = srv2, run_disk = d\<rparr>"
  have put: "writeLocal calls data (s\<lparr>run_server := srv\<rparr>) = (False, change (\<lambda>operation. operation\<lparr>localFile := Some
      (opened\<lparr>open_position := map_option (\<lambda>n. n + length data) (open_position opened)\<rparr>)\<rparr>) (s\<lparr>run_server := srv, run_disk := d\<rparr>))"
    by (simp add: writeLocal_def assms(12,15))
  have read: "readOnceInStrand answers calls s = (Inr False, change (\<lambda>operation. operation\<lparr>dl_state := Failed\<rparr>) ?t)"
    by (simp add: readOnceInStrand_def Let_def on_server_def assms(2,4,5,8-14,16) put error_keeping srv2_def)
  have "finalizeInStrand answers calls ?t = (Inr (), ?t\<lparr>run_disk := dm\<rparr>)"
    using assms by (simp add: finalizeInStrand_def finishWritten_def finalPermissionsInStrand_def Let_def writtenNativePath_def chain_def on_disk_def change_def)
  then have fin: "work_finalizing answers calls ?t = (Inr Complete, change (\<lambda>operation. operation\<lparr>dl_state := Completed\<rparr>) (?t\<lparr>run_disk := dm\<rparr>))"
    by (simp add: work_finalizing_def)
  have same: "change (\<lambda>operation. operation\<lparr>dl_state := Finalizing\<rparr>) (change (\<lambda>operation. operation\<lparr>dl_state := Failed\<rparr>) ?t) = ?t"
    by (simp add: change_def)
  have "work_running answers calls s = (Inr Complete, change (\<lambda>operation. operation\<lparr>dl_state := Completed\<rparr>) (?t\<lparr>run_disk := dm\<rparr>))"
    using assms(3) by (simp only: work_running_def read same fin if_True if_False simp_thms prod.case sum.case)
  then show ?thesis using assms(1,2) by (simp add: workInStrand_def)
qed

text \<open>The disk is full when the last byte is written: the destination gets a zero for it.\<close>

lemma sample_failing: "disk_content (run_disk (sample_run sample_download 3 2)) ''/d/f'' = Some (''ab'' @ [CHR 0x00])"
  by code_simp

theorem failed_last_write_completes_witness:
  "\<exists>s'. workInStrand (memory_answers ''abc'') disk_calls (sample_run sample_download 3 1) = (Inr Complete, s') \<and>
     dl_state (run_download s') = Completed \<and> dl_error (run_download s') = Some (plain_error TargetFileNotGood) \<and>
     disk_content (run_disk s') ''/d/f'' = Some (''ab'' @ [CHR 0x00])"
proof -
  let ?s = "sample_run sample_download 3 1"
  let ?d = "snd (sys_write disk_calls ''/d/f.filepart'' (Some 2) ''c'' (run_disk ?s))"
  let ?dm = "snd (moveLocalIntoPlace disk_calls ''/d/f.filepart'' ''/d/f'' True None ?d)"
  have "\<exists>s'. workInStrand (memory_answers ''abc'') disk_calls ?s = (Inr Complete, s') \<and> dl_state (run_download s') = Completed \<and>
      dl_error (run_download s') = Some (plain_error TargetFileNotGood) \<and> run_disk s' = ?dm"
  proof (rule failed_last_write_completes [where opened = "\<lparr>open_path = ''/d/f.filepart'', open_position = Some 2\<rparr>" and data = "''c''" and srv = 3
        and d = ?d and ds = ?d and dp = ?d and stamped = "Inr ()"])
    show "sys_permissions disk_calls (tempNativePath (run_download ?s)) permissions ?d = (Inr (), ?d)" for permissions
      by (simp add: disk_calls_def)
  qed code_simp+
  moreover have "disk_content ?dm ''/d/f'' = Some (''ab'' @ [CHR 0x00])" by code_simp
  ultimately show ?thesis by metis
qed

end
