(* ===== verification/Spec2Isabelle.thy ===== *)
theory Spec2Isabelle
  imports Case_Fold Sync_Scan Ignore_Rules Enqueue_Minimizer Diff_Plans Tar_Archive
    Server_Order Pending_Uploads Remote_Delete_Guard Recursive_Delete Operation_Queue Local_Queue Download_Source
begin

text \<open>
  nui-sftp is an SFTP client: a backend with SSH sessions and file operations, and a frontend that lists, compares and
  transfers. This library models the parts of it that decide something: what a name or a path is, what a scan of a tree
  contains, what a sync does with two trees, what an archive holds, what may be deleted, and in which order operations
  run. The definitions follow the sources under \<open>src/\<close> function by function and compute, so that examples are evaluated
  with \<open>code_simp\<close>; this theory only collects the others.

  How the parts of the program interact. A listing (local disk or server) gives names; \<open>paths/\<close> accepts or refuses them and
  joins them to paths. The walkers of \<open>utility/directory_traversal.hpp\<close> and \<open>sync/tree_directory_walker.hpp\<close> turn listings
  into a flat list of entries or a scan tree. \<open>sync/diff.cpp\<close> compares two scan trees under the keys of \<open>case_fold.cpp\<close>,
  \<open>diff_tree_store.cpp\<close> keeps the rows of the result and turns a selection into a plan, \<open>enqueue_minimizer.cpp\<close> and
  \<open>ignore_rules.cpp\<close> narrow it down. A plan becomes operations of \<open>sftp/operation_queue.cpp\<close> (on the server) or
  \<open>local_operation_queue.cpp\<close> (on the disk), both behind a guard that spares home directories. The file tracker decides the
  order of what it sends with the state machines of \<open>tracking_state.hpp\<close>. A download of the queue writes a partial file next
  to its destination and moves it into place when it has the listed size. \<open>tar-archive/\<close> is the format of archive transfers.
\<close>

subsection \<open>Theories and sources\<close>

text \<open>
  Texts and paths.
  \<^item> \<open>Nui_Prelude\<close>: words and lists the components share, prefixes, splitting and joining at separators.
  \<^item> \<open>Utf8\<close>: \<open>paths/utf8.hpp\<close>, \<open>utility/utf8.cpp\<close>. Decoding and encoding as the C++ does it, with bit operations on bytes.
    Lemmas: validity, round trips, sanitizing and truncation.
  \<^item> \<open>Path_Segments\<close>: \<open>paths/path_error.hpp\<close>, \<open>path_segment.hpp\<close>, \<open>relative_path.hpp\<close>, \<open>local_path_segment.hpp\<close>.
  \<^item> \<open>Remote_Path\<close>, \<open>Local_Path\<close>: the two absolute path classes. Their lemmas refine every operation on the text to the
    operation on a list of names and show that a join cannot leave its base.
  \<^item> \<open>Common_Parent\<close>: \<open>paths/common_parent.hpp\<close>, proved in the locale \<open>rooted_paths\<close>, which both path classes interpret.
  \<^item> \<open>Case_Fold\<close>: \<open>sync/case_fold.cpp\<close> with the lower case mapping of \<open>utility/fuzzy_search.cpp\<close>.

  Scans and comparing.
  \<^item> \<open>Scan_Tree\<close>, \<open>Tree_Walker\<close>: the nodes of a scan and the walk that builds them; the walk with its queue of pointers is
    shown to terminate with the tree the recursive reading of the scanner gives, and what a tree promises of the listings
    behind it is stated for every node by its path.
  \<^item> \<open>Deep_Walker\<close>: the flat walk of \<open>utility/directory_traversal.hpp\<close>.
  \<^item> \<open>Sync_Diff\<close>: \<open>sync/diff.cpp\<close>. The reference is a decision per name, read off both directories; where a decision was made
    and the safety of transfers follow from it.
  \<^item> \<open>Sync_Scan\<close>: the diff of the trees of two completed walks: a delete is backed by the listings of both sides.
  \<^item> \<open>Diff_Store\<close>, \<open>Store_Finalize\<close>, \<open>Diff_Sections\<close>, \<open>Diff_Plans\<close>: \<open>sync/diff_tree_store.cpp\<close>: its state, what \<open>finalize\<close>
    builds, the sink fed by a diff, and what the plan of a selection lists.
  \<^item> \<open>Enqueue_Minimizer\<close>, \<open>Ignore_Rules\<close>: the files of these names.

  Archives.
  \<^item> \<open>Tar_Fields\<close>, \<open>Tar_Header\<close>: \<open>tar_archive/header.cpp\<close>: the fields of a record, the PAX header, building and parsing.
  \<^item> \<open>Tar_Reader\<close>, \<open>Tar_Writer\<close>: \<open>reader.cpp\<close>, \<open>entry_reader.cpp\<close>, \<open>writer.cpp\<close>, \<open>entry_writer.cpp\<close> over any byte source and
    sink, stated as the locales \<open>byte_source\<close> and \<open>byte_sink\<close> with the file streams of \<open>raw_stream.cpp\<close> as instances.
  \<^item> \<open>Tar_Archive\<close>: what is written is read back, for every session of a writer.

  Operations.
  \<^item> \<open>Server_Order\<close>, \<open>Pending_Uploads\<close>: the classes of these names in \<open>file_tracking/tracking_state.hpp\<close>, over all runs of calls.
  \<^item> \<open>Remote_Delete_Guard\<close>: \<open>sftp/remote_delete_guard.cpp\<close>; every lookup may be answered, fail or stay unanswered.
  \<^item> \<open>Operation_Base\<close>: \<open>sftp/operation.hpp\<close>: errors, states and the virtual methods as the record \<open>OperationClass\<close>, and the
    slots of a tick (\<open>parallel_budget.hpp\<close>).
  \<^item> \<open>Remote_Operations\<close>: the rename, scan and delete operations, instances of the locale of a queue's operations.
  \<^item> \<open>Recursive_Delete\<close>: scan, scan phase and removals as one run against a server that logs what it removed, what it refused
    to remove and what it said is gone.
  \<^item> \<open>Operation_Queue\<close>: \<open>sftp/operation_queue.cpp\<close> for any class of operations, over all runs of calls.
  \<^item> \<open>Local_Queue\<close>: \<open>local_operation_queue.cpp\<close> and \<open>local_delete_guard.cpp\<close>. The reference for its ticks is the sequential
    run of its operations.

  Downloads.
  \<^item> \<open>Local_Files\<close>: \<open>utility/rename.cpp\<close>, \<open>permissions.cpp\<close>, the search for links of \<open>link_safe_remove.cpp\<close> and the local half of
    \<open>sftp/compared_state_check.cpp\<close>. The calls of the system are the record \<open>LocalCalls\<close>, their laws the locale \<open>local_files\<close>,
    with a disk of named nodes that can fill up as its instance. Lemmas: what moving into place leaves at the destination,
    and that a path whose inspection found no link has none.
  \<^item> \<open>Download_Operation\<close>: \<open>sftp/download_operation.cpp\<close> with \<open>resume_check.cpp\<close>, every state and call of the operation.
  \<^item> \<open>Download_Safety\<close>, \<open>Download_Runs\<close>: the locale \<open>download_world\<close>, the invariant of an operation by its state, that every
    step keeps it, and what all runs leave on the disk, for any server.
  \<^item> \<open>Download_Source\<close>: what a completed download holds when the server answers from a fixed source, and how a failed last
    write completes a download.
\<close>

subsection \<open>How the code is modelled\<close>

text \<open>
  A class is a record of its members and a method a function returning the changed record; \<open>std::expected\<close> is a sum with
  the error on the left; an enumeration is a datatype with the source's names. Integers that are stored or can wrap
  (\<open>uint64_t\<close> sizes, times, cursors, permissions) are words; \<open>std::size_t\<close> values that only count elements of a
  container that exists are \<open>nat\<close>, \<open>char32_t\<close> values are \<open>nat\<close>s bounded by what the decoder can build. A
  \<open>std::string\<close> is the list of its bytes. Maps of the source whose order matters are lists in that order.

  Loops whose end is not a matter of structure are partial functions whose value for not returning is \<open>None\<close>
  (\<open>climb\<close>, \<open>walkedRelativePath\<close>, the walks, \<open>nextEntry\<close>) or \<open>while_option\<close> (the length of a PAX item). That they return
  is proved: \<open>climb\<close> for the path classes by the depth of a path, the walks for trees that are finite, \<open>nextEntry\<close> on every
  file, the length of a PAX item always. Only the recursion of \<open>finalize\<close> through the keys of a store (\<open>fillStructural\<close>,
  \<open>fillChildren\<close>) has fuel, one more than the longest key, since every turn goes to longer keys; \<open>finalize\<close> is \<open>None\<close> when it
  runs out, and \<open>finalize_section\<close> shows that it does not for the rows of a diff.

  Two results of the archive reader are no value of \<open>std::expected\<close>: \<open>OutOfBounds\<close> marks the read outside a payload, which is
  undefined behaviour, and \<open>LengthError\<close> the exception of an allocation. The property of \<open>nextEntry\<close> says which files can
  cause them.

  What the environment answers is an argument: listings, \<open>realpath\<close> and removals of the server, timeouts, questions to the
  disk, whether a diff is cancelled. It may differ from call to call; where a property needs an honest answer, the
  hypothesis says so, and its witness gives a concrete one. A tick, a posted task or a call of the user is a step of a run, so
  that every interleaving of them is covered by the theorems over runs.
\<close>

subsection \<open>Not modelled\<close>

text \<open>
  \<^item> \<open>upload_operation.cpp\<close>, the bulk and archive operations and the local scan, copy and delete operations: streams of bytes
    between \<open>std::filesystem\<close>, libssh and threads. The queues that run them are modelled for any class of operations.
  \<^item> The bytes inside the buffer of a download's output stream (a write that reports success has reached the file), what other
    programs do to its files while it runs, and its branches for Windows and macOS. Its unsafe fast mode, which writes to the
    destination itself, is modelled, but the properties are about the other mode.
  \<^item> \<open>file_tracking/tracker.cpp\<close> and the watches and instances around it, which live on timers and directory events.
  \<^item> Sessions, RPC registration, processes, terminals, persistence, the command store and the SSH wrapper: forwarding,
    system calls and libraries.
  \<^item> The frontend and the file explorer widget: user interface compiled to WebAssembly.
  \<^item> A listing that changes between two reads of one directory by the tree walk (the scanner of \<open>Tree_Walker\<close> is a function of
    the path), and a file stream that is already bad when an archive is finished (\<open>RawSink_finish\<close> succeeds).
  \<^item> JSON conversions, log lines, progress callbacks and display texts of the modelled classes; allocation failures.
\<close>

end
